(* ===== verification/Prelude.thy ===== *)
theory Prelude
  imports Main "HOL-Library.AList" "HOL-Library.List_Lexorder" "HOL-Library.Char_ord"
    "HOL-Library.Product_Lexorder" "HOL-Library.Sublist"
begin

text \<open>
  Shared vocabulary of the development.

  \<^item> The names of the model's basic types: identifiers (\<open>uuid\<close> is the canonical text of a
    Python \<open>UUID\<close>, whose order as text is the order of the \<open>UUID\<close> values), instants and
    durations (whole microseconds, Python's resolution), Python dictionaries (association
    lists in insertion order).
  \<^item> The string and list primitives of the Python standard library the code uses, with
    Python's results on every input (\<open>str.partition\<close>, \<open>str.split\<close>, slices with negative
    bounds, \<open>deque\<close> with \<open>maxlen\<close>, \<open>asyncio.Queue\<close>).
  \<^item> The two interfaces that most components rely on: \<open>row_store\<close>, what an ORM session
    promises about one table (a row read back after a write), and \<open>invariant_system\<close>, the
    contract of a component whose operations all keep one invariant.
\<close>

section \<open>Types\<close>

type_synonym uuid = string
type_synonym micros = int
type_synonym ('k, 'v) dict = "('k \<times> 'v) list"

named_theorems row_simps \<open>reading a row table after a write\<close>

definition seconds :: "int \<Rightarrow> micros" where
  "seconds n = n * 1000000"

lemma seconds_mono [simp]: "seconds a \<le> seconds b \<longleftrightarrow> a \<le> b"
  by (simp add: seconds_def)

lemma seconds_less [simp]: "seconds a < seconds b \<longleftrightarrow> a < b"
  by (simp add: seconds_def)

lemma seconds_pos [simp]: "0 < seconds a \<longleftrightarrow> 0 < a" "0 \<le> seconds a \<longleftrightarrow> 0 \<le> a"
  by (simp_all add: seconds_def)

section \<open>Lists and strings as Python has them\<close>

text \<open>\<open>xs[:i]\<close> and \<open>xs[i:]\<close>: a negative bound counts from the end and is cut off at 0.\<close>

definition py_bound :: "'a list \<Rightarrow> int \<Rightarrow> nat" where
  "py_bound xs i = (if i < 0 then nat (int (length xs) + i) else nat i)"

definition py_upto :: "'a list \<Rightarrow> int \<Rightarrow> 'a list" where
  "py_upto xs i = take (py_bound xs i) xs"

definition py_from :: "'a list \<Rightarrow> int \<Rightarrow> 'a list" where
  "py_from xs i = drop (py_bound xs i) xs"

lemma py_upto_from [simp]: "py_upto xs i @ py_from xs i = xs"
  by (simp add: py_upto_def py_from_def)

text \<open>\<open>collections.deque(maxlen=n).append\<close>: the oldest entries fall out.\<close>

definition deque_append :: "nat \<Rightarrow> 'a list \<Rightarrow> 'a \<Rightarrow> 'a list" where
  "deque_append n xs x = drop (Suc (length xs) - n) (xs @ [x])"

lemma deque_append_length: "length xs \<le> n \<Longrightarrow> length (deque_append n xs x) \<le> n"
  by (simp add: deque_append_def)

lemma deque_append_suffix: "suffix (deque_append n xs x) (xs @ [x])"
  unfolding deque_append_def by (rule suffix_drop)

lemma deque_append_room: "length xs < n \<Longrightarrow> deque_append n xs x = xs @ [x]"
  by (simp add: deque_append_def)

lemma suffix_drop_length: "suffix xs ys \<Longrightarrow> xs = drop (length ys - length xs) ys"
  by (auto simp: suffix_def)

lemma before_distinct_key:
  assumes "distinct (map f xs)" "k < length xs" "x \<in> set (take k xs)"
  shows "f x \<noteq> f (xs ! k)"
proof -
  have "distinct (map f (take k xs @ xs ! k # drop (Suc k) xs))"
    using assms(1,2) by (simp add: id_take_nth_drop[symmetric])
  then have "f (xs ! k) \<notin> f ` set (take k xs)" by auto
  then show ?thesis using assms(3) by (metis imageI)
qed

lemma filter_key_not_in:
  assumes "distinct (map f xs)"
  shows "filter (\<lambda>x. f x \<notin> set (map f (filter P xs))) xs = filter (\<lambda>x. \<not> P x) xs"
proof (rule filter_cong[OF refl])
  fix x assume x: "x \<in> set xs"
  have "inj_on f (set xs)" using assms by (simp add: distinct_map)
  then show "(f x \<notin> set (map f (filter P xs))) = (\<not> P x)"
    using x by (auto simp: inj_on_def)
qed

lemma distinct_map_sort_key: "distinct (map f (sort_key g xs)) \<longleftrightarrow> distinct (map f xs)"
  by (simp add: distinct_map)

text \<open>\<open>str.partition(sep)\<close> for a one-character separator, and \<open>str.split(sep, 1)\<close>'s head.\<close>

definition before_char :: "char \<Rightarrow> string \<Rightarrow> string" where
  "before_char c s = takeWhile (\<lambda>x. x \<noteq> c) s"

definition after_char :: "char \<Rightarrow> string \<Rightarrow> string" where
  "after_char c s = tl (dropWhile (\<lambda>x. x \<noteq> c) s)"

definition starts_with :: "string \<Rightarrow> string \<Rightarrow> bool" where
  "starts_with s p = (take (length p) s = p)"

lemma starts_with_append [simp]: "starts_with (p @ s) p"
  by (simp add: starts_with_def)

lemma before_char_none [simp]: "c \<notin> set s \<Longrightarrow> before_char c s = s"
  by (auto simp: before_char_def takeWhile_eq_all_conv)

lemma before_char_append [simp]: "c \<notin> set s \<Longrightarrow> before_char c (s @ c # t) = s"
  by (induction s) (auto simp: before_char_def)

lemma after_char_append [simp]: "c \<notin> set s \<Longrightarrow> after_char c (s @ c # t) = t"
  by (induction s) (auto simp: after_char_def)

text \<open>\<open>str.rstrip(chars)\<close>, and \<open>str.split(sep)\<close> for a one-character separator.\<close>

definition rstrip :: "(char \<Rightarrow> bool) \<Rightarrow> string \<Rightarrow> string" where
  "rstrip P s = rev (dropWhile P (rev s))"

fun split_on :: "char \<Rightarrow> string \<Rightarrow> string list" where
  "split_on c [] = [[]]"
| "split_on c (x # xs) =
     (if x = c then [] # split_on c xs
      else (case split_on c xs of [] \<Rightarrow> [[x]] | y # ys \<Rightarrow> (x # y) # ys))"

lemma split_on_nonempty [simp]: "split_on c s \<noteq> []"
  by (induction s) (auto split: list.splits)

text \<open>\<open>xs[i]\<close>: a negative index counts from the end; \<open>None\<close> is \<open>IndexError\<close>.\<close>

definition py_nth :: "'a list \<Rightarrow> int \<Rightarrow> 'a option" where
  "py_nth xs i =
     (if 0 \<le> i \<and> i < int (length xs) then Some (xs ! nat i)
      else if i < 0 \<and> - int (length xs) \<le> i then Some (xs ! nat (int (length xs) + i))
      else None)"

text \<open>Truth of an optional string: \<open>None\<close> and the empty string are false.\<close>

definition truthy :: "string option \<Rightarrow> bool" where
  "truthy s = (case s of None \<Rightarrow> False | Some x \<Rightarrow> x \<noteq> [])"

text \<open>\<open>x or y\<close> on optional values that are never empty (instants).\<close>

definition or_else :: "'a option \<Rightarrow> 'a option \<Rightarrow> 'a option" where
  "or_else x y = (case x of None \<Rightarrow> y | Some _ \<Rightarrow> x)"

lemma or_else_simps [simp]: "or_else None y = y" "or_else (Some v) y = Some v"
  by (simp_all add: or_else_def)

lemma or_else_None [simp]: "or_else x y = None \<longleftrightarrow> x = None \<and> y = None"
  by (cases x) simp_all

section \<open>Rows of a table\<close>

text \<open>
  A table is the list of its rows. \<open>row_get\<close> is \<open>session.get(Model, key)\<close>, \<open>row_put\<close> the
  write-back of a changed row: attribute assignments on the loaded object, then a flush.
\<close>

definition row_get :: "('r \<Rightarrow> 'k) \<Rightarrow> 'k \<Rightarrow> 'r list \<Rightarrow> 'r option" where
  "row_get key k rs = find (\<lambda>r. key r = k) rs"

definition row_put :: "('r \<Rightarrow> 'k) \<Rightarrow> 'r \<Rightarrow> 'r list \<Rightarrow> 'r list" where
  "row_put key r rs = map (\<lambda>x. if key x = key r then r else x) rs"

definition row_delete :: "('r \<Rightarrow> 'k) \<Rightarrow> 'k \<Rightarrow> 'r list \<Rightarrow> 'r list" where
  "row_delete key k rs = filter (\<lambda>r. key r \<noteq> k) rs"

lemma row_get_Some: "row_get key k rs = Some r \<Longrightarrow> r \<in> set rs \<and> key r = k"
  by (auto simp: row_get_def find_Some_iff)

lemma row_get_None: "row_get key k rs = None \<longleftrightarrow> (\<forall>r\<in>set rs. key r \<noteq> k)"
  by (auto simp: row_get_def find_None_iff)

lemma row_get_put_same [row_simps]:
  "row_get key (key r) rs = Some r0 \<Longrightarrow> row_get key (key r) (row_put key r rs) = Some r"
  by (induction rs) (auto simp: row_get_def row_put_def split: if_splits)

lemma row_get_put_other [row_simps]:
  "k \<noteq> key r \<Longrightarrow> row_get key k (row_put key r rs) = row_get key k rs"
  by (induction rs) (auto simp: row_get_def row_put_def split: if_splits)

lemma row_keys_put [simp]: "map key (row_put key r rs) = map key rs"
  by (auto simp: row_put_def)

lemma row_length_put [simp]: "length (row_put key r rs) = length rs"
  by (simp add: row_put_def)

lemma row_put_member: "x \<in> set (row_put key r rs) \<Longrightarrow> x = r \<or> x \<in> set rs"
  by (auto simp: row_put_def split: if_splits)

lemma row_get_distinct:
  "distinct (map key rs) \<Longrightarrow> r \<in> set rs \<Longrightarrow> row_get key (key r) rs = Some r"
  by (induction rs) (auto simp: row_get_def image_iff)

lemma row_put_all:
  "(\<forall>x\<in>set rs. P x) \<Longrightarrow> P r \<Longrightarrow> \<forall>x\<in>set (row_put key r rs). P x"
  by (auto simp: row_put_def)

text \<open>\<open>.order_by(key).limit(1)\<close>: the first row in the order of the key.\<close>

definition first_by :: "('r \<Rightarrow> 'o::linorder) \<Rightarrow> 'r list \<Rightarrow> 'r option" where
  "first_by key rs = (case sort_key key rs of [] \<Rightarrow> None | r # _ \<Rightarrow> Some r)"

lemma sort_key_empty: "sort_key key rs = [] \<longleftrightarrow> rs = []"
  by (metis length_0_conv length_sort)

lemma first_by_None [simp]: "first_by key rs = None \<longleftrightarrow> rs = []"
  by (auto simp: first_by_def sort_key_empty split: list.splits)

lemma first_by_Some:
  assumes "first_by key rs = Some r"
  shows "r \<in> set rs" "x \<in> set rs \<Longrightarrow> key r \<le> key x"
proof -
  obtain rest where s: "sort_key key rs = r # rest"
    using assms by (auto simp: first_by_def split: list.splits)
  then show "r \<in> set rs" by (metis list.set_intros(1) set_sort)
  have "sorted (map key (r # rest))" by (metis s sorted_sort_key)
  moreover have "set rs = set (r # rest)" by (metis s set_sort)
  ultimately show "x \<in> set rs \<Longrightarrow> key r \<le> key x" by auto
qed

lemma row_put_filter_less:
  assumes "r0 \<in> set rs" "key r = key r0" "P r0" "\<not> P r"
  shows "length (filter P (row_put key r rs)) < length (filter P rs)"
proof -
  have *: "length (filter P (row_put key r xs)) \<le> length (filter P xs)" for xs
    using assms(4) by (induction xs) (auto simp: row_put_def)
  show ?thesis using assms
  proof (induction rs)
    case (Cons x xs)
    then show ?case using *[of xs] by (auto simp: row_put_def le_imp_less_Suc)
  qed simp
qed

text \<open>What one table of an ORM session promises to the code that reads and writes its rows.\<close>

locale row_store =
  fixes key :: "'r \<Rightarrow> 'k"
    and get :: "'k \<Rightarrow> 'db \<Rightarrow> 'r option"
    and put :: "'r \<Rightarrow> 'db \<Rightarrow> 'db"
  assumes get_key: "get k db = Some r \<Longrightarrow> key r = k"
    and get_put_same: "get (key r) db = Some r0 \<Longrightarrow> get (key r) (put r db) = Some r"
    and get_put_other: "k \<noteq> key r \<Longrightarrow> get k (put r db) = get k db"
begin

lemma get_put: "get (key r) db = Some r0 \<Longrightarrow>
    get k (put r db) = (if k = key r then Some r else get k db)"
  by (auto simp: get_put_same get_put_other)

lemma update_reads_back:
  "get k db = Some r \<Longrightarrow> key r' = k \<Longrightarrow> get k (put r' db) = Some r'"
  using get_put_same by blast

lemma update_frame: "get k db = Some r \<Longrightarrow> key r' = k \<Longrightarrow> k' \<noteq> k \<Longrightarrow> get k' (put r' db) = get k' db"
  using get_put_other by blast

end

text \<open>The contract of a component all of whose steps keep an invariant.\<close>

locale invariant_system =
  fixes step :: "'s \<Rightarrow> 's \<Rightarrow> bool"
    and inv :: "'s \<Rightarrow> bool"
  assumes step_inv: "step s t \<Longrightarrow> inv s \<Longrightarrow> inv t"
begin

lemma reach_inv: "rtranclp step s t \<Longrightarrow> inv s \<Longrightarrow> inv t"
  by (induction rule: rtranclp_induct) (auto intro: step_inv)

end

end
