(* ===== verification/Broker.thy ===== *)
theory Broker
  imports Prelude
begin

text \<open>
  The per-run event broker of \<^verbatim>\<open>agent_runtime/event_broker.py\<close>: a ring buffer of the
  run's events plus one bounded queue per live listener.

  The queues are objects shared between the broker and the subscribers' generators, so they
  live in a store (\<open>b_queues\<close>, addressed by number); \<open>b_listeners\<close> holds the addresses the
  broker still feeds. A subscriber is the state of one \<open>subscribe\<close> generator: what is left
  of its buffer snapshot, the ids it has yielded, and its queue; \<open>sub_next\<close> is one
  \<open>__anext__\<close> call. Every function here runs without an \<open>await\<close> in the code, so the
  interleavings of the program are the sequences of these steps.
\<close>

section \<open>Events and queues\<close>

record 'd event =
  ev_id :: "string option"
  ev_name :: string
  ev_data :: 'd

text \<open>\<open>slice_events_after\<close>: the loop over the events with its flag \<open>seen_after\<close>.\<close>

fun slice_loop :: "bool \<Rightarrow> string option \<Rightarrow> 'd event list \<Rightarrow> 'd event list" where
  "slice_loop seen after [] = []"
| "slice_loop seen after (e # es) =
     (if \<not> seen then slice_loop (ev_id e = after) after es
      else e # slice_loop seen after es)"

definition slice_events_after :: "'d event list \<Rightarrow> string option \<Rightarrow> 'd event list" where
  "slice_events_after es after = slice_loop (after = None) after es"

text \<open>\<open>asyncio.Queue(maxsize)\<close>: unbounded when \<open>maxsize <= 0\<close>. \<open>None\<close> is the close sentinel.\<close>

type_synonym 'd queue = "'d event option list"

definition queue_full :: "int \<Rightarrow> 'd queue \<Rightarrow> bool" where
  "queue_full maxsize q \<longleftrightarrow> 0 < maxsize \<and> maxsize \<le> int (length q)"

text \<open>Suppressed \<open>get_nowait\<close>, then suppressed \<open>put_nowait(None)\<close>: room for the sentinel.\<close>

definition drop_one_put_none :: "int \<Rightarrow> 'd queue \<Rightarrow> 'd queue" where
  "drop_one_put_none maxsize q =
     (let q1 = tl q in if queue_full maxsize q1 then q1 else q1 @ [None])"

section \<open>The broker\<close>

record 'd broker =
  b_run_id :: string
  b_conversation_id :: "string option"
  b_buffer_size :: nat
  b_queue_maxsize :: int
  b_buffer :: "'d event list"
  b_listeners :: "nat list"
  b_queues :: "nat \<Rightarrow> 'd queue"
  b_next_queue :: nat
  b_listener_attached :: bool
  b_closed :: bool
  b_error :: "string option"
  b_last_event_id :: "string option"
  b_created_at :: micros
  b_closed_at :: "micros option"

definition default_buffer_size :: nat where
  "default_buffer_size = 2000"

definition default_listener_queue_maxsize :: int where
  "default_listener_queue_maxsize = 512"

definition new_broker :: "string \<Rightarrow> nat \<Rightarrow> int \<Rightarrow> string option \<Rightarrow> micros \<Rightarrow> 'd broker" where
  "new_broker run_id buffer_size maxsize conversation_id now =
     \<lparr> b_run_id = run_id, b_conversation_id = conversation_id, b_buffer_size = buffer_size,
       b_queue_maxsize = maxsize, b_buffer = [], b_listeners = [], b_queues = (\<lambda>_. []),
       b_next_queue = 0, b_listener_attached = False, b_closed = False, b_error = None,
       b_last_event_id = None, b_created_at = now, b_closed_at = None \<rparr>"

definition has_event_id :: "string option \<Rightarrow> 'd broker \<Rightarrow> bool" where
  "has_event_id event_id b =
     (case event_id of
        None \<Rightarrow> False
      | Some i \<Rightarrow> i \<noteq> [] \<and> (\<exists>e\<in>set (b_buffer b). ev_id e = Some i))"

text \<open>One listener of the fan-out: queue the event, or disconnect the slow listener.\<close>

definition offer :: "'d event \<Rightarrow> nat \<Rightarrow> 'd broker \<Rightarrow> 'd broker" where
  "offer evt q b =
     (if queue_full (b_queue_maxsize b) (b_queues b q)
      then b\<lparr> b_listeners := removeAll q (b_listeners b),
              b_queues := (b_queues b)(q := drop_one_put_none (b_queue_maxsize b) (b_queues b q)) \<rparr>
      else b\<lparr> b_queues := (b_queues b)(q := b_queues b q @ [Some evt]) \<rparr>)"

definition publish_nowait :: "'d event \<Rightarrow> 'd broker \<Rightarrow> 'd broker" where
  "publish_nowait evt b =
     (if b_closed b then b
      else
        let b1 = b\<lparr> b_buffer := deque_append (b_buffer_size b) (b_buffer b) evt \<rparr>;
            b2 = (case ev_id evt of
                    Some i \<Rightarrow> if i \<noteq> [] then b1\<lparr> b_last_event_id := Some i \<rparr> else b1
                  | None \<Rightarrow> b1)
        in fold (offer evt) (b_listeners b) b2)"

text \<open>One listener of \<open>close\<close>: the sentinel goes in, if need be in place of one event.\<close>

definition signal_close :: "nat \<Rightarrow> 'd broker \<Rightarrow> 'd broker" where
  "signal_close q b =
     (if queue_full (b_queue_maxsize b) (b_queues b q)
      then b\<lparr> b_queues := (b_queues b)(q := drop_one_put_none (b_queue_maxsize b) (b_queues b q)) \<rparr>
      else b\<lparr> b_queues := (b_queues b)(q := b_queues b q @ [None]) \<rparr>)"

definition close_broker :: "string option \<Rightarrow> micros \<Rightarrow> 'd broker \<Rightarrow> 'd broker" where
  "close_broker error now b =
     (if b_closed b then b
      else
        let b1 = b\<lparr> b_closed := True, b_error := error, b_closed_at := Some now \<rparr>;
            b2 = fold signal_close (b_listeners b) b1
        in b2\<lparr> b_listeners := [] \<rparr>)"

text \<open>\<open>wait_until_subscribed\<close> returns at once exactly when a listener is or was attached.\<close>

definition wait_until_subscribed_ready :: "'d broker \<Rightarrow> bool" where
  "wait_until_subscribed_ready b \<longleftrightarrow> b_listeners b \<noteq> [] \<or> b_listener_attached b"

section \<open>A subscriber\<close>

record 'd subscriber =
  s_queue :: nat
  s_pending :: "'d event list"
  s_yielded :: "string list"
  s_already_closed :: bool
  s_done :: bool

datatype 'd pull = Yielded "'d event" | Stopped | Blocked

text \<open>The synchronous head of \<open>subscribe\<close>: a new queue, registered before the snapshot.\<close>

definition subscribe :: "string option \<Rightarrow> 'd broker \<Rightarrow> 'd broker \<times> 'd subscriber" where
  "subscribe after_id b =
     (let q = b_next_queue b;
          b1 = b\<lparr> b_next_queue := Suc q, b_queues := (b_queues b)(q := []) \<rparr>;
          b2 = (if \<not> b_closed b
                then b1\<lparr> b_listeners := b_listeners b @ [q], b_listener_attached := True \<rparr>
                else b1\<lparr> b_queues := (b_queues b1)(q :=
                       (if queue_full (b_queue_maxsize b) ([] :: 'd queue) then [] else [None])) \<rparr>)
      in (b2, \<lparr> s_queue = q, s_pending = slice_events_after (b_buffer b) after_id,
                s_yielded = [], s_already_closed = b_closed b, s_done = False \<rparr>))"

text \<open>The \<open>finally\<close> of the generator.\<close>

definition sub_finish :: "'d broker \<Rightarrow> 'd subscriber \<Rightarrow> 'd broker \<times> 'd subscriber" where
  "sub_finish b s =
     (b\<lparr> b_listeners := removeAll (s_queue s) (b_listeners b) \<rparr>, s\<lparr> s_done := True \<rparr>)"

text \<open>
  The live loop on the queue's content: what \<open>queue.get()\<close> hands out until the generator
  yields, returns or has to wait; the second component is what is left in the queue.
\<close>

fun live_loop :: "string list \<Rightarrow> 'd queue \<Rightarrow> 'd pull \<times> 'd queue" where
  "live_loop seen [] = (Blocked, [])"
| "live_loop seen (None # q) = (Stopped, q)"
| "live_loop seen (Some e # q) =
     (case ev_id e of
        Some i \<Rightarrow> if i \<in> set seen then live_loop seen q else (Yielded e, q)
      | None \<Rightarrow> (Yielded e, q))"

definition sub_next :: "'d broker \<Rightarrow> 'd subscriber \<Rightarrow> 'd pull \<times> 'd broker \<times> 'd subscriber" where
  "sub_next b s =
     (if s_done s then (Stopped, b, s)
      else case s_pending s of
        e # es \<Rightarrow>
          (Yielded e, b, s\<lparr> s_pending := es,
             s_yielded := (case ev_id e of Some i \<Rightarrow> i # s_yielded s | None \<Rightarrow> s_yielded s) \<rparr>)
      | [] \<Rightarrow>
          (if s_already_closed s then (let (b', s') = sub_finish b s in (Stopped, b', s'))
           else
             let (r, q') = live_loop (s_yielded s) (b_queues b (s_queue s));
                 b1 = b\<lparr> b_queues := (b_queues b)(s_queue s := q') \<rparr>
             in (case r of
                   Stopped \<Rightarrow> (let (b', s') = sub_finish b1 s in (Stopped, b', s'))
                 | _ \<Rightarrow> (r, b1, s))))"

section \<open>The broker with its subscribers\<close>

text \<open>
  The whole process-local system: the broker and every generator created on it, with the
  steps the code can take between two \<open>await\<close>s. \<open>Abandon\<close> is the client going away
  (\<open>aclose\<close>: only the \<open>finally\<close> runs). A step hands out at most one event, to one subscriber.
\<close>

record 'd bsys =
  y_broker :: "'d broker"
  y_subs :: "'d subscriber list"

datatype 'd bop = Publish "'d event" | CloseBroker "string option" micros
  | Subscribe "string option" | Pull nat | Abandon nat

fun bstep :: "'d bop \<Rightarrow> 'd bsys \<Rightarrow> (nat \<times> 'd event) list \<times> 'd bsys" where
  "bstep (Publish e) y = ([], y\<lparr> y_broker := publish_nowait e (y_broker y) \<rparr>)"
| "bstep (CloseBroker err now) y = ([], y\<lparr> y_broker := close_broker err now (y_broker y) \<rparr>)"
| "bstep (Subscribe a) y =
     (let (b, s) = subscribe a (y_broker y)
      in ([], y\<lparr> y_broker := b, y_subs := y_subs y @ [s] \<rparr>))"
| "bstep (Pull i) y =
     (if i < length (y_subs y)
      then let (r, b, s) = sub_next (y_broker y) (y_subs y ! i)
           in (case r of Yielded e \<Rightarrow> [(i, e)] | _ \<Rightarrow> [],
               y\<lparr> y_broker := b, y_subs := (y_subs y)[i := s] \<rparr>)
      else ([], y))"
| "bstep (Abandon i) y =
     (if i < length (y_subs y)
      then let (b, s) = sub_finish (y_broker y) (y_subs y ! i)
           in ([], y\<lparr> y_broker := b, y_subs := (y_subs y)[i := s] \<rparr>)
      else ([], y))"

fun brun :: "'d bop list \<Rightarrow> 'd bsys \<Rightarrow> (nat \<times> 'd event) list \<times> 'd bsys" where
  "brun [] y = ([], y)"
| "brun (op # ops) y =
     (let (out, y1) = bstep op y; (outs, y2) = brun ops y1 in (out @ outs, y2))"

text \<open>What subscriber \<open>i\<close> was handed, and what was published, in a run.\<close>

definition received :: "nat \<Rightarrow> (nat \<times> 'd event) list \<Rightarrow> 'd event list" where
  "received i outs = map snd (filter (\<lambda>x. fst x = i) outs)"

fun published :: "'d bop list \<Rightarrow> 'd event list" where
  "published [] = []"
| "published (Publish e # ops) = e # published ops"
| "published (_ # ops) = published ops"

section \<open>Frame lemmas of the fan-out\<close>

lemma offer_fields [simp]:
  "b_buffer (offer e q b) = b_buffer b" "b_closed (offer e q b) = b_closed b"
  "b_queue_maxsize (offer e q b) = b_queue_maxsize b"
  "b_buffer_size (offer e q b) = b_buffer_size b"
  "b_next_queue (offer e q b) = b_next_queue b"
  "b_last_event_id (offer e q b) = b_last_event_id b"
  "b_closed_at (offer e q b) = b_closed_at b" "b_created_at (offer e q b) = b_created_at b"
  "b_run_id (offer e q b) = b_run_id b"
  "b_conversation_id (offer e q b) = b_conversation_id b"
  by (simp_all add: offer_def)

lemma offer_queues:
  "b_queues (offer e q b) =
     (b_queues b)(q := if queue_full (b_queue_maxsize b) (b_queues b q)
                       then drop_one_put_none (b_queue_maxsize b) (b_queues b q)
                       else b_queues b q @ [Some e])"
  by (simp add: offer_def)

lemma offer_listeners:
  "b_listeners (offer e q b) =
     filter (\<lambda>l. l \<noteq> q \<or> \<not> queue_full (b_queue_maxsize b) (b_queues b q)) (b_listeners b)"
  by (auto simp: offer_def removeAll_filter_not_eq intro: filter_cong)

lemma fold_offer_fields [simp]:
  "b_buffer (fold (offer e) qs b) = b_buffer b" "b_closed (fold (offer e) qs b) = b_closed b"
  "b_queue_maxsize (fold (offer e) qs b) = b_queue_maxsize b"
  "b_buffer_size (fold (offer e) qs b) = b_buffer_size b"
  "b_next_queue (fold (offer e) qs b) = b_next_queue b"
  "b_last_event_id (fold (offer e) qs b) = b_last_event_id b"
  "b_closed_at (fold (offer e) qs b) = b_closed_at b"
  "b_created_at (fold (offer e) qs b) = b_created_at b"
  "b_run_id (fold (offer e) qs b) = b_run_id b"
  "b_conversation_id (fold (offer e) qs b) = b_conversation_id b"
  by (induction qs arbitrary: b) simp_all

text \<open>The fan-out touches each listener's queue on its own: one slow listener is no other's business.\<close>

lemma fold_offer_queues:
  "distinct qs \<Longrightarrow> b_queues (fold (offer e) qs b) q =
     (if q \<in> set qs
      then if queue_full (b_queue_maxsize b) (b_queues b q)
           then drop_one_put_none (b_queue_maxsize b) (b_queues b q)
           else b_queues b q @ [Some e]
      else b_queues b q)"
  by (induction qs arbitrary: b) (auto simp: offer_queues)

lemma fold_offer_listeners:
  "distinct qs \<Longrightarrow> b_listeners (fold (offer e) qs b) =
     filter (\<lambda>l. l \<notin> set qs \<or> \<not> queue_full (b_queue_maxsize b) (b_queues b l)) (b_listeners b)"
  by (induction qs arbitrary: b)
     (auto simp: offer_listeners offer_queues intro!: filter_cong)

lemma signal_close_fields [simp]:
  "b_buffer (signal_close q b) = b_buffer b" "b_closed (signal_close q b) = b_closed b"
  "b_queue_maxsize (signal_close q b) = b_queue_maxsize b"
  "b_buffer_size (signal_close q b) = b_buffer_size b"
  "b_next_queue (signal_close q b) = b_next_queue b"
  "b_listeners (signal_close q b) = b_listeners b"
  "b_closed_at (signal_close q b) = b_closed_at b"
  "b_created_at (signal_close q b) = b_created_at b"
  "b_run_id (signal_close q b) = b_run_id b"
  "b_conversation_id (signal_close q b) = b_conversation_id b"
  by (simp_all add: signal_close_def)

lemma fold_signal_close_fields [simp]:
  "b_buffer (fold signal_close qs b) = b_buffer b"
  "b_closed (fold signal_close qs b) = b_closed b"
  "b_queue_maxsize (fold signal_close qs b) = b_queue_maxsize b"
  "b_buffer_size (fold signal_close qs b) = b_buffer_size b"
  "b_next_queue (fold signal_close qs b) = b_next_queue b"
  "b_listeners (fold signal_close qs b) = b_listeners b"
  "b_closed_at (fold signal_close qs b) = b_closed_at b"
  "b_created_at (fold signal_close qs b) = b_created_at b"
  "b_run_id (fold signal_close qs b) = b_run_id b"
  "b_conversation_id (fold signal_close qs b) = b_conversation_id b"
  by (induction qs arbitrary: b) simp_all

lemma fold_signal_close_queues:
  "distinct qs \<Longrightarrow> b_queues (fold signal_close qs b) q =
     (if q \<in> set qs
      then if queue_full (b_queue_maxsize b) (b_queues b q)
           then drop_one_put_none (b_queue_maxsize b) (b_queues b q)
           else b_queues b q @ [None]
      else b_queues b q)"
  by (induction qs arbitrary: b) (auto simp: signal_close_def)

section \<open>The invariant\<close>

text \<open>
  What holds of the broker between any two steps: the ring buffer and (when bounded) every
  queue stay within their size, listeners are distinct registered queues, a closed broker
  feeds nobody, and no queue that is still fed holds the sentinel.
\<close>

definition broker_ok :: "'d broker \<Rightarrow> bool" where
  "broker_ok b \<longleftrightarrow>
     length (b_buffer b) \<le> b_buffer_size b \<and>
     distinct (b_listeners b) \<and> (\<forall>q\<in>set (b_listeners b). q < b_next_queue b) \<and>
     (b_closed b \<longrightarrow> b_listeners b = []) \<and>
     (0 < b_queue_maxsize b \<longrightarrow> (\<forall>q. int (length (b_queues b q)) \<le> b_queue_maxsize b)) \<and>
     (\<forall>q\<in>set (b_listeners b). None \<notin> set (b_queues b q))"

text \<open>A running subscriber is fed, or its sentinel waits in its queue.\<close>

definition sub_ok :: "'d broker \<Rightarrow> 'd subscriber \<Rightarrow> bool" where
  "sub_ok b s \<longleftrightarrow> s_queue s < b_next_queue b \<and>
     (\<not> s_done s \<and> \<not> s_already_closed s \<longrightarrow>
        s_queue s \<in> set (b_listeners b) \<or> None \<in> set (b_queues b (s_queue s))) \<and>
     (s_done s \<or> s_already_closed s \<longrightarrow> s_queue s \<notin> set (b_listeners b))"

definition bsys_ok :: "'d bsys \<Rightarrow> bool" where
  "bsys_ok y \<longleftrightarrow> broker_ok (y_broker y) \<and> (\<forall>s\<in>set (y_subs y). sub_ok (y_broker y) s) \<and>
     distinct (map s_queue (y_subs y))"

lemma drop_one_put_none_length:
  "0 < m \<Longrightarrow> int (length q) \<le> m \<Longrightarrow> int (length (drop_one_put_none m q)) \<le> m"
  by (auto simp: drop_one_put_none_def queue_full_def Let_def)

lemma drop_one_put_none_sentinel:
  "0 < m \<Longrightarrow> int (length q) \<le> m \<Longrightarrow> None \<in> set (drop_one_put_none m q)"
  by (cases q) (auto simp: drop_one_put_none_def queue_full_def Let_def)

lemma publish_fields [simp]:
  "b_closed (publish_nowait e b) = b_closed b"
  "b_queue_maxsize (publish_nowait e b) = b_queue_maxsize b"
  "b_buffer_size (publish_nowait e b) = b_buffer_size b"
  "b_next_queue (publish_nowait e b) = b_next_queue b"
  by (auto simp: publish_nowait_def Let_def split: option.splits)

lemma publish_buffer: "b_buffer (publish_nowait e b) =
    (if b_closed b then b_buffer b else deque_append (b_buffer_size b) (b_buffer b) e)"
  by (auto simp: publish_nowait_def Let_def split: option.splits)

lemma publish_queues:
  "distinct (b_listeners b) \<Longrightarrow> b_queues (publish_nowait e b) q =
     (if \<not> b_closed b \<and> q \<in> set (b_listeners b)
      then if queue_full (b_queue_maxsize b) (b_queues b q)
           then drop_one_put_none (b_queue_maxsize b) (b_queues b q)
           else b_queues b q @ [Some e]
      else b_queues b q)"
  by (auto simp: publish_nowait_def Let_def fold_offer_queues split: option.splits)

lemma publish_listeners:
  "distinct (b_listeners b) \<Longrightarrow> b_listeners (publish_nowait e b) =
     (if b_closed b then b_listeners b
      else filter (\<lambda>q. \<not> queue_full (b_queue_maxsize b) (b_queues b q)) (b_listeners b))"
  by (auto simp: publish_nowait_def Let_def fold_offer_listeners
      split: option.splits intro!: filter_cong)

lemma close_fields [simp]:
  "b_closed (close_broker err now b)" "b_buffer (close_broker err now b) = b_buffer b"
  "b_queue_maxsize (close_broker err now b) = b_queue_maxsize b"
  "b_buffer_size (close_broker err now b) = b_buffer_size b"
  "b_next_queue (close_broker err now b) = b_next_queue b"
  "b_created_at (close_broker err now b) = b_created_at b"
  "b_run_id (close_broker err now b) = b_run_id b"
  "b_conversation_id (close_broker err now b) = b_conversation_id b"
  "b_closed_at (close_broker err now b) = (if b_closed b then b_closed_at b else Some now)"
  by (auto simp: close_broker_def Let_def)

lemma close_listeners: "b_listeners (close_broker err now b) =
    (if b_closed b then b_listeners b else [])"
  by (auto simp: close_broker_def Let_def)

lemma close_queues:
  "distinct (b_listeners b) \<Longrightarrow> b_queues (close_broker err now b) q =
     (if \<not> b_closed b \<and> q \<in> set (b_listeners b)
      then if queue_full (b_queue_maxsize b) (b_queues b q)
           then drop_one_put_none (b_queue_maxsize b) (b_queues b q)
           else b_queues b q @ [None]
      else b_queues b q)"
  by (auto simp: close_broker_def Let_def fold_signal_close_queues)

lemmas fan_out = publish_buffer publish_queues publish_listeners close_listeners close_queues

lemma live_loop_length: "length (snd (live_loop seen q)) \<le> length q"
  by (induction seen q rule: live_loop.induct) (auto split: option.splits)

lemma live_loop_sentinel:
  "None \<notin> set q \<Longrightarrow> fst (live_loop seen q) \<noteq> Stopped"
  "None \<in> set q \<Longrightarrow> fst (live_loop seen q) \<noteq> Stopped \<Longrightarrow> None \<in> set (snd (live_loop seen q))"
  "None \<in> set q \<Longrightarrow> fst (live_loop seen q) \<noteq> Blocked"
  "None \<notin> set q \<Longrightarrow> None \<notin> set (snd (live_loop seen q))"
  by (induction seen q rule: live_loop.induct) (auto split: option.splits)

lemma publish_ok: "broker_ok b \<Longrightarrow> broker_ok (publish_nowait e b)"
  unfolding broker_ok_def
  by (auto simp: fan_out deque_append_length drop_one_put_none_length queue_full_def)

lemma close_ok: "broker_ok b \<Longrightarrow> broker_ok (close_broker err now b)"
  unfolding broker_ok_def
  by (auto simp: fan_out drop_one_put_none_length queue_full_def)

lemma publish_sub_ok: "broker_ok b \<Longrightarrow> sub_ok b s \<Longrightarrow> sub_ok (publish_nowait e b) s"
  unfolding sub_ok_def broker_ok_def
  by (auto simp: fan_out drop_one_put_none_sentinel queue_full_def)

lemma close_sub_ok: "broker_ok b \<Longrightarrow> sub_ok b s \<Longrightarrow> sub_ok (close_broker err now b) s"
  unfolding sub_ok_def broker_ok_def
  by (auto simp: fan_out drop_one_put_none_sentinel queue_full_def)

lemma subscribe_broker [simp]:
  "b_buffer (fst (subscribe a b)) = b_buffer b"
  "b_closed (fst (subscribe a b)) = b_closed b"
  "b_queue_maxsize (fst (subscribe a b)) = b_queue_maxsize b"
  "b_buffer_size (fst (subscribe a b)) = b_buffer_size b"
  "b_next_queue (fst (subscribe a b)) = Suc (b_next_queue b)"
  "b_listeners (fst (subscribe a b)) =
     (if b_closed b then b_listeners b else b_listeners b @ [b_next_queue b])"
  "b_queues (fst (subscribe a b)) = (b_queues b)(b_next_queue b :=
     (if b_closed b \<and> \<not> queue_full (b_queue_maxsize b) ([] :: 'd queue) then [None] else []))"
  for b :: "'d broker"
  by (auto simp: subscribe_def Let_def)

lemma subscribe_sub [simp]:
  "snd (subscribe a b) = \<lparr> s_queue = b_next_queue b,
     s_pending = slice_events_after (b_buffer b) a, s_yielded = [],
     s_already_closed = b_closed b, s_done = False \<rparr>"
  by (simp add: subscribe_def Let_def)

lemma subscribe_ok:
  assumes "broker_ok b"
  shows "broker_ok (fst (subscribe a b))" "sub_ok (fst (subscribe a b)) (snd (subscribe a b))"
  using assms unfolding broker_ok_def sub_ok_def
  by (auto simp: queue_full_def)

lemma subscribe_others: "sub_ok b t \<Longrightarrow> sub_ok (fst (subscribe a b)) t"
  unfolding sub_ok_def by auto

lemma finish_broker [simp]:
  "fst (sub_finish b s) = b\<lparr> b_listeners := removeAll (s_queue s) (b_listeners b) \<rparr>"
  "snd (sub_finish b s) = s\<lparr> s_done := True \<rparr>"
  by (simp_all add: sub_finish_def)

lemma finish_ok:
  assumes "broker_ok b" "sub_ok b s"
  shows "broker_ok (fst (sub_finish b s))" "sub_ok (fst (sub_finish b s)) (snd (sub_finish b s))"
  using assms unfolding broker_ok_def sub_ok_def by (auto simp: distinct_removeAll)

lemma finish_others:
  "sub_ok b t \<Longrightarrow> s_queue t \<noteq> s_queue s \<Longrightarrow> sub_ok (fst (sub_finish b s)) t"
  unfolding sub_ok_def by auto

lemma take_out_broker_ok:
  assumes "broker_ok b" "length q' \<le> length (b_queues b q)" "set q' \<subseteq> set (b_queues b q)"
  shows "broker_ok (b\<lparr> b_queues := (b_queues b)(q := q') \<rparr>)"
proof -
  have "int (length q') \<le> b_queue_maxsize b" if "0 < b_queue_maxsize b"
  proof -
    have "int (length (b_queues b q)) \<le> b_queue_maxsize b"
      using assms(1) that by (simp add: broker_ok_def)
    then show ?thesis using assms(2) by linarith
  qed
  then show ?thesis using assms(1,3) by (auto simp: broker_ok_def)
qed

text \<open>A pull leaves its subscriber's queue with a suffix of what it held.\<close>

lemma live_loop_suffix: "suffix (snd (live_loop seen q)) q"
  by (induction seen q rule: live_loop.induct)
     (auto split: option.splits intro: suffix_ConsI)

lemma take_out_ok:
  assumes "broker_ok b" "sub_ok b s" "\<not> s_done s" "\<not> s_already_closed s"
    and "live_loop seen (b_queues b (s_queue s)) = (r, q')"
  shows "broker_ok (b\<lparr> b_queues := (b_queues b)(s_queue s := q') \<rparr>)"
    "r \<noteq> Stopped \<Longrightarrow> sub_ok (b\<lparr> b_queues := (b_queues b)(s_queue s := q') \<rparr>) s"
proof -
  have "suffix q' (b_queues b (s_queue s))"
    using live_loop_suffix[of seen "b_queues b (s_queue s)"] assms(5) by simp
  then have *: "length q' \<le> length (b_queues b (s_queue s))"
      "set q' \<subseteq> set (b_queues b (s_queue s))"
    by (auto simp: suffix_length_le set_mono_suffix)
  show "broker_ok (b\<lparr> b_queues := (b_queues b)(s_queue s := q') \<rparr>)"
    by (rule take_out_broker_ok[OF assms(1) *])
  have "s_queue s \<in> set (b_listeners b) \<or> None \<in> set q'" if "r \<noteq> Stopped"
    using that assms live_loop_sentinel(2)[of "b_queues b (s_queue s)" seen]
    by (auto simp: sub_ok_def)
  then show "sub_ok (b\<lparr> b_queues := (b_queues b)(s_queue s := q') \<rparr>) s" if "r \<noteq> Stopped"
    using that assms(2-4) by (simp add: sub_ok_def)
qed

text \<open>What one pull changes: the subscriber's own queue and its own registration, nothing else.\<close>

lemma next_cases:
  assumes "sub_next b s = (r, b', s')"
  obtains (ended) "s_done s" "r = Stopped" "b' = b" "s' = s"
  | (replay) e es where "\<not> s_done s" "s_pending s = e # es" "r = Yielded e" "b' = b"
      "s' = s\<lparr> s_pending := es,
         s_yielded := (case ev_id e of Some i \<Rightarrow> i # s_yielded s | None \<Rightarrow> s_yielded s) \<rparr>"
  | (drained) "\<not> s_done s" "s_pending s = []" "s_already_closed s" "r = Stopped"
      "b' = fst (sub_finish b s)" "s' = snd (sub_finish b s)"
  | (sentinel) q' where "\<not> s_done s" "s_pending s = []" "\<not> s_already_closed s" "r = Stopped"
      "live_loop (s_yielded s) (b_queues b (s_queue s)) = (Stopped, q')"
      "b' = fst (sub_finish (b\<lparr> b_queues := (b_queues b)(s_queue s := q') \<rparr>) s)"
      "s' = snd (sub_finish (b\<lparr> b_queues := (b_queues b)(s_queue s := q') \<rparr>) s)"
  | (live) q' where "\<not> s_done s" "s_pending s = []" "\<not> s_already_closed s" "r \<noteq> Stopped"
      "live_loop (s_yielded s) (b_queues b (s_queue s)) = (r, q')"
      "b' = b\<lparr> b_queues := (b_queues b)(s_queue s := q') \<rparr>" "s' = s"
proof -
  obtain r1 q' where l: "live_loop (s_yielded s) (b_queues b (s_queue s)) = (r1, q')"
    by force
  show ?thesis
  proof (cases "s_done s")
    case True
    have "r = Stopped" "b' = b" "s' = s" using assms True by (simp_all add: sub_next_def)
    then show ?thesis using that(1) True by blast
  next
    case nd: False
    show ?thesis
    proof (cases "s_pending s")
      case (Cons e es)
      have "r = Yielded e" "b' = b" "s' = s\<lparr> s_pending := es,
          s_yielded := (case ev_id e of Some i \<Rightarrow> i # s_yielded s | None \<Rightarrow> s_yielded s) \<rparr>"
        using assms nd Cons by (simp_all add: sub_next_def)
      then show ?thesis using that(2) nd Cons by blast
    next
      case Nil
      show ?thesis
      proof (cases "s_already_closed s")
        case True
        have "r = Stopped" "b' = fst (sub_finish b s)" "s' = snd (sub_finish b s)"
          using assms nd Nil True by (simp_all add: sub_next_def split_beta)
        then show ?thesis using that(3) nd Nil True by blast
      next
        case nc: False
        let ?b1 = "b\<lparr> b_queues := (b_queues b)(s_queue s := q') \<rparr>"
        show ?thesis
        proof (cases "r1 = Stopped")
          case True
          have "r = Stopped" "b' = fst (sub_finish ?b1 s)" "s' = snd (sub_finish ?b1 s)"
            using assms nd Nil nc True l by (simp_all add: sub_next_def split_beta)
          then show ?thesis using that(4) nd Nil nc l True by blast
        next
          case False
          have "sub_next b s = (r1, ?b1, s)"
            using nd Nil nc False l by (cases r1) (simp_all add: sub_next_def)
          then have "r = r1" "b' = ?b1" "s' = s" using assms by simp_all
          then show ?thesis using that(5) nd Nil nc l False by blast
        qed
      qed
    qed
  qed
qed

lemma next_ok:
  assumes "broker_ok b" "sub_ok b s" "sub_next b s = (r, b', s')"
  shows "broker_ok b' \<and> sub_ok b' s' \<and> s_queue s' = s_queue s"
  using assms(3)
proof (cases rule: next_cases)
  case (drained)
  show ?thesis unfolding drained(5,6) using finish_ok[OF assms(1,2)]
    by (simp only: finish_broker) simp
next
  case (sentinel q')
  have "broker_ok (b\<lparr> b_queues := (b_queues b)(s_queue s := q') \<rparr>)"
    by (rule take_out_ok(1)[OF assms(1,2) sentinel(1,3,5)])
  then show ?thesis using assms(2) unfolding sentinel(6,7) finish_broker
    by (auto simp: sub_ok_def broker_ok_def distinct_removeAll)
next
  case (live q')
  then show ?thesis using take_out_ok[OF assms(1,2) live(1,3,5)] by simp
qed (use assms in \<open>auto simp: sub_ok_def\<close>)

lemma next_others:
  assumes "sub_next b s = (r, b', s')" "sub_ok b t" "s_queue t \<noteq> s_queue s"
  shows "sub_ok b' t"
  using assms(1)
proof (cases rule: next_cases)
  case (sentinel q')
  show ?thesis unfolding sentinel(6) finish_broker
    using assms(2,3) by (auto simp: sub_ok_def)
next
  case (live q')
  show ?thesis unfolding live(6) using assms(2,3) by (auto simp: sub_ok_def)
qed (use assms(2,3) in \<open>auto simp: sub_ok_def\<close>)

lemma subs_update_ok:
  assumes "bsys_ok y" "i < length (y_subs y)" "broker_ok b'" "sub_ok b' s'"
    and "s_queue s' = s_queue (y_subs y ! i)"
    and "\<And>t. sub_ok (y_broker y) t \<Longrightarrow> s_queue t \<noteq> s_queue (y_subs y ! i) \<Longrightarrow> sub_ok b' t"
  shows "bsys_ok (y\<lparr> y_broker := b', y_subs := (y_subs y)[i := s'] \<rparr>)"
proof -
  have d: "distinct (map s_queue (y_subs y))" and a: "\<forall>s\<in>set (y_subs y). sub_ok (y_broker y) s"
    using assms(1) by (auto simp: bsys_ok_def)
  have "map s_queue ((y_subs y)[i := s']) = map s_queue (y_subs y)"
    using assms(2,5) by (metis list_update_id map_update nth_map)
  moreover have "sub_ok b' ((y_subs y)[i := s'] ! j)" if "j < length (y_subs y)" for j
  proof (cases "j = i")
    case False
    then have "s_queue (y_subs y ! j) \<noteq> s_queue (y_subs y ! i)"
      using d that assms(2) by (auto simp: distinct_conv_nth)
    then show ?thesis using False that a assms(6) by simp
  qed (use assms in simp)
  ultimately show ?thesis
    using assms(3) d unfolding bsys_ok_def by (auto simp: in_set_conv_nth)
qed

lemma bstep_ok: "bsys_ok y \<Longrightarrow> bsys_ok (snd (bstep op y))"
proof (cases op)
  case (Publish e)
  then show "bsys_ok y \<Longrightarrow> ?thesis" by (auto simp: bsys_ok_def publish_ok publish_sub_ok)
next
  case (CloseBroker e t)
  then show "bsys_ok y \<Longrightarrow> ?thesis" by (auto simp: bsys_ok_def close_ok close_sub_ok)
next
  case (Subscribe a)
  assume "bsys_ok y"
  moreover from this have "\<forall>t\<in>set (y_subs y). s_queue t \<noteq> b_next_queue (y_broker y)"
    by (auto simp: bsys_ok_def sub_ok_def)
  ultimately show ?thesis
    using Subscribe subscribe_ok[of "y_broker y" a] subscribe_others[of "y_broker y" _ a]
    by (auto simp: bsys_ok_def split_beta)
next
  case (Pull i)
  assume ok: "bsys_ok y"
  show ?thesis
  proof (cases "i < length (y_subs y)")
    case True
    then have s: "broker_ok (y_broker y)" "sub_ok (y_broker y) (y_subs y ! i)"
      using ok by (auto simp: bsys_ok_def)
    obtain r b s' where n: "sub_next (y_broker y) (y_subs y ! i) = (r, b, s')"
      by (metis prod_cases3)
    show ?thesis using Pull True n subs_update_ok[OF ok True, of b s'] next_ok[OF s n]
        next_others[OF n] by simp
  qed (use Pull ok in simp)
next
  case (Abandon i)
  assume ok: "bsys_ok y"
  show ?thesis
  proof (cases "i < length (y_subs y)")
    case True
    then have s: "broker_ok (y_broker y)" "sub_ok (y_broker y) (y_subs y ! i)"
      using ok by (auto simp: bsys_ok_def)
    show ?thesis using Abandon True subs_update_ok[OF ok True] finish_ok[OF s]
        finish_others[of _ _ "y_subs y ! i"] by (simp add: split_beta)
  qed (use Abandon ok in simp)
qed

text \<open>The broker's system is an instance of the invariant contract.\<close>

definition bnext :: "'d bsys \<Rightarrow> 'd bsys \<Rightarrow> bool" where
  "bnext y y' \<longleftrightarrow> (\<exists>op. y' = snd (bstep op y))"

interpretation broker_sys: invariant_system bnext bsys_ok
  by unfold_locales (auto simp: bnext_def bstep_ok)

lemma brun_bnext: "rtranclp bnext y (snd (brun ops y))"
proof (induction ops arbitrary: y)
  case (Cons op ops)
  have "bnext y (snd (bstep op y))" by (auto simp: bnext_def)
  then show ?case using Cons[of "snd (bstep op y)"]
    by (auto simp: split_beta intro: converse_rtranclp_into_rtranclp)
qed simp

lemma brun_ok: "bsys_ok y \<Longrightarrow> bsys_ok (snd (brun ops y))"
  by (rule broker_sys.reach_inv[OF brun_bnext])

lemma new_broker_ok: "bsys_ok \<lparr> y_broker = new_broker r n m c t, y_subs = [] \<rparr>"
  by (simp add: bsys_ok_def broker_ok_def new_broker_def)

section \<open>Delivery\<close>

text \<open>
  What a subscriber is still owed: the rest of its snapshot, then the queued events before
  the sentinel, less those whose id was in its snapshot.
\<close>

definition ids_of :: "'d event list \<Rightarrow> string list" where
  "ids_of es = List.map_filter ev_id es"

definition snapshot_ids :: "'d subscriber \<Rightarrow> string list" where
  "snapshot_ids s = s_yielded s @ ids_of (s_pending s)"

definition fresh_for :: "string list \<Rightarrow> 'd event list \<Rightarrow> 'd event list" where
  "fresh_for ids es =
     filter (\<lambda>e. case ev_id e of None \<Rightarrow> True | Some i \<Rightarrow> i \<notin> set ids) es"

definition queued :: "'d queue \<Rightarrow> 'd event list" where
  "queued q = map the (takeWhile (\<lambda>x. x \<noteq> None) q)"

definition owed :: "'d broker \<Rightarrow> 'd subscriber \<Rightarrow> 'd event list" where
  "owed b s = s_pending s @ fresh_for (snapshot_ids s) (queued (b_queues b (s_queue s)))"

text \<open>The broker still feeds subscriber \<open>i\<close>.\<close>

definition attached :: "'d bsys \<Rightarrow> nat \<Rightarrow> bool" where
  "attached y i \<longleftrightarrow> i < length (y_subs y) \<and>
     s_queue (y_subs y ! i) \<in> set (b_listeners (y_broker y))"

lemma ids_of_Cons [simp]: "ids_of (e # es) =
    (case ev_id e of None \<Rightarrow> ids_of es | Some i \<Rightarrow> i # ids_of es)"
  by (simp add: ids_of_def map_filter_simps split: option.splits)

lemma ids_of_Nil [simp]: "ids_of [] = []"
  by (simp add: ids_of_def map_filter_simps)

lemma fresh_for_append [simp]: "fresh_for ids (xs @ ys) = fresh_for ids xs @ fresh_for ids ys"
  by (simp add: fresh_for_def)

lemma fresh_for_Nil [simp]: "fresh_for ids [] = []"
  by (simp add: fresh_for_def)

lemma fresh_for_set: "set ids = set ids' \<Longrightarrow> fresh_for ids es = fresh_for ids' es"
  by (simp add: fresh_for_def cong: option.case_cong)

lemma queued_simps [simp]:
  "queued [] = []" "queued (None # q) = []" "queued (Some e # q) = e # queued q"
  by (simp_all add: queued_def)

lemma queued_append [simp]: "None \<notin> set q \<Longrightarrow> queued (q @ [Some e]) = queued q @ [e]"
proof (induction q)
  case (Cons x q)
  then show ?case by (cases x) auto
qed simp

lemma queued_append_None [simp]: "queued (q @ [None]) = queued q"
proof (induction q)
  case (Cons x q)
  then show ?case by (cases x) auto
qed simp

lemma live_loop_queued:
  "(case fst (live_loop ids q) of Yielded e \<Rightarrow> [e] | _ \<Rightarrow> []) @
     (if fst (live_loop ids q) = Stopped then []
      else fresh_for ids (queued (snd (live_loop ids q)))) = fresh_for ids (queued q)"
  by (induction ids q rule: live_loop.induct) (auto simp: fresh_for_def split: option.splits)

lemma fresh_singleton_other:
  "s_pending s' = s_pending s \<Longrightarrow> s_yielded s' = s_yielded s \<Longrightarrow> snapshot_ids s' = snapshot_ids s"
  by (simp add: snapshot_ids_def)

text \<open>One pull hands out the head of what is owed.\<close>

lemma next_owed:
  assumes "sub_next b s = (r, b', s')" "r \<noteq> Stopped"
  shows "(case r of Yielded e \<Rightarrow> [e] | _ \<Rightarrow> []) @ owed b' s' = owed b s \<and>
    set (snapshot_ids s') = set (snapshot_ids s)"
  using assms(1)
proof (cases rule: next_cases)
  case (replay e es)
  have *: "set (snapshot_ids s') = set (snapshot_ids s)"
    unfolding replay(5) using replay(2) by (auto simp: snapshot_ids_def split: option.splits)
  have "e # owed b' s' = owed b s"
    unfolding owed_def fresh_for_set[OF *] using replay by simp
  then show ?thesis using * replay(3) by simp
next
  case (live q')
  have "snapshot_ids s = s_yielded s" using live(2) by (simp add: snapshot_ids_def)
  then have "(case r of Yielded e \<Rightarrow> [e] | _ \<Rightarrow> []) @ owed b' s' = owed b s"
    using live_loop_queued[of "s_yielded s" "b_queues b (s_queue s)"] live(2,4)
    unfolding live(5-7) by (simp add: owed_def)
  then show ?thesis using live(7) by simp
qed (use assms(2) in auto)

lemma next_listeners:
  assumes "sub_next b s = (r, b', s')"
  shows "r \<noteq> Stopped \<Longrightarrow> b_listeners b' = b_listeners b"
    "\<not> s_done s \<Longrightarrow> r = Stopped \<Longrightarrow> b_listeners b' = removeAll (s_queue s) (b_listeners b)"
    "b_closed b' = b_closed b" "b_next_queue b' = b_next_queue b"
    "q \<noteq> s_queue s \<Longrightarrow> b_queues b' q = b_queues b q"
  using assms by (cases rule: next_cases; simp)+

lemma bstep_subs_length: "length (y_subs y) \<le> length (y_subs (snd (bstep op y)))"
  by (cases op) (auto simp: split_beta)

lemma brun_subs_length: "length (y_subs y) \<le> length (y_subs (snd (brun ops y)))"
proof (induction ops arbitrary: y)
  case (Cons op ops)
  show ?case using Cons[of "snd (bstep op y)"] bstep_subs_length[of y op] by (simp add: split_beta)
qed simp

definition owed_to :: "'d bsys \<Rightarrow> nat \<Rightarrow> 'd event list" where
  "owed_to y i = owed (y_broker y) (y_subs y ! i)"

lemma received_simps [simp]:
  "received i [] = []" "received i (xs @ ys) = received i xs @ received i ys"
  "received i [(j, e)] = (if j = i then [e] else [])"
  by (simp_all add: received_def)

lemma published_split: "published (op # ops) = published [op] @ published ops"
  by (cases op) simp_all

lemma attachedD:
  assumes "bsys_ok y" "attached y i"
  shows "i < length (y_subs y)" "\<not> b_closed (y_broker y)"
    "s_queue (y_subs y ! i) \<in> set (b_listeners (y_broker y))"
    "None \<notin> set (b_queues (y_broker y) (s_queue (y_subs y ! i)))"
    "\<not> s_done (y_subs y ! i)" "\<not> s_already_closed (y_subs y ! i)"
    "broker_ok (y_broker y)" "sub_ok (y_broker y) (y_subs y ! i)"
proof -
  show i: "i < length (y_subs y)" and q: "s_queue (y_subs y ! i) \<in> set (b_listeners (y_broker y))"
    using assms(2) by (auto simp: attached_def)
  show b: "broker_ok (y_broker y)" and s: "sub_ok (y_broker y) (y_subs y ! i)"
    using assms(1) i by (auto simp: bsys_ok_def)
  show "\<not> b_closed (y_broker y)"
    "None \<notin> set (b_queues (y_broker y) (s_queue (y_subs y ! i)))"
    using b q by (auto simp: broker_ok_def)
  show "\<not> s_done (y_subs y ! i)" "\<not> s_already_closed (y_subs y ! i)"
    using s q by (auto simp: sub_ok_def)
qed

lemma subs_queue_neq:
  assumes "bsys_ok y" "i < length (y_subs y)" "j < length (y_subs y)" "j \<noteq> i"
  shows "s_queue (y_subs y ! j) \<noteq> s_queue (y_subs y ! i)"
  using assms by (auto simp: bsys_ok_def distinct_conv_nth)

lemma owed_cong:
  "b_queues b' (s_queue s) = b_queues b (s_queue s) \<Longrightarrow> owed b' s = owed b s"
  by (simp add: owed_def)

text \<open>One step of the system, seen by a subscriber that is still fed after it.\<close>

lemma bstep_delivery:
  assumes ok: "bsys_ok y" and i: "i < length (y_subs y)" and att: "attached (snd (bstep op y)) i"
  shows "attached y i \<and>
    received i (fst (bstep op y)) @ owed_to (snd (bstep op y)) i =
      owed_to y i @ fresh_for (snapshot_ids (y_subs y ! i)) (published [op]) \<and>
    set (snapshot_ids (y_subs (snd (bstep op y)) ! i)) = set (snapshot_ids (y_subs y ! i))"
proof (cases op)
  case (Publish e)
  have d: "distinct (b_listeners (y_broker y))" using ok by (simp add: bsys_ok_def broker_ok_def)
  have a: "attached y i" and nf: "\<not> queue_full (b_queue_maxsize (y_broker y))
      (b_queues (y_broker y) (s_queue (y_subs y ! i)))"
    using att Publish ok unfolding attached_def bsys_ok_def broker_ok_def
    by (auto simp: publish_listeners split: if_splits)
  then show ?thesis using Publish attachedD[OF ok a]
    by (simp add: owed_to_def owed_def publish_queues[OF d])
next
  case (CloseBroker err t)
  have "b_closed (y_broker (snd (bstep op y)))" using CloseBroker by simp
  then show ?thesis using attachedD(2)[OF bstep_ok[OF ok] att] by simp
next
  case (Subscribe a)
  have "s_queue (y_subs y ! i) < b_next_queue (y_broker y)"
    using ok i by (auto simp: bsys_ok_def sub_ok_def)
  then show ?thesis using Subscribe i att
    by (auto simp: split_beta attached_def nth_append owed_to_def intro!: owed_cong
        split: if_splits)
next
  case (Pull j)
  show ?thesis
  proof (cases "j < length (y_subs y)")
    case True
    obtain r b' s' where n: "sub_next (y_broker y) (y_subs y ! j) = (r, b', s')"
      by (metis prod_cases3)
    note nl = next_listeners[OF n]
    have ok': "broker_ok (y_broker y)" "sub_ok (y_broker y) (y_subs y ! j)"
      using ok True by (auto simp: bsys_ok_def)
    have q': "s_queue s' = s_queue (y_subs y ! j)" using next_ok[OF ok' n] by simp
    show ?thesis
    proof (cases "j = i")
      case ji: True
      have "r \<noteq> Stopped"
      proof
        assume "r = Stopped"
        then have "s_done s'" by (cases rule: next_cases[OF n]) simp_all
        then show False using attachedD(5)[OF bstep_ok[OF ok] att] Pull True n ji
          by (simp add: split_beta)
      qed
      then show ?thesis
        using att Pull True n ji nl(1) next_owed[OF n] q'
        by (cases r) (simp_all add: split_beta attached_def owed_to_def)
    next
      case False
      have neq: "s_queue (y_subs y ! i) \<noteq> s_queue (y_subs y ! j)"
        using subs_queue_neq[OF ok i True False] by simp
      have "s_queue (y_subs y ! i) \<in> set (b_listeners b')"
        using att Pull True n False by (simp add: attached_def split_beta)
      then have "attached y i" using nl(1,2) i n
        by (cases rule: next_cases[OF n]) (auto simp: attached_def)
      moreover have "received i (fst (bstep op y)) = []"
        using Pull True n False by (cases r) (auto simp: split_beta)
      ultimately show ?thesis
        using Pull True n False nl(5)[OF neq]
        by (auto simp: split_beta owed_to_def intro!: owed_cong)
    qed
  qed (use att Pull in simp)
next
  case (Abandon j)
  then show ?thesis using att i
    by (cases "j < length (y_subs y)"; cases "j = i")
       (auto simp: split_beta attached_def owed_to_def intro!: owed_cong)
qed

lemma brun_delivery:
  "bsys_ok y \<Longrightarrow> i < length (y_subs y) \<Longrightarrow> attached (snd (brun ops y)) i \<Longrightarrow>
   attached y i \<and>
   received i (fst (brun ops y)) @ owed_to (snd (brun ops y)) i =
     owed_to y i @ fresh_for (snapshot_ids (y_subs y ! i)) (published ops)"
proof (induction ops arbitrary: y)
  case (Cons op ops)
  let ?y1 = "snd (bstep op y)"
  have ok1: "bsys_ok ?y1" by (rule bstep_ok[OF Cons.prems(1)])
  have i1: "i < length (y_subs ?y1)"
    using Cons.prems(2) bstep_subs_length[of y op] by simp
  have att: "attached (snd (brun ops ?y1)) i" using Cons.prems(3) by (simp add: split_beta)
  note IH = Cons.IH[OF ok1 i1 att]
  note st = bstep_delivery[OF Cons.prems(1,2) conjunct1[OF IH]]
  have "received i (fst (brun (op # ops) y)) @ owed_to (snd (brun (op # ops) y)) i =
      received i (fst (bstep op y)) @ owed_to ?y1 i @
        fresh_for (snapshot_ids (y_subs ?y1 ! i)) (published ops)"
    using IH by (simp add: split_beta)
  also have "\<dots> = owed_to y i @ fresh_for (snapshot_ids (y_subs y ! i)) (published (op # ops))"
    using st fresh_for_set[of "snapshot_ids (y_subs ?y1 ! i)" "snapshot_ids (y_subs y ! i)"]
    unfolding published_split[of op ops] fresh_for_append
    by (simp del: append_assoc add: append_assoc[symmetric])
  finally show ?case using st IH by simp
qed simp

section \<open>Termination of the subscribers\<close>

text \<open>How many more pulls a subscriber of a closed broker can take before it has returned.\<close>

definition pulls_left :: "'d broker \<Rightarrow> 'd subscriber \<Rightarrow> nat" where
  "pulls_left b s = (if s_done s then 0
     else Suc (length (s_pending s) + length (b_queues b (s_queue s))))"

lemma live_loop_progress:
  "None \<in> set q \<Longrightarrow> fst (live_loop seen q) \<noteq> Stopped \<Longrightarrow>
     length (snd (live_loop seen q)) < length q"
  by (induction seen q rule: live_loop.induct) (auto split: option.splits if_splits)

lemma next_pulls_left:
  assumes "sub_ok b s" "b_listeners b = []" "sub_next b s = (r, b', s')"
  shows "pulls_left b' s' < pulls_left b s \<or> pulls_left b s = 0 \<and> pulls_left b' s' = 0"
  using assms(3)
proof (cases rule: next_cases)
  case (live q')
  have "None \<in> set (b_queues b (s_queue s))"
    using assms(1,2) live(1,3) by (simp add: sub_ok_def)
  then have "length q' < length (b_queues b (s_queue s))"
    using live_loop_progress[of "b_queues b (s_queue s)" "s_yielded s"] live(4,5) by simp
  then show ?thesis using live(1,7) unfolding live(6) by (simp add: pulls_left_def)
qed (simp_all add: pulls_left_def)

lemma bstep_pulls_left:
  assumes ok: "bsys_ok y" and i: "i < length (y_subs y)" and closed: "b_closed (y_broker y)"
    and y'_def: "y' = snd (bstep op y)"
  shows "b_closed (y_broker y') \<and>
    pulls_left (y_broker y') (y_subs y' ! i) \<le> pulls_left (y_broker y) (y_subs y ! i) \<and>
    (op = Pull i \<longrightarrow> pulls_left (y_broker y) (y_subs y ! i) = 0 \<or>
       pulls_left (y_broker y') (y_subs y' ! i) < pulls_left (y_broker y) (y_subs y ! i))"
proof (cases op)
  case (Subscribe a)
  have "s_queue (y_subs y ! i) < b_next_queue (y_broker y)"
    using ok i by (auto simp: bsys_ok_def sub_ok_def)
  then show ?thesis using Subscribe i closed
    by (simp add: y'_def split_beta nth_append pulls_left_def)
next
  case (Pull j)
  show ?thesis
  proof (cases "j < length (y_subs y)")
    case True
    obtain r b' s' where n: "sub_next (y_broker y) (y_subs y ! j) = (r, b', s')"
      by (metis prod_cases3)
    have s: "sub_ok (y_broker y) (y_subs y ! j)" "b_listeners (y_broker y) = []"
      using ok True closed by (auto simp: bsys_ok_def broker_ok_def)
    show ?thesis
    proof (cases "j = i")
      case True
      then show ?thesis using Pull n next_pulls_left[OF s n] i closed next_listeners(3)[OF n]
        by (auto simp: y'_def split_beta)
    next
      case False
      then show ?thesis using Pull True n i closed next_listeners(3)[OF n]
          next_listeners(5)[OF n subs_queue_neq[OF ok i True False, symmetric]]
        by (auto simp: y'_def split_beta pulls_left_def)
    qed
  qed (use Pull i closed in \<open>simp add: y'_def\<close>)
next
  case (Abandon j)
  then show ?thesis using i closed
    by (cases "j < length (y_subs y)"; cases "j = i")
       (simp_all add: y'_def split_beta pulls_left_def)
qed (use closed in \<open>simp_all add: y'_def publish_nowait_def close_broker_def\<close>)

definition pulls_of :: "nat \<Rightarrow> 'd bop list \<Rightarrow> nat" where
  "pulls_of i ops = length (filter (\<lambda>op. case op of Pull j \<Rightarrow> j = i | _ \<Rightarrow> False) ops)"

lemma pulls_of_Cons [simp]:
  "pulls_of i (op # ops) = (if op = Pull i then Suc (pulls_of i ops) else pulls_of i ops)"
  by (cases op) (auto simp: pulls_of_def)

lemma brun_pulls_left:
  "bsys_ok y \<Longrightarrow> i < length (y_subs y) \<Longrightarrow> b_closed (y_broker y) \<Longrightarrow>
   pulls_left (y_broker (snd (brun ops y))) (y_subs (snd (brun ops y)) ! i)
     \<le> pulls_left (y_broker y) (y_subs y ! i) - pulls_of i ops"
proof (induction ops arbitrary: y)
  case Nil
  then show ?case by (simp add: pulls_of_def)
next
  case (Cons op ops)
  let ?y1 = "snd (bstep op y)"
  note st = bstep_pulls_left[OF Cons.prems refl, of op]
  have i1: "i < length (y_subs ?y1)" using Cons.prems(2) bstep_subs_length[of y op] by simp
  note IH = Cons.IH[OF bstep_ok[OF Cons.prems(1)] i1]
  have "pulls_left (y_broker (snd (brun ops ?y1))) (y_subs (snd (brun ops ?y1)) ! i)
      \<le> pulls_left (y_broker ?y1) (y_subs ?y1 ! i) - pulls_of i ops"
    using IH st by blast
  also have "\<dots> \<le> pulls_left (y_broker y) (y_subs y ! i) - pulls_of i (op # ops)"
    using st by (auto simp del: bstep.simps)
  finally show ?case by (simp add: split_beta)
qed

lemma pulls_left_0: "pulls_left b s = 0 \<longleftrightarrow> s_done s"
  by (simp add: pulls_left_def)

section \<open>Replay\<close>

lemma slice_loop_True [simp]: "slice_loop True a es = es"
  by (induction es) auto

lemma slice_loop_after:
  "ev_id e = a \<Longrightarrow> (\<forall>x\<in>set pre. ev_id x \<noteq> a) \<Longrightarrow> slice_loop False a (pre @ e # post) = post"
  by (induction pre) auto

lemma slice_loop_missing: "(\<forall>x\<in>set es. ev_id x \<noteq> a) \<Longrightarrow> slice_loop False a es = []"
  by (induction es) auto

lemma slice_all [simp]: "slice_events_after es None = es"
  by (simp add: slice_events_after_def)

section \<open>The ring buffer\<close>

definition last_n :: "nat \<Rightarrow> 'a list \<Rightarrow> 'a list" where
  "last_n n xs = drop (length xs - n) xs"

lemma deque_last_n: "deque_append n (last_n n xs) x = last_n n (xs @ [x])"
proof (cases "length xs < n")
  case False
  then have "drop 1 (last_n n xs) = drop (Suc (length xs) - n) xs \<or> n = 0"
    by (simp add: last_n_def Suc_diff_le)
  then show ?thesis using False by (auto simp: deque_append_def last_n_def Suc_diff_le)
qed (simp add: deque_append_def last_n_def)

fun is_close :: "'d bop \<Rightarrow> bool" where
  "is_close (CloseBroker _ _) = True"
| "is_close _ = False"

lemma next_fields [simp]:
  "b_buffer (fst (snd (sub_next b s))) = b_buffer b"
  "b_closed (fst (snd (sub_next b s))) = b_closed b"
  "b_buffer_size (fst (snd (sub_next b s))) = b_buffer_size b"
  "b_queue_maxsize (fst (snd (sub_next b s))) = b_queue_maxsize b"
proof -
  obtain r b' s' where n: "sub_next b s = (r, b', s')" by (metis prod_cases3)
  have "b_buffer b' = b_buffer b \<and> b_closed b' = b_closed b \<and>
      b_buffer_size b' = b_buffer_size b \<and> b_queue_maxsize b' = b_queue_maxsize b"
    by (cases rule: next_cases[OF n]) simp_all
  then show "b_buffer (fst (snd (sub_next b s))) = b_buffer b"
    "b_closed (fst (snd (sub_next b s))) = b_closed b"
    "b_buffer_size (fst (snd (sub_next b s))) = b_buffer_size b"
    "b_queue_maxsize (fst (snd (sub_next b s))) = b_queue_maxsize b"
    using n by simp_all
qed

lemma bstep_Pull:
  "i < length (y_subs y) \<Longrightarrow> y_broker (snd (bstep (Pull i) y)) =
     fst (snd (sub_next (y_broker y) (y_subs y ! i)))"
  by (simp add: split_beta)

lemma bstep_buffer: "b_buffer (y_broker (snd (bstep op y))) =
    (case op of Publish e \<Rightarrow> if b_closed (y_broker y) then b_buffer (y_broker y)
        else deque_append (b_buffer_size (y_broker y)) (b_buffer (y_broker y)) e
      | _ \<Rightarrow> b_buffer (y_broker y))"
proof (cases op)
  case (Pull i)
  then show ?thesis by (cases "i < length (y_subs y)") (simp_all add: bstep_Pull del: bstep.simps(4), simp)
qed (simp_all add: split_beta publish_buffer)

lemma bstep_config [simp]:
  "b_buffer_size (y_broker (snd (bstep op y))) = b_buffer_size (y_broker y)"
  "b_queue_maxsize (y_broker (snd (bstep op y))) = b_queue_maxsize (y_broker y)"
  by (cases op; simp add: split_beta)+

lemma bstep_closed: "b_closed (y_broker (snd (bstep op y))) =
    (b_closed (y_broker y) \<or> is_close op)"
  by (cases op) (simp_all add: split_beta)

lemma brun_buffer_closed:
  "b_closed (y_broker y) \<Longrightarrow> b_buffer (y_broker (snd (brun ops y))) = b_buffer (y_broker y)"
proof (induction ops arbitrary: y)
  case (Cons op ops)
  then show ?case
    by (cases op) (simp_all add: split_beta bstep_buffer bstep_closed del: bstep.simps)
qed simp

lemma brun_bounds [simp]:
  "b_buffer_size (y_broker (snd (brun ops y))) = b_buffer_size (y_broker y)"
  "b_queue_maxsize (y_broker (snd (brun ops y))) = b_queue_maxsize (y_broker y)"
  by (induction ops arbitrary: y) (simp_all add: split_beta del: bstep.simps)

lemma brun_buffer:
  "\<not> b_closed (y_broker y) \<Longrightarrow> b_buffer (y_broker y) = last_n (b_buffer_size (y_broker y)) es \<Longrightarrow>
   b_buffer (y_broker (snd (brun ops y))) =
     last_n (b_buffer_size (y_broker y)) (es @ published (takeWhile (\<lambda>op. \<not> is_close op) ops))"
proof (induction ops arbitrary: y es)
  case (Cons op ops)
  let ?y1 = "snd (bstep op y)"
  show ?case
  proof (cases "is_close op")
    case True
    then show ?thesis using Cons.prems brun_buffer_closed[of ?y1 ops]
      by (cases op) (simp_all add: split_beta)
  next
    case False
    have "b_buffer (y_broker ?y1) = last_n (b_buffer_size (y_broker ?y1)) (es @ published [op])"
      using Cons.prems by (cases op) (simp_all add: bstep_buffer deque_last_n del: bstep.simps)
    moreover have "\<not> b_closed (y_broker ?y1)" using Cons.prems(1) False by (simp add: bstep_closed)
    ultimately show ?thesis using Cons.IH[of ?y1 "es @ published [op]"] False
        published_split[of op "takeWhile (\<lambda>op. \<not> is_close op) ops"]
      by (simp add: split_beta del: bstep.simps)
  qed
qed simp

section \<open>Properties\<close>

text \<open>A run of the system from a fresh broker.\<close>

definition broker_run :: "nat \<Rightarrow> int \<Rightarrow> 'd bop list \<Rightarrow> 'd bsys" where
  "broker_run n m ops = snd (brun ops \<lparr> y_broker = new_broker ''run'' n m None 0, y_subs = [] \<rparr>)"

lemma broker_run_ok: "bsys_ok (broker_run n m ops)"
  unfolding broker_run_def by (rule brun_ok[OF new_broker_ok])

lemma subscribe_step:
  "bstep (Subscribe a) y = ([], y\<lparr> y_broker := fst (subscribe a (y_broker y)),
     y_subs := y_subs y @ [snd (subscribe a (y_broker y))] \<rparr>)"
  by (simp add: split_beta)

text \<open>
  C5: in-order, gap-free, duplicate-free delivery. Whatever happened before, a client that
  subscribes after \<open>a\<close> and is still attached after any further interleaving of publishes,
  other subscribers' pulls, joins and departures has been handed, together with what still
  waits for it, exactly the buffered events after \<open>a\<close> followed by everything published
  since, in order (less a published event that reuses an id of the replayed part).
\<close>
theorem delivery_in_order:
  assumes y1_def: "y1 = broker_run n m ops1" and i_def: "i = length (y_subs y1)"
    and att0: "attached (snd (brun (Subscribe a # ops2) y1)) i"
  shows "received i (fst (brun (Subscribe a # ops2) y1)) @
           owed_to (snd (brun (Subscribe a # ops2) y1)) i =
         slice_events_after (b_buffer (y_broker y1)) a @
           fresh_for (ids_of (slice_events_after (b_buffer (y_broker y1)) a)) (published ops2)"
proof -
  let ?y2 = "snd (bstep (Subscribe a) y1)"
  have ok: "bsys_ok ?y2" by (rule bstep_ok) (simp add: y1_def broker_run_ok)
  have i: "i < length (y_subs ?y2)" "y_subs ?y2 ! i = snd (subscribe a (y_broker y1))"
    by (simp_all add: subscribe_step i_def del: bstep.simps)
  have att: "attached (snd (brun ops2 ?y2)) i" using att0 by (simp add: split_beta)
  note d = brun_delivery[OF ok i(1) att]
  have "\<not> b_closed (y_broker y1)"
    using attachedD(2)[OF ok conjunct1[OF d]] by (simp add: subscribe_step del: bstep.simps)
  then have "owed_to ?y2 i = slice_events_after (b_buffer (y_broker y1)) a"
    unfolding owed_to_def i(2) by (simp add: subscribe_step owed_def del: bstep.simps)
  moreover have "snapshot_ids (y_subs ?y2 ! i) =
      ids_of (slice_events_after (b_buffer (y_broker y1)) a)"
    unfolding i(2) by (simp add: snapshot_ids_def)
  ultimately show ?thesis using d by (simp add: subscribe_step split_beta del: bstep.simps)
qed

definition ev :: "string \<Rightarrow> nat event" where
  "ev i = \<lparr> ev_id = Some i, ev_name = ''token'', ev_data = 0 \<rparr>"

lemma delivery_in_order_witness:
  "received 0 (fst (brun (Subscribe (Some ''1'') # [Publish (ev ''3''), Pull 0])
      (broker_run 8 4 [Publish (ev ''1''), Publish (ev ''2'')]))) @
   owed_to (snd (brun (Subscribe (Some ''1'') # [Publish (ev ''3''), Pull 0])
      (broker_run 8 4 [Publish (ev ''1''), Publish (ev ''2'')]))) 0 = [ev ''2'', ev ''3'']"
  using delivery_in_order[OF refl refl, of "Some ''1''" "[Publish (ev ''3''), Pull 0]" 8 4
      "[Publish (ev ''1''), Publish (ev ''2'')]"]
  by code_simp

text \<open>
  C39: memory bounds. After any run the ring buffer is exactly the last \<open>n\<close> of the events
  published before the first close, and no listener queue exceeds its maximum.
\<close>
theorem broker_memory_bounded:
  assumes "0 < m"
  shows "b_buffer (y_broker (broker_run n m ops)) =
      last_n n (published (takeWhile (\<lambda>op. \<not> is_close op) ops)) \<and>
    length (b_buffer (y_broker (broker_run n m ops))) \<le> n \<and>
    int (length (b_queues (y_broker (broker_run n m ops)) q)) \<le> m"
proof -
  let ?y0 = "\<lparr> y_broker = new_broker ''run'' n m None 0, y_subs = [] \<rparr>"
  have "b_buffer (y_broker (broker_run n m ops)) =
      last_n n (published (takeWhile (\<lambda>op. \<not> is_close op) ops))"
    using brun_buffer[of ?y0 "[]" ops] by (simp add: broker_run_def new_broker_def last_n_def)
  moreover have "b_queue_maxsize (y_broker (broker_run n m ops)) = m"
    by (simp add: broker_run_def new_broker_def)
  ultimately show ?thesis using assms broker_run_ok[of n m ops]
    by (simp add: bsys_ok_def broker_ok_def last_n_def)
qed

lemma broker_memory_bounded_witness:
  "b_buffer (y_broker (broker_run 1 2 [Publish (ev ''1''), Publish (ev ''2'')])) = [ev ''2'']"
  using broker_memory_bounded[of 2 1 "[Publish (ev ''1''), Publish (ev ''2'')]" 0]
  by (simp add: last_n_def)

text \<open>
  C29: no subscriber hangs on a closed broker. Once the broker is closed, every subscriber
  has returned after at most one pull per remaining snapshot and queue entry plus one,
  whatever other steps are interleaved.
\<close>
theorem closed_broker_releases_subscribers:
  assumes "b_closed (y_broker (broker_run n m ops1))"
    and "i < length (y_subs (broker_run n m ops1))"
    and "pulls_left (y_broker (broker_run n m ops1)) (y_subs (broker_run n m ops1) ! i)
           \<le> pulls_of i ops2"
  shows "s_done (y_subs (snd (brun ops2 (broker_run n m ops1))) ! i)"
  using brun_pulls_left[OF broker_run_ok assms(2,1), of ops2] assms(3)
  by (simp add: pulls_left_0)

lemma closed_broker_releases_subscribers_witness:
  "s_done (y_subs (snd (brun [Pull 0, Publish (ev ''2''), Pull 0]
     (broker_run 8 4 [Subscribe None, Publish (ev ''1''), CloseBroker None 5, Pull 0]))) ! 0)"
  by (rule closed_broker_releases_subscribers) code_simp+

text \<open>
  Resuming. With distinct ids in the buffer, resuming after a buffered event replays
  exactly the events that follow it; an id the buffer does not hold replays nothing.
\<close>
theorem resume_replays_rest:
  assumes "distinct (map ev_id (b_buffer b))"
  shows "(k < length (b_buffer b) \<and> ev_id (b_buffer b ! k) = Some j \<longrightarrow>
      s_pending (snd (subscribe (Some j) b)) = drop (Suc k) (b_buffer b)) \<and>
    (j \<noteq> [] \<and> \<not> has_event_id (Some j) b \<longrightarrow> s_pending (snd (subscribe (Some j) b)) = [])"
proof (intro conjI impI)
  assume k: "k < length (b_buffer b) \<and> ev_id (b_buffer b ! k) = Some j"
  then have split: "b_buffer b = take k (b_buffer b) @ b_buffer b ! k # drop (Suc k) (b_buffer b)"
    by (simp add: id_take_nth_drop)
  moreover have "\<forall>x\<in>set (take k (b_buffer b)). ev_id x \<noteq> Some j"
    using assms k by (auto dest!: before_distinct_key)
  ultimately show "s_pending (snd (subscribe (Some j) b)) = drop (Suc k) (b_buffer b)"
    using slice_loop_after[of "b_buffer b ! k" "Some j" "take k (b_buffer b)"
        "drop (Suc k) (b_buffer b)"] k
    by (simp add: slice_events_after_def)
next
  assume "j \<noteq> [] \<and> \<not> has_event_id (Some j) b"
  then show "s_pending (snd (subscribe (Some j) b)) = []"
    by (auto simp: has_event_id_def slice_events_after_def slice_loop_missing)
qed

lemma resume_replays_rest_witness:
  "s_pending (snd (subscribe (Some ''1'')
     (y_broker (broker_run 8 4 [Publish (ev ''1''), Publish (ev ''2'')])))) = [ev ''2'']"
  using resume_replays_rest[of "y_broker (broker_run 8 4 [Publish (ev ''1''), Publish (ev ''2'')])"
    0 "''1''"]
  by code_simp

text \<open>
  A slow listener is no other listener's business. One publish appends the event to the
  queue of every listener that has room and keeps it attached, and disconnects exactly those
  whose queue is full, leaving the sentinel in their queue.
\<close>
theorem slow_listener_isolated:
  assumes "b_listeners (y_broker (broker_run n m ops)) = l1 @ q # l2" "0 < m"
  shows "let b = y_broker (broker_run n m ops); b' = publish_nowait e b in
    if queue_full m (b_queues b q)
    then q \<notin> set (b_listeners b') \<and> last (b_queues b' q) = None
    else q \<in> set (b_listeners b') \<and> b_queues b' q = b_queues b q @ [Some e]"
proof -
  let ?b = "y_broker (broker_run n m ops)"
  have ok: "broker_ok ?b" using broker_run_ok[of n m ops] by (simp add: bsys_ok_def)
  have m: "b_queue_maxsize ?b = m" by (simp add: broker_run_def new_broker_def)
  have d: "distinct (b_listeners ?b)" "\<not> b_closed ?b" "q \<in> set (b_listeners ?b)"
    and len: "int (length (b_queues ?b q)) \<le> m"
    using ok assms m by (auto simp: broker_ok_def)
  then show ?thesis using m assms(2)
    by (auto simp: Let_def publish_queues publish_listeners drop_one_put_none_def queue_full_def)
qed

lemma slow_listener_isolated_witness:
  "let b = y_broker (broker_run 8 1 [Subscribe None, Publish (ev ''1''), Subscribe None]);
       b' = publish_nowait (ev ''2'') b
   in b_listeners b' = [1] \<and> last (b_queues b' 0) = None \<and> last (b_queues b' 1) = Some (ev ''2'')"
proof -
  let ?r = "broker_run 8 1 [Subscribe None, Publish (ev ''1''), Subscribe None]"
  have "b_listeners (y_broker ?r) = [] @ 0 # [1]" "b_listeners (y_broker ?r) = [0] @ 1 # []"
    by code_simp+
  from slow_listener_isolated[OF this(1), of "ev ''2''"] slow_listener_isolated[OF this(2), of "ev ''2''"]
  show ?thesis by code_simp
qed

lemma brun_append: "snd (brun (xs @ ys) y) = snd (brun ys (snd (brun xs y)))"
  by (induction xs arbitrary: y) (simp_all add: split_beta)

lemma publish_run_fills:
  assumes "b_listeners (y_broker y) = [0]" "\<not> b_closed (y_broker y)"
    and "int (length (b_queues (y_broker y) 0) + length es) \<le> b_queue_maxsize (y_broker y)"
  shows "let b = y_broker (snd (brun (map Publish es) y)) in b_listeners b = [0] \<and> \<not> b_closed b \<and>
     b_queues b 0 = b_queues (y_broker y) 0 @ map Some es"
  using assms
proof (induction es arbitrary: y)
  case (Cons e es)
  let ?y1 = "snd (bstep (Publish e) y)"
  have "\<not> queue_full (b_queue_maxsize (y_broker y)) (b_queues (y_broker y) 0)"
    using Cons.prems by (simp add: queue_full_def)
  then show ?case using Cons.prems Cons.IH[of ?y1]
    by (simp add: split_beta publish_listeners publish_queues Let_def)
qed (simp add: Let_def)

text \<open>
  The disconnect of a slow listener loses an event for good. Once \<open>m\<close> events wait in a
  queue of size \<open>m\<close>, the next publish disconnects the listener and puts the sentinel in the
  place of the OLDEST waiting event: the subscriber is handed the second to the last of the
  \<open>m\<close> events and stops, so the id it resumes from lies past an event it never received.
\<close>
theorem slow_listener_gap:
  assumes "0 < m" "int (length es) = m"
  shows "let b = y_broker (broker_run n m (Subscribe None # map Publish (es @ [e]))) in
    b_queues b 0 = map Some (tl es) @ [None] \<and> b_listeners b = []"
proof -
  let ?y0 = "\<lparr> y_broker = new_broker ''run'' n m None 0, y_subs = [] \<rparr>"
  let ?y1 = "snd (bstep (Subscribe None) ?y0)"
  let ?b = "y_broker (snd (brun (map Publish es) ?y1))"
  have 1: "b_listeners (y_broker ?y1) = [0]" "\<not> b_closed (y_broker ?y1)"
    "b_queues (y_broker ?y1) 0 = []" "b_queue_maxsize (y_broker ?y1) = m"
    by (simp_all add: subscribe_step new_broker_def del: bstep.simps)
  have 2: "b_listeners ?b = [0] \<and> \<not> b_closed ?b \<and> b_queues ?b 0 = map Some es"
  proof -
    have "int (length (b_queues (y_broker ?y1) 0) + length es) \<le> b_queue_maxsize (y_broker ?y1)"
      unfolding 1(3,4) using assms by simp
    from publish_run_fills[OF 1(1,2) this] show ?thesis
      unfolding 1(3) Let_def by simp
  qed
  have 3: "queue_full (b_queue_maxsize ?b) (b_queues ?b 0)"
    using 2 assms by (simp add: queue_full_def new_broker_def del: bstep.simps)
  have "drop_one_put_none m (map Some es) = map Some (tl es) @ [None]"
    using assms by (cases es) (auto simp: drop_one_put_none_def queue_full_def)
  moreover have "y_broker (broker_run n m (Subscribe None # map Publish (es @ [e]))) =
      publish_nowait e ?b"
    using brun_append[of "map Publish es" "[Publish e]" ?y1]
    by (simp add: broker_run_def split_beta del: bstep.simps) simp
  moreover have "b_queue_maxsize ?b = m" by (simp add: new_broker_def del: bstep.simps)
  ultimately show ?thesis using 2 3
    by (simp add: Let_def publish_queues publish_listeners del: bstep.simps)
qed

lemma slow_listener_gap_witness:
  "let y = broker_run 8 2 (Subscribe None # map Publish ([ev ''1'', ev ''2''] @ [ev ''3'']));
       (out, y') = brun [Pull 0, Pull 0] y
   in b_queues (y_broker y) 0 = [Some (ev ''2''), None] \<and> received 0 out = [ev ''2''] \<and>
      s_done (y_subs y' ! 0) \<and>
      s_pending (snd (subscribe (Some ''2'') (y_broker y'))) = [ev ''3'']"
  using slow_listener_gap[of 2 "[ev ''1'', ev ''2'']" 8 "ev ''3''"] by code_simp

end
