(* ===== verification/BrokerRegistry.thy ===== *)
theory BrokerRegistry
  imports Broker
begin

text \<open>
  \<^verbatim>\<open>BrokerRegistry\<close> of \<^verbatim>\<open>agent_runtime/event_broker.py\<close>: the process-wide dictionary from
  run id to broker, with its capacity cap and its periodic eviction.

  Brokers are objects: generators and publishers keep the broker they were given after the
  registry has dropped it. So brokers live in a heap (\<open>g_heap\<close>, addressed by number) and
  the dictionary \<open>g_brokers\<close> (insertion order) maps a run id to an address.
\<close>

section \<open>State and operations\<close>

record 'd registry =
  g_brokers :: "(string, nat) dict"
  g_heap :: "nat \<Rightarrow> 'd broker"
  g_next :: nat
  g_max_brokers :: int
  g_max_live_age_seconds :: int

definition default_max_brokers :: int where
  "default_max_brokers = 256"

definition default_max_live_age_seconds :: int where
  "default_max_live_age_seconds = 1800"

definition new_registry :: "int \<Rightarrow> int \<Rightarrow> 'd registry" where
  "new_registry max_brokers max_live_age_seconds =
     \<lparr> g_brokers = [], g_heap = (\<lambda>_. new_broker [] default_buffer_size
         default_listener_queue_maxsize None 0), g_next = 0, g_max_brokers = max_brokers,
       g_max_live_age_seconds = max_live_age_seconds \<rparr>"

text \<open>\<open>broker.close()\<close> on a heap object.\<close>

definition close_at :: "nat \<Rightarrow> micros \<Rightarrow> 'd registry \<Rightarrow> 'd registry" where
  "close_at a now g = g\<lparr> g_heap := (g_heap g)(a := close_broker None now (g_heap g a)) \<rparr>"

text \<open>The loop of \<open>_enforce_capacity\<close> over a snapshot of the keys.\<close>

fun enforce_loop :: "int \<Rightarrow> micros \<Rightarrow> string list \<Rightarrow> 'd registry \<Rightarrow> 'd registry" where
  "enforce_loop target now [] g = g"
| "enforce_loop target now (k # ks) g =
     (if int (length (g_brokers g)) \<le> target then g
      else case map_of (g_brokers g) k of
        None \<Rightarrow> g
      | Some a \<Rightarrow>
          (let g1 = (if \<not> b_closed (g_heap g a) then close_at a now g else g)
           in enforce_loop target now ks (g1\<lparr> g_brokers := AList.delete k (g_brokers g1) \<rparr>)))"

definition enforce_capacity :: "micros \<Rightarrow> 'd registry \<Rightarrow> 'd registry" where
  "enforce_capacity now g =
     (if int (length (g_brokers g)) < g_max_brokers g then g
      else enforce_loop (g_max_brokers g - 1) now (map fst (g_brokers g)) g)"

text \<open>\<open>EventBroker(...)\<close> with the default queue size, then \<open>self._brokers[run_id] = broker\<close>.\<close>

definition register_new ::
    "string \<Rightarrow> string option \<Rightarrow> nat \<Rightarrow> micros \<Rightarrow> 'd registry \<Rightarrow> nat \<times> 'd registry" where
  "register_new run_id conversation_id buffer_size now g =
     (let a = g_next g;
          b = new_broker run_id buffer_size default_listener_queue_maxsize conversation_id now
      in (a, g\<lparr> g_heap := (g_heap g)(a := b), g_next := Suc a,
                g_brokers := AList.update run_id a (g_brokers g) \<rparr>))"

definition live_in :: "string \<Rightarrow> 'd registry \<Rightarrow> nat option" where
  "live_in run_id g =
     (case map_of (g_brokers g) run_id of
        None \<Rightarrow> None
      | Some a \<Rightarrow> if b_closed (g_heap g a) then None else Some a)"

definition get_or_create ::
    "string \<Rightarrow> string option \<Rightarrow> nat \<Rightarrow> micros \<Rightarrow> 'd registry \<Rightarrow> nat \<times> 'd registry" where
  "get_or_create run_id conversation_id buffer_size now g =
     (case live_in run_id g of
        Some a \<Rightarrow> (a, g)
      | None \<Rightarrow>
          (let g1 = g\<lparr> g_brokers := AList.delete run_id (g_brokers g) \<rparr>;
               g2 = enforce_capacity now g1
           in register_new run_id conversation_id buffer_size now g2))"

definition get_broker :: "string \<Rightarrow> 'd registry \<Rightarrow> nat option" where
  "get_broker run_id g = map_of (g_brokers g) run_id"

text \<open>
  The loop of \<open>evict_expired\<close>: a live broker past its age is closed, a closed one past the
  TTL is collected in \<open>to_remove\<close>.
\<close>

fun evict_loop ::
    "micros \<Rightarrow> micros \<Rightarrow> micros \<Rightarrow> (string, nat) dict \<Rightarrow> 'd registry \<Rightarrow> string list \<times> 'd registry" where
  "evict_loop closed_cutoff live_cutoff now [] g = ([], g)"
| "evict_loop closed_cutoff live_cutoff now ((k, a) # es) g =
     (case b_closed_at (g_heap g a) of
        None \<Rightarrow>
          evict_loop closed_cutoff live_cutoff now es
            (if b_created_at (g_heap g a) \<le> live_cutoff then close_at a now g else g)
      | Some t \<Rightarrow>
          (let (ks, g') = evict_loop closed_cutoff live_cutoff now es g
           in (if t \<le> closed_cutoff then k # ks else ks, g')))"

definition evict_expired :: "int \<Rightarrow> micros \<Rightarrow> 'd registry \<Rightarrow> nat \<times> 'd registry" where
  "evict_expired ttl_seconds now g =
     (let closed_cutoff = now - seconds ttl_seconds;
          live_cutoff = now - seconds (g_max_live_age_seconds g);
          (to_remove, g1) = evict_loop closed_cutoff live_cutoff now (g_brokers g) g
      in (length to_remove,
          g1\<lparr> g_brokers := fold AList.delete to_remove (g_brokers g1) \<rparr>))"

text \<open>The loops of \<open>close_for_conversation\<close> and \<open>close_all\<close>, with the count they return.\<close>

fun close_where :: "('d broker \<Rightarrow> bool) \<Rightarrow> micros \<Rightarrow> nat list \<Rightarrow> 'd registry \<Rightarrow> nat \<times> 'd registry" where
  "close_where p now [] g = (0, g)"
| "close_where p now (a # as) g =
     (if p (g_heap g a) \<and> \<not> b_closed (g_heap g a)
      then (let (n, g') = close_where p now as (close_at a now g) in (Suc n, g'))
      else close_where p now as g)"

definition close_for_conversation :: "string \<Rightarrow> micros \<Rightarrow> 'd registry \<Rightarrow> nat \<times> 'd registry" where
  "close_for_conversation conversation_id now g =
     close_where (\<lambda>b. b_conversation_id b = Some conversation_id) now (map snd (g_brokers g)) g"

definition all_brokers :: "'d registry \<Rightarrow> nat list" where
  "all_brokers g = map snd (g_brokers g)"

definition close_all :: "micros \<Rightarrow> 'd registry \<Rightarrow> nat \<times> 'd registry" where
  "close_all now g = close_where (\<lambda>_. True) now (map snd (g_brokers g)) g"

definition clear_brokers :: "'d registry \<Rightarrow> 'd registry" where
  "clear_brokers g = g\<lparr> g_brokers := [] \<rparr>"

section \<open>The loops in closed form\<close>

lemma close_idem [simp]: "b_closed b \<Longrightarrow> close_broker e now b = b"
  by (simp add: close_broker_def)

definition close_set :: "nat set \<Rightarrow> micros \<Rightarrow> (nat \<Rightarrow> 'd broker) \<Rightarrow> nat \<Rightarrow> 'd broker" where
  "close_set A now h = (\<lambda>a. if a \<in> A then close_broker None now (h a) else h a)"

lemma close_set_empty [simp]: "close_set {} now h = h"
  by (simp add: close_set_def)

lemma close_set_step: "close_set A now (h(a := close_broker None now (h a))) =
    close_set (insert a A) now h"
  by (auto simp: close_set_def fun_eq_iff)

lemma close_at_fields [simp]:
  "g_brokers (close_at a now g) = g_brokers g" "g_next (close_at a now g) = g_next g"
  "g_max_brokers (close_at a now g) = g_max_brokers g"
  "g_max_live_age_seconds (close_at a now g) = g_max_live_age_seconds g"
  "g_heap (close_at a now g) = (g_heap g)(a := close_broker None now (g_heap g a))"
  by (simp_all add: close_at_def)

lemma close_at_closed: "b_closed (g_heap g a) \<Longrightarrow> close_at a now g = g"
  by (simp add: close_at_def)

lemma enforce_loop_spec:
  "distinct (map fst es) \<Longrightarrow> g_brokers g = es \<Longrightarrow>
   enforce_loop t now (map fst es) g =
     (let n = length es - nat t in
      g\<lparr> g_brokers := drop n es, g_heap := close_set (snd ` set (take n es)) now (g_heap g) \<rparr>)"
proof (induction es arbitrary: g)
  case (Cons p es)
  obtain k a where p: "p = (k, a)" by force
  show ?case
  proof (cases "int (length (p # es)) \<le> t")
    case True
    then show ?thesis using Cons.prems by simp
  next
    case False
    let ?g1 = "close_at a now g\<lparr> g_brokers := es \<rparr>"
    have "AList.delete k (g_brokers g) = es" using Cons.prems p by simp
    then have "enforce_loop t now (map fst (p # es)) g = enforce_loop t now (map fst es) ?g1"
      using False Cons.prems p by (simp add: close_at_closed)
    also have "\<dots> = (let n = length es - nat t in
        ?g1\<lparr> g_brokers := drop n es, g_heap := close_set (snd ` set (take n es)) now (g_heap ?g1) \<rparr>)"
      using Cons.prems by (intro Cons.IH) simp_all
    also have "\<dots> = (let n = length (p # es) - nat t in
        g\<lparr> g_brokers := drop n (p # es),
           g_heap := close_set (snd ` set (take n (p # es))) now (g_heap g) \<rparr>)"
    proof -
      have n: "length (p # es) - nat t = Suc (length es - nat t)" using False by auto
      show ?thesis unfolding n Let_def using p
        by (simp add: close_at_def close_set_step)
    qed
    finally show ?thesis .
  qed
qed (simp add: close_set_def)

lemma evict_loop_spec:
  "\<forall>(k, a)\<in>set es. (b_closed_at (g_heap g a) = None) = (\<not> b_closed (g_heap g a)) \<Longrightarrow>
   distinct (map snd es) \<Longrightarrow>
   evict_loop cc lc now es g =
     (map fst (filter (\<lambda>(k, a). case b_closed_at (g_heap g a) of None \<Rightarrow> False | Some t \<Rightarrow> t \<le> cc) es),
      g\<lparr> g_heap := close_set {a. a \<in> snd ` set es \<and> \<not> b_closed (g_heap g a) \<and>
                b_created_at (g_heap g a) \<le> lc} now (g_heap g) \<rparr>)"
proof (induction es arbitrary: g)
  case (Cons p es)
  obtain k a where p: "p = (k, a)" by force
  show ?case
  proof (cases "b_closed_at (g_heap g a)")
    case (Some t)
    then have "b_closed (g_heap g a)" using Cons.prems(1) p by auto
    then have "{x. x \<in> snd ` set (p # es) \<and> \<not> b_closed (g_heap g x) \<and> b_created_at (g_heap g x) \<le> lc}
        = {x. x \<in> snd ` set es \<and> \<not> b_closed (g_heap g x) \<and> b_created_at (g_heap g x) \<le> lc}"
      using p by auto
    then show ?thesis using Cons Some p by simp
  next
    case None
    have na: "a \<notin> snd ` set es" "distinct (map snd es)" using Cons.prems(2) p by auto
    define g1 where "g1 = (if b_created_at (g_heap g a) \<le> lc then close_at a now g else g)"
    have h: "x \<in> snd ` set es \<Longrightarrow> g_heap g1 x = g_heap g x" for x
      using na by (auto simp: g1_def)
    have h': "(k', x) \<in> set es \<Longrightarrow> g_heap g1 x = g_heap g x" for k' x
      using h[of x] by (force simp: image_iff)
    have "\<forall>(k, a)\<in>set es. (b_closed_at (g_heap g1 a) = None) = (\<not> b_closed (g_heap g1 a))"
      using Cons.prems(1) h' by auto
    note IH = Cons.IH[OF this na(2)]
    have ks: "filter (\<lambda>(k, a). case b_closed_at (g_heap g1 a) of None \<Rightarrow> False | Some t \<Rightarrow> t \<le> cc) es =
        filter (\<lambda>(k, a). case b_closed_at (g_heap g a) of None \<Rightarrow> False | Some t \<Rightarrow> t \<le> cc) es"
      by (rule filter_cong[OF refl]) (auto simp: h')
    let ?A = "{x. x \<in> snd ` set es \<and> \<not> b_closed (g_heap g x) \<and> b_created_at (g_heap g x) \<le> lc}"
    let ?B = "{x. x \<in> snd ` set (p # es) \<and> \<not> b_closed (g_heap g x) \<and> b_created_at (g_heap g x) \<le> lc}"
    have A: "{x. x \<in> snd ` set es \<and> \<not> b_closed (g_heap g1 x) \<and> b_created_at (g_heap g1 x) \<le> lc} = ?A"
      using h by (intro Collect_cong) (metis (no_types, lifting))
    have B: "?B = (if b_created_at (g_heap g a) \<le> lc then insert a ?A else ?A)"
      using None Cons.prems(1) p by auto
    have st: "close_set {x. x \<in> snd ` set es \<and> \<not> b_closed (g_heap g1 x) \<and>
          b_created_at (g_heap g1 x) \<le> lc} now (g_heap g1) = close_set ?B now (g_heap g)"
      unfolding A B by (simp add: g1_def close_set_step)
    show ?thesis using IH None p unfolding ks st by (simp add: g1_def close_at_def)
  qed
qed simp

lemma close_where_spec:
  "distinct as \<Longrightarrow> close_where p now as g =
     (length (filter (\<lambda>a. p (g_heap g a) \<and> \<not> b_closed (g_heap g a)) as),
      g\<lparr> g_heap := close_set {a. a \<in> set as \<and> p (g_heap g a)} now (g_heap g) \<rparr>)"
proof (induction as arbitrary: g)
  case (Cons a as)
  define g1 where "g1 = close_at a now g"
  have h: "x \<in> set as \<Longrightarrow> g_heap g1 x = g_heap g x" for x using Cons.prems by (auto simp: g1_def)
  show ?case
  proof (cases "p (g_heap g a) \<and> \<not> b_closed (g_heap g a)")
    case True
    have f: "filter (\<lambda>a. p (g_heap g1 a) \<and> \<not> b_closed (g_heap g1 a)) as =
        filter (\<lambda>a. p (g_heap g a) \<and> \<not> b_closed (g_heap g a)) as"
      by (rule filter_cong[OF refl]) (auto simp: h)
    let ?A = "{x. x \<in> set as \<and> p (g_heap g x)}"
    have A: "{x. x \<in> set as \<and> p (g_heap g1 x)} = ?A"
      using h by (intro Collect_cong) (metis (no_types, lifting))
    have B: "{x. x \<in> set (a # as) \<and> p (g_heap g x)} = insert a ?A" using True by auto
    have st: "close_set {x. x \<in> set as \<and> p (g_heap g1 x)} now (g_heap g1) =
        close_set {x. x \<in> set (a # as) \<and> p (g_heap g x)} now (g_heap g)"
      unfolding A B by (simp add: g1_def close_set_step)
    have "close_where p now as g1 =
        (length (filter (\<lambda>a. p (g_heap g a) \<and> \<not> b_closed (g_heap g a)) as),
         g1\<lparr> g_heap := close_set {x. x \<in> set (a # as) \<and> p (g_heap g x)} now (g_heap g) \<rparr>)"
      using Cons.IH[of g1] Cons.prems unfolding f st by simp
    then show ?thesis using True by (simp add: g1_def[symmetric]) (simp add: g1_def close_at_def)
  next
    case False
    then have c: "close_set {x. x \<in> set as \<and> p (g_heap g x)} now (g_heap g) =
        close_set {x. x \<in> set (a # as) \<and> p (g_heap g x)} now (g_heap g)"
      by (auto simp: close_set_def fun_eq_iff)
    have f: "filter (\<lambda>a. p (g_heap g a) \<and> \<not> b_closed (g_heap g a)) (a # as) =
        filter (\<lambda>a. p (g_heap g a) \<and> \<not> b_closed (g_heap g a)) as" using False by simp
    have "close_where p now (a # as) g = close_where p now as g" using False by auto
    also have "\<dots> = (length (filter (\<lambda>a. p (g_heap g a) \<and> \<not> b_closed (g_heap g a)) as),
        g\<lparr> g_heap := close_set {x. x \<in> set as \<and> p (g_heap g x)} now (g_heap g) \<rparr>)"
      using Cons by simp
    finally show ?thesis unfolding f c .
  qed
qed simp

section \<open>The registry as a system\<close>

datatype 'd rop = GetOrCreate string "string option" nat micros | Evict int micros
  | CloseConversation string micros | CloseAll micros | OnBroker nat "'d broker \<Rightarrow> 'd broker"

text \<open>
  A step of the process. \<open>OnBroker\<close> is anything the holders of a broker do with it (publish,
  subscribe, pull, close); what the registry relies on is that it keeps the broker's creation
  time and that \<open>closed_at\<close> is set exactly when the broker is closed (\<open>broker_change\<close>).
\<close>

fun rstep :: "'d rop \<Rightarrow> 'd registry \<Rightarrow> 'd registry" where
  "rstep (GetOrCreate r c n now) g = snd (get_or_create r c n now g)"
| "rstep (Evict ttl now) g = snd (evict_expired ttl now g)"
| "rstep (CloseConversation c now) g = snd (close_for_conversation c now g)"
| "rstep (CloseAll now) g = snd (close_all now g)"
| "rstep (OnBroker a f) g = g\<lparr> g_heap := (g_heap g)(a := f (g_heap g a)) \<rparr>"

definition closed_marked :: "'d broker \<Rightarrow> bool" where
  "closed_marked b \<longleftrightarrow> (b_closed_at b = None) = (\<not> b_closed b)"

definition broker_change :: "('d broker \<Rightarrow> 'd broker) \<Rightarrow> bool" where
  "broker_change f \<longleftrightarrow> (\<forall>b. closed_marked b \<longrightarrow> closed_marked (f b))"

definition registry_ok :: "'d registry \<Rightarrow> bool" where
  "registry_ok g \<longleftrightarrow>
     distinct (map fst (g_brokers g)) \<and> distinct (map snd (g_brokers g)) \<and>
     (\<forall>a\<in>snd ` set (g_brokers g). a < g_next g) \<and>
     (\<forall>a. closed_marked (g_heap g a)) \<and>
     int (length (g_brokers g)) \<le> max 1 (g_max_brokers g)"

lemma closed_marked_close [simp]: "closed_marked b \<Longrightarrow> closed_marked (close_broker e now b)"
  by (auto simp: closed_marked_def)

lemma closed_marked_close_set [simp]:
  "(\<forall>a. closed_marked (h a)) \<Longrightarrow> closed_marked (close_set A now h a)"
  by (simp add: close_set_def)

lemma closed_marked_new [simp]: "closed_marked (new_broker r n m c t)"
  by (simp add: closed_marked_def new_broker_def)

lemma publish_closed_marked: "broker_change (publish_nowait e)"
  by (auto simp: broker_change_def closed_marked_def publish_nowait_def Let_def split: option.splits)

lemma enforce_capacity_spec:
  assumes "distinct (map fst (g_brokers g))"
  shows "enforce_capacity now g =
    (let n = (if int (length (g_brokers g)) < g_max_brokers g then 0
              else length (g_brokers g) - nat (g_max_brokers g - 1)) in
     g\<lparr> g_brokers := drop n (g_brokers g),
        g_heap := close_set (snd ` set (take n (g_brokers g))) now (g_heap g) \<rparr>)"
  using enforce_loop_spec[OF assms refl, of "g_max_brokers g - 1" now]
  by (simp add: enforce_capacity_def Let_def)

lemma enforce_capacity_room:
  "distinct (map fst (g_brokers g)) \<Longrightarrow>
   int (length (g_brokers (enforce_capacity now g))) + 1 \<le> max 1 (g_max_brokers g)"
  by (auto simp: enforce_capacity_spec Let_def)

lemma distinct_map_drop: "distinct (map f xs) \<Longrightarrow> distinct (map f (drop n xs))"
  by (metis distinct_drop drop_map)

lemma delete_filter: "AList.delete k es = filter (\<lambda>p. fst p \<noteq> k) es"
  by (auto simp: AList.delete_eq intro!: filter_cong)

lemma delete_distinct_snd:
  "distinct (map snd es) \<Longrightarrow> distinct (map snd (AList.delete k es))"
  by (simp add: delete_filter distinct_map_filter)

lemma update_new: "k \<notin> fst ` set es \<Longrightarrow> AList.update k v es = es @ [(k, v)]"
  by (induction es) auto

lemma registered_after:
  assumes "distinct (map fst es)"
  shows "k \<notin> fst ` set (drop n (AList.delete k es))"
  using AList.delete_notin_dom[of k es] by (auto dest: in_set_dropD)

lemma fold_delete: "fold AList.delete ks es = filter (\<lambda>p. fst p \<notin> set ks) es"
  by (induction ks arbitrary: es) (auto simp: delete_filter intro!: filter_cong)

lemma registry_okD:
  assumes "registry_ok g"
  shows "distinct (map fst (g_brokers g))" "distinct (map snd (g_brokers g))"
    "\<forall>(k, a)\<in>set es. (b_closed_at (g_heap g a) = None) = (\<not> b_closed (g_heap g a))"
  using assms by (auto simp: registry_ok_def closed_marked_def)

text \<open>What a creating \<open>get_or_create\<close> does to the dictionary and to the heap.\<close>

definition evicted_by_create :: "string \<Rightarrow> 'd registry \<Rightarrow> (string, nat) dict" where
  "evicted_by_create run_id g =
     (let es = AList.delete run_id (g_brokers g)
      in take (if int (length es) < g_max_brokers g then 0
               else length es - nat (g_max_brokers g - 1)) es)"

lemma create_spec:
  assumes ok: "registry_ok g" and none: "live_in r g = None"
  defines "es \<equiv> AList.delete r (g_brokers g)"
  shows "get_or_create r c n now g = (g_next g,
    g\<lparr> g_heap := (close_set (snd ` set (evicted_by_create r g)) now (g_heap g))
          (g_next g := new_broker r n default_listener_queue_maxsize c now),
       g_next := Suc (g_next g),
       g_brokers := drop (length (evicted_by_create r g)) es @ [(r, g_next g)] \<rparr>)"
proof -
  define k where "k = (if int (length es) < g_max_brokers g then 0
      else length es - nat (g_max_brokers g - 1))"
  let ?g1 = "g\<lparr> g_brokers := es \<rparr>"
  have d: "distinct (map fst (g_brokers ?g1))"
    using registry_okD(1)[OF ok] by (simp add: es_def delete_filter distinct_map_filter)
  have ev: "evicted_by_create r g = take k es" and k: "length (evicted_by_create r g) = k"
    by (auto simp: evicted_by_create_def Let_def es_def k_def)
  have e: "enforce_capacity now ?g1 = ?g1\<lparr> g_brokers := drop k es,
      g_heap := close_set (snd ` set (take k es)) now (g_heap g) \<rparr>"
    unfolding enforce_capacity_spec[OF d] by (simp add: Let_def k_def)
  have u: "AList.update r (g_next g) (drop k es) = drop k es @ [(r, g_next g)]"
    by (rule update_new) (simp add: es_def registered_after[OF registry_okD(1)[OF ok]])
  show ?thesis unfolding k unfolding ev
    by (simp add: get_or_create_def none es_def[symmetric] e register_new_def Let_def u)
qed

lemma get_or_create_ok: "registry_ok g \<Longrightarrow> registry_ok (snd (get_or_create r c n now g))"
proof -
  assume ok: "registry_ok g"
  show ?thesis
  proof (cases "live_in r g")
    case None
    let ?es = "AList.delete r (g_brokers g)"
    have d: "distinct (map fst ?es)" "distinct (map snd ?es)"
      using registry_okD(1,2)[OF ok] by (simp_all add: delete_filter distinct_map_filter)
    have lt: "\<forall>a\<in>snd ` set (drop k ?es). a < g_next g" for k
      using ok by (auto simp: registry_ok_def delete_filter dest!: in_set_dropD)
    then have nin: "g_next g \<notin> snd ` set (drop k ?es)" for k by blast
    have len: "int (length ?es - length (evicted_by_create r g)) + 1 \<le> max 1 (g_max_brokers g)"
      by (auto simp: evicted_by_create_def Let_def)
    show ?thesis unfolding create_spec[OF ok None] registry_ok_def
      using d lt nin len ok registered_after[OF registry_okD(1)[OF ok], of r]
      by (auto simp: distinct_map_drop less_Suc_eq registry_ok_def)
  qed (use ok in \<open>simp add: get_or_create_def\<close>)
qed

lemma rstep_ok:
  assumes "registry_ok g" "\<And>a f. op = OnBroker a f \<Longrightarrow> broker_change f"
  shows "registry_ok (rstep op g)"
proof (cases op)
  case (GetOrCreate r c n now)
  then show ?thesis using get_or_create_ok[OF assms(1)] by simp
next
  case (Evict ttl now)
  have "registry_ok (g\<lparr> g_heap := close_set A now (g_heap g),
      g_brokers := filter P (g_brokers g) \<rparr>)" for A P
    using assms(1) length_filter_le[of P "g_brokers g"]
    by (auto simp: registry_ok_def distinct_map_filter simp del: length_filter_le)
  then show ?thesis using Evict
    by (simp add: evict_expired_def Let_def fold_delete
        evict_loop_spec[OF registry_okD(3)[OF assms(1)] registry_okD(2)[OF assms(1)]])
next
  case (OnBroker a f)
  then show ?thesis using assms by (auto simp: registry_ok_def broker_change_def)
qed (use assms(1) in \<open>auto simp: close_for_conversation_def close_all_def registry_ok_def
    close_where_spec\<close>)

definition rnext :: "'d registry \<Rightarrow> 'd registry \<Rightarrow> bool" where
  "rnext g g' \<longleftrightarrow> (\<exists>op. g' = rstep op g \<and> (\<forall>a f. op = OnBroker a f \<longrightarrow> broker_change f))"

interpretation registry_sys: invariant_system rnext registry_ok
  by unfold_locales (auto simp: rnext_def rstep_ok)

lemma new_registry_ok: "registry_ok (new_registry m l)"
  by (simp add: registry_ok_def new_registry_def)

section \<open>Properties\<close>

definition registry_run :: "int \<Rightarrow> int \<Rightarrow> 'd rop list \<Rightarrow> 'd registry" where
  "registry_run m l ops = fold rstep ops (new_registry m l)"

definition well_behaved :: "'d rop list \<Rightarrow> bool" where
  "well_behaved ops \<longleftrightarrow> (\<forall>a f. OnBroker a f \<in> set ops \<longrightarrow> broker_change f)"

lemma fold_rnext: "well_behaved ops \<Longrightarrow> rtranclp rnext g (fold rstep ops g)"
proof (induction ops arbitrary: g)
  case (Cons op ops)
  then have "rnext g (rstep op g)" "well_behaved ops"
    by (auto simp: rnext_def well_behaved_def simp del: rstep.simps)
  then show ?case using Cons.IH by (simp add: converse_rtranclp_into_rtranclp)
qed simp

lemma registry_run_ok: "well_behaved ops \<Longrightarrow> registry_ok (registry_run m l ops)"
  unfolding registry_run_def
  by (rule registry_sys.reach_inv[OF fold_rnext new_registry_ok])

lemma well_behaved_simps [simp]:
  "well_behaved []" "well_behaved (GetOrCreate r c n t # ops) = well_behaved ops"
  "well_behaved (Evict i t # ops) = well_behaved ops"
  "well_behaved (CloseConversation s t # ops) = well_behaved ops"
  "well_behaved (CloseAll t # ops) = well_behaved ops"
  "well_behaved (OnBroker a f # ops) = (broker_change f \<and> well_behaved ops)"
  by (auto simp: well_behaved_def)

text \<open>
  The capacity cap holds in every reachable state, and no run id and no broker is
  registered twice.
\<close>
theorem registry_capacity:
  assumes "well_behaved ops"
  shows "int (length (g_brokers (registry_run m l ops))) \<le> max 1 m \<and>
    distinct (map fst (g_brokers (registry_run m l ops))) \<and>
    distinct (map snd (g_brokers (registry_run m l ops)))"
proof -
  have "g_max_brokers (rstep op g) = g_max_brokers g" for op :: "'a rop" and g
  proof (cases op)
    case (GetOrCreate r c n t)
    have "g_max_brokers (enforce_loop x t ks h) = g_max_brokers h" for x ks and h :: "'a registry"
      by (induction x t ks h rule: enforce_loop.induct) (auto simp: Let_def split: option.splits)
    then show ?thesis using GetOrCreate
      by (simp add: get_or_create_def enforce_capacity_def register_new_def Let_def split: option.split)
  next
    case (Evict i t)
    have "g_max_brokers (snd (evict_loop c1 c2 t es h)) = g_max_brokers h"
      for c1 c2 es and h :: "'a registry"
      by (induction c1 c2 t es h rule: evict_loop.induct) (auto simp: split_beta split: option.splits)
    then show ?thesis using Evict by (simp add: evict_expired_def Let_def split_beta)
  next
    case (CloseConversation c t)
    have "g_max_brokers (snd (close_where p t as h)) = g_max_brokers h" for p as and h :: "'a registry"
      by (induction p t as h rule: close_where.induct) (auto simp: split_beta)
    then show ?thesis using CloseConversation by (simp add: close_for_conversation_def)
  next
    case (CloseAll t)
    have "g_max_brokers (snd (close_where p t as h)) = g_max_brokers h" for p as and h :: "'a registry"
      by (induction p t as h rule: close_where.induct) (auto simp: split_beta)
    then show ?thesis using CloseAll by (simp add: close_all_def)
  qed simp
  then have "g_max_brokers (fold rstep ops g) = g_max_brokers g" for g :: "'a registry"
    by (induction ops arbitrary: g) simp_all
  then show ?thesis using registry_run_ok[OF assms, of m l]
    by (simp add: registry_ok_def registry_run_def new_registry_def)
qed

lemma registry_capacity_witness:
  "length (g_brokers (registry_run 2 9 ([GetOrCreate ''a'' None 8 0, GetOrCreate ''b'' None 8 1,
     GetOrCreate ''c'' None 8 2] :: nat rop list))) \<le> 2"
  using registry_capacity[of "[GetOrCreate ''a'' None 8 0, GetOrCreate ''b'' None 8 1,
     GetOrCreate ''c'' None 8 2] :: nat rop list" 2 9] by simp

text \<open>
  Eviction is first in, first out, and no evicted broker is left open. When a run gets a
  new broker, the dictionary loses its oldest entries (as many as the cap asks for), each of
  them closed, keeps the rest in order with the new one last, and no other broker changes.
\<close>
theorem create_evicts_oldest:
  assumes "well_behaved ops" and g: "g = registry_run m l ops" and "live_in r g = None"
    and "get_or_create r c n now g = (a, g')"
  shows "AList.delete r (g_brokers g) @ [(r, a)] = evicted_by_create r g @ g_brokers g' \<and>
    (\<forall>x\<in>snd ` set (evicted_by_create r g). b_closed (g_heap g' x)) \<and>
    (\<forall>x. x \<noteq> a \<and> x \<notin> snd ` set (evicted_by_create r g) \<longrightarrow> g_heap g' x = g_heap g x)"
proof -
  have ok: "registry_ok g" unfolding g by (rule registry_run_ok[OF assms(1)])
  have "evicted_by_create r g = take (length (evicted_by_create r g)) (AList.delete r (g_brokers g))"
    by (auto simp: evicted_by_create_def Let_def)
  then have "evicted_by_create r g @ drop (length (evicted_by_create r g)) (AList.delete r (g_brokers g))
      = AList.delete r (g_brokers g)"
    by (metis append_take_drop_id)
  moreover have nin: "g_next g \<notin> snd ` set (evicted_by_create r g)"
  proof
    assume "g_next g \<in> snd ` set (evicted_by_create r g)"
    then have "g_next g \<in> snd ` set (g_brokers g)"
      by (auto simp: evicted_by_create_def Let_def delete_filter image_iff
          dest!: in_set_takeD split: if_splits)
    then show False using ok by (auto simp: registry_ok_def)
  qed
  moreover have a: "a = g_next g" "g' = snd (get_or_create r c n now g)"
    subgoal using assms(4) create_spec[OF ok assms(3), of c n now] by simp
    subgoal using assms(4) by simp
    done
  moreover have "b_closed (g_heap g' x)" if "x \<in> snd ` set (evicted_by_create r g)" for x
    using that nin unfolding a(2) create_spec[OF ok assms(3)] by (cases "x = g_next g") (simp_all add: close_set_def)
  moreover have "g_heap g' x = g_heap g x" if "x \<noteq> a \<and> x \<notin> snd ` set (evicted_by_create r g)" for x
    using that unfolding a create_spec[OF ok assms(3)] by (simp add: close_set_def)
  ultimately show ?thesis
    using create_spec[OF ok assms(3), of c n now] by (simp flip: append_assoc)
qed

lemma create_evicts_oldest_witness:
  "fst (get_or_create ''c'' None 8 2 (registry_run 2 9 ([GetOrCreate ''a'' None 8 0,
     GetOrCreate ''b'' None 8 1] :: nat rop list))) = 2 \<and>
   g_brokers (snd (get_or_create ''c'' None 8 2 (registry_run 2 9 ([GetOrCreate ''a'' None 8 0,
     GetOrCreate ''b'' None 8 1] :: nat rop list)))) = [(''b'', 1), (''c'', 2)]"
proof -
  have "well_behaved ([GetOrCreate ''a'' None 8 0, GetOrCreate ''b'' None 8 1] :: nat rop list)"
    by simp
  note c = create_evicts_oldest[where m = 2 and l = 9 and r = "''c''" and c = None and n = 8 and now = 2,
      OF this refl _ surjective_pairing, THEN conjunct1]
  show ?thesis by (insert c) code_simp
qed

text \<open>
  Closed brokers are not evicted first. With a live older broker and a closed newer one,
  a new run closes and drops the live broker and keeps the closed one registered.
\<close>
theorem capacity_evicts_live_before_closed:
  "let g = registry_run 2 1800 [GetOrCreate ''a'' None 8 0, GetOrCreate ''b'' None 8 1,
             OnBroker 1 (close_broker None 2)];
       (a, g') = get_or_create ''c'' None 8 3 g
   in \<not> b_closed (g_heap g 0) \<and> b_closed (g_heap g 1) \<and>
      g_brokers g' = [(''b'', 1), (''c'', a)] \<and> b_closed (g_heap g' 0)"
  by code_simp

text \<open>
  The periodic eviction. It removes exactly the entries closed at least the TTL ago,
  closes every live broker past its maximal age and leaves that one for a later call, and
  touches nothing else.
\<close>
theorem evict_expired_exact:
  assumes "well_behaved ops" and g: "g = registry_run m l ops"
    and e: "evict_expired ttl now g = (n, g')"
  shows "g_brokers g' = filter (\<lambda>(k, a). case b_closed_at (g_heap g a) of
        None \<Rightarrow> True | Some t \<Rightarrow> now - seconds ttl < t) (g_brokers g) \<and>
    n = length (g_brokers g) - length (g_brokers g') \<and>
    g_heap g' = (\<lambda>a. if a \<in> snd ` set (g_brokers g) \<and> \<not> b_closed (g_heap g a) \<and>
        b_created_at (g_heap g a) \<le> now - seconds (g_max_live_age_seconds g)
      then close_broker None now (g_heap g a) else g_heap g a)"
proof -
  have ok: "registry_ok g" unfolding g by (rule registry_run_ok[OF assms(1)])
  let ?old = "\<lambda>(k, a). case b_closed_at (g_heap g a) of None \<Rightarrow> False
      | Some t \<Rightarrow> t \<le> now - seconds ttl"
  let ?keep = "\<lambda>(k, a). case b_closed_at (g_heap g a) of None \<Rightarrow> True
      | Some t \<Rightarrow> now - seconds ttl < t"
  have d: "distinct (map fst (g_brokers g))" by (rule registry_okD(1)[OF ok])
  have "filter (\<lambda>p. fst p \<notin> set (map fst (filter ?old (g_brokers g)))) (g_brokers g) =
      filter (\<lambda>p. \<not> ?old p) (g_brokers g)"
    by (rule filter_key_not_in[OF d])
  also have "\<dots> = filter ?keep (g_brokers g)"
    by (intro filter_cong refl) (auto split: option.splits)
  finally have b: "g_brokers g' = filter ?keep (g_brokers g)"
    using e by (auto simp: evict_expired_def Let_def fold_delete
        evict_loop_spec[OF registry_okD(3)[OF ok] registry_okD(2)[OF ok]])
  have "filter (\<lambda>p. \<not> ?old p) (g_brokers g) = filter ?keep (g_brokers g)"
    by (intro filter_cong refl) (auto split: option.splits)
  then have "length (filter ?old (g_brokers g)) + length (filter ?keep (g_brokers g)) =
      length (g_brokers g)"
    using sum_length_filter_compl[of ?old "g_brokers g"] by simp
  then show ?thesis using e b
    by (auto simp: evict_expired_def Let_def close_set_def
        evict_loop_spec[OF registry_okD(3)[OF ok] registry_okD(2)[OF ok]])
qed

lemma evict_expired_exact_witness:
  "let g = registry_run 4 2 ([GetOrCreate ''a'' None 8 0, GetOrCreate ''b'' None 8 0,
             CloseAll 1, GetOrCreate ''c'' None 8 2] :: nat rop list);
       (n, g') = evict_expired 1 (seconds 3) g
   in n = 2 \<and> map fst (g_brokers g') = [''c''] \<and> b_closed (g_heap g' 2)"
proof -
  have "well_behaved ([GetOrCreate ''a'' None 8 0, GetOrCreate ''b'' None 8 0,
      CloseAll 1, GetOrCreate ''c'' None 8 2] :: nat rop list)"
    by simp
  note c = evict_expired_exact[where m = 4 and l = 2 and ttl = 1 and now = "seconds 3",
      OF this refl surjective_pairing, THEN conjunct1]
  show ?thesis by (insert c) code_simp
qed

end
