(* ===== verification/Jobs.thy ===== *)
theory Jobs
  imports Prelude
begin

text \<open>
  The background job queue: \<^verbatim>\<open>jobs/service.py\<close> on the rows of \<^verbatim>\<open>models/job.py\<close>.

  The table is the list of its rows. Each service call is one transaction, so one step; the
  concurrency that the code has to deal with is modelled where it deals with it: \<open>claim\<close>
  skips the rows another transaction has locked (\<open>SKIP LOCKED\<close>), and \<open>enqueue\<close> meets a row
  that another request committed after its first look (\<open>IntegrityError\<close>). Every
  \<open>now()\<close> is an argument.
\<close>

section \<open>Rows\<close>

datatype job_state = JQueued | JRunning | JSucceeded | JFailed | JCanceled

definition terminal :: "job_state \<Rightarrow> bool" where
  "terminal s \<longleftrightarrow> s \<in> {JSucceeded, JFailed, JCanceled}"

record 'd job =
  j_id :: uuid
  j_created_at :: micros
  j_tenant_id :: uuid
  j_org_id :: uuid
  j_actor_id :: "uuid option"
  j_type :: string
  j_resource_id :: "string option"
  j_idempotency_key :: "string option"
  j_payload :: 'd
  j_state :: job_state
  j_progress :: int
  j_progress_note :: "string option"
  j_attempts :: nat
  j_max_attempts :: int
  j_locked_by :: "string option"
  j_lease_until :: "micros option"
  j_heartbeat_at :: "micros option"
  j_cancel_requested :: bool
  j_run_after :: micros
  j_result :: "'d option"
  j_error_code :: "string option"
  j_error_message :: "string option"
  j_finished_at :: "micros option"

type_synonym 'd jobs = "'d job list"

definition is_finished :: "job_state \<Rightarrow> bool" where
  "is_finished s = terminal s"

definition backoff_seconds :: "int list" where
  "backoff_seconds = [10, 60, 300, 900]"

definition message_limit :: nat where
  "message_limit = 500"

section \<open>Reading\<close>

record org_context =
  oc_tenant_id :: uuid
  oc_org_id :: uuid
  oc_user_id :: uuid
  oc_is_super_user :: bool

datatype job_error = NotFoundError string | IntegrityError

definition owned_job :: "'d jobs \<Rightarrow> uuid \<Rightarrow> org_context \<Rightarrow> job_error + 'd job" where
  "owned_job db job_id c =
     (case find (\<lambda>j. j_id j = job_id \<and> j_tenant_id j = oc_tenant_id c \<and>
                   j_org_id j = oc_org_id c \<and> j_actor_id j = Some (oc_user_id c)) db of
        None \<Rightarrow> Inl (NotFoundError ''JOB_NOT_FOUND'')
      | Some j \<Rightarrow> Inr j)"

definition by_key :: "'d jobs \<Rightarrow> uuid \<Rightarrow> string \<Rightarrow> string \<Rightarrow> 'd job option" where
  "by_key db tenant_id job_type key =
     find (\<lambda>j. j_tenant_id j = tenant_id \<and> j_type j = job_type \<and> j_idempotency_key j = Some key) db"

section \<open>Enqueue\<close>

record 'd enqueue_request =
  q_type :: string
  q_payload :: 'd
  q_resource_id :: "string option"
  q_idempotency_key :: "string option"
  q_max_attempts :: int
  q_run_after :: "micros option"

definition new_job :: "uuid \<Rightarrow> micros \<Rightarrow> org_context \<Rightarrow> 'd enqueue_request \<Rightarrow> uuid option \<Rightarrow> 'd job" where
  "new_job job_id now c rq actor_id =
     \<lparr> j_id = job_id, j_created_at = now, j_tenant_id = oc_tenant_id c, j_org_id = oc_org_id c,
       j_actor_id = actor_id, j_type = q_type rq, j_resource_id = q_resource_id rq,
       j_idempotency_key = q_idempotency_key rq, j_payload = q_payload rq, j_state = JQueued,
       j_progress = 0, j_progress_note = None, j_attempts = 0, j_max_attempts = q_max_attempts rq,
       j_locked_by = None, j_lease_until = None, j_heartbeat_at = None,
       j_cancel_requested = False,
       j_run_after = (case q_run_after rq of Some t \<Rightarrow> t | None \<Rightarrow> now),
       j_result = None, j_error_code = None, j_error_message = None, j_finished_at = None \<rparr>"

text \<open>
  The table's constraints at \<open>flush\<close>: the primary key, \<open>uq_jobs_idempotency\<close> (a null key
  never conflicts) and the organization foreign key (\<open>fk_ok\<close>).
\<close>

definition insert_job :: "bool \<Rightarrow> 'd job \<Rightarrow> 'd jobs \<Rightarrow> 'd jobs option" where
  "insert_job fk_ok j db =
     (if \<not> fk_ok \<or> j_id j \<in> set (map j_id db) \<or>
         (case j_idempotency_key j of None \<Rightarrow> False
          | Some k \<Rightarrow> by_key db (j_tenant_id j) (j_type j) k \<noteq> None)
      then None else Some (db @ [j]))"

text \<open>\<open>seen\<close> is the table at the first look-up, \<open>db\<close> the table at the insert.\<close>

definition enqueue :: "'d jobs \<Rightarrow> 'd jobs \<Rightarrow> bool \<Rightarrow> uuid \<Rightarrow> micros \<Rightarrow> org_context \<Rightarrow>
    'd enqueue_request \<Rightarrow> uuid option \<Rightarrow> job_error + ('d job \<times> 'd jobs)" where
  "enqueue seen db fk_ok job_id now c rq actor_id =
     (let existing = (case q_idempotency_key rq of None \<Rightarrow> None
                      | Some k \<Rightarrow> by_key seen (oc_tenant_id c) (q_type rq) k) in
      case existing of
        Some j \<Rightarrow> Inr (j, db)
      | None \<Rightarrow>
          (let job = new_job job_id now c rq actor_id in
           case insert_job fk_ok job db of
             Some db' \<Rightarrow> Inr (job, db')
           | None \<Rightarrow>
               (case q_idempotency_key rq of
                  None \<Rightarrow> Inl IntegrityError
                | Some k \<Rightarrow>
                    (case by_key db (oc_tenant_id c) (q_type rq) k of
                       None \<Rightarrow> Inl IntegrityError
                     | Some j \<Rightarrow> Inr (j, db)))))"

section \<open>Claim\<close>

record claim =
  c_job_id :: uuid
  c_tenant_id :: uuid
  c_org_id :: uuid
  c_actor_id :: "uuid option"
  c_type :: string
  c_attempt :: nat
  c_lease_until :: micros

definition finish_job ::
    "micros \<Rightarrow> job_state \<Rightarrow> 'd option \<Rightarrow> string option \<Rightarrow> string option \<Rightarrow> 'd job \<Rightarrow> 'd job" where
  "finish_job now state result code message j =
     (let j1 = j\<lparr> j_state := state, j_locked_by := None, j_lease_until := None,
                  j_finished_at := Some now \<rparr>;
          j2 = (if state = JSucceeded then j1\<lparr> j_progress := 100, j_result := result \<rparr> else j1)
      in j2\<lparr> j_error_code := code,
             j_error_message := (case message of
                 None \<Rightarrow> None
               | Some m \<Rightarrow> if m = [] then None else Some (take message_limit m)) \<rparr>)"

definition due :: "micros \<Rightarrow> 'd job \<Rightarrow> bool" where
  "due moment j \<longleftrightarrow>
     (j_state j = JQueued \<and> j_run_after j \<le> moment) \<or>
     (j_state j = JRunning \<and> (case j_lease_until j of None \<Rightarrow> False | Some t \<Rightarrow> t < moment))"

definition claimable :: "string list \<Rightarrow> micros \<Rightarrow> uuid list \<Rightarrow> 'd job \<Rightarrow> bool" where
  "claimable types moment locked j \<longleftrightarrow>
     j_type j \<in> set types \<and> due moment j \<and> j_id j \<notin> set locked"

definition claim_order :: "'d job \<Rightarrow> micros \<times> micros \<times> uuid" where
  "claim_order j = (j_run_after j, j_created_at j, j_id j)"

definition take_claim :: "string \<Rightarrow> (string, int) dict \<Rightarrow> micros \<Rightarrow> 'd job \<Rightarrow> claim \<times> 'd job" where
  "take_claim worker_id lease moment j =
     (let lease_until = moment + seconds (case map_of lease (j_type j) of Some s \<Rightarrow> s | None \<Rightarrow> 120);
          j' = j\<lparr> j_state := JRunning, j_attempts := Suc (j_attempts j),
                  j_locked_by := Some worker_id, j_lease_until := Some lease_until,
                  j_heartbeat_at := Some moment \<rparr>
      in (\<lparr> c_job_id = j_id j, c_tenant_id = j_tenant_id j, c_org_id = j_org_id j,
            c_actor_id = j_actor_id j, c_type = j_type j, c_attempt = j_attempts j',
            c_lease_until = lease_until \<rparr>, j'))"

function claim_loop :: "string \<Rightarrow> string list \<Rightarrow> (string, int) dict \<Rightarrow> micros \<Rightarrow> micros \<Rightarrow>
    uuid list \<Rightarrow> 'd jobs \<Rightarrow> claim option \<times> 'd jobs" where
  "claim_loop worker_id types lease moment now locked db =
     (case first_by claim_order (filter (claimable types moment locked) db) of
        None \<Rightarrow> (None, db)
      | Some j \<Rightarrow>
          if j_state j = JRunning \<and> j_max_attempts j \<le> int (j_attempts j)
          then claim_loop worker_id types lease moment now locked
                 (row_put j_id (finish_job now JFailed None (Some ''lease_expired'')
                    (Some ''the worker stopped responding'') j) db)
          else if j_cancel_requested j
          then claim_loop worker_id types lease moment now locked
                 (row_put j_id (finish_job now JCanceled None None None j) db)
          else (let (c, j') = take_claim worker_id lease moment j
                in (Some c, row_put j_id j' db)))"
  by pat_completeness auto

lemma finish_fields [simp]:
  "j_id (finish_job now s r c m j) = j_id j" "j_state (finish_job now s r c m j) = s"
  "j_locked_by (finish_job now s r c m j) = None" "j_lease_until (finish_job now s r c m j) = None"
  "j_attempts (finish_job now s r c m j) = j_attempts j"
  "j_max_attempts (finish_job now s r c m j) = j_max_attempts j"
  "j_finished_at (finish_job now s r c m j) = Some now"
  "j_type (finish_job now s r c m j) = j_type j"
  "j_tenant_id (finish_job now s r c m j) = j_tenant_id j"
  "j_idempotency_key (finish_job now s r c m j) = j_idempotency_key j"
  by (simp_all add: finish_job_def Let_def)

lemma claim_loop_progress:
  assumes "first_by claim_order (filter (claimable types moment locked) db) = Some j"
    and "j_id j' = j_id j" "j_state j' \<noteq> JQueued" "j_state j' \<noteq> JRunning"
  shows "length (filter (claimable types moment locked) (row_put j_id j' db)) <
    length (filter (claimable types moment locked) db)"
  by (rule row_put_filter_less[of j])
     (use first_by_Some(1)[OF assms(1)] assms(2-) in \<open>auto simp: claimable_def due_def\<close>)

termination claim_loop
  by (relation "measure (\<lambda>(_, types, _, moment, _, locked, db).
        length (filter (claimable types moment locked) db))")
     (auto intro!: claim_loop_progress)

declare claim_loop.simps [simp del]

definition claim_job :: "string \<Rightarrow> string list \<Rightarrow> (string, int) dict \<Rightarrow> micros \<Rightarrow> micros \<Rightarrow>
    uuid list \<Rightarrow> 'd jobs \<Rightarrow> claim option \<times> 'd jobs" where
  "claim_job worker_id types lease moment now locked db =
     (if types = [] then (None, db)
      else claim_loop worker_id types lease moment now locked db)"

section \<open>The holder's calls\<close>

definition held :: "'d jobs \<Rightarrow> uuid \<Rightarrow> string \<Rightarrow> 'd job option" where
  "held db job_id worker_id =
     find (\<lambda>j. j_id j = job_id \<and> j_locked_by j = Some worker_id \<and> j_state j = JRunning) db"

definition heartbeat :: "'d jobs \<Rightarrow> uuid \<Rightarrow> string \<Rightarrow> int \<Rightarrow> int option \<Rightarrow> string option \<Rightarrow> micros \<Rightarrow>
    bool option \<times> 'd jobs" where
  "heartbeat db job_id worker_id lease_seconds progress note now =
     (case held db job_id worker_id of
        None \<Rightarrow> (None, db)
      | Some j \<Rightarrow>
          (let j1 = j\<lparr> j_heartbeat_at := Some now, j_lease_until := Some (now + seconds lease_seconds) \<rparr>;
               j2 = (case progress of None \<Rightarrow> j1
                     | Some p \<Rightarrow> j1\<lparr> j_progress := max 0 (min 100 p) \<rparr>);
               j3 = (case note of None \<Rightarrow> j2 | Some n \<Rightarrow> j2\<lparr> j_progress_note := Some (take 200 n) \<rparr>)
           in (Some (j_cancel_requested j), row_put j_id j3 db)))"

definition succeed :: "'d jobs \<Rightarrow> uuid \<Rightarrow> string \<Rightarrow> 'd option \<Rightarrow> micros \<Rightarrow> bool \<times> 'd jobs" where
  "succeed db job_id worker_id result now =
     (case held db job_id worker_id of
        None \<Rightarrow> (False, db)
      | Some j \<Rightarrow> (True, row_put j_id (finish_job now JSucceeded result None None j) db))"

text \<open>
  The delay before the next attempt; the index \<open>attempts - 1\<close> is \<open>-1\<close>, the last entry, for
  a row that was never claimed. (The index is never out of range.)
\<close>

definition backoff :: "nat \<Rightarrow> int" where
  "backoff attempts =
     (case py_nth backoff_seconds
             (min (int attempts - 1) (int (length backoff_seconds) - 1)) of
        Some d \<Rightarrow> d | None \<Rightarrow> 0)"

definition fail :: "'d jobs \<Rightarrow> uuid \<Rightarrow> string \<Rightarrow> string \<Rightarrow> string \<Rightarrow> bool \<Rightarrow> micros \<Rightarrow>
    job_state option \<times> 'd jobs" where
  "fail db job_id worker_id code message retry now =
     (case held db job_id worker_id of
        None \<Rightarrow> (None, db)
      | Some j \<Rightarrow>
          if retry \<and> int (j_attempts j) < j_max_attempts j \<and> \<not> j_cancel_requested j
          then (Some JQueued, row_put j_id (j\<lparr> j_state := JQueued, j_locked_by := None,
                  j_lease_until := None, j_run_after := now + seconds (backoff (j_attempts j)),
                  j_error_code := Some code, j_error_message := Some (take message_limit message) \<rparr>) db)
          else (Some JFailed, row_put j_id (finish_job now JFailed None (Some code) (Some message) j) db))"

definition canceled :: "'d jobs \<Rightarrow> uuid \<Rightarrow> string \<Rightarrow> micros \<Rightarrow> bool \<times> 'd jobs" where
  "canceled db job_id worker_id now =
     (case held db job_id worker_id of
        None \<Rightarrow> (False, db)
      | Some j \<Rightarrow> (True, row_put j_id (finish_job now JCanceled None None None j) db))"

definition request_cancel :: "micros \<Rightarrow> 'd job \<Rightarrow> 'd jobs \<Rightarrow> 'd job \<times> 'd jobs" where
  "request_cancel now j db =
     (if terminal (j_state j) then (j, db)
      else
        let j' = (if j_state j = JQueued then finish_job now JCanceled None None None j
                  else j\<lparr> j_cancel_requested := True \<rparr>)
        in (j', row_put j_id j' db))"

section \<open>The state machine of one job\<close>

text \<open>
  What the service promises of a single row, independent of the table: the moves a job may
  make. The table operations are proved to make only these.
\<close>

inductive job_move :: "'d job \<Rightarrow> 'd job \<Rightarrow> bool" where
  expire: "j_state j = JRunning \<Longrightarrow> due moment j \<Longrightarrow> j_max_attempts j \<le> int (j_attempts j) \<Longrightarrow>
    job_move j (finish_job now JFailed None (Some c) (Some m) j)"
| drop_canceled: "due moment j \<Longrightarrow> j_cancel_requested j \<Longrightarrow>
    job_move j (finish_job now JCanceled None None None j)"
| take_up: "due moment j \<Longrightarrow> \<not> (j_state j = JRunning \<and> j_max_attempts j \<le> int (j_attempts j)) \<Longrightarrow>
    \<not> j_cancel_requested j \<Longrightarrow> job_move j (snd (take_claim w lease moment j))"
| beat: "j_state j = JRunning \<Longrightarrow> 0 \<le> p \<Longrightarrow> p \<le> 100 \<Longrightarrow>
    job_move j (j\<lparr> j_heartbeat_at := h, j_lease_until := Some l, j_progress := p, j_progress_note := n \<rparr>)"
| succeeded: "j_state j = JRunning \<Longrightarrow> job_move j (finish_job now JSucceeded r None None j)"
| retry: "j_state j = JRunning \<Longrightarrow> int (j_attempts j) < j_max_attempts j \<Longrightarrow> \<not> j_cancel_requested j \<Longrightarrow>
    job_move j (j\<lparr> j_state := JQueued, j_locked_by := None, j_lease_until := None,
      j_run_after := t, j_error_code := c, j_error_message := Some (take message_limit m) \<rparr>)"
| failed: "j_state j = JRunning \<Longrightarrow> job_move j (finish_job now JFailed None (Some c) (Some m) j)"
| stop_canceled: "\<not> terminal (j_state j) \<Longrightarrow> job_move j (finish_job now JCanceled None None None j)"
| ask_cancel: "j_state j = JRunning \<Longrightarrow> job_move j (j\<lparr> j_cancel_requested := True \<rparr>)"

inductive_cases job_moveE: "job_move j j'"

definition job_key :: "'d job \<Rightarrow> uuid \<times> string \<times> string option" where
  "job_key j = (j_tenant_id j, j_type j, j_idempotency_key j)"

text \<open>A well-formed row.\<close>

definition job_ok :: "'d job \<Rightarrow> bool" where
  "job_ok j \<longleftrightarrow>
     (j_state j = JRunning \<longleftrightarrow> j_locked_by j \<noteq> None) \<and>
     (j_state j = JRunning \<longleftrightarrow> j_lease_until j \<noteq> None) \<and>
     (terminal (j_state j) \<longleftrightarrow> j_finished_at j \<noteq> None) \<and>
     0 \<le> j_progress j \<and> j_progress j \<le> 100 \<and>
     (j_state j = JSucceeded \<longrightarrow> j_progress j = 100) \<and>
     (j_result j \<noteq> None \<longrightarrow> j_state j = JSucceeded) \<and>
     int (j_attempts j) \<le> max 1 (j_max_attempts j) \<and>
     (j_state j = JQueued \<longrightarrow> int (j_attempts j) < max 1 (j_max_attempts j)) \<and>
     (j_state j = JRunning \<longrightarrow> 0 < j_attempts j) \<and>
     (case j_error_message j of None \<Rightarrow> True | Some m \<Rightarrow> length m \<le> message_limit)"

lemma take_claim_fields [simp]:
  "j_id (snd (take_claim w l m j)) = j_id j" "j_state (snd (take_claim w l m j)) = JRunning"
  "j_attempts (snd (take_claim w l m j)) = Suc (j_attempts j)"
  "j_max_attempts (snd (take_claim w l m j)) = j_max_attempts j"
  "j_locked_by (snd (take_claim w l m j)) = Some w"
  "c_job_id (fst (take_claim w l m j)) = j_id j"
  "c_attempt (fst (take_claim w l m j)) = Suc (j_attempts j)"
  "j_lease_until (snd (take_claim w l m j)) = Some (c_lease_until (fst (take_claim w l m j)))"
  by (simp_all add: take_claim_def Let_def)

lemma move_identity: "job_move j j' \<Longrightarrow> j_id j' = j_id j \<and> job_key j' = job_key j \<and>
    j_max_attempts j' = j_max_attempts j \<and> \<not> terminal (j_state j)"
  by (erule job_moveE)
     (auto simp: job_key_def take_claim_def Let_def terminal_def due_def finish_job_def)

lemma move_ok: "job_move j j' \<Longrightarrow> job_ok j \<Longrightarrow> job_ok j'"
  by (erule job_moveE)
     (auto simp: job_ok_def take_claim_def Let_def terminal_def due_def finish_job_def max_def
       split: option.splits if_splits)

text \<open>Attempts count the claims: a move raises them by one exactly when it takes the job up.\<close>

lemma move_attempts: "job_move j j' \<Longrightarrow> j_attempts j' = j_attempts j \<or>
    j_attempts j' = Suc (j_attempts j) \<and> j_state j' = JRunning"
  by (erule job_moveE) (auto simp: finish_job_def Let_def)

abbreviation job_moves :: "'d job \<Rightarrow> 'd job \<Rightarrow> bool" where
  "job_moves \<equiv> rtranclp job_move"

lemma moves_identity: "job_moves j j' \<Longrightarrow> j_id j' = j_id j \<and> job_key j' = job_key j \<and>
    j_max_attempts j' = j_max_attempts j"
  by (induction rule: rtranclp_induct) (auto dest: move_identity)

interpretation job_row: invariant_system job_move job_ok
  by unfold_locales (rule move_ok)

lemma moves_terminal: "job_moves j j' \<Longrightarrow> terminal (j_state j) \<Longrightarrow> j' = j"
  by (induction rule: rtranclp_induct) (auto dest: move_identity)

section \<open>The table\<close>

interpretation jobs_table: row_store j_id "row_get j_id" "row_put j_id"
  by unfold_locales (auto simp: row_simps dest: row_get_Some)

definition jobs_ok :: "'d jobs \<Rightarrow> bool" where
  "jobs_ok db \<longleftrightarrow> distinct (map j_id db) \<and> (\<forall>j\<in>set db. job_ok j) \<and>
     (\<forall>x\<in>set db. \<forall>y\<in>set db. j_idempotency_key x \<noteq> None \<and> job_key x = job_key y \<longrightarrow>
        j_id x = j_id y)"

text \<open>Every row of the old table is in the new one, moved along the state machine.\<close>

definition rows_move :: "'d jobs \<Rightarrow> 'd jobs \<Rightarrow> bool" where
  "rows_move db db' \<longleftrightarrow> (\<forall>k j. row_get j_id k db = Some j \<longrightarrow>
     (\<exists>j'. row_get j_id k db' = Some j' \<and> job_moves j j'))"

lemma rows_move_refl [simp]: "rows_move db db"
  by (auto simp: rows_move_def)

lemma rows_move_trans: "rows_move a b \<Longrightarrow> rows_move b c \<Longrightarrow> rows_move a c"
  unfolding rows_move_def by (meson rtranclp_trans)

text \<open>One row of a good table makes a move: the table stays good.\<close>

lemma put_move:
  assumes ok: "jobs_ok db" and j: "j \<in> set db" and mv: "job_move j j'"
  shows "jobs_ok (row_put j_id j' db)" "rows_move db (row_put j_id j' db)"
proof -
  have id: "j_id j' = j_id j" "job_key j' = job_key j" using move_identity[OF mv] by auto
  then have nk: "j_idempotency_key j' = j_idempotency_key j" by (simp add: job_key_def)
  have g: "row_get j_id (j_id j') db = Some j"
    using ok j id row_get_distinct[of j_id db j] by (simp add: jobs_ok_def)
  show "rows_move db (row_put j_id j' db)"
    unfolding rows_move_def
  proof (intro allI impI)
    fix k x assume x: "row_get j_id k db = Some x"
    show "\<exists>x'. row_get j_id k (row_put j_id j' db) = Some x' \<and> job_moves x x'"
      using jobs_table.get_put[OF g, of k] g x mv by (cases "k = j_id j'") auto
  qed
  have mem: "x = j' \<or> x \<in> set db" if "x \<in> set (row_put j_id j' db)" for x
    using that by (rule row_put_member)
  have key: "\<exists>y\<in>set db. j_id y = j_id x \<and> job_key y = job_key x \<and>
      j_idempotency_key y = j_idempotency_key x" if "x \<in> set (row_put j_id j' db)" for x
    using mem[OF that] j id nk by auto
  have "job_ok x" if "x \<in> set (row_put j_id j' db)" for x
    using mem[OF that] ok j move_ok[OF mv] by (auto simp: jobs_ok_def)
  moreover have "j_id x = j_id y"
    if "x \<in> set (row_put j_id j' db)" "y \<in> set (row_put j_id j' db)"
      "j_idempotency_key x \<noteq> None" "job_key x = job_key y" for x y
    using key[OF that(1)] key[OF that(2)] that(3,4) ok unfolding jobs_ok_def by metis
  ultimately show "jobs_ok (row_put j_id j' db)"
    using ok unfolding jobs_ok_def by auto
qed

lemma find_in: "find P xs = Some x \<Longrightarrow> x \<in> set xs \<and> P x"
  by (auto simp: find_Some_iff)

lemma heldD: "held db k w = Some j \<Longrightarrow>
    j \<in> set db \<and> j_id j = k \<and> j_locked_by j = Some w \<and> j_state j = JRunning"
  unfolding held_def by (drule find_in) simp

text \<open>What the loop of \<open>claim\<close> does, by induction along its own recursion.\<close>

lemma claim_loop_spec:
  assumes "jobs_ok db" "claim_loop w types lease moment now locked db = (res, db')"
  shows "jobs_ok db' \<and> rows_move db db' \<and>
    (\<forall>k x. row_get j_id k db = Some x \<and> \<not> claimable types moment locked x \<longrightarrow>
       row_get j_id k db' = Some x) \<and>
    (case res of
       None \<Rightarrow> filter (claimable types moment locked) db' = []
     | Some c \<Rightarrow> (\<exists>j\<in>set db. claimable types moment locked j \<and> c = fst (take_claim w lease moment j) \<and>
         \<not> (j_state j = JRunning \<and> j_max_attempts j \<le> int (j_attempts j)) \<and> \<not> j_cancel_requested j \<and>
         row_get j_id (j_id j) db' = Some (snd (take_claim w lease moment j))))"
  using assms
proof (induction w types lease moment now locked db arbitrary: res db' rule: claim_loop.induct)
  case (1 w types lease moment now locked db)
  show ?case
  proof (cases "first_by claim_order (filter (claimable types moment locked) db)")
    case None
    have "res = None \<and> db' = db" using "1.prems"(2)
      by (simp add: claim_loop.simps[of w types lease moment now locked db] None del: first_by_None)
    then show ?thesis using "1.prems"(1) None by simp
  next
    case (Some j)
    then have j: "j \<in> set db" "claimable types moment locked j"
      using first_by_Some(1)[OF Some] by auto
    have g: "row_get j_id (j_id j) db = Some j"
      using "1.prems"(1) j(1) row_get_distinct[of j_id db j] by (simp add: jobs_ok_def)
    have frame: "row_get j_id k (row_put j_id j' db) = Some x"
      if "row_get j_id k db = Some x" "\<not> claimable types moment locked x" "j_id j' = j_id j" for k x j'
    proof -
      have "k \<noteq> j_id j" using that g j(2) by auto
      then show ?thesis using that jobs_table.get_put_other[of k j' db] by simp
    qed
    have step: "\<exists>x\<in>set db. claimable types moment locked x \<and> x = y"
      if "y \<in> set (row_put j_id j' db)" "claimable types moment locked y"
        "j_state j' \<noteq> JQueued" "j_state j' \<noteq> JRunning" for y j'
      using row_put_member[OF that(1)] that(2-4) by (auto simp: claimable_def due_def)
    show ?thesis
    proof (cases "j_state j = JRunning \<and> j_max_attempts j \<le> int (j_attempts j)")
      case exh: True
      let ?j' = "finish_job now JFailed None (Some ''lease_expired'')
          (Some ''the worker stopped responding'') j"
      have mv: "job_move j ?j'"
        using exh j by (intro job_move.expire) (auto simp: claimable_def)
      note p = put_move[OF "1.prems"(1) j(1) mv]
      have "claim_loop w types lease moment now locked (row_put j_id ?j' db) = (res, db')"
        using "1.prems"(2) Some exh by (simp add: claim_loop.simps[of w types lease moment now locked db])
      note IH = "1.IH"(1)[OF Some exh p(1) this]
      show ?thesis using IH rows_move_trans[OF p(2)] step[of _ ?j'] frame[of _ _ ?j']
        by (cases res) (simp_all, blast)
    next
      case nexh: False
      show ?thesis
      proof (cases "j_cancel_requested j")
        case c: True
        let ?j' = "finish_job now JCanceled None None None j"
        have mv: "job_move j ?j'"
          using c j by (intro job_move.drop_canceled) (auto simp: claimable_def)
        note p = put_move[OF "1.prems"(1) j(1) mv]
        have "claim_loop w types lease moment now locked (row_put j_id ?j' db) = (res, db')"
          using "1.prems"(2) Some nexh c
          by (auto simp add: claim_loop.simps[of w types lease moment now locked db])
        note IH = "1.IH"(2)[OF Some nexh c p(1) this]
        show ?thesis using IH rows_move_trans[OF p(2)] step[of _ ?j'] frame[of _ _ ?j']
          by (cases res) (simp_all, blast)
      next
        case nc: False
        have r: "res = Some (fst (take_claim w lease moment j))"
            "db' = row_put j_id (snd (take_claim w lease moment j)) db"
          using "1.prems"(2) Some nexh nc
          by (auto simp add: claim_loop.simps[of w types lease moment now locked db] split_beta)
        have mv: "job_move j (snd (take_claim w lease moment j))"
          using nexh nc j by (intro job_move.take_up) (auto simp: claimable_def)
        note p = put_move[OF "1.prems"(1) j(1) mv]
        have "row_get j_id (j_id j) db' = Some (snd (take_claim w lease moment j))"
          unfolding r using jobs_table.get_put_same[of "snd (take_claim w lease moment j)" db j] g by simp
        then show ?thesis using p j nexh nc r frame[of _ _ "snd (take_claim w lease moment j)"]
          by auto
      qed
    qed
  qed
qed

section \<open>The queue as a system\<close>

text \<open>One service call by a worker, by the platform or by a requester.\<close>

inductive job_step :: "'d jobs \<Rightarrow> 'd jobs \<Rightarrow> bool" where
  enqueue_step: "enqueue seen db fk_ok k now c rq actor = Inr (j, db') \<Longrightarrow> job_step db db'"
| claim_step: "claim_job w types lease moment now locked db = (res, db') \<Longrightarrow> job_step db db'"
| heartbeat_step: "heartbeat db k w s p n now = (res, db') \<Longrightarrow> job_step db db'"
| succeed_step: "succeed db k w r now = (res, db') \<Longrightarrow> job_step db db'"
| fail_step: "fail db k w code m retry now = (res, db') \<Longrightarrow> job_step db db'"
| canceled_step: "canceled db k w now = (res, db') \<Longrightarrow> job_step db db'"
| request_cancel_step: "j \<in> set db \<Longrightarrow> request_cancel now j db = (j', db') \<Longrightarrow> job_step db db'"

lemma new_job_ok: "job_ok (new_job k now c rq actor)"
  by (simp add: job_ok_def new_job_def terminal_def max_def)

lemma row_get_append_old: "row_get key k db = Some j \<Longrightarrow> row_get key k (db @ [x]) = Some j"
  by (induction db) (auto simp: row_get_def)

lemma by_key_Some: "by_key db t ty k = Some j \<Longrightarrow> j \<in> set db \<and> job_key j = (t, ty, Some k)"
  unfolding by_key_def by (drule find_in) (simp add: job_key_def)

lemma by_key_None: "by_key db t ty k = None \<longleftrightarrow> (\<forall>j\<in>set db. job_key j \<noteq> (t, ty, Some k))"
  by (auto simp: by_key_def find_None_iff job_key_def)

lemma insert_job_ok:
  assumes "jobs_ok db" "insert_job fk_ok j db = Some db'" "job_ok j"
  shows "jobs_ok db' \<and> rows_move db db'"
proof -
  have db': "db' = db @ [j]" and new: "j_id j \<notin> set (map j_id db)"
    and nk: "\<forall>k. j_idempotency_key j = Some k \<longrightarrow> by_key db (j_tenant_id j) (j_type j) k = None"
    using assms(2) by (auto simp: insert_job_def split: if_splits option.splits)
  have nk': "job_key x \<noteq> job_key j" if "x \<in> set db" "j_idempotency_key j \<noteq> None" for x
    using nk that by (force simp: by_key_None job_key_def)
  have "rows_move db db'"
    unfolding rows_move_def db'
  proof (intro allI impI)
    fix k x assume "row_get j_id k db = Some x"
    then have "row_get j_id k (db @ [j]) = Some x" by (rule row_get_append_old)
    then show "\<exists>x'. row_get j_id k (db @ [j]) = Some x' \<and> job_moves x x'" by blast
  qed
  moreover have "j_id x = j_id y" if "x \<in> set db'" "y \<in> set db'" "j_idempotency_key x \<noteq> None"
    "job_key x = job_key y" for x y
  proof -
    have "j_idempotency_key y \<noteq> None" using that(3,4) by (simp add: job_key_def)
    moreover have "x \<in> set db \<or> x = j" "y \<in> set db \<or> y = j" using that(1,2) db' by auto
    ultimately show ?thesis
      using that(3,4) nk'[of x] nk'[of y] assms(1) unfolding jobs_ok_def by metis
  qed
  moreover have "distinct (map j_id db')" "\<forall>x\<in>set db'. job_ok x"
    using assms(1,3) new unfolding db' jobs_ok_def by auto
  ultimately show ?thesis unfolding jobs_ok_def by blast
qed

lemma job_step_refines:
  assumes "job_step db db'" "jobs_ok db"
  shows "jobs_ok db' \<and> rows_move db db'"
  using assms(1)
proof (cases rule: job_step.cases)
  case (enqueue_step seen fk_ok k now c rq actor j)
  then show ?thesis using assms(2) insert_job_ok[OF assms(2) _ new_job_ok]
    by (auto simp: enqueue_def Let_def split: option.splits)
next
  case (claim_step w types lease moment now locked res)
  then show ?thesis using assms(2) claim_loop_spec[OF assms(2)]
    by (auto simp: claim_job_def split: if_splits)
next
  case (heartbeat_step k w s p n now res)
  show ?thesis
  proof (cases "held db k w")
    case (Some j)
    note j = heldD[OF Some]
    have "job_ok j" using j assms(2) by (auto simp: jobs_ok_def)
    then have pr: "0 \<le> j_progress j" "j_progress j \<le> 100" by (auto simp: job_ok_def)
    let ?p = "case p of None \<Rightarrow> j_progress j | Some x \<Rightarrow> max 0 (min 100 x)"
    let ?n = "case n of None \<Rightarrow> j_progress_note j | Some x \<Rightarrow> Some (take 200 x)"
    have "db' = row_put j_id (j\<lparr> j_heartbeat_at := Some now,
        j_lease_until := Some (now + seconds s), j_progress := ?p, j_progress_note := ?n \<rparr>) db"
      using heartbeat_step Some
      by (cases p; cases n) (simp_all add: heartbeat_def Let_def)
    moreover have "0 \<le> ?p" "?p \<le> 100" using pr by (auto split: option.split)
    ultimately show ?thesis using put_move[OF assms(2) conjunct1[OF j]] job_move.beat j by metis
  qed (use heartbeat_step assms(2) in \<open>simp add: heartbeat_def\<close>)
next
  case (succeed_step k w r now res)
  show ?thesis
  proof (cases "held db k w")
    case (Some j)
    have "job_move j (finish_job now JSucceeded r None None j)"
      using heldD[OF Some] by (intro job_move.succeeded) simp
    from put_move[OF assms(2) conjunct1[OF heldD[OF Some]] this] show ?thesis
      using succeed_step Some by (simp add: succeed_def)
  qed (use succeed_step assms(2) in \<open>simp add: succeed_def\<close>)
next
  case (fail_step k w code m retry now res)
  show ?thesis
  proof (cases "held db k w")
    case (Some j)
    note j = heldD[OF Some]
    show ?thesis
    proof (cases "retry \<and> int (j_attempts j) < j_max_attempts j \<and> \<not> j_cancel_requested j")
      case True
      then have "job_move j (j\<lparr> j_state := JQueued, j_locked_by := None,
                  j_lease_until := None, j_run_after := now + seconds (backoff (j_attempts j)),
                  j_error_code := Some code, j_error_message := Some (take message_limit m) \<rparr>)"
        using j by (intro job_move.retry) auto
      from put_move[OF assms(2) conjunct1[OF j] this] show ?thesis
        using fail_step Some True by (simp add: fail_def)
    next
      case False
      have "job_move j (finish_job now JFailed None (Some code) (Some m) j)"
        using j by (intro job_move.failed) auto
      from put_move[OF assms(2) conjunct1[OF j] this] show ?thesis
        using fail_step Some False by (auto simp: fail_def)
    qed
  qed (use fail_step assms(2) in \<open>simp add: fail_def\<close>)
next
  case (canceled_step k w now res)
  show ?thesis
  proof (cases "held db k w")
    case (Some j)
    have "job_move j (finish_job now JCanceled None None None j)"
      using heldD[OF Some] by (intro job_move.stop_canceled) (simp add: terminal_def)
    from put_move[OF assms(2) conjunct1[OF heldD[OF Some]] this] show ?thesis
      using canceled_step Some by (simp add: canceled_def)
  qed (use canceled_step assms(2) in \<open>simp add: canceled_def\<close>)
next
  case (request_cancel_step j now j')
  have "terminal (j_state j) \<or> job_move j (finish_job now JCanceled None None None j)"
    "j_state j = JRunning \<Longrightarrow> job_move j (j\<lparr> j_cancel_requested := True \<rparr>)"
    by (auto intro: job_move.intros)
  moreover have "\<not> terminal (j_state j) \<Longrightarrow> j_state j \<noteq> JQueued \<Longrightarrow> j_state j = JRunning"
    by (cases "j_state j") (auto simp: terminal_def)
  ultimately show ?thesis
    using request_cancel_step assms(2) put_move[OF assms(2) request_cancel_step(1)]
    by (auto simp: request_cancel_def Let_def split: if_splits)
qed

interpretation job_queue: invariant_system job_step jobs_ok
  by unfold_locales (blast dest: job_step_refines)

lemma jobs_empty_ok [simp]: "jobs_ok []"
  by (simp add: jobs_ok_def)

lemma job_steps_refine:
  "rtranclp job_step db db' \<Longrightarrow> jobs_ok db \<Longrightarrow> jobs_ok db' \<and> rows_move db db'"
proof (induction rule: rtranclp_induct)
  case (step b c)
  then show ?case using job_step_refines[OF step(2)] rows_move_trans by blast
qed simp

section \<open>Properties\<close>

abbreviation job_steps :: "'d jobs \<Rightarrow> 'd jobs \<Rightarrow> bool" where
  "job_steps \<equiv> rtranclp job_step"

lemma reachable_ok: "job_steps [] db \<Longrightarrow> jobs_ok db"
  using job_queue.reach_inv by fastforce

text \<open>
  C34: the queue refines the state machine of a single job. Every reachable table is well
  formed (running rows and only those have a holder and a lease, finished rows and only those
  a finish time, keys are unique), whatever happens next moves each row only along the state
  machine and never drops it, and a row in a terminal state never changes again.
\<close>
theorem queue_refines_job_machine:
  assumes "job_steps [] db" "job_steps db db'" "row_get j_id k db = Some j"
  shows "jobs_ok db \<and> (\<exists>j'. row_get j_id k db' = Some j' \<and> job_moves j j' \<and> job_ok j' \<and>
    (terminal (j_state j) \<longrightarrow> j' = j))"
proof -
  have ok: "jobs_ok db" by (rule reachable_ok[OF assms(1)])
  obtain j' where j': "row_get j_id k db' = Some j'" "job_moves j j'" "jobs_ok db'"
    using job_steps_refine[OF assms(2) ok] assms(3) unfolding rows_move_def by blast
  then have "job_ok j'" using row_get_Some[OF j'(1)] by (auto simp: jobs_ok_def)
  then show ?thesis using ok j' moves_terminal[OF j'(2)] by blast
qed

definition demo_context :: org_context where
  "demo_context = \<lparr> oc_tenant_id = ''t'', oc_org_id = ''o'', oc_user_id = ''u'',
     oc_is_super_user = False \<rparr>"

definition demo_request :: "nat enqueue_request" where
  "demo_request = \<lparr> q_type = ''index'', q_payload = 7, q_resource_id = None,
     q_idempotency_key = Some ''k'', q_max_attempts = 3, q_run_after = None \<rparr>"

definition demo_job :: "nat job" where
  "demo_job = new_job ''j1'' 0 demo_context demo_request None"

lemma demo_enqueue: "enqueue [] [] True ''j1'' 0 demo_context demo_request None = Inr (demo_job, [demo_job])"
  by code_simp

lemma demo_reachable: "job_steps [] [demo_job]"
  by (rule r_into_rtranclp) (rule job_step.enqueue_step[OF demo_enqueue])

lemma queue_refines_job_machine_witness:
  "\<exists>j'. row_get j_id ''j1'' (snd (claim_job ''w'' [''index''] [] 5 5 [] [demo_job])) = Some j' \<and>
     job_moves demo_job j' \<and> job_ok j'"
proof -
  have "job_steps [demo_job] (snd (claim_job ''w'' [''index''] [] 5 5 [] [demo_job]))"
    by (rule r_into_rtranclp) (rule job_step.claim_step[OF surjective_pairing])
  moreover have "row_get j_id ''j1'' [demo_job] = Some demo_job" by code_simp
  ultimately show ?thesis using queue_refines_job_machine[OF demo_reachable] by blast
qed



lemma moved_row:
  assumes "rows_move db db'" "jobs_ok db" "jobs_ok db'" "x \<in> set db"
  shows "\<exists>y\<in>set db'. j_id y = j_id x \<and> job_key y = job_key x"
proof -
  have "row_get j_id (j_id x) db = Some x"
    using assms(2,4) row_get_distinct[of j_id db x] by (simp add: jobs_ok_def)
  then obtain y where "row_get j_id (j_id x) db' = Some y" "job_moves x y"
    using assms(1) unfolding rows_move_def by blast
  then show ?thesis using moves_identity[of x y] row_get_Some[of j_id "j_id x" db' y] by auto
qed

lemma same_key_same_id:
  assumes "jobs_ok db" "x \<in> set db" "y \<in> set db" "job_key x = (t, ty, Some k)" "job_key y = (t, ty, Some k)"
  shows "j_id x = j_id y"
proof -
  have "j_idempotency_key x \<noteq> None" using assms(4) by (simp add: job_key_def)
  then show ?thesis using assms unfolding jobs_ok_def by metis
qed

text \<open>The job an enqueue answers with is in the table, under the requested key.\<close>

lemma enqueue_present:
  assumes "jobs_ok seen" "jobs_ok db" "rows_move seen db" "q_idempotency_key rq = Some key"
    and "enqueue seen db fk k now c rq actor = Inr (j, db')"
  shows "\<exists>x\<in>set db'. j_id x = j_id j \<and> job_key x = (oc_tenant_id c, q_type rq, Some key)"
proof (cases "by_key seen (oc_tenant_id c) (q_type rq) key")
  case (Some x)
  then have "j = x" "db' = db" using assms(4,5) by (auto simp: enqueue_def)
  then show ?thesis using moved_row[OF assms(3,1,2), of x] by_key_Some[OF Some] by auto
next
  case None
  let ?j = "new_job k now c rq actor"
  show ?thesis
  proof (cases "insert_job fk ?j db")
    case ins: (Some db1)
    then have "j = ?j" "db' = db @ [?j]"
      using assms(4,5) None by (auto simp: enqueue_def insert_job_def split: if_splits)
    then show ?thesis using assms(4) by (simp add: job_key_def new_job_def)
  next
    case ins: None
    then have "by_key db (oc_tenant_id c) (q_type rq) key = Some j" "db' = db"
      using assms(4,5) None by (auto simp: enqueue_def Let_def split: option.splits)
    then show ?thesis using by_key_Some by blast
  qed
qed

text \<open>
  Enqueueing is idempotent under races. Once a job was enqueued under a key, every later
  enqueue with that company, type and key returns the same job and adds no row, whatever ran
  in between and however old the state is that its first look-up saw.
\<close>
theorem enqueue_idempotent:
  assumes "q_idempotency_key rq = Some key" "q_idempotency_key rq2 = Some key" "q_type rq2 = q_type rq"
    and "job_steps [] seen0" "job_steps seen0 db0" "enqueue seen0 db0 fk0 k0 t0 c rq actor = Inr (j, db1)"
    and "job_steps db1 db2" "job_steps [] seen2" "job_steps seen2 db2"
    and "enqueue seen2 db2 fk k1 t1 c rq2 actor2 = Inr (j2, db3)"
  shows "j_id j2 = j_id j \<and> db3 = db2"
proof -
  let ?key = "(oc_tenant_id c, q_type rq, Some key)"
  have ok: "jobs_ok seen0" "jobs_ok seen2" using assms(4,8) by (auto intro: reachable_ok)
  note r0 = job_steps_refine[OF assms(5) ok(1)] and r2 = job_steps_refine[OF assms(9) ok(2)]
  have ok1: "jobs_ok db1"
    using job_step_refines[OF job_step.enqueue_step[OF assms(6)]] r0 by blast
  note r1 = job_steps_refine[OF assms(7) ok1]
  obtain x where x: "x \<in> set db1" "j_id x = j_id j" "job_key x = ?key"
    using enqueue_present[OF ok(1) _ _ assms(1,6)] r0 by blast
  obtain y where y: "y \<in> set db2" "j_id y = j_id j" "job_key y = ?key"
    using moved_row[OF _ ok1 _ x(1)] r1 x by auto
  have ids: "j_id z = j_id j" if "z \<in> set db2" "job_key z = ?key" for z
    using same_key_same_id[OF _ that(1) y(1) that(2) y(3)] r2 y(2) by simp
  show ?thesis
  proof (cases "by_key seen2 (oc_tenant_id c) (q_type rq2) key")
    case (Some z)
    then have "j2 = z" "db3 = db2" using assms(2,10) by (auto simp: enqueue_def)
    then show ?thesis
      using moved_row[OF _ ok(2), of db2 z] r2 by_key_Some[OF Some] ids assms(3) by auto
  next
    case None
    have "by_key db2 (oc_tenant_id c) (q_type rq2) key \<noteq> None"
      using y assms(3) by (auto simp: by_key_None)
    then have "insert_job fk (new_job k1 t1 c rq2 actor2) db2 = None"
      using assms(2) by (simp add: insert_job_def new_job_def)
    then have "by_key db2 (oc_tenant_id c) (q_type rq2) key = Some j2 \<and> db3 = db2"
      using assms(2,10) None by (auto simp: enqueue_def Let_def split: option.splits)
    then show ?thesis using ids by_key_Some assms(3) by fastforce
  qed
qed

lemma enqueue_idempotent_witness:
  "enqueue [] [demo_job] True ''j2'' 9 demo_context demo_request None = Inr (demo_job, [demo_job]) \<and>
   (\<exists>j2 db3. enqueue [] [demo_job] True ''j2'' 9 demo_context demo_request None = Inr (j2, db3) \<and>
      j_id j2 = j_id demo_job \<and> db3 = [demo_job])"
proof -
  have "q_idempotency_key demo_request = Some ''k''" by (simp add: demo_request_def)
  note e = enqueue_idempotent[OF this this refl rtranclp.rtrancl_refl rtranclp.rtrancl_refl
      demo_enqueue rtranclp.rtrancl_refl rtranclp.rtrancl_refl demo_reachable]
  have r: "enqueue [] [demo_job] True ''j2'' 9 demo_context demo_request None =
      Inr (demo_job, [demo_job])" by code_simp
  show ?thesis using r e[OF r] by blast
qed

text \<open>
  A worker that takes up again the job whose lease it let run out can end the new attempt
  with the outcome of the old one. The write of the old attempt is accepted, because the row
  names the worker and not the attempt, and the new attempt's own result is then refused.
\<close>
theorem stale_attempt_ends_new_attempt:
  assumes "claim_job w types lease m1 n1 [] [j] = (Some c1, db1)" "j_id j = k"
    and "claim_job w types lease m2 n2 [] db1 = (Some c2, db2)" "types \<noteq> []"
    and "jobs_ok [j]"
  shows "let (accepted1, db3) = succeed db2 (c_job_id c1) w (Some r1) n3;
             (accepted2, db4) = succeed db3 (c_job_id c2) w (Some r2) n4
         in c_attempt c2 = Suc (c_attempt c1) \<and> accepted1 \<and> \<not> accepted2 \<and>
            map j_result db4 = [Some r1]"
proof -
  have 1: "claim_loop w types lease m1 n1 [] [j] = (Some c1, db1)"
    and 2: "claim_loop w types lease m2 n2 [] db1 = (Some c2, db2)"
    using assms by (simp_all add: claim_job_def)
  note s1 = claim_loop_spec[OF assms(5) 1]
  from s1 obtain j1 where j1: "c1 = fst (take_claim w lease m1 j)"
    "row_get j_id (j_id j) db1 = Some (snd (take_claim w lease m1 j))" by auto
  have "length db' = length db" if "claim_loop w types lease m n ls db = (res, db')"
    for m n ls db res and db' :: "'a jobs"
    using that
  proof (induction w types lease m n ls db arbitrary: res db' rule: claim_loop.induct)
    case (1 w types lease moment now locked db)
    then show ?case
      by (subst (asm) (3) claim_loop.simps)
         (auto split: option.splits if_splits prod.splits simp: Let_def)
  qed
  then have len: "length db1 = 1" "length db2 = 1" using 1 2 by force+
  then have d1: "db1 = [snd (take_claim w lease m1 j)]"
    using j1(2) by (auto simp: length_Suc_conv row_get_def split: if_splits)
  have ok1: "jobs_ok db1" using s1 by simp
  from claim_loop_spec[OF ok1 2] have
    c2: "c2 = fst (take_claim w lease m2 (snd (take_claim w lease m1 j)))" and
    d2: "row_get j_id (j_id j) db2 = Some (snd (take_claim w lease m2 (snd (take_claim w lease m1 j))))"
    using d1 by auto
  then have d2': "db2 = [snd (take_claim w lease m2 (snd (take_claim w lease m1 j)))]"
    using len(2) by (auto simp: length_Suc_conv row_get_def split: if_splits)
  show ?thesis unfolding d2' c2 j1(1)
    by (simp add: succeed_def held_def row_put_def) (simp add: finish_job_def Let_def)
qed

lemma stale_attempt_ends_new_attempt_witness:
  "let (c1, db1) = claim_job ''w'' [''index''] [] 5 5 [] [demo_job];
       (c2, db2) = claim_job ''w'' [''index''] [] (seconds 500) 5 [] db1;
       (a1, db3) = succeed db2 ''j1'' ''w'' (Some 1) 0; (a2, db4) = succeed db3 ''j1'' ''w'' (Some 2) 0
   in a1 \<and> \<not> a2 \<and> map j_result db4 = [Some 1]"
proof -
  define c1 where "c1 = the (fst (claim_job ''w'' [''index''] [] 5 5 [] [demo_job]))"
  define db1 where "db1 = snd (claim_job ''w'' [''index''] [] 5 5 [] [demo_job])"
  define c2 where "c2 = the (fst (claim_job ''w'' [''index''] [] (seconds 500) 5 [] db1))"
  define db2 where "db2 = snd (claim_job ''w'' [''index''] [] (seconds 500) 5 [] db1)"
  have 1: "claim_job ''w'' [''index''] [] 5 5 [] [demo_job] = (Some c1, db1)"
    unfolding c1_def db1_def by code_simp
  have 2: "claim_job ''w'' [''index''] [] (seconds 500) 5 [] db1 = (Some c2, db2)"
    unfolding c2_def db2_def db1_def by code_simp
  have ids: "c_job_id c1 = ''j1''" "c_job_id c2 = ''j1''"
    unfolding c1_def c2_def db1_def by code_simp+
  have "jobs_ok [demo_job]" by (rule reachable_ok[OF demo_reachable])
  from stale_attempt_ends_new_attempt[OF 1 refl 2 _ this, of 1 0 2 0] show ?thesis
    unfolding 1 2 ids by (simp add: Let_def split_beta 2)
qed

end
