(* ===== verification/JobWorker.thy ===== *)
theory JobWorker
  imports Jobs
begin

text \<open>
  The worker process: the registry of job types (\<^verbatim>\<open>jobs/registry.py\<close>), what a handler sees
  (\<^verbatim>\<open>jobs/context.py\<close>), the claim loop and the life of one claimed job
  (\<^verbatim>\<open>jobs/worker.py\<close>), and the worker rows and queue counts of \<^verbatim>\<open>jobs/service.py\<close>.

  A handler is application code. It appears here as the sequence of what it does with its
  context before it ends (\<open>handler_act\<close>) and how it ends (\<open>handler_end\<close>); the background
  lease keeper is one more source of \<open>Beat\<close>s in that sequence, and \<open>Others\<close> stands for
  whatever other transactions do to the table in between.
\<close>

section \<open>Job types\<close>

record job_type =
  t_name :: string
  t_handler :: nat
  t_lease_seconds :: int
  t_max_attempts :: int

type_synonym type_registry = "(string, job_type) dict"

definition max_name :: nat where
  "max_name = 64"

datatype registry_error = NameLength | AlreadyRegistered

text \<open>
  \<open>register\<close>: registering the identical object again is allowed. Two job types are the same
  object when they are equal in every field (\<open>t_handler\<close> identifies the handler function).
\<close>

definition register_type :: "job_type \<Rightarrow> type_registry \<Rightarrow> registry_error + type_registry" where
  "register_type jt types =
     (if \<not> (0 < length (t_name jt) \<and> length (t_name jt) \<le> max_name) then Inl NameLength
      else case map_of types (t_name jt) of
        Some old \<Rightarrow> if old \<noteq> jt then Inl AlreadyRegistered
                    else Inr (AList.update (t_name jt) jt types)
      | None \<Rightarrow> Inr (AList.update (t_name jt) jt types))"

definition get_type :: "type_registry \<Rightarrow> string \<Rightarrow> job_type option" where
  "get_type types name = map_of types name"

definition type_names :: "type_registry \<Rightarrow> string list" where
  "type_names types = sort (map fst types)"

lemma register_type_get:
  "register_type jt types = Inr types' \<Longrightarrow>
     get_type types' n = (if n = t_name jt then Some jt else get_type types n)"
  by (auto simp: register_type_def get_type_def update_conv split: option.splits if_splits)

lemma register_type_keeps:
  assumes "register_type jt types = Inr types'" "get_type types n = Some x"
  shows "get_type types' n = Some x"
  using assms by (auto simp: register_type_def get_type_def update_conv split: option.splits if_splits)

section \<open>Starting jobs\<close>

definition lease_table :: "type_registry \<Rightarrow> (string, int) dict" where
  "lease_table types = map (\<lambda>n. (n, case get_type types n of Some t \<Rightarrow> t_lease_seconds t | None \<Rightarrow> 120))
     (type_names types)"

text \<open>
  \<open>run_once\<close>: claim while there is a free slot. \<open>clock\<close> and \<open>locked\<close> give, per iteration, the
  time and the rows other transactions hold; the result is the started claims, the number of
  running tasks and the table.
\<close>

function run_once :: "string \<Rightarrow> nat \<Rightarrow> type_registry \<Rightarrow> (nat \<Rightarrow> micros) \<Rightarrow> (nat \<Rightarrow> uuid list) \<Rightarrow>
    nat \<Rightarrow> 'd jobs \<Rightarrow> claim list \<times> nat \<times> 'd jobs" where
  "run_once worker_id concurrency types clock locked running db =
     (if running < concurrency
      then case claim_job worker_id (type_names types) (lease_table types)
                 (clock running) (clock running) (locked running) db of
             (None, db') \<Rightarrow> ([], running, db')
           | (Some c, db') \<Rightarrow>
               (let (cs, n, db'') = run_once worker_id concurrency types clock locked (Suc running) db'
                in (c # cs, n, db''))
      else ([], running, db))"
  by pat_completeness auto

termination run_once
  by (relation "measure (\<lambda>(_, concurrency, _, _, _, running, _). concurrency - running)") auto

declare run_once.simps [simp del]

section \<open>The life of one claimed job\<close>

record job_context =
  x_claim :: claim
  x_cancel_requested :: bool

datatype 'd handler_act = Beat "int option" "string option" micros
  | Progress int "string option" micros | CheckCanceled | Others "'d jobs \<Rightarrow> 'd jobs"

datatype 'd handler_end = Returned "'d option" | RaisedCanceled | RaisedFailed string string bool
  | RaisedOther string

text \<open>The closure \<open>beat\<close> of \<open>_run\<close>; a lost claim (\<open>None\<close>) sets no flag.\<close>

definition beat_job :: "string \<Rightarrow> int \<Rightarrow> int option \<Rightarrow> string option \<Rightarrow> micros \<Rightarrow> job_context \<Rightarrow> 'd jobs \<Rightarrow>
    job_context \<times> 'd jobs" where
  "beat_job worker_id lease_seconds progress note now x db =
     (let (answer, db') = heartbeat db (c_job_id (x_claim x)) worker_id lease_seconds progress note now
      in (if answer = Some True then x\<lparr> x_cancel_requested := True \<rparr> else x, db'))"

definition check_canceled :: "job_context \<Rightarrow> bool" where
  "check_canceled x = x_cancel_requested x"

text \<open>The handler's actions; \<open>True\<close> as first component: \<open>check_canceled\<close> raised.\<close>

fun run_acts :: "string \<Rightarrow> int \<Rightarrow> 'd handler_act list \<Rightarrow> job_context \<Rightarrow> 'd jobs \<Rightarrow> bool \<times> job_context \<times> 'd jobs" where
  "run_acts w lease [] x db = (False, x, db)"
| "run_acts w lease (Beat p n now # acts) x db =
     (let (x', db') = beat_job w lease p n now x db in run_acts w lease acts x' db')"
| "run_acts w lease (Progress p n now # acts) x db =
     (let (x', db') = beat_job w lease (Some p) n now x db in run_acts w lease acts x' db')"
| "run_acts w lease (CheckCanceled # acts) x db =
     (if check_canceled x then (True, x, db) else run_acts w lease acts x db)"
| "run_acts w lease (Others f # acts) x db = run_acts w lease acts x (f db)"

definition end_job :: "string \<Rightarrow> uuid \<Rightarrow> 'd handler_end \<Rightarrow> micros \<Rightarrow> 'd jobs \<Rightarrow> 'd jobs" where
  "end_job w job_id e now db =
     (case e of
        RaisedCanceled \<Rightarrow> snd (canceled db job_id w now)
      | RaisedFailed code message retry \<Rightarrow> snd (fail db job_id w code message retry now)
      | RaisedOther name \<Rightarrow> snd (fail db job_id w ''handler_error'' name True now)
      | Returned result \<Rightarrow> snd (succeed db job_id w result now))"

definition run_claimed :: "string \<Rightarrow> job_type \<Rightarrow> claim \<Rightarrow> 'd handler_act list \<Rightarrow> 'd handler_end \<Rightarrow>
    micros \<Rightarrow> 'd jobs \<Rightarrow> 'd jobs" where
  "run_claimed w jt c acts e now db =
     (let (raised, x, db') = run_acts w (t_lease_seconds jt) acts
              \<lparr> x_claim = c, x_cancel_requested = False \<rparr> db
      in end_job w (c_job_id c) (if raised then RaisedCanceled else e) now db')"

section \<open>Worker rows and queue counts\<close>

record job_worker =
  w_worker_id :: string
  w_hostname :: string
  w_job_types :: "string list"
  w_started_at :: micros
  w_heartbeat_at :: micros

definition record_worker :: "job_worker list \<Rightarrow> string \<Rightarrow> string \<Rightarrow> string list \<Rightarrow> micros \<Rightarrow> micros \<Rightarrow>
    job_worker list" where
  "record_worker ws worker_id hostname types started now =
     (case row_get w_worker_id worker_id ws of
        None \<Rightarrow> ws @ [\<lparr> w_worker_id = worker_id, w_hostname = hostname, w_job_types = types,
                       w_started_at = started, w_heartbeat_at = now \<rparr>]
      | Some r \<Rightarrow> row_put w_worker_id (r\<lparr> w_heartbeat_at := now, w_job_types := types \<rparr>) ws)"

definition forget_worker :: "job_worker list \<Rightarrow> string \<Rightarrow> job_worker list" where
  "forget_worker ws worker_id = row_delete w_worker_id worker_id ws"

definition heartbeat_age :: "job_worker \<Rightarrow> micros \<Rightarrow> micros" where
  "heartbeat_age r at = at - w_heartbeat_at r"

definition workers :: "job_worker list \<Rightarrow> job_worker list" where
  "workers ws = sort_key (\<lambda>w. - w_heartbeat_at w) ws"

record queue_counts =
  n_queued :: nat
  n_running :: nat
  n_overdue :: nat
  n_failed_last_day :: nat

definition overdue_after :: micros where
  "overdue_after = seconds 60"

definition queue_summary :: "'d jobs \<Rightarrow> micros \<Rightarrow> queue_counts" where
  "queue_summary db moment =
     \<lparr> n_queued = length (filter (\<lambda>j. j_state j = JQueued) db),
       n_running = length (filter (\<lambda>j. j_state j = JRunning) db),
       n_overdue = length (filter (\<lambda>j. j_state j = JQueued \<and> j_run_after j < moment - overdue_after) db),
       n_failed_last_day = length (filter (\<lambda>j. j_state j = JFailed \<and>
          (case j_finished_at j of None \<Rightarrow> False | Some t \<Rightarrow> moment - seconds 86400 \<le> t)) db) \<rparr>"

interpretation worker_rows: row_store w_worker_id "row_get w_worker_id" "row_put w_worker_id"
  by unfold_locales (auto simp: row_simps dest: row_get_Some)

section \<open>The worker only makes the queue's steps\<close>

lemma claim_steps: "job_steps db (snd (claim_job w types lease m n ls db))"
  by (rule r_into_rtranclp) (rule job_step.claim_step[OF surjective_pairing])

lemma run_once_spec:
  "run_once w k types clock locked n db = (cs, n', db') \<Longrightarrow> n \<le> k \<Longrightarrow>
     job_steps db db' \<and> n' = n + length cs \<and> n' \<le> k"
proof (induction w k types clock locked n db arbitrary: cs n' db' rule: run_once.induct)
  case (1 w k types clock locked n db)
  obtain res db1 where c: "claim_job w (type_names types) (lease_table types) (clock n) (clock n)
      (locked n) db = (res, db1)" by force
  have s: "job_steps db db1" using claim_steps[of db w "type_names types" "lease_table types"] c
    by (metis snd_conv)
  show ?case
  proof (cases "n < k")
    case True
    show ?thesis
    proof (cases res)
      case None
      then show ?thesis using "1.prems" True c s by (simp add: run_once.simps[of w k])
    next
      case (Some x)
      obtain cs1 n1 db2 where r: "run_once w k types clock locked (Suc n) db1 = (cs1, n1, db2)"
        by (metis prod_cases3)
      have "cs = x # cs1" "n' = n1" "db' = db2"
        using "1.prems"(1) True c Some r by (simp_all add: run_once.simps[of w k types clock locked n db])
      moreover have "job_steps db1 db2 \<and> n1 = Suc n + length cs1 \<and> n1 \<le> k"
        using "1.IH"[OF True c[symmetric] Some r] True by simp
      ultimately show ?thesis using s by (auto intro: rtranclp_trans)
    qed
  next
    case False
    then show ?thesis using "1.prems" by (simp add: run_once.simps[of w k])
  qed
qed

text \<open>Other transactions make queue steps too.\<close>

definition steps_only :: "'d handler_act list \<Rightarrow> bool" where
  "steps_only acts \<longleftrightarrow> (\<forall>f db. Others f \<in> set acts \<longrightarrow> job_steps db (f db))"

lemma steps_only_simps [simp]:
  "steps_only []" "steps_only (Beat p n t # acts) = steps_only acts"
  "steps_only (Progress i n t # acts) = steps_only acts"
  "steps_only (CheckCanceled # acts) = steps_only acts"
  "steps_only (Others f # acts) \<longleftrightarrow> (\<forall>db. job_steps db (f db)) \<and> steps_only acts"
  by (auto simp: steps_only_def)

lemma beat_steps: "job_steps db (snd (beat_job w l p n now x db))"
  by (rule r_into_rtranclp)
     (auto simp: beat_job_def split_beta intro: job_step.heartbeat_step[OF surjective_pairing])

lemma run_acts_steps:
  "steps_only acts \<Longrightarrow> job_steps db (snd (snd (run_acts w l acts x db)))"
proof (induction acts arbitrary: x db)
  case (Cons a acts)
  have so: "steps_only acts" using Cons.prems by (cases a) auto
  have via_beat: "job_steps db (snd (snd (run_acts w l acts x' db')))"
    if "beat_job w l p n now x db = (x', db')" for p n now x' db'
    using beat_steps[of db w l p n now x] that Cons.IH[OF so, of db' x'] rtranclp_trans[of job_step db db']
    by simp
  show ?case
  proof (cases a)
    case (Beat p n now)
    then show ?thesis using via_beat by (auto simp: split_beta)
  next
    case (Progress p n now)
    then show ?thesis using via_beat by (auto simp: split_beta)
  next
    case CheckCanceled
    then show ?thesis using Cons.IH[OF so] by simp
  next
    case (Others f)
    then have "job_steps db (f db)" using Cons.prems by simp
    then show ?thesis using Others Cons.IH[OF so, of "f db" x] by (simp add: rtranclp_trans[of job_step db "f db"])
  qed
qed simp

lemma end_job_steps: "job_steps db (end_job w k e now db)"
  by (cases e)
     (auto simp: end_job_def intro!: r_into_rtranclp job_step.canceled_step[OF surjective_pairing]
        job_step.fail_step[OF surjective_pairing] job_step.succeed_step[OF surjective_pairing])

lemma run_claimed_steps: "steps_only acts \<Longrightarrow> job_steps db (run_claimed w jt c acts e now db)"
  unfolding run_claimed_def Let_def split_beta
  by (rule rtranclp_trans[OF run_acts_steps end_job_steps])

text \<open>The call that ends a job leaves it unheld by this worker, whatever it was before.\<close>

lemma put_not_held:
  "j_id j' = k \<Longrightarrow> j_state j' \<noteq> JRunning \<Longrightarrow> held (row_put j_id j' db) k w = None"
  by (auto simp: held_def find_None_iff row_put_def split: if_splits)

lemma end_job_releases: "held (end_job w k e now db) k w = None"
proof (cases "held db k w")
  case None
  then show ?thesis
    by (cases e) (simp_all add: end_job_def canceled_def fail_def succeed_def)
next
  case (Some j)
  note j = heldD[OF Some]
  have "held (row_put j_id (finish_job t s r c m j) db) k w = None" if "s \<noteq> JRunning" for t s r c m
    by (rule put_not_held) (use that j in simp_all)
  moreover have "held (row_put j_id (j\<lparr> j_state := JQueued, j_locked_by := None,
      j_lease_until := None, j_run_after := t, j_error_code := c, j_error_message := m \<rparr>) db) k w = None"
    for t c m
    by (rule put_not_held) (use j in simp_all)
  ultimately show ?thesis using Some
    by (cases e) (simp_all add: end_job_def canceled_def fail_def succeed_def)
qed

section \<open>Properties\<close>

text \<open>
  C40: the worker keeps the queue's contract. Starting jobs never exceeds the free slots and
  makes only queue steps; running a claimed job to any end, with any beats, cancel checks and
  steps of other transactions in between, makes only queue steps and leaves the job no longer
  held by this worker.
\<close>
theorem worker_keeps_queue_contract:
  assumes "n \<le> concurrency" "run_once w concurrency types clock locked n db = (cs, n', db')"
    and "steps_only acts"
  shows "job_steps db db' \<and> n' = n + length cs \<and> n' \<le> concurrency \<and>
    job_steps db' (run_claimed w jt c acts e now db') \<and>
    held (run_claimed w jt c acts e now db') (c_job_id c) w = None"
  using run_once_spec[OF assms(2,1)] run_claimed_steps[OF assms(3), of db' w jt c e now]
  by (simp add: run_claimed_def Let_def split_beta end_job_releases)

definition demo_type :: job_type where
  "demo_type = \<lparr> t_name = ''index'', t_handler = 0, t_lease_seconds = 60, t_max_attempts = 3 \<rparr>"

lemma worker_keeps_queue_contract_witness:
  "let (cs, n, db) = run_once ''w'' 2 [(''index'', demo_type)] (\<lambda>_. 5) (\<lambda>_. []) 0 [demo_job] in
   n = 1 \<and> map c_job_id cs = [''j1''] \<and>
   held (run_claimed ''w'' demo_type (hd cs) [Progress 40 None 6] (Returned (Some 3)) 7 db)
     (c_job_id (hd cs)) ''w'' = None"
proof -
  define r where "r = run_once ''w'' 2 [(''index'', demo_type)] (\<lambda>_. 5) (\<lambda>_. []) 0 [demo_job]"
  have "run_once ''w'' 2 [(''index'', demo_type)] (\<lambda>_. 5) (\<lambda>_. []) 0 [demo_job] =
      (fst r, fst (snd r), snd (snd r))" by (simp add: r_def)
  note c = worker_keeps_queue_contract[OF _ this, of "[Progress 40 None 6]" demo_type "hd (fst r)"
      "Returned (Some 3)" 7]
  have "fst (snd r) = 1 \<and> map c_job_id (fst r) = [''j1'']" unfolding r_def by code_simp
  then show ?thesis using c unfolding r_def[symmetric] by (simp add: split_beta)
qed

text \<open>
  A cancel request reaches a running handler. When a held job was asked to stop, the next
  progress report raises the flag, the next \<open>check_canceled\<close> raises, and the job ends
  canceled with no result, whatever the handler would have done afterwards.
\<close>
theorem cancel_request_honoured:
  assumes "jobs_ok db" "held db (c_job_id c) w = Some j" "j_cancel_requested j"
  shows "\<exists>j'. row_get j_id (c_job_id c)
      (run_claimed w jt c (Progress p n t # CheckCanceled # acts) e now db) = Some j' \<and>
    j_state j' = JCanceled \<and> j_result j' = None"
proof -
  note j = heldD[OF assms(2)]
  have g: "row_get j_id (c_job_id c) db = Some j"
    using assms(1) j row_get_distinct[of j_id db j] by (simp add: jobs_ok_def)
  obtain res db1 where h: "heartbeat db (c_job_id c) w (t_lease_seconds jt) (Some p) n t = (res, db1)"
    by force
  have res: "res = Some True" using h assms(2,3) by (simp add: heartbeat_def Let_def)
  have ok1: "jobs_ok db1" using job_step_refines[OF job_step.heartbeat_step[OF h] assms(1)] by simp
  have r: "run_claimed w jt c (Progress p n t # CheckCanceled # acts) e now db =
      snd (canceled db1 (c_job_id c) w now)"
    by (simp add: run_claimed_def beat_job_def h res check_canceled_def end_job_def)
  let ?j1 = "(case n of None \<Rightarrow> id | Some x \<Rightarrow> j_progress_note_update (\<lambda>_. Some (take 200 x)))
     (j\<lparr> j_heartbeat_at := Some t, j_lease_until := Some (t + seconds (t_lease_seconds jt)),
        j_progress := max 0 (min 100 p) \<rparr>)"
  have db1: "db1 = row_put j_id ?j1 db"
    using h assms(2) by (cases n) (simp_all add: heartbeat_def Let_def)
  have id1: "j_id ?j1 = c_job_id c" "j_locked_by ?j1 = Some w" "j_state ?j1 = JRunning"
    "j_result ?j1 = j_result j"
    using j by (auto split: option.split)
  have g1: "row_get j_id (c_job_id c) db1 = Some ?j1"
    unfolding db1 using jobs_table.update_reads_back[OF g id1(1)] .
  have "?j1 \<in> set db1" using row_get_Some[OF g1] by simp
  then have "\<exists>x\<in>set db1. j_id x = c_job_id c \<and> j_locked_by x = Some w \<and> j_state x = JRunning"
    using id1 by blast
  then obtain h1 where h1: "held db1 (c_job_id c) w = Some h1"
    by (cases "held db1 (c_job_id c) w") (auto simp: held_def find_None_iff)
  have "h1 = ?j1"
    using heldD[OF h1] g1 row_get_distinct[of j_id db1 h1] ok1 by (simp add: jobs_ok_def)
  then have "row_get j_id (c_job_id c) (snd (canceled db1 (c_job_id c) w now)) =
      Some (finish_job now JCanceled None None None ?j1)"
    using h1 jobs_table.update_reads_back[OF g1, of "finish_job now JCanceled None None None ?j1"] id1(1)
    by (simp add: canceled_def)
  moreover have "j_result j = None"
    using assms(1) j by (auto simp: jobs_ok_def job_ok_def)
  ultimately show ?thesis unfolding r using id1(4) by (simp add: finish_job_def Let_def)
qed

lemma cancel_request_honoured_witness:
  "let (c, db) = claim_job ''w'' [''index''] [] 5 5 [] [demo_job];
       db1 = snd (request_cancel 6 (hd db) db)
   in map j_state (run_claimed ''w'' demo_type (the c) [Progress 40 None 7, CheckCanceled]
        (Returned (Some 3)) 8 db1) = [JCanceled]"
proof -
  define c where "c = the (fst (claim_job ''w'' [''index''] [] 5 5 [] [demo_job]))"
  define db where "db = snd (claim_job ''w'' [''index''] [] 5 5 [] [demo_job])"
  define db1 where "db1 = snd (request_cancel 6 (hd db) db)"
  have "hd db \<in> set db" unfolding db_def by code_simp
  then have "job_step db db1" unfolding db1_def by (rule job_step.request_cancel_step[OF _ surjective_pairing])
  then have "job_steps [] db1"
    using demo_reachable claim_steps[of "[demo_job]" "''w''" "[''index'']" "[]" 5 5 "[]"]
    unfolding db_def by (meson rtranclp.rtrancl_into_rtrancl rtranclp_trans)
  then have ok: "jobs_ok db1" by (rule reachable_ok)
  have h: "held db1 (c_job_id c) ''w'' = Some (hd db1)" "j_cancel_requested (hd db1)"
    unfolding db1_def db_def c_def by code_simp+
  have "\<exists>j'. row_get j_id (c_job_id c)
      (run_claimed ''w'' demo_type c [Progress 40 None 7, CheckCanceled] (Returned (Some 3)) 8 db1) =
      Some j' \<and> j_state j' = JCanceled \<and> j_result j' = None"
    by (rule cancel_request_honoured[OF ok h])
  moreover have "length (run_claimed ''w'' demo_type c [Progress 40 None 7, CheckCanceled]
      (Returned (Some 3)) 8 db1) = 1"
    unfolding c_def db1_def db_def by code_simp
  ultimately have "map j_state (run_claimed ''w'' demo_type c [Progress 40 None 7, CheckCanceled]
      (Returned (Some 3)) 8 db1) = [JCanceled]"
    by (auto simp: length_Suc_conv row_get_def split: if_splits)
  then show ?thesis unfolding c_def db1_def db_def by (simp add: Let_def split_beta)
qed

end
