(* ===== verification/RunState.thy ===== *)
theory RunState
  imports Jobs
begin

text \<open>
  The life of a conversation run: the status machine of
  \<^verbatim>\<open>services/conversation_run_creation.py\<close>, the transitions, cancellation and heartbeat of
  \<^verbatim>\<open>services/conversation_run_state.py\<close> and \<^verbatim>\<open>services/conversation_run_transitions.py\<close>, the
  projection on API and trigger envelopes of
  \<^verbatim>\<open>services/conversation_run_envelope_projection.py\<close>, the stale sweep of
  \<^verbatim>\<open>services/conversation_run_creation_persistence.py\<close> and the two recoveries of abandoned runs.

  The rows are those of \<^verbatim>\<open>models/conversation_run.py\<close> (attribution and policy columns, which
  no transition reads, are left out). Trace and artifact output of a finished run is written
  by other services; of it only the run's \<open>last_event_id\<close> is kept here.
\<close>

section \<open>Rows\<close>

datatype run_status = Queued | Running | Interrupted | Canceling | Canceled | Completed | Failed | Stale

definition run_active_statuses :: "run_status list" where
  "run_active_statuses = [Queued, Running, Canceling]"

definition run_terminal_statuses :: "run_status list" where
  "run_terminal_statuses = [Completed, Failed, Interrupted, Canceled, Stale]"

fun allowed_transitions :: "run_status \<Rightarrow> run_status list" where
  "allowed_transitions Queued = [Running, Failed, Stale, Canceling]"
| "allowed_transitions Running = [Completed, Failed, Interrupted, Canceling, Stale]"
| "allowed_transitions Canceling = [Canceled, Failed, Stale]"
| "allowed_transitions Completed = []"
| "allowed_transitions Failed = []"
| "allowed_transitions Interrupted = []"
| "allowed_transitions Canceled = []"
| "allowed_transitions Stale = []"

record run =
  r_id :: uuid
  r_conversation_id :: uuid
  r_agent_id :: "uuid option"
  r_user_id :: uuid
  r_parent_run_id :: "uuid option"
  r_source :: string
  r_status :: run_status
  r_is_active :: bool
  r_worker :: "string option"
  r_interrupt_id :: "string option"
  r_input_preview :: "string option"
  r_last_event_id :: "string option"
  r_error_code :: "string option"
  r_error_message :: "string option"
  r_cancel_requested_at :: "micros option"
  r_cancel_reason :: "string option"
  r_cancellation_acknowledged_at :: "micros option"
  r_started_at :: "micros option"
  r_heartbeat_at :: "micros option"
  r_completed_at :: "micros option"
  r_created_at :: micros
  r_materialization :: "string option"

datatype run_error = InvalidTransition run_status run_status | AckRequiresOwner
  | CannotCancel run_status | RunNotFound | ConversationNotFound | ExecutionDenied
  | Conflict string | UniqueViolation | QuotaExceeded | InputNotFound | InvalidPayload string

section \<open>One transition\<close>

record transition_args =
  ta_worker :: "string option"
  ta_interrupt_id :: "string option"
  ta_error_code :: "string option"
  ta_error_message :: "string option"
  ta_last_event_id :: "string option"
  ta_ack_worker :: "string option"
  ta_workerless :: bool

definition no_args :: transition_args where
  "no_args = \<lparr> ta_worker = None, ta_interrupt_id = None, ta_error_code = None,
     ta_error_message = None, ta_last_event_id = None, ta_ack_worker = None, ta_workerless = False \<rparr>"

definition owner_ack :: "transition_args \<Rightarrow> run \<Rightarrow> bool" where
  "owner_ack a r \<longleftrightarrow> ta_ack_worker a \<noteq> None \<and> r_worker r = ta_ack_worker a"

definition workerless_ack :: "transition_args \<Rightarrow> run \<Rightarrow> bool" where
  "workerless_ack a r \<longleftrightarrow> ta_workerless a \<and> r_worker r = None"

definition enter_running :: "transition_args \<Rightarrow> micros \<Rightarrow> run \<Rightarrow> run" where
  "enter_running a now r =
     (let r1 = r\<lparr> r_is_active := True, r_started_at := or_else (r_started_at r) (Some now),
                  r_heartbeat_at := Some now \<rparr>
      in if truthy (ta_worker a) then r1\<lparr> r_worker := ta_worker a \<rparr> else r1)"

definition enter_canceling :: "micros \<Rightarrow> run \<Rightarrow> run" where
  "enter_canceling now r =
     r\<lparr> r_is_active := True, r_cancel_requested_at := or_else (r_cancel_requested_at r) (Some now) \<rparr>"

definition enter_terminal :: "transition_args \<Rightarrow> run_status \<Rightarrow> micros \<Rightarrow> run \<Rightarrow> run" where
  "enter_terminal a status now r =
     (let r1 = r\<lparr> r_is_active := False, r_completed_at := or_else (r_completed_at r) (Some now) \<rparr>;
          r2 = (if r_cancel_requested_at r1 \<noteq> None \<and> (owner_ack a r1 \<or> workerless_ack a r1)
                then r1\<lparr> r_cancellation_acknowledged_at :=
                           or_else (r_cancellation_acknowledged_at r1) (Some now) \<rparr>
                else r1);
          r3 = (if status = Interrupted \<and> truthy (ta_interrupt_id a)
                then r2\<lparr> r_interrupt_id := ta_interrupt_id a \<rparr> else r2)
      in if status = Failed \<or> status = Stale
         then r3\<lparr> r_error_code := ta_error_code a, r_error_message := ta_error_message a \<rparr>
         else r3)"

definition enter_status :: "transition_args \<Rightarrow> run_status \<Rightarrow> micros \<Rightarrow> run \<Rightarrow> run" where
  "enter_status a status now r =
     (if status = Running then enter_running a now r
      else if status = Canceling then enter_canceling now r
      else if status \<in> set run_terminal_statuses then enter_terminal a status now r
      else r)"

definition transition_run :: "transition_args \<Rightarrow> run_status \<Rightarrow> micros \<Rightarrow> run \<Rightarrow> run_error + run" where
  "transition_run a status now r =
     (if status \<notin> set (allowed_transitions (r_status r))
      then Inl (InvalidTransition (r_status r) status)
      else if status \<in> set run_terminal_statuses \<and> r_cancel_requested_at r \<noteq> None \<and>
              \<not> (owner_ack a r \<or> workerless_ack a r) \<and> (ta_ack_worker a \<noteq> None \<or> ta_workerless a)
      then Inl AckRequiresOwner
      else
        let r0 = r\<lparr> r_status := status \<rparr>;
            r1 = (if truthy (ta_last_event_id a) then r0\<lparr> r_last_event_id := ta_last_event_id a \<rparr> else r0)
        in Inr (enter_status a status now r1))"

definition request_cancel_run :: "string \<Rightarrow> micros \<Rightarrow> run \<Rightarrow> run_error + run" where
  "request_cancel_run reason now r =
     (if r_status r \<in> set run_terminal_statuses \<or> r_status r = Canceling then Inr r
      else if r_status r \<notin> {Queued, Running} then Inl (CannotCancel (r_status r))
      else transition_run no_args Canceling now (r\<lparr> r_cancel_reason := Some reason \<rparr>))"

definition effective_terminal_status :: "transition_args \<Rightarrow> run_status \<Rightarrow> run \<Rightarrow> run_status" where
  "effective_terminal_status a proposed r =
     (if proposed \<noteq> Stale \<and> r_status r = Canceling \<and> (owner_ack a r \<or> workerless_ack a r)
      then Canceled else proposed)"

section \<open>The database\<close>

record envelope =
  e_id :: uuid
  e_run_id :: "uuid option"
  e_agent_id :: uuid
  e_status :: string

record conversation =
  v_id :: uuid
  v_user_id :: uuid
  v_org_id :: uuid
  v_tenant_id :: uuid
  v_agent_id :: "uuid option"
  v_queue_paused :: bool
  v_queue_paused_at :: "micros option"

record 'i rdb =
  d_runs :: "run list"
  d_api :: "envelope list"
  d_triggers :: "envelope list"
  d_convs :: "conversation list"
  d_inputs :: 'i

definition api_status_for_run :: "run_status \<Rightarrow> string" where
  "api_status_for_run s =
     (case s of Queued \<Rightarrow> ''pending'' | Running \<Rightarrow> ''running'' | Canceling \<Rightarrow> ''canceling''
      | Completed \<Rightarrow> ''succeeded'' | Canceled \<Rightarrow> ''canceled'' | Interrupted \<Rightarrow> ''waiting''
      | _ \<Rightarrow> ''failed'')"

definition trigger_status_for_run :: "run_status \<Rightarrow> string" where
  "trigger_status_for_run s =
     (case s of Queued \<Rightarrow> ''queued'' | Running \<Rightarrow> ''running'' | Canceling \<Rightarrow> ''canceling''
      | Completed \<Rightarrow> ''success'' | Canceled \<Rightarrow> ''canceled'' | Interrupted \<Rightarrow> ''waiting''
      | _ \<Rightarrow> ''failed'')"

text \<open>The first envelope linked to the run takes the projected status.\<close>

fun project_first :: "uuid \<Rightarrow> string \<Rightarrow> envelope list \<Rightarrow> envelope list" where
  "project_first run_id st [] = []"
| "project_first run_id st (e # es) =
     (if e_run_id e = Some run_id then e\<lparr> e_status := st \<rparr> # es
      else e # project_first run_id st es)"

definition project_owned_envelopes :: "run \<Rightarrow> 'i rdb \<Rightarrow> 'i rdb" where
  "project_owned_envelopes r db =
     db\<lparr> d_api := project_first (r_id r) (api_status_for_run (r_status r)) (d_api db),
         d_triggers := project_first (r_id r) (trigger_status_for_run (r_status r)) (d_triggers db) \<rparr>"

definition active_unlinked_envelopes :: "(uuid \<Rightarrow> uuid list \<Rightarrow> bool) \<Rightarrow> uuid list \<Rightarrow> 'i rdb \<Rightarrow>
    uuid list \<times> uuid list" where
  "active_unlinked_envelopes api_of agent_ids db =
     (if agent_ids = [] then ([], [])
      else (sort (map e_id (filter (\<lambda>e. api_of (e_agent_id e) agent_ids \<and> e_run_id e = None \<and>
                e_status e \<in> {''pending'', ''running'', ''canceling''}) (d_api db))),
            sort (map e_id (filter (\<lambda>e. e_agent_id e \<in> set agent_ids \<and> e_run_id e = None \<and>
                e_status e \<in> {''queued'', ''running'', ''canceling''}) (d_triggers db)))))"

text \<open>Write back a transitioned run: the row and its envelopes.\<close>

definition save_run :: "run \<Rightarrow> 'i rdb \<Rightarrow> 'i rdb" where
  "save_run r db = project_owned_envelopes r (db\<lparr> d_runs := row_put r_id r (d_runs db) \<rparr>)"

definition get_run :: "uuid \<Rightarrow> 'i rdb \<Rightarrow> run option" where
  "get_run run_id db = row_get r_id run_id (d_runs db)"

definition transition_in :: "transition_args \<Rightarrow> run_status \<Rightarrow> micros \<Rightarrow> run \<Rightarrow> 'i rdb \<Rightarrow>
    run_error + (run \<times> 'i rdb)" where
  "transition_in a status now r db =
     (case transition_run a status now r of
        Inl e \<Rightarrow> Inl e | Inr r' \<Rightarrow> Inr (r', save_run r' db))"

definition cancel_in :: "string \<Rightarrow> micros \<Rightarrow> run \<Rightarrow> 'i rdb \<Rightarrow> run_error + (run \<times> 'i rdb)" where
  "cancel_in reason now r db =
     (if r_status r \<in> set run_terminal_statuses \<or> r_status r = Canceling then Inr (r, db)
      else case request_cancel_run reason now r of
        Inl e \<Rightarrow> Inl e | Inr r' \<Rightarrow> Inr (r', save_run r' db))"

definition heartbeat_run :: "uuid \<Rightarrow> micros \<Rightarrow> 'i rdb \<Rightarrow> bool \<times> 'i rdb" where
  "heartbeat_run run_id now db =
     (case get_run run_id db of
        None \<Rightarrow> (False, db)
      | Some r \<Rightarrow>
          if \<not> r_is_active r \<or> r_status r \<notin> set run_active_statuses then (False, db)
          else (True, db\<lparr> d_runs := row_put r_id (r\<lparr> r_heartbeat_at := Some now \<rparr>) (d_runs db) \<rparr>))"

section \<open>The worker's transitions\<close>

text \<open>
  \<open>_transition\<close>: a rejected transition rolls the transaction back. \<open>terminal_event\<close> is the
  id of the terminal event the delivery produced, if any; a canceled run without one gets
  the id \<open><run id>-canceled\<close>.
\<close>

definition finalize_outputs :: "run_status \<Rightarrow> string option option \<Rightarrow> bool \<Rightarrow> run \<Rightarrow> run" where
  "finalize_outputs status terminal_event append_event r =
     (let event_id = (case terminal_event of
              Some i \<Rightarrow> i
            | None \<Rightarrow> if append_event \<and> status = Canceled then Some (r_id r @ ''-canceled'') else None)
      in if truthy event_id then r\<lparr> r_last_event_id := event_id \<rparr> else r)"

definition worker_transition :: "uuid \<Rightarrow> run_status \<Rightarrow> transition_args \<Rightarrow>
    (run_status \<Rightarrow> string option option) \<Rightarrow> micros \<Rightarrow> 'i rdb \<Rightarrow>
    run_error + ((run option \<times> run_status) \<times> 'i rdb)" where
  "worker_transition run_id status a terminal_event now db =
     (case get_run run_id db of
        None \<Rightarrow> Inr ((None, status), db)
      | Some r \<Rightarrow>
          (let eff = effective_terminal_status a status r;
               r1 = (if terminal_event eff \<noteq> None \<or> eff = Canceled
                     then finalize_outputs eff (terminal_event eff) (terminal_event eff = None) r
                     else r)
           in case transition_in a eff now r1 db of
                Inl e \<Rightarrow> Inl e
              | Inr (r', db') \<Rightarrow> Inr ((Some r', eff), db')))"

text \<open>
  \<open>_transition_to_running\<close>. \<open>authorized\<close>: the agent tree may still be executed;
  \<open>lockable\<close>: the gateway locks the run.
\<close>

definition transition_to_running :: "uuid \<Rightarrow> (run \<Rightarrow> bool) \<Rightarrow> bool \<Rightarrow> bool \<Rightarrow> string \<Rightarrow> bool \<Rightarrow> micros \<Rightarrow>
    'i rdb \<Rightarrow> run_error + ((run option \<times> bool) \<times> 'i rdb)" where
  "transition_to_running run_id owned authorized lockable worker start now db =
     (let found = (case get_run run_id db of Some r \<Rightarrow> if owned r then Some r else None | None \<Rightarrow> None) in
      if \<not> authorized
      then case found of
          None \<Rightarrow> Inr ((None, False), db)
        | Some r \<Rightarrow>
            if \<not> r_is_active r then Inr ((Some r, False), db)
            else if r_status r = Queued
            then (case cancel_in ''authority_revoked'' now r db of
                    Inl e \<Rightarrow> Inl e | Inr (_, db') \<Rightarrow> Inr ((None, False), db'))
            else Inr ((None, False), db)
      else case (if lockable then found else None) of
          None \<Rightarrow> Inr ((None, False), db)
        | Some r \<Rightarrow>
            if r_status r \<noteq> Queued \<or> \<not> start then Inr ((Some r, False), db)
            else (case transition_in (no_args\<lparr> ta_worker := Some worker \<rparr>) Running now r db of
                    Inl e \<Rightarrow> Inl e | Inr (r', db') \<Rightarrow> Inr ((Some r', True), db')))"

fun persist_shutdown_intent :: "uuid list \<Rightarrow> micros \<Rightarrow> 'i rdb \<Rightarrow> run_error + 'i rdb" where
  "persist_shutdown_intent [] now db = Inr db"
| "persist_shutdown_intent (k # ks) now db =
     (case get_run k db of
        None \<Rightarrow> persist_shutdown_intent ks now db
      | Some r \<Rightarrow>
          if r_status r = Queued \<or> r_status r = Running
          then (case cancel_in ''shutdown'' now r db of
                  Inl e \<Rightarrow> Inl e | Inr (_, db') \<Rightarrow> persist_shutdown_intent ks now db')
          else persist_shutdown_intent ks now db)"

section \<open>Cancel intents\<close>

record cancel_intent =
  ci_run_id :: uuid
  ci_status :: run_status
  ci_worker :: "string option"
  ci_reason :: string

definition stage_cancel_intent :: "uuid \<Rightarrow> string \<Rightarrow> micros \<Rightarrow> 'i rdb \<Rightarrow> run_error + (cancel_intent \<times> 'i rdb)" where
  "stage_cancel_intent run_id reason now db =
     (case get_run run_id db of
        None \<Rightarrow> Inl RunNotFound
      | Some r \<Rightarrow>
          (case (if r_status r \<notin> set run_terminal_statuses then cancel_in reason now r db else Inr (r, db)) of
             Inl e \<Rightarrow> Inl e
           | Inr (r', db') \<Rightarrow> Inr (\<lparr> ci_run_id = r_id r', ci_status = r_status r',
                 ci_worker = r_worker r', ci_reason = reason \<rparr>, db')))"

text \<open>The local registry is asked only by the process that owns the run.\<close>

definition notify_local_owner :: "cancel_intent \<Rightarrow> string \<Rightarrow> bool" where
  "notify_local_owner i registry_worker \<longleftrightarrow>
     ci_status i = Canceling \<and> ci_worker i = Some registry_worker"

definition participant_run_conflicts :: "(uuid \<Rightarrow> bool) \<Rightarrow> 'i rdb \<Rightarrow> uuid list" where
  "participant_run_conflicts participates db =
     sort (map r_id (filter (\<lambda>r. participates (r_id r) \<and> (r_is_active r \<or>
        r_cancel_requested_at r \<noteq> None \<and> r_cancellation_acknowledged_at r = None)) (d_runs db)))"

section \<open>The stale sweep\<close>

definition reference_time :: "run \<Rightarrow> micros" where
  "reference_time r =
     (case r_heartbeat_at r of Some t \<Rightarrow> t
      | None \<Rightarrow> (case r_started_at r of Some t \<Rightarrow> t | None \<Rightarrow> r_created_at r))"

definition sweepable :: "micros \<Rightarrow> string option \<Rightarrow> bool \<Rightarrow> uuid list \<Rightarrow> uuid option \<Rightarrow> run \<Rightarrow> bool" where
  "sweepable stale_before worker include_workerless protected conv r \<longleftrightarrow>
     r_is_active r \<and> r_status r \<in> set run_active_statuses \<and> reference_time r \<le> stale_before \<and>
     r_status r \<noteq> Canceling \<and>
     (case conv of None \<Rightarrow> True | Some c \<Rightarrow> r_conversation_id r = c) \<and>
     r_id r \<notin> set protected \<and>
     (case worker of
        Some w \<Rightarrow> r_worker r = Some w \<or> include_workerless \<and> r_worker r = None
      | None \<Rightarrow> include_workerless \<or> r_worker r \<noteq> None)"

definition stale_args :: transition_args where
  "stale_args = no_args\<lparr> ta_error_code := Some ''stale_heartbeat'',
     ta_error_message := Some ''Run heartbeat exceeded the stale threshold.'' \<rparr>"

fun sweep_runs :: "micros \<Rightarrow> run list \<Rightarrow> 'i rdb \<Rightarrow> nat \<times> 'i rdb" where
  "sweep_runs now [] db = (0, db)"
| "sweep_runs now (r # rs) db =
     (case transition_in stale_args Stale now r db of
        Inl _ \<Rightarrow> sweep_runs now rs db
      | Inr (_, db') \<Rightarrow> (let (n, db'') = sweep_runs now rs db' in (Suc n, db'')))"

definition mark_stale_active_runs :: "micros \<Rightarrow> string option \<Rightarrow> bool \<Rightarrow> uuid list \<Rightarrow> uuid option \<Rightarrow> micros \<Rightarrow>
    'i rdb \<Rightarrow> nat \<times> 'i rdb" where
  "mark_stale_active_runs stale_before worker include_workerless protected conv now db =
     sweep_runs now (filter (sweepable stale_before worker include_workerless protected conv) (d_runs db)) db"

section \<open>Creating a run\<close>

definition private_scope :: "org_context \<Rightarrow> conversation \<Rightarrow> bool" where
  "private_scope c v \<longleftrightarrow> v_user_id v = oc_user_id c \<and> v_org_id v = oc_org_id c \<and>
     v_tenant_id v = oc_tenant_id c"

definition private_run :: "org_context \<Rightarrow> 'i rdb \<Rightarrow> run \<Rightarrow> bool" where
  "private_run c db r \<longleftrightarrow>
     (\<exists>v\<in>set (d_convs db). v_id v = r_conversation_id r \<and> v_user_id v = r_user_id r \<and> private_scope c v)"

definition get_active_run :: "uuid \<Rightarrow> org_context \<Rightarrow> 'i rdb \<Rightarrow> run option" where
  "get_active_run conversation_id c db =
     find (\<lambda>r. r_conversation_id r = conversation_id \<and> private_run c db r \<and> r_is_active r) (d_runs db)"

definition has_resume_child :: "'i rdb \<Rightarrow> run \<Rightarrow> bool" where
  "has_resume_child db r \<longleftrightarrow>
     (\<exists>x\<in>set (d_runs db). r_parent_run_id x = Some (r_id r) \<and>
        r_conversation_id x = r_conversation_id r \<and> r_user_id x = r_user_id r \<and>
        r_source x = ''resume'')"

definition latest_interrupted_run :: "uuid \<Rightarrow> org_context \<Rightarrow> 'i rdb \<Rightarrow> run option" where
  "latest_interrupted_run conversation_id c db =
     first_by (\<lambda>r. ((case r_completed_at r of None \<Rightarrow> (0, 0) | Some t \<Rightarrow> (1::nat, - t)), - r_created_at r))
       (filter (\<lambda>r. r_conversation_id r = conversation_id \<and> private_run c db r \<and>
          r_status r = Interrupted \<and> \<not> has_resume_child db r) (d_runs db))"

record create_args =
  k_source :: string
  k_input_preview :: "string option"
  k_parent :: "uuid option"
  k_interrupt_id :: "string option"
  k_legacy_resume :: bool

text \<open>The checks of a resume, as a refusal.\<close>

definition resume_refusal :: "uuid \<Rightarrow> org_context \<Rightarrow> create_args \<Rightarrow> (run \<Rightarrow> bool) \<Rightarrow> 'i rdb \<Rightarrow>
    run_error option" where
  "resume_refusal conversation_id c k policy_matches db =
     (case k_parent k of
        None \<Rightarrow>
          if \<not> k_legacy_resume k \<or> \<not> truthy (k_interrupt_id k)
          then Some (Conflict ''Resume run requires an interrupted parent run'')
          else if \<exists>r\<in>set (d_runs db). r_conversation_id r = conversation_id \<and> private_run c db r \<and>
                    r_source r = ''resume'' \<and> r_parent_run_id r = None \<and>
                    r_interrupt_id r = k_interrupt_id k
          then Some (Conflict ''Legacy interrupted run was already resumed'')
          else None
      | Some parent \<Rightarrow>
          (case latest_interrupted_run conversation_id c db of
             None \<Rightarrow> Some (Conflict ''Resume run must target the latest interrupted run'')
           | Some latest \<Rightarrow>
               if r_id latest \<noteq> parent
               then Some (Conflict ''Resume run must target the latest interrupted run'')
               else if truthy (r_interrupt_id latest) \<and> r_interrupt_id latest \<noteq> k_interrupt_id k
               then Some (Conflict ''Resume interrupt id does not match the interrupted run'')
               else if \<not> policy_matches latest then Some (Conflict ''runtime_policy_snapshot'')
               else None))"

definition new_run :: "uuid \<Rightarrow> micros \<Rightarrow> uuid \<Rightarrow> uuid \<Rightarrow> org_context \<Rightarrow> create_args \<Rightarrow> run" where
  "new_run run_id now conversation_id agent_id c k =
     \<lparr> r_id = run_id, r_conversation_id = conversation_id, r_agent_id = Some agent_id,
       r_user_id = oc_user_id c, r_parent_run_id = k_parent k, r_source = k_source k,
       r_status = Queued, r_is_active = True, r_worker = None,
       r_interrupt_id = (if k_source k = ''resume'' then k_interrupt_id k else None),
       r_input_preview = (if truthy (k_input_preview k)
          then map_option (take 500) (k_input_preview k) else None),
       r_last_event_id = None, r_error_code = None, r_error_message = None,
       r_cancel_requested_at = None, r_cancel_reason = None, r_cancellation_acknowledged_at = None,
       r_started_at = None, r_heartbeat_at = None, r_completed_at = None, r_created_at = now,
       r_materialization = None \<rparr>"

text \<open>The primary key and \<open>uq_conversation_runs_active_conversation\<close> at \<open>flush\<close>.\<close>

definition insert_run :: "run \<Rightarrow> 'i rdb \<Rightarrow> 'i rdb option" where
  "insert_run r db =
     (if r_id r \<in> set (map r_id (d_runs db)) \<or>
         (r_is_active r \<and> (\<exists>x\<in>set (d_runs db). r_is_active x \<and> r_conversation_id x = r_conversation_id r))
      then None else Some (db\<lparr> d_runs := d_runs db @ [r] \<rparr>))"

text \<open>
  \<open>create_run_from_locked_proof\<close>. \<open>covered\<close>: the execution proof covers the conversation;
  \<open>gate\<close>: the refusal of the emergency stop or of the runtime policy, if any; \<open>admitted\<close>: the
  usage limits let a new run start. \<open>seen\<close> is the database the checks read, \<open>db\<close> the one the
  insert meets.
\<close>

definition create_run :: "bool \<Rightarrow> run_error option \<Rightarrow> (run \<Rightarrow> bool) \<Rightarrow> bool \<Rightarrow> 'i rdb \<Rightarrow> 'i rdb \<Rightarrow>
    uuid \<Rightarrow> micros \<Rightarrow> uuid \<Rightarrow> uuid \<Rightarrow> org_context \<Rightarrow> create_args \<Rightarrow> run_error + (run \<times> 'i rdb)" where
  "create_run covered gate policy_matches admitted seen db run_id now conversation_id agent_id c k =
     (let visible = (\<exists>v\<in>set (d_convs seen). v_id v = conversation_id \<and>
                       v_agent_id v = Some agent_id \<and> private_scope c v);
          held = row_get v_id conversation_id (d_convs seen) in
      if \<not> covered then Inl (if visible then ExecutionDenied else ConversationNotFound)
      else case held of
        None \<Rightarrow> Inl ConversationNotFound
      | Some v \<Rightarrow>
          if v_agent_id v \<noteq> Some agent_id then Inl ConversationNotFound
          else case gate of
            Some e \<Rightarrow> Inl e
          | None \<Rightarrow>
              if get_active_run conversation_id c seen \<noteq> None
              then Inl (Conflict ''Conversation already has an active run'')
              else case (if k_source k = ''resume''
                         then resume_refusal conversation_id c k policy_matches seen else None) of
                Some e \<Rightarrow> Inl e
              | None \<Rightarrow>
                  if k_source k \<noteq> ''resume'' \<and> \<not> admitted then Inl QuotaExceeded
                  else (let r = new_run run_id now conversation_id agent_id c k in
                        case insert_run r db of
                          None \<Rightarrow> Inl (if run_id \<in> set (map r_id (d_runs db)) then UniqueViolation
                                       else Conflict ''Conversation already has an active run'')
                        | Some db' \<Rightarrow> Inr (r, db')))"

section \<open>The invariant of a run\<close>

definition run_ok :: "run \<Rightarrow> bool" where
  "run_ok r \<longleftrightarrow>
     (r_is_active r \<longleftrightarrow> r_status r \<in> set run_active_statuses) \<and>
     (r_completed_at r \<noteq> None \<longleftrightarrow> r_status r \<in> set run_terminal_statuses) \<and>
     (r_status r = Canceling \<or> r_status r = Canceled \<longrightarrow> r_cancel_requested_at r \<noteq> None) \<and>
     (r_cancellation_acknowledged_at r \<noteq> None \<longrightarrow>
        r_cancel_requested_at r \<noteq> None \<and> r_status r \<in> set run_terminal_statuses) \<and>
     (r_status r = Running \<longrightarrow> r_started_at r \<noteq> None \<and> r_heartbeat_at r \<noteq> None)"

lemma status_split: "s \<in> set run_active_statuses \<longleftrightarrow> s \<notin> set run_terminal_statuses"
  by (cases s) (auto simp: run_active_statuses_def run_terminal_statuses_def)

lemma no_exit_from_terminal: "s \<in> set run_terminal_statuses \<Longrightarrow> allowed_transitions s = []"
  by (auto simp: run_terminal_statuses_def)

lemma allowed_targets:
  "t \<in> set (allowed_transitions s) \<Longrightarrow> s \<in> set run_active_statuses \<and> t \<noteq> Queued \<and>
     (t = Canceled \<longrightarrow> s = Canceling)"
  by (cases s) (auto simp: run_active_statuses_def)

lemma enter_running_fields [simp]:
  "r_id (enter_running a t r) = r_id r" "r_conversation_id (enter_running a t r) = r_conversation_id r"
  "r_user_id (enter_running a t r) = r_user_id r" "r_status (enter_running a t r) = r_status r"
  "r_is_active (enter_running a t r)" "r_completed_at (enter_running a t r) = r_completed_at r"
  "r_cancel_requested_at (enter_running a t r) = r_cancel_requested_at r"
  "r_cancellation_acknowledged_at (enter_running a t r) = r_cancellation_acknowledged_at r"
  "r_started_at (enter_running a t r) = or_else (r_started_at r) (Some t)"
  "r_heartbeat_at (enter_running a t r) = Some t"
  by (simp_all add: enter_running_def Let_def)

lemma enter_canceling_fields [simp]:
  "r_id (enter_canceling t r) = r_id r" "r_conversation_id (enter_canceling t r) = r_conversation_id r"
  "r_user_id (enter_canceling t r) = r_user_id r" "r_status (enter_canceling t r) = r_status r"
  "r_is_active (enter_canceling t r)" "r_completed_at (enter_canceling t r) = r_completed_at r"
  "r_cancel_requested_at (enter_canceling t r) = or_else (r_cancel_requested_at r) (Some t)"
  "r_cancellation_acknowledged_at (enter_canceling t r) = r_cancellation_acknowledged_at r"
  by (simp_all add: enter_canceling_def)

lemma ack_frame [simp]:
  "owner_ack a (r_is_active_update f r) = owner_ack a r"
  "owner_ack a (r_completed_at_update g r) = owner_ack a r"
  "workerless_ack a (r_is_active_update f r) = workerless_ack a r"
  "workerless_ack a (r_completed_at_update g r) = workerless_ack a r"
  by (simp_all add: owner_ack_def workerless_ack_def)

lemma enter_terminal_fields [simp]:
  "r_id (enter_terminal a s t r) = r_id r"
  "r_conversation_id (enter_terminal a s t r) = r_conversation_id r"
  "r_user_id (enter_terminal a s t r) = r_user_id r" "r_status (enter_terminal a s t r) = r_status r"
  "\<not> r_is_active (enter_terminal a s t r)"
  "r_completed_at (enter_terminal a s t r) = or_else (r_completed_at r) (Some t)"
  "r_cancel_requested_at (enter_terminal a s t r) = r_cancel_requested_at r"
  "r_worker (enter_terminal a s t r) = r_worker r"
  "r_cancellation_acknowledged_at (enter_terminal a s t r) =
     (if r_cancel_requested_at r \<noteq> None \<and> (owner_ack a r \<or> workerless_ack a r)
      then or_else (r_cancellation_acknowledged_at r) (Some t) else r_cancellation_acknowledged_at r)"
  by (simp_all add: enter_terminal_def Let_def)

text \<open>A successful transition is a legal one into the entered status.\<close>

lemma transition_cases:
  assumes "transition_run a s now r = Inr r'"
  obtains r1 where "s \<in> set (allowed_transitions (r_status r))" "r' = enter_status a s now r1"
    "r_id r1 = r_id r" "r_conversation_id r1 = r_conversation_id r" "r_user_id r1 = r_user_id r"
    "r_status r1 = s" "r_is_active r1 = r_is_active r" "r_completed_at r1 = r_completed_at r"
    "r_cancel_requested_at r1 = r_cancel_requested_at r" "r_worker r1 = r_worker r"
    "r_cancellation_acknowledged_at r1 = r_cancellation_acknowledged_at r"
proof -
  let ?r0 = "r\<lparr> r_status := s \<rparr>"
  let ?r1 = "if truthy (ta_last_event_id a) then ?r0\<lparr> r_last_event_id := ta_last_event_id a \<rparr> else ?r0"
  have "s \<in> set (allowed_transitions (r_status r))" "r' = enter_status a s now ?r1"
    using assms unfolding transition_run_def by (simp_all add: Let_def split: if_split_asm)
  then show ?thesis by (rule that) simp_all
qed

lemma enter_status_fields:
  "r_id (enter_status a s t r) = r_id r"
  "r_conversation_id (enter_status a s t r) = r_conversation_id r"
  "r_user_id (enter_status a s t r) = r_user_id r" "r_status (enter_status a s t r) = r_status r"
  by (simp_all add: enter_status_def)

lemma transition_fields:
  assumes "transition_run a s now r = Inr r'"
  shows "r_id r' = r_id r" "r_conversation_id r' = r_conversation_id r" "r_user_id r' = r_user_id r"
    "r_status r' = s" "s \<in> set (allowed_transitions (r_status r))"
  by (rule transition_cases[OF assms]; simp add: enter_status_fields)+

lemma transition_ok:
  assumes "transition_run a s now r = Inr r'" "run_ok r"
  shows "run_ok r'"
  using assms(1)
proof (rule transition_cases)
  fix r1 assume s: "s \<in> set (allowed_transitions (r_status r))" and r': "r' = enter_status a s now r1"
    and f: "r_status r1 = s" "r_completed_at r1 = r_completed_at r"
    "r_cancel_requested_at r1 = r_cancel_requested_at r"
    "r_cancellation_acknowledged_at r1 = r_cancellation_acknowledged_at r"
  have act: "r_status r \<in> set run_active_statuses" "s \<noteq> Queued" "s = Canceled \<longrightarrow> r_status r = Canceling"
    using allowed_targets[OF s] by auto
  have nc: "r_completed_at r = None" "r_cancellation_acknowledged_at r = None"
    "r_status r = Canceling \<Longrightarrow> r_cancel_requested_at r \<noteq> None"
    using assms(2) act(1) by (auto simp: run_ok_def status_split)
  consider "s = Running" | "s = Canceling" | "s \<in> set run_terminal_statuses"
    using act(2) by (cases s) (auto simp: run_terminal_statuses_def)
  then show ?thesis
  proof cases
    case 3
    then have "s \<noteq> Running" "s \<noteq> Canceling" "s \<notin> set run_active_statuses"
      by (auto simp: run_terminal_statuses_def run_active_statuses_def)
    then show ?thesis unfolding r' using 3 f act nc by (auto simp: run_ok_def enter_status_def)
  qed (use f nc in \<open>auto simp: r' run_ok_def enter_status_def run_active_statuses_def
      run_terminal_statuses_def\<close>)
qed

definition runs_ok :: "'i rdb \<Rightarrow> bool" where
  "runs_ok db \<longleftrightarrow> distinct (map r_id (d_runs db)) \<and> (\<forall>r\<in>set (d_runs db). run_ok r) \<and>
     (\<forall>x\<in>set (d_runs db). \<forall>y\<in>set (d_runs db). r_is_active x \<and> r_is_active y \<and>
        r_conversation_id x = r_conversation_id y \<longrightarrow> r_id x = r_id y)"

text \<open>What a run may become: nothing, another attribute of the same status, or a transition.\<close>

definition run_move :: "run \<Rightarrow> run \<Rightarrow> bool" where
  "run_move r r' \<longleftrightarrow> r_id r' = r_id r \<and> r_conversation_id r' = r_conversation_id r \<and>
     r_user_id r' = r_user_id r \<and> run_ok r' \<and>
     (r_status r' = r_status r \<and> r_is_active r' = r_is_active r \<and>
        r_status r \<in> set run_active_statuses \<or>
      r_status r' \<in> set (allowed_transitions (r_status r)))"

abbreviation run_moves :: "run \<Rightarrow> run \<Rightarrow> bool" where
  "run_moves \<equiv> rtranclp run_move"

interpretation run_row: invariant_system run_move run_ok
  by unfold_locales (simp add: run_move_def)

interpretation runs_table: row_store r_id "row_get r_id" "row_put r_id"
  by unfold_locales (auto simp: row_simps dest: row_get_Some)

lemma run_move_active: "run_move r r' \<Longrightarrow> run_ok r \<Longrightarrow> r_is_active r"
  using allowed_targets[of "r_status r'" "r_status r"] unfolding run_move_def run_ok_def by blast

lemma moves_terminal_run:
  assumes "run_moves r r'" "run_ok r" "r_status r \<in> set run_terminal_statuses"
  shows "r' = r"
  using assms
proof (induction rule: converse_rtranclp_induct)
  case (step a b)
  then show ?case using run_move_active[of a b] by (auto simp: run_ok_def status_split)
qed simp

definition run_rows_move :: "'i rdb \<Rightarrow> 'i rdb \<Rightarrow> bool" where
  "run_rows_move db db' \<longleftrightarrow> (\<forall>k r. get_run k db = Some r \<longrightarrow>
     (\<exists>r'. get_run k db' = Some r' \<and> run_moves r r'))"

lemma run_rows_refl [simp]: "run_rows_move db db"
  by (auto simp: run_rows_move_def)

lemma run_rows_trans: "run_rows_move a b \<Longrightarrow> run_rows_move b c \<Longrightarrow> run_rows_move a c"
  unfolding run_rows_move_def by (meson rtranclp_trans)

text \<open>Only the run table matters to the invariant.\<close>

lemma runs_ok_cong: "d_runs db' = d_runs db \<Longrightarrow> runs_ok db' = runs_ok db"
  by (simp add: runs_ok_def)

lemma run_rows_cong: "d_runs db' = d_runs db \<Longrightarrow> run_rows_move db db'"
  by (auto simp: run_rows_move_def get_run_def)

lemma save_run_fields [simp]:
  "d_runs (save_run r db) = row_put r_id r (d_runs db)" "d_convs (save_run r db) = d_convs db"
  "d_inputs (save_run r db) = d_inputs db"
  by (simp_all add: save_run_def project_owned_envelopes_def)

lemma put_run_move:
  assumes ok: "runs_ok db" and r: "r \<in> set (d_runs db)" and mv: "run_move r r'"
    and db': "d_runs db' = row_put r_id r' (d_runs db)"
  shows "runs_ok db' \<and> run_rows_move db db'"
proof -
  have id: "r_id r' = r_id r" "r_conversation_id r' = r_conversation_id r" "run_ok r'"
    using mv by (auto simp: run_move_def)
  have act: "r_is_active r" using run_move_active[OF mv] ok r by (auto simp: runs_ok_def)
  have g: "row_get r_id (r_id r') (d_runs db) = Some r"
    using ok r id row_get_distinct[of r_id "d_runs db" r] by (simp add: runs_ok_def)
  have mem: "\<exists>y\<in>set (d_runs db). r_id y = r_id x \<and> r_conversation_id y = r_conversation_id x \<and>
      (r_is_active x \<longrightarrow> r_is_active y)" if "x \<in> set (d_runs db')" for x
    using row_put_member[of x r_id r' "d_runs db"] that r id act unfolding db' by auto
  have "run_rows_move db db'"
    unfolding run_rows_move_def get_run_def db'
  proof (intro allI impI)
    fix k x assume x: "row_get r_id k (d_runs db) = Some x"
    show "\<exists>x'. row_get r_id k (row_put r_id r' (d_runs db)) = Some x' \<and> run_moves x x'"
      using runs_table.get_put[OF g, of k] g x mv by (cases "k = r_id r'") auto
  qed
  moreover have "run_ok x" if "x \<in> set (d_runs db')" for x
    using row_put_member[of x r_id r' "d_runs db"] that ok id(3) unfolding db' by (auto simp: runs_ok_def)
  moreover have "r_id x = r_id y"
    if "x \<in> set (d_runs db')" "y \<in> set (d_runs db')" "r_is_active x" "r_is_active y"
      "r_conversation_id x = r_conversation_id y" for x y
    using mem[OF that(1)] mem[OF that(2)] that(3-5) ok unfolding runs_ok_def by metis
  moreover have "distinct (map r_id (d_runs db'))" using ok unfolding runs_ok_def db' by simp
  ultimately show ?thesis unfolding runs_ok_def by blast
qed

lemma get_run_mem: "runs_ok db \<Longrightarrow> get_run k db = Some r \<Longrightarrow> r \<in> set (d_runs db) \<and> r_id r = k \<and> run_ok r"
  using row_get_Some[of r_id k "d_runs db" r] by (auto simp: get_run_def runs_ok_def)

end
