(* ===== verification/Json.thy ===== *)
theory Json
  imports Prelude
begin

text \<open>
  JSON values as the code handles them, and the standard library's encoders. Strings are
  UTF-8 byte strings. A float carries Python's \<open>repr\<close> of it and whether it is finite.
  An object is its list of members in insertion order.
\<close>

datatype json = JNull | JBool bool | JInt int | JFloat bool string | JStr string
  | JList "json list" | JObj "(string \<times> json) list"

section \<open>Numbers and strings\<close>

function digits :: "nat \<Rightarrow> string" where
  "digits n = (if n < 10 then [char_of (48 + n)] else digits (n div 10) @ [char_of (48 + n mod 10)])"
  by pat_completeness auto
termination by (relation "measure id") auto

declare digits.simps [simp del]

definition show_int :: "int \<Rightarrow> string" where
  "show_int i = (if i < 0 then CHR ''-'' # digits (nat (- i)) else digits (nat i))"

definition hex_digit :: "nat \<Rightarrow> char" where
  "hex_digit n = (if n < 10 then char_of (48 + n) else char_of (87 + n))"

definition code_of :: "char \<Rightarrow> nat" where
  "code_of c = of_char c"

text \<open>\<open>ESCAPE_DCT\<close> of the encoder with \<open>ensure_ascii=False\<close>.\<close>

definition escape_char :: "char \<Rightarrow> string" where
  "escape_char c =
     (if c = CHR 0x22 then [CHR 0x5C, CHR 0x22]
      else if c = CHR 0x5C then [CHR 0x5C, CHR 0x5C]
      else if c = CHR 0x0A then [CHR 0x5C, CHR ''n'']
      else if c = CHR 0x0D then [CHR 0x5C, CHR ''r'']
      else if c = CHR 0x09 then [CHR 0x5C, CHR ''t'']
      else if c = CHR 0x0C then [CHR 0x5C, CHR ''f'']
      else if c = CHR 0x08 then [CHR 0x5C, CHR ''b'']
      else if code_of c < 32
      then [CHR 0x5C, CHR ''u'', CHR ''0'', CHR ''0'', hex_digit (code_of c div 16), hex_digit (code_of c mod 16)]
      else [c])"

definition quote_json :: "string \<Rightarrow> string" where
  "quote_json s = [CHR 0x22] @ concat (map escape_char s) @ [CHR 0x22]"

fun join_with :: "string \<Rightarrow> string list \<Rightarrow> string" where
  "join_with sep [] = []"
| "join_with sep [x] = x"
| "join_with sep (x # xs) = x @ sep @ join_with sep xs"

section \<open>Access\<close>

definition jget :: "(string \<times> json) list \<Rightarrow> string \<Rightarrow> json" where
  "jget ms k = (case map_of ms k of None \<Rightarrow> JNull | Some v \<Rightarrow> v)"

fun hashable :: "json \<Rightarrow> bool" where
  "hashable (JList xs) = False"
| "hashable (JObj ms) = False"
| "hashable j = True"

text \<open>Truth of a JSON value.\<close>

fun json_true :: "json \<Rightarrow> bool" where
  "json_true JNull = False"
| "json_true (JBool b) = b"
| "json_true (JInt i) = (i \<noteq> 0)"
| "json_true (JFloat fin rep) = (rep \<noteq> ''0.0'' \<and> rep \<noteq> ''-0.0'')"
| "json_true (JStr s) = (s \<noteq> [])"
| "json_true (JList xs) = (xs \<noteq> [])"
| "json_true (JObj ms) = (ms \<noteq> [])"

section \<open>Encoding\<close>

text \<open>
  \<open>json.dumps(value, ensure_ascii=False, separators=(item, key))\<close>, with \<open>sort_keys\<close> as the
  order function applied to the members of an object.
\<close>

fun dumps :: "((string \<times> string) list \<Rightarrow> (string \<times> string) list) \<Rightarrow> string \<Rightarrow> string \<Rightarrow> json \<Rightarrow> string" where
  "dumps ord si sk JNull = ''null''"
| "dumps ord si sk (JBool b) = (if b then ''true'' else ''false'')"
| "dumps ord si sk (JInt i) = show_int i"
| "dumps ord si sk (JFloat fin rep) = rep"
| "dumps ord si sk (JStr s) = quote_json s"
| "dumps ord si sk (JList xs) = ''['' @ join_with si (map (dumps ord si sk) xs) @ '']''"
| "dumps ord si sk (JObj ms) = ''{'' @ join_with si
     (map (\<lambda>(k, v). quote_json k @ sk @ v) (ord (map (\<lambda>(k, v). (k, dumps ord si sk v)) ms))) @ ''}''"

definition dumps_compact :: "json \<Rightarrow> string" where
  "dumps_compact v = dumps id '','' '':'' v"

definition dumps_sorted :: "json \<Rightarrow> string" where
  "dumps_sorted v = dumps (sort_key fst) '','' '':'' v"

end
