(* ===== verification/RunQueue.thy ===== *)
theory RunQueue
  imports RunState Json "HOL-Library.Multiset"
begin

text \<open>
  The queue of user inputs waiting for a run: enqueueing
  (\<^verbatim>\<open>services/conversation_run_queue_persistence.py\<close>), edits, deletion, reordering, pausing
  (\<^verbatim>\<open>conversation_run_queue_mutations.py\<close>), steering (\<^verbatim>\<open>conversation_run_queue_promotion.py\<close>),
  dispatch (\<^verbatim>\<open>conversation_run_queue_claim.py\<close>, \<^verbatim>\<open>conversation_run_queue_blocked.py\<close>), the
  failure of a claimed input (\<^verbatim>\<open>conversation_run_queue_launch.py\<close>), the payload check
  (\<^verbatim>\<open>conversation_run_queue_payload.py\<close>) and the recoveries that touch inputs.

  Every operation runs under the conversation's row lock, so it is one step. Whether the
  conversation may be executed (\<open>require_queue_executable\<close>) is decided elsewhere: its answer,
  an agent or a refusal, is an argument.
\<close>

section \<open>Rows\<close>

datatype input_status = Pending | Claimed | InputCanceled | InputFailed

record rinput =
  i_id :: uuid
  i_conversation_id :: uuid
  i_agent_id :: "uuid option"
  i_user_id :: uuid
  i_run_id :: "uuid option"
  i_client_request_id :: string
  i_source :: string
  i_status :: input_status
  i_priority :: int
  i_position :: int
  i_revision :: int
  i_payload :: json
  i_attachment_ids :: "string list"
  i_checkpoint_id :: "string option"
  i_claimed_at :: "micros option"
  i_created_at :: micros

type_synonym qdb = "rinput list rdb"

section \<open>The payload check\<close>

definition max_queue_input_bytes :: int where
  "max_queue_input_bytes = 256 * 1024"

definition max_queue_input_depth :: nat where
  "max_queue_input_depth = 20"

text \<open>\<open>_validate_value\<close>: \<open>None\<close>, or the detail of the refusal.\<close>

fun validate_value :: "nat \<Rightarrow> json \<Rightarrow> string option"
  and validate_list :: "nat \<Rightarrow> json list \<Rightarrow> string option"
  and validate_members :: "nat \<Rightarrow> (string \<times> json) list \<Rightarrow> string option" where
  "validate_value depth v =
     (if depth > max_queue_input_depth then Some ''Queued input exceeds maximum nesting depth''
      else case v of
        JFloat fin rep \<Rightarrow> if fin then None else Some ''Queued input must contain finite numbers''
      | JList xs \<Rightarrow> validate_list (Suc depth) xs
      | JObj ms \<Rightarrow> validate_members (Suc depth) ms
      | _ \<Rightarrow> None)"
| "validate_list depth [] = None"
| "validate_list depth (v # vs) =
     (case validate_value depth v of Some e \<Rightarrow> Some e | None \<Rightarrow> validate_list depth vs)"
| "validate_members depth [] = None"
| "validate_members depth ((k, v) # ms) =
     (case validate_value depth v of Some e \<Rightarrow> Some e | None \<Rightarrow> validate_members depth ms)"

definition validate_payload :: "json \<Rightarrow> string option" where
  "validate_payload v =
     (case validate_value 1 v of
        Some e \<Rightarrow> Some e
      | None \<Rightarrow> if int (length (dumps_compact v)) > max_queue_input_bytes
                then Some ''Queued input exceeds maximum size'' else None)"

section \<open>Helpers of every operation\<close>

definition owned_input :: "org_context \<Rightarrow> rinput \<Rightarrow> bool" where
  "owned_input c i \<longleftrightarrow> i_user_id i = oc_user_id c"

definition lock_owned_conversation :: "uuid \<Rightarrow> org_context \<Rightarrow> 'i rdb \<Rightarrow> run_error + conversation" where
  "lock_owned_conversation conversation_id c db =
     (case find (\<lambda>v. v_id v = conversation_id \<and> private_scope c v) (d_convs db) of
        None \<Rightarrow> Inl InputNotFound | Some v \<Rightarrow> Inr v)"

definition input_order :: "rinput \<Rightarrow> int \<times> int \<times> micros" where
  "input_order i = (- i_priority i, i_position i, i_created_at i)"

definition list_inputs :: "uuid \<Rightarrow> qdb \<Rightarrow> rinput list" where
  "list_inputs conversation_id db =
     sort_key input_order (filter (\<lambda>i. i_conversation_id i = conversation_id) (d_inputs db))"

definition put_input :: "rinput \<Rightarrow> qdb \<Rightarrow> qdb" where
  "put_input i db = db\<lparr> d_inputs := row_put i_id i (d_inputs db) \<rparr>"

definition put_conv :: "conversation \<Rightarrow> 'i rdb \<Rightarrow> 'i rdb" where
  "put_conv v db = db\<lparr> d_convs := row_put v_id v (d_convs db) \<rparr>"

definition pause_conv :: "micros \<Rightarrow> conversation \<Rightarrow> conversation" where
  "pause_conv now v =
     v\<lparr> v_queue_paused := True, v_queue_paused_at := or_else (v_queue_paused_at v) (Some now) \<rparr>"

definition next_position :: "uuid \<Rightarrow> qdb \<Rightarrow> int" where
  "next_position conversation_id db =
     (let ps = map i_position (filter (\<lambda>i. i_conversation_id i = conversation_id) (d_inputs db))
      in (if ps = [] then 0 else Max (set ps)) + 1)"

definition by_request :: "uuid \<Rightarrow> string \<Rightarrow> qdb \<Rightarrow> rinput option" where
  "by_request conversation_id request_id db =
     find (\<lambda>i. i_conversation_id i = conversation_id \<and> i_client_request_id i = request_id) (d_inputs db)"

section \<open>Enqueue\<close>

record input_request =
  u_client_request_id :: string
  u_source :: string
  u_payload :: json
  u_attachment_ids :: "uuid list"
  u_checkpoint_id :: "string option"
  u_priority :: int

definition enqueue_input :: "(run_error + uuid) \<Rightarrow> uuid \<Rightarrow> micros \<Rightarrow> uuid \<Rightarrow> org_context \<Rightarrow> input_request \<Rightarrow>
    qdb \<Rightarrow> run_error + ((rinput \<times> bool) \<times> qdb)" where
  "enqueue_input executable input_id now conversation_id c u db =
     (case validate_payload (u_payload u) of
        Some e \<Rightarrow> Inl (InvalidPayload e)
      | None \<Rightarrow>
     (case executable of
        Inl e \<Rightarrow> Inl e
      | Inr agent_id \<Rightarrow>
     (case lock_owned_conversation conversation_id c db of
        Inl e \<Rightarrow> Inl e
      | Inr v \<Rightarrow>
     (case by_request conversation_id (u_client_request_id u) db of
        Some i \<Rightarrow>
          if i_payload i = u_payload u \<and> i_attachment_ids i = u_attachment_ids u \<and>
             i_checkpoint_id i = u_checkpoint_id u \<and> i_source i = u_source u
          then Inr ((i, False), db)
          else Inl (Conflict ''Client request id was already used for different input'')
      | None \<Rightarrow>
          (let i = \<lparr> i_id = input_id, i_conversation_id = v_id v, i_agent_id = Some agent_id,
                i_user_id = oc_user_id c, i_run_id = None,
                i_client_request_id = u_client_request_id u, i_source = u_source u,
                i_status = Pending, i_priority = u_priority u,
                i_position = next_position conversation_id db, i_revision = 1,
                i_payload = u_payload u, i_attachment_ids = u_attachment_ids u,
                i_checkpoint_id = u_checkpoint_id u, i_claimed_at = None, i_created_at = now \<rparr>
           in Inr ((i, True), db\<lparr> d_inputs := d_inputs db @ [i] \<rparr>))))))"

definition persist_direct_input :: "uuid \<Rightarrow> micros \<Rightarrow> run \<Rightarrow> org_context \<Rightarrow> string \<Rightarrow> json \<Rightarrow> uuid list \<Rightarrow>
    qdb \<Rightarrow> run_error + (rinput \<times> qdb)" where
  "persist_direct_input input_id now r c request_id payload attachments db =
     (case lock_owned_conversation (r_conversation_id r) c db of
        Inl e \<Rightarrow> Inl e
      | Inr v \<Rightarrow>
          if r_user_id r \<noteq> oc_user_id c \<or> r_agent_id r \<noteq> v_agent_id v then Inl InputNotFound
          else if by_request (r_conversation_id r) request_id db \<noteq> None
          then Inl (Conflict ''Client request id was already used for a conversation input'')
          else
            let i = \<lparr> i_id = input_id, i_conversation_id = r_conversation_id r, i_agent_id = r_agent_id r,
                i_user_id = r_user_id r, i_run_id = Some (r_id r), i_client_request_id = request_id,
                i_source = ''chat'', i_status = Claimed, i_priority = 0,
                i_position = next_position (r_conversation_id r) db, i_revision = 1,
                i_payload = payload, i_attachment_ids = attachments, i_checkpoint_id = None,
                i_claimed_at = Some now, i_created_at = now \<rparr>
            in Inr (i, db\<lparr> d_inputs := d_inputs db @ [i] \<rparr>))"

section \<open>Changes of pending inputs\<close>

definition pending_input :: "(run_error + uuid) \<Rightarrow> uuid \<Rightarrow> uuid \<Rightarrow> org_context \<Rightarrow> int \<Rightarrow> qdb \<Rightarrow>
    run_error + rinput" where
  "pending_input executable conversation_id input_id c expected_revision db =
     (case executable of
        Inl e \<Rightarrow> Inl e
      | Inr _ \<Rightarrow>
     (case lock_owned_conversation conversation_id c db of
        Inl e \<Rightarrow> Inl e
      | Inr _ \<Rightarrow>
     (case find (\<lambda>i. i_id i = input_id \<and> i_conversation_id i = conversation_id \<and> owned_input c i)
             (d_inputs db) of
        None \<Rightarrow> Inl InputNotFound
      | Some i \<Rightarrow>
          if i_status i \<noteq> Pending
          then Inl (Conflict ''Only pending conversation inputs can be changed'')
          else if i_revision i \<noteq> expected_revision
          then Inl (Conflict ''Conversation input revision is stale'')
          else Inr i)))"

definition edit_pending_input :: "(run_error + uuid) \<Rightarrow> uuid \<Rightarrow> uuid \<Rightarrow> org_context \<Rightarrow> int \<Rightarrow> json \<Rightarrow> qdb \<Rightarrow>
    run_error + (rinput \<times> qdb)" where
  "edit_pending_input executable conversation_id input_id c expected_revision payload db =
     (case validate_payload payload of
        Some e \<Rightarrow> Inl (InvalidPayload e)
      | None \<Rightarrow>
          if (case payload of JObj ms \<Rightarrow> ''attachments'' \<in> set (map fst ms) | _ \<Rightarrow> False)
          then Inl (Conflict ''Queued attachments cannot be changed through input edit'')
          else case pending_input executable conversation_id input_id c expected_revision db of
            Inl e \<Rightarrow> Inl e
          | Inr i \<Rightarrow>
              (let i' = i\<lparr> i_payload := payload, i_revision := i_revision i + 1 \<rparr>
               in Inr (i', put_input i' db)))"

definition delete_pending_input :: "(run_error + uuid) \<Rightarrow> uuid \<Rightarrow> uuid \<Rightarrow> org_context \<Rightarrow> int \<Rightarrow> qdb \<Rightarrow>
    run_error + (rinput \<times> qdb)" where
  "delete_pending_input executable conversation_id input_id c expected_revision db =
     (case pending_input executable conversation_id input_id c expected_revision db of
        Inl e \<Rightarrow> Inl e
      | Inr i \<Rightarrow>
          (let i' = i\<lparr> i_status := InputCanceled, i_revision := i_revision i + 1 \<rparr>
           in Inr (i', put_input i' db)))"

text \<open>The loop of \<open>reorder_pending_inputs\<close> over the ids with their new positions.\<close>

fun reorder_loop :: "(uuid, int) dict \<Rightarrow> int \<Rightarrow> uuid list \<Rightarrow> rinput list \<Rightarrow> run_error + rinput list" where
  "reorder_loop expected position [] inputs = Inr inputs"
| "reorder_loop expected position (k # ks) inputs =
     (case row_get i_id k inputs of
        None \<Rightarrow> Inl InputNotFound
      | Some i \<Rightarrow>
          if map_of expected k \<noteq> Some (i_revision i)
          then Inl (Conflict ''Conversation input revision is stale'')
          else reorder_loop expected (position + 1) ks
                 (row_put i_id (i\<lparr> i_position := position, i_revision := i_revision i + 1 \<rparr>) inputs))"

definition reorder_pending_inputs :: "(run_error + uuid) \<Rightarrow> uuid \<Rightarrow> org_context \<Rightarrow> uuid list \<Rightarrow>
    (uuid, int) dict \<Rightarrow> qdb \<Rightarrow> run_error + qdb" where
  "reorder_pending_inputs executable conversation_id c ordered expected db =
     (case executable of
        Inl e \<Rightarrow> Inl e
      | Inr _ \<Rightarrow>
     (case lock_owned_conversation conversation_id c db of
        Inl e \<Rightarrow> Inl e
      | Inr _ \<Rightarrow>
          (let pending = filter (\<lambda>i. i_conversation_id i = conversation_id \<and> owned_input c i \<and>
                 i_status i = Pending) (d_inputs db)
           in if \<not> distinct ordered \<or> set ordered \<noteq> set (map i_id pending)
              then Inl (Conflict ''Reorder must include every pending conversation input exactly once'')
              else case reorder_loop expected 1 ordered (d_inputs db) of
                Inl e \<Rightarrow> Inl e | Inr inputs \<Rightarrow> Inr (db\<lparr> d_inputs := inputs \<rparr>))))"

definition pause_queue :: "(run_error + uuid) \<Rightarrow> uuid \<Rightarrow> org_context \<Rightarrow> micros \<Rightarrow> qdb \<Rightarrow> run_error + qdb" where
  "pause_queue executable conversation_id c now db =
     (case executable of
        Inl e \<Rightarrow> Inl e
      | Inr _ \<Rightarrow>
     (case lock_owned_conversation conversation_id c db of
        Inl e \<Rightarrow> Inl e
      | Inr v \<Rightarrow> Inr (put_conv (pause_conv now v) db)))"

definition resume_queue :: "(run_error + uuid) \<Rightarrow> uuid \<Rightarrow> org_context \<Rightarrow> qdb \<Rightarrow> run_error + qdb" where
  "resume_queue executable conversation_id c db =
     (case executable of
        Inl e \<Rightarrow> Inl e
      | Inr _ \<Rightarrow>
     (case lock_owned_conversation conversation_id c db of
        Inl e \<Rightarrow> Inl e
      | Inr v \<Rightarrow> Inr (put_conv (v\<lparr> v_queue_paused := False, v_queue_paused_at := None \<rparr>) db)))"

section \<open>Steering\<close>

definition interrupt_priority :: int where
  "interrupt_priority = 100"

definition promote_pending_input :: "(run_error + uuid) \<Rightarrow> uuid \<Rightarrow> uuid \<Rightarrow> org_context \<Rightarrow> int \<Rightarrow> micros \<Rightarrow>
    qdb \<Rightarrow> run_error + ((rinput \<times> uuid option) \<times> qdb)" where
  "promote_pending_input executable conversation_id input_id c expected_revision now db =
     (case executable of
        Inl e \<Rightarrow> Inl e
      | Inr _ \<Rightarrow>
     (case lock_owned_conversation conversation_id c db of
        Inl e \<Rightarrow> Inl e
      | Inr v \<Rightarrow>
          if v_queue_paused v then Inl (Conflict ''Resume the conversation queue before steering'')
          else
            let active = get_active_run conversation_id c db in
            case find (\<lambda>i. i_id i = input_id \<and> i_conversation_id i = conversation_id \<and> owned_input c i)
                   (d_inputs db) of
              None \<Rightarrow> Inl InputNotFound
            | Some i \<Rightarrow>
                if i_status i \<noteq> Pending
                then Inl (Conflict ''Only pending conversation inputs can be promoted'')
                else if i_revision i \<noteq> expected_revision
                then Inl (Conflict ''Conversation input revision is stale'')
                else if i_checkpoint_id i \<noteq> None
                then Inl (Conflict ''Queued edit and regenerate requests cannot be promoted'')
                else if interrupt_priority \<le> i_priority i
                then Inl (Conflict ''Conversation input is already promoted'')
                else if latest_interrupted_run conversation_id c db \<noteq> None
                then Inl (Conflict ''Resolve the pending approval before steering'')
                else
                  let i' = i\<lparr> i_priority := interrupt_priority, i_revision := i_revision i + 1 \<rparr>;
                      db1 = put_input i' db
                  in case active of
                       None \<Rightarrow> Inr ((i', None), db1)
                     | Some r \<Rightarrow>
                         (case cancel_in ''steer'' now r db1 of
                            Inl e \<Rightarrow> Inl e
                          | Inr (r', db2) \<Rightarrow> Inr ((i', Some (r_id r')), db2))))"

section \<open>Dispatch\<close>

text \<open>
  \<open>pause_blocked_queue\<close> with the block reason the denial maps to (\<open>block_reason\<close>): a denial
  that is no block, or a transient one, writes nothing.
\<close>

definition pause_blocked_queue :: "(string \<Rightarrow> bool) \<Rightarrow> string option \<Rightarrow> uuid \<Rightarrow> org_context \<Rightarrow> micros \<Rightarrow> qdb \<Rightarrow>
    run_error + qdb" where
  "pause_blocked_queue transient reason conversation_id c now db =
     (case reason of
        None \<Rightarrow> Inr db
      | Some x \<Rightarrow>
          if transient x then Inr db
          else case lock_owned_conversation conversation_id c db of
            Inl e \<Rightarrow> Inl e
          | Inr v \<Rightarrow>
              if v_queue_paused v then Inr db
              else Inr (put_conv (v\<lparr> v_queue_paused := True, v_queue_paused_at := Some now \<rparr>) db))"

definition transient_reason :: "string \<Rightarrow> bool" where
  "transient_reason r \<longleftrightarrow> r \<in> {''authz_unavailable'', ''quota_exceeded''}"

definition unacknowledged_predecessor :: "uuid \<Rightarrow> org_context \<Rightarrow> 'i rdb \<Rightarrow> bool" where
  "unacknowledged_predecessor conversation_id c db \<longleftrightarrow>
     (\<exists>r\<in>set (d_runs db). r_conversation_id r = conversation_id \<and> r_user_id r = oc_user_id c \<and>
        r_cancel_requested_at r \<noteq> None \<and> r_cancellation_acknowledged_at r = None)"

definition next_pending :: "uuid \<Rightarrow> org_context \<Rightarrow> qdb \<Rightarrow> rinput option" where
  "next_pending conversation_id c db =
     first_by input_order (filter (\<lambda>i. i_conversation_id i = conversation_id \<and> owned_input c i \<and>
       i_status i = Pending) (d_inputs db))"

definition chat_run_args :: create_args where
  "chat_run_args = \<lparr> k_source = ''chat'', k_input_preview = None, k_parent = None,
     k_interrupt_id = None, k_legacy_resume = False \<rparr>"

text \<open>
  \<open>claim_next_input\<close>. \<open>denial\<close>: \<open>Some reason\<close> when the dispatch check refused (the reason may
  itself be missing); \<open>gate\<close> and \<open>admitted\<close> are those of \<open>create_run\<close>, which the accepted
  execution calls with the queue's own conversation covered by its proof.
\<close>

definition claim_next_input :: "(run_error + uuid) \<Rightarrow> string option option \<Rightarrow> run_error option \<Rightarrow> bool \<Rightarrow>
    uuid \<Rightarrow> micros \<Rightarrow> uuid \<Rightarrow> org_context \<Rightarrow> qdb \<Rightarrow> run_error + ((rinput \<times> run) option \<times> qdb)" where
  "claim_next_input executable denial gate admitted run_id now conversation_id c db =
     (case executable of
        Inl e \<Rightarrow> Inl e
      | Inr agent_id \<Rightarrow>
     (case denial of
        Some reason \<Rightarrow>
          (case pause_blocked_queue transient_reason reason conversation_id c now db of
             Inl e \<Rightarrow> Inl e | Inr db' \<Rightarrow> Inr (None, db'))
      | None \<Rightarrow>
     (case lock_owned_conversation conversation_id c db of
        Inl e \<Rightarrow> Inl e
      | Inr v \<Rightarrow>
          if v_queue_paused v then Inr (None, db)
          else if get_active_run conversation_id c db \<noteq> None then Inr (None, db)
          else if unacknowledged_predecessor conversation_id c db
          then Inr (None, put_conv (pause_conv now v) db)
          else case next_pending conversation_id c db of
            None \<Rightarrow> Inr (None, db)
          | Some i \<Rightarrow>
              if i_agent_id i \<noteq> Some agent_id then Inl InputNotFound
              else if latest_interrupted_run conversation_id c db \<noteq> None then Inr (None, db)
              else case create_run True gate (\<lambda>_. True) admitted db db run_id now conversation_id
                          agent_id c chat_run_args of
                Inl e \<Rightarrow> Inl e
              | Inr (r, db') \<Rightarrow>
                  (let i' = i\<lparr> i_run_id := Some (r_id r), i_status := Claimed,
                              i_claimed_at := Some now, i_revision := i_revision i + 1 \<rparr>
                   in Inr (Some (i', r), put_input i' db')))))"

section \<open>Failures and recoveries that touch inputs\<close>

definition binding_matches :: "rinput \<Rightarrow> run \<Rightarrow> conversation \<Rightarrow> bool" where
  "binding_matches i r v \<longleftrightarrow>
     i_conversation_id i = r_conversation_id r \<and> r_conversation_id r = v_id v \<and>
     i_user_id i = r_user_id r \<and> r_user_id r = v_user_id v \<and>
     i_agent_id i = r_agent_id r \<and> r_agent_id r = v_agent_id v"

text \<open>\<open>_fail_claimed_input\<close>; a mismatched binding fails only the input.\<close>

definition fail_claimed_input :: "uuid \<Rightarrow> string \<Rightarrow> micros \<Rightarrow> qdb \<Rightarrow> run_error + qdb" where
  "fail_claimed_input input_id error_code now db =
     (case row_get i_id input_id (d_inputs db) of
        None \<Rightarrow> Inr db
      | Some i \<Rightarrow>
     (case i_run_id i of
        None \<Rightarrow> Inr db
      | Some run_id \<Rightarrow>
     (case (row_get v_id (i_conversation_id i) (d_convs db), get_run run_id db) of
        (Some v, Some r) \<Rightarrow>
          if r_status r \<noteq> Queued then Inr db
          else
            let db1 = put_input (i\<lparr> i_status := InputFailed, i_revision := i_revision i + 1 \<rparr>) db
            in if \<not> binding_matches i r v then Inr db1
               else (case transition_in (no_args\<lparr> ta_error_code := Some error_code,
                         ta_error_message := Some ''Queued input could not be reconstructed.'' \<rparr>)
                         Failed now r db1 of
                       Inl e \<Rightarrow> Inl e | Inr (_, db2) \<Rightarrow> Inr db2)
      | _ \<Rightarrow> Inr db)))"

text \<open>
  One row of \<open>finalize_workerless_cancel_before_start\<close>: a canceling run that no worker owns
  is canceled and acknowledged, and its input goes back unbound and canceled.
\<close>

definition finalize_workerless :: "uuid \<Rightarrow> micros \<Rightarrow> qdb \<Rightarrow> run_error + (bool \<times> qdb)" where
  "finalize_workerless run_id now db =
     (case get_run run_id db of
        None \<Rightarrow> Inr (False, db)
      | Some r \<Rightarrow>
     (case row_get v_id (r_conversation_id r) (d_convs db) of
        None \<Rightarrow> Inr (False, db)
      | Some v \<Rightarrow>
          if r_user_id r \<noteq> v_user_id v \<or> r_status r \<noteq> Canceling \<or> \<not> r_is_active r \<or> r_worker r \<noteq> None
          then Inr (False, db)
          else
            let bound = find (\<lambda>i. i_run_id i = Some (r_id r)) (d_inputs db);
                bound1 = (case bound of None \<Rightarrow> None
                  | Some i \<Rightarrow> if i_conversation_id i \<noteq> v_id v \<or> i_user_id i \<noteq> v_user_id v then None else Some i)
            in case transition_run (no_args\<lparr> ta_workerless := True \<rparr>) Canceled now r of
                 Inl e \<Rightarrow> Inl e
               | Inr r' \<Rightarrow>
                   (let db1 = save_run (finalize_outputs Canceled None True r') db in
                    Inr (True, case bound1 of None \<Rightarrow> db1
                      | Some i \<Rightarrow> put_input (i\<lparr> i_status := InputCanceled, i_run_id := None,
                                          i_revision := i_revision i + 1 \<rparr>) db1))))"

text \<open>
  \<open>terminalize_denied_orphan\<close>: \<open>lease_missing\<close> is the prepared registry's answer for the
  run's materialization digest.
\<close>

definition fail_bound_inputs :: "uuid \<Rightarrow> rinput list \<Rightarrow> rinput list" where
  "fail_bound_inputs run_id =
     map (\<lambda>i. if i_run_id i = Some run_id \<and> (i_status i = Pending \<or> i_status i = Claimed)
              then i\<lparr> i_status := InputFailed \<rparr> else i)"

definition terminalize_denied_orphan :: "(run \<Rightarrow> bool) \<Rightarrow> uuid \<Rightarrow> micros \<Rightarrow> qdb \<Rightarrow> run_error + (bool \<times> qdb)" where
  "terminalize_denied_orphan lease_missing run_id now db =
     (case get_run run_id db of
        None \<Rightarrow> Inr (False, db)
      | Some r \<Rightarrow>
          if \<not> r_is_active r \<or> (r_status r \<noteq> Running \<and> r_status r \<noteq> Canceling) \<or>
             r_materialization r = None \<or> \<not> lease_missing r
          then Inr (False, db)
          else if r_status r = Canceling
          then (case transition_in (no_args\<lparr> ta_ack_worker := r_worker r \<rparr>) Canceled now r db of
                  Inl e \<Rightarrow> Inl e | Inr (_, db') \<Rightarrow> Inr (True, db'))
          else (case transition_in (no_args\<lparr> ta_error_code := Some ''prepared_run_lease_missing'',
                       ta_error_message := Some ''Prepared run could not be started'' \<rparr>) Failed now r
                       (db\<lparr> d_inputs := fail_bound_inputs run_id (d_inputs db) \<rparr>) of
                  Inl e \<Rightarrow> Inl e | Inr (_, db') \<Rightarrow> Inr (True, db')))"

text \<open>
  \<open>_pause_uncertain_owned_run_queues\<close>: conversations with pending input whose owned run may
  be dead are paused before the stale sweep.
\<close>

definition pause_uncertain :: "micros \<Rightarrow> uuid list \<Rightarrow> micros \<Rightarrow> qdb \<Rightarrow> qdb" where
  "pause_uncertain stale_before protected now db =
     (let uncertain = map r_conversation_id (filter (\<lambda>r. r_is_active r \<and> r_worker r \<noteq> None \<and>
            reference_time r \<le> stale_before \<and> r_id r \<notin> set protected \<and>
            (\<exists>i\<in>set (d_inputs db). i_conversation_id i = r_conversation_id r \<and> i_status i = Pending))
            (d_runs db))
      in db\<lparr> d_convs := map (\<lambda>v. if v_id v \<in> set uncertain then pause_conv now v else v) (d_convs db) \<rparr>)"

section \<open>The runs and the queue as a system\<close>

inductive queue_step :: "qdb \<Rightarrow> qdb \<Rightarrow> bool" where
  create_step: "create_run cov gate pm adm seen db k now cid aid c args = Inr (r, db') \<Longrightarrow> queue_step db db'"
| worker_step: "worker_transition k st a ev now db = Inr (res, db') \<Longrightarrow> queue_step db db'"
| start_step: "transition_to_running k owned au lk w start now db = Inr (res, db') \<Longrightarrow> queue_step db db'"
| cancel_step: "stage_cancel_intent k reason now db = Inr (ci, db') \<Longrightarrow> queue_step db db'"
| shutdown_step: "persist_shutdown_intent ks now db = Inr db' \<Longrightarrow> queue_step db db'"
| heartbeat_run_step: "heartbeat_run k now db = (alive, db') \<Longrightarrow> queue_step db db'"
| sweep_step: "mark_stale_active_runs sb w iw prot cv now (pause_uncertain sb prot now db) = (n, db') \<Longrightarrow>
    queue_step db db'"
| enqueue_input_step: "enqueue_input ex iid now cid c u db = Inr (res, db') \<Longrightarrow> queue_step db db'"
| direct_step: "persist_direct_input iid now r c rid pl atts db = Inr (i, db') \<Longrightarrow> queue_step db db'"
| edit_step: "edit_pending_input ex cid iid c rv pl db = Inr (i, db') \<Longrightarrow> queue_step db db'"
| delete_step: "delete_pending_input ex cid iid c rv db = Inr (i, db') \<Longrightarrow> queue_step db db'"
| reorder_step: "reorder_pending_inputs ex cid c ids revs db = Inr db' \<Longrightarrow> queue_step db db'"
| pause_step: "pause_queue ex cid c now db = Inr db' \<Longrightarrow> queue_step db db'"
| resume_step: "resume_queue ex cid c db = Inr db' \<Longrightarrow> queue_step db db'"
| promote_step: "promote_pending_input ex cid iid c rv now db = Inr (res, db') \<Longrightarrow> queue_step db db'"
| claim_step: "claim_next_input ex denial gate adm k now cid c db = Inr (res, db') \<Longrightarrow> queue_step db db'"
| fail_claimed_step: "fail_claimed_input iid code now db = Inr db' \<Longrightarrow> queue_step db db'"
| workerless_step: "finalize_workerless k now db = Inr (fin, db') \<Longrightarrow> queue_step db db'"
| orphan_step: "terminalize_denied_orphan lm k now db = Inr (fin, db') \<Longrightarrow> queue_step db db'"

text \<open>A good step keeps the run invariant and moves every run along the status machine.\<close>

definition good_step :: "'i rdb \<Rightarrow> 'i rdb \<Rightarrow> bool" where
  "good_step db db' \<longleftrightarrow> (runs_ok db \<longrightarrow> runs_ok db' \<and> run_rows_move db db')"

lemma keeps_good: "d_runs db' = d_runs db \<Longrightarrow> good_step db db'"
  unfolding good_step_def using runs_ok_cong[of db' db] run_rows_cong[of db' db] by blast

lemma good_trans: "good_step a b \<Longrightarrow> good_step b c \<Longrightarrow> good_step a c"
  unfolding good_step_def using run_rows_trans by blast

lemma put_input_runs [simp]: "d_runs (put_input i db) = d_runs db"
  by (simp add: put_input_def)

lemma put_conv_runs [simp]: "d_runs (put_conv v db) = d_runs db"
  by (simp add: put_conv_def)

lemma find_run_mem: "get_run k db = Some r \<Longrightarrow> r \<in> set (d_runs db)"
  by (auto simp: get_run_def dest: row_get_Some)

text \<open>
  A transition of a row of the table, possibly after its bookkeeping attributes (cancel
  reason, last event) were set, is a move of that row.
\<close>

definition same_core :: "run \<Rightarrow> run \<Rightarrow> bool" where
  "same_core r r0 \<longleftrightarrow> r_id r = r_id r0 \<and> r_conversation_id r = r_conversation_id r0 \<and>
     r_user_id r = r_user_id r0 \<and> r_status r = r_status r0 \<and> r_is_active r = r_is_active r0 \<and>
     (run_ok r0 \<longrightarrow> run_ok r)"

lemma run_ok_frame [simp]:
  "run_ok (r_last_event_id_update f r) = run_ok r" "run_ok (r_cancel_reason_update g r) = run_ok r"
  by (simp_all add: run_ok_def)

lemma same_core_refl [simp]: "same_core r r"
  by (simp add: same_core_def)

lemma same_core_outputs [simp]: "same_core (finalize_outputs st ev app r) r"
  by (simp add: same_core_def finalize_outputs_def Let_def)

lemma transition_move:
  assumes "transition_run a s now r = Inr r'" "same_core r r0" "run_ok r0"
  shows "run_move r0 r'"
  using transition_fields[OF assms(1)] transition_ok[OF assms(1)] assms(2,3)
  by (simp add: run_move_def same_core_def)

lemma transition_in_good:
  assumes "transition_in a s now r db = Inr (r', db')" "same_core r r0" "r0 \<in> set (d_runs db)"
  shows "good_step db db'"
proof -
  obtain r1 where t: "transition_run a s now r = Inr r1" "db' = save_run r1 db"
    using assms(1) by (auto simp: transition_in_def split: sum.splits)
  show ?thesis unfolding good_step_def
  proof
    assume ok: "runs_ok db"
    then have "run_ok r0" using assms(3) by (auto simp: runs_ok_def)
    from put_run_move[OF ok assms(3) transition_move[OF t(1) assms(2) this]] t(2)
    show "runs_ok db' \<and> run_rows_move db db'" by simp
  qed
qed

lemma cancel_in_good:
  assumes "cancel_in reason now r db = Inr (r', db')" "r \<in> set (d_runs db)"
  shows "good_step db db'"
proof (cases "r_status r \<in> set run_terminal_statuses \<or> r_status r = Canceling")
  case True
  then show ?thesis using assms by (auto simp: cancel_in_def intro: keeps_good)
next
  case False
  then have "transition_in no_args Canceling now (r\<lparr> r_cancel_reason := Some reason \<rparr>) db = Inr (r', db')"
    using assms(1) by (auto simp: cancel_in_def request_cancel_run_def transition_in_def split: sum.splits if_splits)
  then show ?thesis by (rule transition_in_good[OF _ _ assms(2)]) (simp add: same_core_def)
qed

lemma insert_run_good:
  assumes "insert_run r db = Some db'" "run_ok r"
  shows "good_step db db'"
proof -
  have db': "db' = db\<lparr> d_runs := d_runs db @ [r] \<rparr>" and new: "r_id r \<notin> set (map r_id (d_runs db))"
    and one: "r_is_active r \<Longrightarrow> x \<in> set (d_runs db) \<Longrightarrow> r_is_active x \<Longrightarrow> r_conversation_id x \<noteq> r_conversation_id r" for x
    using assms(1) by (auto simp: insert_run_def split: if_splits)
  show ?thesis unfolding good_step_def
  proof
    assume ok: "runs_ok db"
    have "run_rows_move db db'"
      unfolding run_rows_move_def db' get_run_def
      by (auto simp: row_get_append_old)
    moreover have "r_id x = r_id y" if "x \<in> set (d_runs db')" "y \<in> set (d_runs db')"
        "r_is_active x" "r_is_active y" "r_conversation_id x = r_conversation_id y" for x y
    proof -
      have "x \<in> set (d_runs db) \<or> x = r" "y \<in> set (d_runs db) \<or> y = r" using that(1,2) db' by auto
      then show ?thesis using that(3-5) one[of x] one[of y] ok unfolding runs_ok_def by metis
    qed
    moreover have "distinct (map r_id (d_runs db'))" "\<forall>x\<in>set (d_runs db'). run_ok x"
      using ok new assms(2) unfolding db' runs_ok_def by auto
    ultimately show "runs_ok db' \<and> run_rows_move db db'" unfolding runs_ok_def by blast
  qed
qed

lemma new_run_ok: "run_ok (new_run k now cid aid c args)"
  by (simp add: run_ok_def new_run_def run_active_statuses_def run_terminal_statuses_def)

lemma create_run_good:
  assumes "create_run cov gate pm adm seen db k now cid aid c args = Inr (r, db')"
  shows "good_step db db' \<and> r = new_run k now cid aid c args \<and> insert_run r db = Some db'"
proof -
  have i: "insert_run (new_run k now cid aid c args) db = Some db'" "r = new_run k now cid aid c args"
    using assms by (auto simp: create_run_def Let_def split: option.splits if_splits)
  then show ?thesis using insert_run_good[OF i(1) new_run_ok] by simp
qed

lemma worker_transition_good:
  assumes "worker_transition k st a ev now db = Inr (res, db')"
  shows "good_step db db'"
proof (cases "get_run k db")
  case None
  then show ?thesis using assms by (auto simp: worker_transition_def intro: keeps_good)
next
  case (Some r)
  let ?e = "effective_terminal_status a st r"
  let ?r1 = "if ev ?e \<noteq> None \<or> ?e = Canceled then finalize_outputs ?e (ev ?e) (ev ?e = None) r else r"
  obtain r' where "transition_in a ?e now ?r1 db = Inr (r', db')"
    using assms Some by (auto simp: worker_transition_def Let_def split: sum.splits)
  then show ?thesis by (rule transition_in_good[OF _ _ find_run_mem[OF Some]]) simp
qed

lemma transition_to_running_good:
  assumes "transition_to_running k owned au lk w start now db = Inr (res, db')"
  shows "good_step db db'"
proof -
  have "good_step db db''" if "cancel_in reason now r db = Inr (x, db'')" "get_run k db = Some r"
    for reason r x db''
    using cancel_in_good[OF that(1) find_run_mem[OF that(2)]] .
  moreover have "good_step db db''" if "transition_in b s now r db = Inr (x, db'')" "get_run k db = Some r"
    for b s r x db''
    by (rule transition_in_good[OF that(1) same_core_refl find_run_mem[OF that(2)]])
  moreover have "good_step db db" by (rule keeps_good) simp
  ultimately show ?thesis using assms
    by (auto simp: transition_to_running_def Let_def split: option.splits if_splits sum.splits prod.splits)
qed

lemma stage_cancel_good:
  assumes "stage_cancel_intent k reason now db = Inr (ci, db')"
  shows "good_step db db'"
  using assms cancel_in_good[OF _ find_run_mem]
  by (auto simp: stage_cancel_intent_def split: option.splits sum.splits if_splits intro: keeps_good)

lemma shutdown_good: "persist_shutdown_intent ks now db = Inr db' \<Longrightarrow> good_step db db'"
proof (induction ks arbitrary: db)
  case (Cons k ks)
  show ?case
  proof (cases "get_run k db")
    case (Some r)
    show ?thesis
    proof (cases "r_status r = Queued \<or> r_status r = Running")
      case True
      then obtain x db1 where c: "cancel_in ''shutdown'' now r db = Inr (x, db1)"
        "persist_shutdown_intent ks now db1 = Inr db'"
        using Cons.prems Some by (auto split: sum.splits)
      show ?thesis by (rule good_trans[OF cancel_in_good[OF c(1) find_run_mem[OF Some]] Cons.IH[OF c(2)]])
    qed (use Cons Some in auto)
  qed (use Cons in auto)
qed (auto intro: keeps_good)

lemma heartbeat_run_good: "heartbeat_run k now db = (alive, db') \<Longrightarrow> good_step db db'"
proof -
  assume h: "heartbeat_run k now db = (alive, db')"
  show ?thesis
  proof (cases "get_run k db")
    case None
    then show ?thesis using h by (auto simp: heartbeat_run_def intro: keeps_good)
  next
    case (Some r)
    show ?thesis
    proof (cases "\<not> r_is_active r \<or> r_status r \<notin> set run_active_statuses")
      case True
      then have "db' = db" using h Some by (auto simp: heartbeat_run_def)
      then show ?thesis by (simp add: keeps_good)
    next
      case False
      let ?r = "r\<lparr> r_heartbeat_at := Some now \<rparr>"
      have db': "d_runs db' = row_put r_id ?r (d_runs db)" using h Some False by (auto simp: heartbeat_run_def)
      show ?thesis unfolding good_step_def
      proof
        assume ok: "runs_ok db"
        have "run_move r ?r" using get_run_mem[OF ok Some] False by (simp add: run_move_def run_ok_def)
        from put_run_move[OF ok find_run_mem[OF Some] this db']
        show "runs_ok db' \<and> run_rows_move db db'" .
      qed
    qed
  qed
qed

text \<open>The sweep works on the rows it selected; each is still the stored row when its turn comes.\<close>

lemma sweep_good:
  "distinct (map r_id rs) \<Longrightarrow> (\<forall>r\<in>set rs. get_run (r_id r) db = Some r) \<Longrightarrow>
   sweep_runs now rs db = (n, db') \<Longrightarrow> good_step db db'"
proof (induction rs arbitrary: db n)
  case (Cons r rs)
  show ?case
  proof (cases "transition_in stale_args Stale now r db")
    case (Inl e)
    then show ?thesis using Cons by auto
  next
    case (Inr x)
    then obtain r' db1 where t: "transition_in stale_args Stale now r db = Inr (r', db1)" by (cases x) auto
    have g: "good_step db db1"
      by (rule transition_in_good[OF t same_core_refl find_run_mem]) (use Cons.prems in auto)
    obtain r1 where t1: "transition_run stale_args Stale now r = Inr r1" "db1 = save_run r1 db"
      using t by (auto simp: transition_in_def split: sum.splits)
    have "get_run (r_id y) db1 = Some y" if "y \<in> set rs" for y
    proof -
      have "r_id y \<noteq> r_id r1"
        using Cons.prems(1) that transition_fields(1)[OF t1(1)] by (auto simp: image_iff)
      then have "row_get r_id (r_id y) (row_put r_id r1 (d_runs db)) = row_get r_id (r_id y) (d_runs db)"
        by (rule runs_table.get_put_other)
      then show ?thesis using Cons.prems(2) that by (simp add: t1(2) get_run_def)
    qed
    moreover obtain m where "sweep_runs now rs db1 = (m, db')"
      using Cons.prems(3) t by (auto split: prod.splits)
    ultimately have "good_step db1 db'" using Cons.IH[of db1 m] Cons.prems(1) by auto
    then show ?thesis using g good_trans by blast
  qed
qed (auto intro: keeps_good)

lemma mark_stale_good:
  assumes "mark_stale_active_runs sb w iw prot cv now db = (n, db')"
  shows "good_step db db'"
  unfolding good_step_def
proof
  assume ok: "runs_ok db"
  let ?rs = "filter (sweepable sb w iw prot cv) (d_runs db)"
  have d: "distinct (map r_id (d_runs db))" using ok by (simp add: runs_ok_def)
  have "good_step db db'"
  proof (rule sweep_good[of ?rs])
    show "distinct (map r_id ?rs)" using d by (rule distinct_map_filter)
    show "\<forall>r\<in>set ?rs. get_run (r_id r) db = Some r"
      using row_get_distinct[OF d] by (auto simp: get_run_def)
    show "sweep_runs now ?rs db = (n, db')" using assms by (simp add: mark_stale_active_runs_def)
  qed
  then show "runs_ok db' \<and> run_rows_move db db'" using ok by (simp add: good_step_def)
qed

lemma pause_uncertain_runs [simp]: "d_runs (pause_uncertain sb prot now db) = d_runs db"
  by (simp add: pause_uncertain_def Let_def)

lemma promote_good:
  assumes "promote_pending_input ex cid iid c rv now db = Inr (res, db')"
  shows "good_step db db'"
proof -
  have mem: "r \<in> set (d_runs db)" if "get_active_run cid c db = Some r" for r
    using that unfolding get_active_run_def by (auto dest: find_in)
  have st: "good_step db db''"
    if "get_active_run cid c db = Some r" "cancel_in reason now r (put_input i db) = Inr (x, db'')"
    for r reason i x db''
    using good_trans[OF keeps_good[of "put_input i db" db] cancel_in_good[OF that(2)]] mem[OF that(1)] by simp
  have nc: "good_step db (put_input i db)" for i by (rule keeps_good) simp
  show ?thesis using assms st nc
    by (auto simp: promote_pending_input_def Let_def split: option.splits if_splits sum.splits prod.splits)
qed

lemma pause_blocked_runs:
  "pause_blocked_queue tr reason cid c now db = Inr db' \<Longrightarrow>
     d_runs db' = d_runs db \<and> d_inputs db' = d_inputs db"
  by (auto simp: pause_blocked_queue_def put_conv_def split: option.splits if_splits sum.splits)

text \<open>The cases of a dispatch.\<close>

lemma claim_cases:
  assumes "claim_next_input ex denial gate adm k now cid c db = Inr (res, db')"
  obtains (nothing) "res = None" "d_runs db' = d_runs db" "d_inputs db' = d_inputs db"
  | (claimed) v i r db1 where "denial = None" "ex = Inr (the (i_agent_id i))"
      "lock_owned_conversation cid c db = Inr v"
      "\<not> v_queue_paused v" "get_active_run cid c db = None" "\<not> unacknowledged_predecessor cid c db"
      "next_pending cid c db = Some i" "latest_interrupted_run cid c db = None"
      "r = new_run k now cid (the (i_agent_id i)) c chat_run_args" "insert_run r db = Some db1"
      "good_step db db1"
      "res = Some (i\<lparr> i_run_id := Some k, i_status := Claimed, i_claimed_at := Some now,
                     i_revision := i_revision i + 1 \<rparr>, r)"
      "db' = put_input (i\<lparr> i_run_id := Some k, i_status := Claimed, i_claimed_at := Some now,
                     i_revision := i_revision i + 1 \<rparr>) db1"
proof -
  obtain aid where ex: "ex = Inr aid" using assms by (auto simp: claim_next_input_def split: sum.splits)
  show ?thesis
  proof (cases denial)
    case (Some reason)
    then have "res = None" "pause_blocked_queue transient_reason reason cid c now db = Inr db'"
      using assms ex by (auto simp: claim_next_input_def split: sum.splits)
    then show ?thesis using that(1) pause_blocked_runs by blast
  next
    case None
    obtain v where v: "lock_owned_conversation cid c db = Inr v"
      using assms ex None by (auto simp: claim_next_input_def split: sum.splits)
    show ?thesis
    proof (cases "v_queue_paused v \<or> get_active_run cid c db \<noteq> None \<or> unacknowledged_predecessor cid c db
        \<or> next_pending cid c db = None")
      case True
      then have "res = None \<and> d_runs db' = d_runs db \<and> d_inputs db' = d_inputs db"
        using assms ex None v
        by (auto simp: claim_next_input_def put_conv_def split: option.splits if_splits)
      then show ?thesis using that(1) by blast
    next
      case False
      then obtain i where i: "next_pending cid c db = Some i" by auto
      have ag: "i_agent_id i = Some aid"
        using assms ex None v False i by (auto simp: claim_next_input_def split: if_splits)
      show ?thesis
      proof (cases "latest_interrupted_run cid c db = None")
        case False': False
        have "res = None \<and> db' = db"
          using assms ex None v False False' i ag
          by (auto simp: claim_next_input_def split: if_splits)
        then show ?thesis using that(1) by blast
      next
        case True
        obtain r db1 where cr: "create_run True gate (\<lambda>_. True) adm db db k now cid aid c chat_run_args = Inr (r, db1)"
          and out: "res = Some (i\<lparr> i_run_id := Some (r_id r), i_status := Claimed, i_claimed_at := Some now,
                     i_revision := i_revision i + 1 \<rparr>, r)"
            "db' = put_input (i\<lparr> i_run_id := Some (r_id r), i_status := Claimed, i_claimed_at := Some now,
                     i_revision := i_revision i + 1 \<rparr>) db1"
          using assms ex None v False i ag True
          by (auto simp: claim_next_input_def Let_def split: if_splits sum.splits prod.splits)
        have r: "r = new_run k now cid aid c chat_run_args" "insert_run r db = Some db1" "good_step db db1"
          using create_run_good[OF cr] by blast+
        have "r_id r = k" unfolding r(1) by (simp add: new_run_def)
        then show ?thesis
          by (intro that(2)[of i v r db1]) (use None ex ag v False i True out r in simp_all)
      qed
    qed
  qed
qed

lemma claim_good: "claim_next_input ex denial gate adm k now cid c db = Inr (res, db') \<Longrightarrow> good_step db db'"
proof (erule claim_cases)
  show "good_step db db1 \<Longrightarrow> db' = put_input j db1 \<Longrightarrow> good_step db db'" for j db1
    by (rule good_trans[of db db1]) (auto intro: keeps_good)
qed (auto intro: keeps_good)

lemma fail_claimed_good:
  assumes "fail_claimed_input iid code now db = Inr db'"
  shows "good_step db db'"
proof -
  have st: "good_step db db''"
    if "get_run k db = Some r" "transition_in b s now r (put_input i db) = Inr (x, db'')" for k r b s i x db''
    using good_trans[OF keeps_good[of "put_input i db" db] transition_in_good[OF that(2) same_core_refl]]
      find_run_mem[OF that(1)] by simp
  have nc: "good_step db (put_input i db)" "good_step db db" for i by (rule keeps_good, simp)+
  show ?thesis using assms st nc
    by (auto simp: fail_claimed_input_def Let_def split: option.splits if_splits sum.splits prod.splits)
qed

lemma workerless_good:
  assumes "finalize_workerless k now db = Inr (fin, db')"
  shows "good_step db db'"
proof -
  have st: "good_step db db''"
    if "get_run k db = Some r" "transition_run b s now r = Inr r'"
      "d_runs db'' = row_put r_id (finalize_outputs s None True r') (d_runs db)" for r b s r' db''
    unfolding good_step_def
  proof
    assume ok: "runs_ok db"
    have mv: "run_move r r'"
      using transition_move[OF that(2) same_core_refl] get_run_mem[OF ok that(1)] by simp
    have "run_move r (finalize_outputs s None True r')"
      using mv same_core_outputs[of s None True r'] by (simp add: run_move_def same_core_def)
    from put_run_move[OF ok find_run_mem[OF that(1)] this that(3)]
    show "runs_ok db'' \<and> run_rows_move db db''" .
  qed
  have nc: "good_step db db" by (rule keeps_good) simp
  show ?thesis
  proof (cases "fin")
    case False
    then show ?thesis using assms nc
      by (auto simp: finalize_workerless_def Let_def split: option.splits if_splits sum.splits)
  next
    case True
    then obtain r r' where "get_run k db = Some r"
      "transition_run (no_args\<lparr> ta_workerless := True \<rparr>) Canceled now r = Inr r'"
      "d_runs db' = row_put r_id (finalize_outputs Canceled None True r') (d_runs db)"
      using assms
      by (auto simp: finalize_workerless_def Let_def split: option.splits if_splits sum.splits)
    then show ?thesis by (rule st)
  qed
qed

lemma orphan_good:
  assumes "terminalize_denied_orphan lm k now db = Inr (fin, db')"
  shows "good_step db db'"
proof -
  have st: "good_step db db''"
    if "get_run k db = Some r" "transition_in b s now r db1 = Inr (x, db'')" "d_runs db1 = d_runs db"
    for r b s x db1 db''
    using good_trans[OF keeps_good[OF that(3)] transition_in_good[OF that(2) same_core_refl]]
      find_run_mem[OF that(1)] that(3) by simp
  have nc: "good_step db db" by (rule keeps_good) simp
  show ?thesis using assms nc
    by (auto simp: terminalize_denied_orphan_def split: option.splits if_splits sum.splits prod.splits
        intro: st)
qed

lemma queue_step_good: "queue_step db db' \<Longrightarrow> good_step db db'"
proof (induction rule: queue_step.induct)
  case (create_step cov gate pm adm seen db k now cid aid c args r db')
  then show ?case using create_run_good by blast
next
  case (sweep_step sb w iw prot cv now db n db')
  then show ?case using good_trans[OF keeps_good[of "pause_uncertain sb prot now db" db] mark_stale_good] by simp
next
  case (enqueue_input_step ex iid now cid c u db res db')
  then show ?case
    by (auto simp: enqueue_input_def Let_def split: option.splits if_splits sum.splits intro: keeps_good)
next
  case (direct_step iid now r c rid pl atts db i db')
  then show ?case
    by (auto simp: persist_direct_input_def Let_def split: option.splits if_splits sum.splits intro: keeps_good)
next
  case (edit_step ex cid iid c rv pl db i db')
  then show ?case
    by (auto simp: edit_pending_input_def Let_def split: option.splits if_splits sum.splits intro: keeps_good)
next
  case (delete_step ex cid iid c rv db i db')
  then show ?case
    by (auto simp: delete_pending_input_def Let_def split: sum.splits intro: keeps_good)
next
  case (reorder_step ex cid c ids revs db db')
  then show ?case
    by (auto simp: reorder_pending_inputs_def Let_def split: if_splits sum.splits intro: keeps_good)
next
  case (pause_step ex cid c now db db')
  then show ?case by (auto simp: pause_queue_def split: sum.splits intro: keeps_good)
next
  case (resume_step ex cid c db db')
  then show ?case by (auto simp: resume_queue_def split: sum.splits intro: keeps_good)
qed (blast intro: worker_transition_good transition_to_running_good stage_cancel_good shutdown_good
    heartbeat_run_good promote_good claim_good fail_claimed_good workerless_good orphan_good)+

interpretation run_queue: invariant_system queue_step runs_ok
  by unfold_locales (use queue_step_good in \<open>auto simp: good_step_def\<close>)

lemma queue_steps_good: "rtranclp queue_step db db' \<Longrightarrow> good_step db db'"
proof (induction rule: rtranclp_induct)
  case base
  show ?case by (rule keeps_good) simp
next
  case (step b c)
  then show ?case using good_trans queue_step_good by blast
qed

section \<open>Reordering\<close>

definition reposition :: "(uuid \<times> int) list \<Rightarrow> rinput \<Rightarrow> rinput" where
  "reposition ps i =
     (case map_of ps (i_id i) of
        None \<Rightarrow> i | Some q \<Rightarrow> i\<lparr> i_position := q, i_revision := i_revision i + 1 \<rparr>)"

fun numbered :: "int \<Rightarrow> uuid list \<Rightarrow> (uuid \<times> int) list" where
  "numbered p [] = []"
| "numbered p (k # ks) = (k, p) # numbered (p + 1) ks"

lemma numbered_keys [simp]: "map fst (numbered p ks) = ks"
  by (induction p ks rule: numbered.induct) auto

lemma numbered_fst_set [simp]: "fst ` set (numbered p ks) = set ks"
  by (metis numbered_keys set_map)

lemma numbered_bound: "(k, q) \<in> set (numbered p ks) \<Longrightarrow> p \<le> q"
  by (induction p ks rule: numbered.induct) auto

lemma reposition_id [simp]: "i_id (reposition ps i) = i_id i"
  by (simp add: reposition_def split: option.splits)

lemma reorder_loop_spec:
  "distinct ks \<Longrightarrow> distinct (map i_id inputs) \<Longrightarrow> reorder_loop ex p ks inputs = Inr res \<Longrightarrow>
   res = map (reposition (numbered p ks)) inputs"
proof (induction ex p ks inputs rule: reorder_loop.induct)
  case (2 ex p k ks inputs)
  obtain i where i: "row_get i_id k inputs = Some i" "map_of ex k = Some (i_revision i)"
    using "2.prems"(3) by (auto split: option.splits if_splits)
  let ?i = "i\<lparr> i_position := p, i_revision := i_revision i + 1 \<rparr>"
  have ii: "i \<in> set inputs" "i_id i = k" using row_get_Some[OF i(1)] by auto
  have "reorder_loop ex (p + 1) ks (row_put i_id ?i inputs) = Inr res"
    using "2.prems"(3) i by simp
  then have res: "res = map (reposition (numbered (p + 1) ks)) (row_put i_id ?i inputs)"
    using "2.IH"[OF i(1)] "2.prems"(1,2) i(2) by simp
  have "k \<notin> set (map fst (numbered (p + 1) ks))" using "2.prems"(1) by simp
  then have none: "map_of (numbered (p + 1) ks) k = None" by (simp add: map_of_eq_None_iff)
  have uniq: "x = i" if "x \<in> set inputs" "i_id x = k" for x
    using that ii "2.prems"(2) by (metis distinct_map inj_on_eq_iff)
  show ?case unfolding res row_put_def
    using uniq none ii(2) by (auto simp: reposition_def)
qed (simp add: reposition_def map_idI)

definition dispatchable :: "uuid \<Rightarrow> org_context \<Rightarrow> rinput \<Rightarrow> bool" where
  "dispatchable conversation_id c i \<longleftrightarrow>
     i_conversation_id i = conversation_id \<and> owned_input c i \<and> i_status i = Pending"

lemma reposition_dispatchable [simp]: "dispatchable cid c (reposition ps i) = dispatchable cid c i"
  by (simp add: reposition_def dispatchable_def owned_input_def split: option.splits)

lemma sort_numbered:
  assumes "distinct ks" "distinct (map i_id xs)" "set (map i_id xs) = set ks"
    and "\<forall>x\<in>set xs. map_of (numbered p ks) (i_id x) = Some (i_position x)"
  shows "map i_id (sort_key i_position xs) = ks"
proof -
  let ?f = "\<lambda>k. the (row_get i_id k xs)"
  have g: "row_get i_id (i_id x) xs = Some x" if "x \<in> set xs" for x
    using row_get_distinct[OF assms(2) that] .
  have f: "?f k \<in> set xs \<and> i_id (?f k) = k" if k: "k \<in> set ks" for k
  proof -
    have "k \<in> i_id ` set xs" using k assms(3) by simp
    then obtain x where "x \<in> set xs" "i_id x = k" by blast
    then show ?thesis using g by auto
  qed
  then have ids: "map i_id (map ?f ks) = ks" by (simp add: map_idI)
  have "set (map ?f ks) = set xs" using f g assms(3) by force
  then have m: "mset (map ?f ks) = mset xs"
    using assms(1,2) ids set_eq_iff_mset_eq_distinct[of "map ?f ks" xs] by (metis distinct_map)
  have inj: "inj_on i_position (set xs)"
  proof (rule inj_onI)
    fix x y assume xy: "x \<in> set xs" "y \<in> set xs" "i_position x = i_position y"
    have inj: "map_of (numbered q js) a = Some n \<Longrightarrow> map_of (numbered q js) b = Some n \<Longrightarrow> a = b" for q js a b n
      by (induction q js rule: numbered.induct)
         (auto split: if_splits dest!: map_of_SomeD numbered_bound)
    have "i_id x = i_id y" using inj assms(4) xy by metis
    then show "x = y" using xy(1,2) assms(2) by (metis distinct_map inj_on_eq_iff)
  qed
  have "sorted (map i_position (map ?f ks))"
  proof -
    have "map_of (numbered q js) = map_of (numbered p ks) |` set js \<Longrightarrow> set js \<subseteq> set ks \<Longrightarrow> distinct js \<Longrightarrow>
        sorted (map i_position (map ?f js)) \<and> (\<forall>y\<in>set (map i_position (map ?f js)). q \<le> y)" for q js
    proof (induction q js rule: numbered.induct)
      case (2 q j js)
      have pos: "map_of (numbered p ks) k = Some (i_position (?f k))" if "k \<in> set ks" for k
        using f[OF that] assms(4) by metis
      have "map_of (numbered p ks) j = Some q"
        using fun_cong[OF "2.prems"(1), of j] by (simp add: restrict_map_def)
      then have q: "i_position (?f j) = q" using "2.prems"(2) pos[of j] by simp
      have "map_of (numbered (q + 1) js) = map_of (numbered p ks) |` set js"
      proof
        fix k
        have "k \<notin> set js \<Longrightarrow> map_of (numbered (q + 1) js) k = None"
          by (simp add: map_of_eq_None_iff)
        moreover have "k \<in> set js \<Longrightarrow> map_of (numbered (q + 1) js) k = map_of (numbered q (j # js)) k"
          using "2.prems"(3) by auto
        ultimately show "map_of (numbered (q + 1) js) k = (map_of (numbered p ks) |` set js) k"
          using fun_cong[OF "2.prems"(1), of k] "2.prems"(3) by (auto simp: restrict_map_def split: if_splits)
      qed
      from "2.IH"[OF this] "2.prems"(2,3) q show ?case by fastforce
    qed simp
    moreover have "map_of (numbered p ks) = map_of (numbered p ks) |` set ks"
      by (rule ext) (auto simp: restrict_map_def map_of_eq_None_iff)
    ultimately show ?thesis using assms(1) by blast
  qed
  then have "sort_key i_position xs = map ?f ks"
    by (intro sort_key_inj_key_eq) (use m inj in simp_all)
  then show ?thesis using ids by simp
qed

section \<open>Properties\<close>

abbreviation queue_steps :: "qdb \<Rightarrow> qdb \<Rightarrow> bool" where
  "queue_steps \<equiv> rtranclp queue_step"


definition demo_conv :: conversation where
  "demo_conv = \<lparr> v_id = ''c'', v_user_id = ''u'', v_org_id = ''o'', v_tenant_id = ''t'',
     v_agent_id = Some ''a'', v_queue_paused = False, v_queue_paused_at = None \<rparr>"

definition demo_db :: qdb where
  "demo_db = \<lparr> d_runs = [], d_api = [], d_triggers = [], d_convs = [demo_conv], d_inputs = [] \<rparr>"

definition demo_input :: "string \<Rightarrow> int \<Rightarrow> input_request" where
  "demo_input k priority = \<lparr> u_client_request_id = k, u_source = ''chat'', u_payload = JStr ''hi'',
     u_attachment_ids = [], u_checkpoint_id = None, u_priority = priority \<rparr>"

definition run_ops :: "qdb \<Rightarrow> (qdb \<Rightarrow> run_error + qdb) list \<Rightarrow> qdb" where
  "run_ops db ops = fold (\<lambda>f d. case f d of Inl _ \<Rightarrow> d | Inr d' \<Rightarrow> d') ops db"

definition demo_two :: qdb where
  "demo_two =
     (let enq = (\<lambda>i k p d. case enqueue_input (Inr ''a'') i 0 ''c'' demo_context (demo_input k p) d of
            Inr (_, d') \<Rightarrow> d' | Inl _ \<Rightarrow> d)
      in enq ''i2'' ''k2'' 100 (enq ''i1'' ''k1'' 0 demo_db))"

lemma demo_two_reachable: "queue_steps demo_db demo_two"
proof -
  define d1 where "d1 = (case enqueue_input (Inr ''a'') ''i1'' 0 ''c'' demo_context (demo_input ''k1'' 0) demo_db of
      Inr (_, d') \<Rightarrow> d' | Inl _ \<Rightarrow> demo_db)"
  have one: "queue_step d (case enqueue_input (Inr ''a'') i 0 ''c'' demo_context u d of Inr (_, d') \<Rightarrow> d' | Inl _ \<Rightarrow> d)"
    if "\<exists>x. enqueue_input (Inr ''a'') i 0 ''c'' demo_context u d = Inr x" for d i u
    using that queue_step.enqueue_input_step[of "Inr ''a''" i 0 "''c''" demo_context u d] by fastforce
  have "isl (enqueue_input (Inr ''a'') ''i1'' 0 ''c'' demo_context (demo_input ''k1'' 0) demo_db) = False"
    "isl (enqueue_input (Inr ''a'') ''i2'' 0 ''c'' demo_context (demo_input ''k2'' 100) d1) = False"
    unfolding d1_def by code_simp+
  then have "queue_step demo_db d1" "queue_step d1 demo_two"
    using one[of "''i1''" "demo_input ''k1'' 0" demo_db] one[of "''i2''" "demo_input ''k2'' 100" d1]
    unfolding d1_def demo_two_def Let_def by (auto simp: isl_def split: sum.splits)
  then show ?thesis by (meson r_into_rtranclp rtranclp_trans)
qed

definition demo_claimed :: qdb where
  "demo_claimed = (case claim_next_input (Inr ''a'') None None True ''r1'' 5 ''c'' demo_context demo_two of
     Inr (_, d) \<Rightarrow> d | Inl _ \<Rightarrow> demo_two)"

lemma demo_claimed_step: "claim_next_input (Inr ''a'') None None True ''r1'' 5 ''c'' demo_context demo_two =
    Inr (Some (hd (filter (\<lambda>i. i_status i = Claimed) (d_inputs demo_claimed)), hd (d_runs demo_claimed)), demo_claimed)"
  by code_simp


text \<open>
  C32: dispatch is safe and in order. A claim happens only while the queue is not paused, no
  run of the conversation is active, no requested cancellation is unacknowledged and no
  approval is open; it takes the pending input that is first by priority, then position, then
  age, creates one queued run for it and binds the two; every other input is unchanged.
\<close>
theorem dispatch_takes_first_pending:
  assumes "claim_next_input ex denial gate adm k now cid c db = Inr (Some (i', r), db')"
    and "distinct (map i_id (d_inputs db))"
  shows "\<exists>i\<in>set (d_inputs db). dispatchable cid c i \<and>
      (\<forall>x\<in>set (d_inputs db). dispatchable cid c x \<longrightarrow> input_order i \<le> input_order x) \<and>
      (\<forall>x\<in>set (d_runs db). r_is_active x \<longrightarrow> r_conversation_id x \<noteq> cid) \<and>
      \<not> unacknowledged_predecessor cid c db \<and> latest_interrupted_run cid c db = None \<and>
      (\<exists>v\<in>set (d_convs db). v_id v = cid \<and> private_scope c v \<and> \<not> v_queue_paused v) \<and>
      i' = i\<lparr> i_run_id := Some k, i_status := Claimed, i_claimed_at := Some now,
              i_revision := i_revision i + 1 \<rparr> \<and>
      d_runs db' = d_runs db @ [r] \<and> r_id r = k \<and> r_status r = Queued \<and> r_conversation_id r = cid \<and>
      d_inputs db' = map (\<lambda>x. if x = i then i' else x) (d_inputs db)"
  using assms(1)
proof (cases rule: claim_cases)
  case (claimed v i r1 db1)
  have sel: "first_by input_order (filter (dispatchable cid c) (d_inputs db)) = Some i"
    using claimed(7) by (simp add: next_pending_def dispatchable_def[abs_def])
  have i: "i \<in> set (d_inputs db)" "dispatchable cid c i" using first_by_Some(1)[OF sel] by auto
  have min: "input_order i \<le> input_order x" if "x \<in> set (d_inputs db)" "dispatchable cid c x" for x
    using first_by_Some(2)[OF sel, of x] that by simp
  have ins: "db1 = db\<lparr> d_runs := d_runs db @ [r1] \<rparr>"
    "\<forall>x\<in>set (d_runs db). r_is_active x \<longrightarrow> r_conversation_id x \<noteq> cid"
    using claimed(9,10) by (auto simp: insert_run_def new_run_def split: if_splits)
  have v: "v \<in> set (d_convs db)" "v_id v = cid" "private_scope c v"
    using claimed(3) by (auto simp: lock_owned_conversation_def dest!: find_in split: option.splits)
  have uniq: "x = i" if "x \<in> set (d_inputs db)" "i_id x = i_id i" for x
    using that i(1) assms(2) by (metis distinct_map inj_on_eq_iff)
  have "d_inputs db' = map (\<lambda>x. if x = i then i' else x) (d_inputs db)"
    using claimed(12,13) ins(1) uniq by (auto simp: put_input_def row_put_def)
  then show ?thesis using i min ins v claimed(4,6,8,9,12,13)
    by (intro bexI[of _ i]) (auto simp: new_run_def)
qed simp

lemma dispatch_takes_first_pending_witness:
  "map i_id (filter (\<lambda>i. i_status i = Claimed) (d_inputs demo_claimed)) = [''i2''] \<and>
   (\<exists>i\<in>set (d_inputs demo_two). dispatchable ''c'' demo_context i \<and>
      filter (\<lambda>x. dispatchable ''c'' demo_context x \<and> input_order x < input_order i) (d_inputs demo_two) = [])"
proof
  have "distinct (map i_id (d_inputs demo_two))" by code_simp
  from dispatch_takes_first_pending[OF demo_claimed_step this]
  obtain i where i: "i \<in> set (d_inputs demo_two)" "dispatchable ''c'' demo_context i"
    and first: "\<forall>x\<in>set (d_inputs demo_two). dispatchable ''c'' demo_context x \<longrightarrow> input_order i \<le> input_order x"
    by blast
  have "filter (\<lambda>x. dispatchable ''c'' demo_context x \<and> input_order x < input_order i) (d_inputs demo_two) = []"
    by (rule filter_False) (use first leD in blast)
  then show "\<exists>i\<in>set (d_inputs demo_two). dispatchable ''c'' demo_context i \<and>
      filter (\<lambda>x. dispatchable ''c'' demo_context x \<and> input_order x < input_order i) (d_inputs demo_two) = []"
    using i by blast
qed code_simp

text \<open>
  Reordering does what it says. A successful reorder keeps the set of inputs and every
  other input, raises the revision of each pending one, and afterwards the pending inputs,
  taken in the order of their positions, are exactly the requested list.
\<close>
theorem reorder_gives_requested_order:
  assumes "reorder_pending_inputs ex cid c ids revs db = Inr db'"
    and "distinct (map i_id (d_inputs db))"
  shows "map i_id (sort_key i_position (filter (dispatchable cid c) (d_inputs db'))) = ids \<and>
    map i_id (d_inputs db') = map i_id (d_inputs db) \<and>
    (\<forall>x\<in>set (d_inputs db). (if dispatchable cid c x
        then \<exists>q. x\<lparr> i_position := q, i_revision := i_revision x + 1 \<rparr> \<in> set (d_inputs db')
        else x \<in> set (d_inputs db')))"
proof -
  let ?P = "dispatchable cid c"
  have g: "distinct ids" "set ids = set (map i_id (filter ?P (d_inputs db)))"
    and l: "reorder_loop revs 1 ids (d_inputs db) = Inr (d_inputs db')"
    using assms(1) by (auto simp: reorder_pending_inputs_def dispatchable_def Let_def
        split: sum.splits if_splits)
  let ?f = "reposition (numbered 1 ids)"
  have d': "d_inputs db' = map ?f (d_inputs db)" by (rule reorder_loop_spec[OF g(1) assms(2) l])
  have has: "\<exists>q. map_of (numbered 1 ids) (i_id x) = Some q" if "x \<in> set (d_inputs db)" "?P x" for x
    using that g(2) by (cases "map_of (numbered 1 ids) (i_id x)") (auto simp: map_of_eq_None_iff)
  have hasnt: "map_of (numbered 1 ids) (i_id x) = None" if "x \<in> set (d_inputs db)" "\<not> ?P x" for x
  proof -
    have "i_id x \<notin> set ids"
      using that g(2) assms(2) by (auto simp: distinct_map inj_on_def)
    then show ?thesis by (simp add: map_of_eq_None_iff)
  qed
  let ?ys = "filter ?P (d_inputs db')"
  have ids: "map i_id ?ys = map i_id (filter ?P (d_inputs db))"
    unfolding d' by (simp add: filter_map comp_def)
  have "map i_id (sort_key i_position ?ys) = ids"
  proof (rule sort_numbered[where p = 1])
    show "distinct (map i_id ?ys)" unfolding ids using assms(2) by (rule distinct_map_filter)
    show "set (map i_id ?ys) = set ids" unfolding ids using g(2) by simp
    show "\<forall>y\<in>set ?ys. map_of (numbered 1 ids) (i_id y) = Some (i_position y)"
    proof
      fix y assume "y \<in> set ?ys"
      then obtain x where x: "x \<in> set (d_inputs db)" "y = ?f x" "?P x" unfolding d' by auto
      then obtain q where "map_of (numbered 1 ids) (i_id x) = Some q" using has by blast
      then show "map_of (numbered 1 ids) (i_id y) = Some (i_position y)"
        unfolding x(2) by (simp add: reposition_def)
    qed
  qed (rule g(1))
  moreover have "map i_id (d_inputs db') = map i_id (d_inputs db)" unfolding d' by simp
  moreover have "if ?P x then \<exists>q. x\<lparr> i_position := q, i_revision := i_revision x + 1 \<rparr> \<in> set (d_inputs db')
        else x \<in> set (d_inputs db')" if x: "x \<in> set (d_inputs db)" for x
  proof (cases "?P x")
    case True
    obtain q where "map_of (numbered 1 ids) (i_id x) = Some q" using has[OF x True] by blast
    then have "?f x = x\<lparr> i_position := q, i_revision := i_revision x + 1 \<rparr>"
      by (simp add: reposition_def)
    moreover have "?f x \<in> set (d_inputs db')" unfolding d' using x by simp
    ultimately show ?thesis using True by auto
  next
    case False
    have "?f x = x" using hasnt[OF x False] by (simp add: reposition_def)
    moreover have "?f x \<in> set (d_inputs db')" unfolding d' using x by simp
    ultimately show ?thesis using False by simp
  qed
  ultimately show ?thesis by blast
qed

definition demo_reordered :: qdb where
  "demo_reordered = (case reorder_pending_inputs (Inr ''a'') ''c'' demo_context [''i2'', ''i1'']
     [(''i1'', 1), (''i2'', 1)] demo_two of Inr d \<Rightarrow> d | Inl _ \<Rightarrow> demo_two)"

lemma reorder_gives_requested_order_witness:
  "map i_id (sort_key i_position (filter (dispatchable ''c'' demo_context) (d_inputs demo_reordered))) =
     [''i2'', ''i1'']"
proof -
  have "reorder_pending_inputs (Inr ''a'') ''c'' demo_context [''i2'', ''i1'']
     [(''i1'', 1), (''i2'', 1)] demo_two = Inr demo_reordered" by code_simp
  moreover have "distinct (map i_id (d_inputs demo_two))" by code_simp
  ultimately show ?thesis using reorder_gives_requested_order by blast
qed

text \<open>
  Cancellation wins over the outcome. When the worker that owns a canceling run reports
  any end but a stale one, and acknowledges as that worker, the run ends canceled and
  acknowledged, so it no longer holds up the queue; the report never fails.
\<close>
theorem owned_cancel_is_acknowledged:
  assumes "get_run k db = Some r" "run_ok r" "r_status r = Canceling" "r_worker r = Some w"
    and "proposed \<noteq> Stale" "ta_ack_worker a = Some w"
  shows "\<exists>r' db'. worker_transition k proposed a ev now db = Inr ((Some r', Canceled), db') \<and>
    get_run k db' = Some r' \<and> r_status r' = Canceled \<and> \<not> r_is_active r' \<and>
    r_cancellation_acknowledged_at r' \<noteq> None"
proof -
  let ?r1 = "finalize_outputs Canceled (ev Canceled) (ev Canceled = None) r"
  have eff: "effective_terminal_status a proposed r = Canceled"
    using assms(3-6) by (simp add: effective_terminal_status_def owner_ack_def)
  have f: "r_status ?r1 = Canceling" "r_worker ?r1 = Some w" "r_id ?r1 = r_id r"
    "r_cancel_requested_at ?r1 = r_cancel_requested_at r"
    using assms(3,4) by (simp_all add: finalize_outputs_def Let_def)
  have ack: "owner_ack a ?r1" using f(2) assms(6) by (simp add: owner_ack_def)
  obtain r' where t: "transition_run a Canceled now ?r1 = Inr r'"
    using f(1) ack by (simp add: transition_run_def Let_def)
  have cr: "r_cancel_requested_at r \<noteq> None" using assms(2,3) by (auto simp: run_ok_def)
  have r': "r_status r' = Canceled" "r_id r' = k" "\<not> r_is_active r'"
    "r_cancellation_acknowledged_at r' \<noteq> None"
  proof -
    show "r_status r' = Canceled" using transition_fields(4)[OF t] .
    show "r_id r' = k"
      using transition_fields(1)[OF t] f(3) row_get_Some[of r_id k "d_runs db" r] assms(1)
      by (simp add: get_run_def)
    show "\<not> r_is_active r'" "r_cancellation_acknowledged_at r' \<noteq> None"
      by (rule transition_cases[OF t];
          use ack cr f(4) in \<open>simp add: enter_status_def run_terminal_statuses_def owner_ack_def\<close>)+
  qed
  have w: "worker_transition k proposed a ev now db = Inr ((Some r', Canceled), save_run r' db)"
    using assms(1) t by (simp add: worker_transition_def eff Let_def transition_in_def)
  have "get_run k (save_run r' db) = Some r'"
    using runs_table.update_reads_back[of k "d_runs db" r r'] assms(1) r'(2) by (simp add: get_run_def)
  then show ?thesis using w r' by blast
qed

definition demo_canceling :: qdb where
  "demo_canceling =
     (case transition_to_running ''r1'' (\<lambda>_. True) True True ''w'' True 6 demo_claimed of
        Inr (_, d) \<Rightarrow> (case stage_cancel_intent ''r1'' ''stop'' 7 d of Inr (_, d') \<Rightarrow> d' | Inl _ \<Rightarrow> d)
      | Inl _ \<Rightarrow> demo_claimed)"

lemma owned_cancel_is_acknowledged_witness:
  "\<exists>r' db'. worker_transition ''r1'' Completed (no_args\<lparr> ta_ack_worker := Some ''w'' \<rparr>) (\<lambda>_. None) 8
      demo_canceling = Inr ((Some r', Canceled), db') \<and> get_run ''r1'' db' = Some r' \<and>
    r_status r' = Canceled \<and> \<not> r_is_active r' \<and> r_cancellation_acknowledged_at r' \<noteq> None"
proof (rule owned_cancel_is_acknowledged)
  show "get_run ''r1'' demo_canceling = Some (hd (d_runs demo_canceling))" by code_simp
  show "run_ok (hd (d_runs demo_canceling))" "r_status (hd (d_runs demo_canceling)) = Canceling"
    "r_worker (hd (d_runs demo_canceling)) = Some ''w''" by code_simp+
qed (simp_all add: no_args_def)

text \<open>The nesting depth of a value.\<close>

fun json_depth :: "json \<Rightarrow> nat" where
  "json_depth (JList xs) = Suc (fold max (map json_depth xs) 0)"
| "json_depth (JObj ms) = Suc (fold max (map (\<lambda>(k, v). json_depth v) ms) 0)"
| "json_depth _ = 1"

lemma fold_max_bound: "fold max xs a \<le> (n::nat) \<longleftrightarrow> a \<le> n \<and> (\<forall>x\<in>set xs. x \<le> n)"
  by (induction xs arbitrary: a) auto

lemma validate_depth:
  "validate_value d v = None \<Longrightarrow> d + json_depth v \<le> Suc max_queue_input_depth"
  "validate_list d vs = None \<Longrightarrow> \<forall>v\<in>set vs. d + json_depth v \<le> Suc max_queue_input_depth"
  "validate_members d ms = None \<Longrightarrow> \<forall>(k, v)\<in>set ms. d + json_depth v \<le> Suc max_queue_input_depth"
proof (induction d v and d vs and d ms rule: validate_value_validate_list_validate_members.induct)
  case (1 d v)
  have d: "d \<le> max_queue_input_depth" using "1.prems" by (auto split: if_splits)
  show ?case
  proof (cases v)
    case (JList xs)
    then have "validate_list (Suc d) xs = None" using "1.prems" d by simp
    then have "\<forall>x\<in>set xs. Suc d + json_depth x \<le> Suc max_queue_input_depth"
      using "1.IH"(1) d JList by simp
    then show ?thesis using d JList fold_max_bound[of "map json_depth xs" 0 "max_queue_input_depth - d"]
      by auto
  next
    case (JObj ms)
    then have "validate_members (Suc d) ms = None" using "1.prems" d by simp
    then have "\<forall>(k, x)\<in>set ms. Suc d + json_depth x \<le> Suc max_queue_input_depth"
      using "1.IH"(2) d JObj by simp
    then show ?thesis
      using d JObj fold_max_bound[of "map (\<lambda>(k, v). json_depth v) ms" 0 "max_queue_input_depth - d"]
      by auto
  qed (use d in auto)
qed (auto split: option.splits)

text \<open>
  Accepted payloads are bounded. A payload that passes the check nests at most twenty
  levels deep, itself included, and its compact encoding takes at most 256 KiB.
\<close>
theorem accepted_payload_bounded:
  assumes "validate_payload v = None"
  shows "json_depth v \<le> 20 \<and> int (length (dumps_compact v)) \<le> 262144"
  using assms validate_depth(1)[of 1 v]
  by (auto simp: validate_payload_def max_queue_input_depth_def max_queue_input_bytes_def
      simp del: validate_value.simps split: option.splits if_splits)

lemma accepted_payload_bounded_witness:
  "json_depth (JList [JInt 1, JObj [(''k'', JList [])]]) = 3 \<and>
   json_depth (JList [JInt 1, JObj [(''k'', JList [])]]) \<le> 20"
proof -
  have "validate_payload (JList [JInt 1, JObj [(''k'', JList [])]]) = None" by code_simp
  from accepted_payload_bounded[OF this] show ?thesis by simp
qed

end
