(* ===== verification/Clock.thy ===== *)
theory Clock
  imports Json
begin

text \<open>
  Instants as text: \<open>datetime.isoformat()\<close> of a UTC instant with its offset written \<open>Z\<close>, and
  \<open>datetime.fromisoformat\<close> on that form. An instant counts the microseconds since
  0001-01-01T00:00:00Z (\<open>datetime.min\<close>); the calendar is the proleptic Gregorian one, computed
  as CPython's \<open>_ord2ymd\<close> and \<open>_ymd2ord\<close> do. The last lemma is the round trip that the expiry
  of a stored tuple rests on.
\<close>

section \<open>Fixed-width decimal numbers\<close>

fun pad :: "nat \<Rightarrow> nat \<Rightarrow> string" where
  "pad 0 n = []"
| "pad (Suc w) n = char_of (48 + n div 10 ^ w mod 10) # pad w n"

fun is_digit :: "char \<Rightarrow> bool" where
  "is_digit c = (48 \<le> code_of c \<and> code_of c < 58)"

fun read_digits :: "nat \<Rightarrow> nat \<Rightarrow> string \<Rightarrow> (nat \<times> string) option" where
  "read_digits 0 acc s = Some (acc, s)"
| "read_digits (Suc w) acc [] = None"
| "read_digits (Suc w) acc (c # s) =
     (if is_digit c then read_digits w (acc * 10 + (code_of c - 48)) s else None)"

lemma code_of_digit [simp]: "d < 10 \<Longrightarrow> code_of (char_of (48 + d)) = 48 + d"
  by (simp add: code_of_def)

lemma length_pad [simp]: "length (pad w n) = w"
  by (induction w) auto

lemma read_pad [simp]: "read_digits w acc (pad w n @ s) = Some (acc * 10 ^ w + n mod 10 ^ w, s)"
proof (induction w arbitrary: acc)
  case (Suc w)
  have d: "n div 10 ^ w mod 10 < 10" by simp
  have "n mod 10 ^ Suc w = n div 10 ^ w mod 10 * 10 ^ w + n mod 10 ^ w"
    using mod_mult2_eq[of n "10 ^ w" 10] by (simp add: algebra_simps)
  then show ?case using Suc d by (simp add: algebra_simps)
qed simp

section \<open>The calendar\<close>

definition leap_year :: "nat \<Rightarrow> bool" where
  "leap_year y = (y mod 4 = 0 \<and> (y mod 100 \<noteq> 0 \<or> y mod 400 = 0))"

definition days_before_year :: "nat \<Rightarrow> nat" where
  "days_before_year y = (let a = y - 1 in a * 365 + a div 4 + a div 400 - a div 100)"

definition month_lengths :: "nat \<Rightarrow> nat list" where
  "month_lengths y = [31, if leap_year y then 29 else 28, 31, 30, 31, 30, 31, 31, 30, 31, 30, 31]"

lemma div100_le: "a div 100 \<le> a * 365" for a :: nat
  using div_le_dividend[of a 100] by linarith

lemma days_before_year_Suc:
  assumes "0 < y" shows "days_before_year (Suc y) = days_before_year y + sum_list (month_lengths y)"
proof -
  obtain a where y: "y = Suc a" using assms by (cases y) auto
  define q4 q100 q400 where q: "q4 = a div 4" "q100 = a div 100" "q400 = a div 400"
  have d: "y div 4 = q4 + (if y mod 4 = 0 then 1 else 0)"
    "y div 100 = q100 + (if y mod 100 = 0 then 1 else 0)"
    "y div 400 = q400 + (if y mod 400 = 0 then 1 else 0)"
    by (simp_all add: div_Suc y q)
  have m: "y mod 100 = 0 \<Longrightarrow> y mod 4 = 0" "y mod 400 = 0 \<Longrightarrow> y mod 100 = 0"
    by (auto simp: mod_eq_0_iff_dvd dvd_def)
  have le: "q100 \<le> a" by (simp add: q)
  have l: "sum_list (month_lengths y) = (if leap_year y then 366 else 365)"
    by (simp add: month_lengths_def)
  have new: "days_before_year (Suc y) = y * 365 + y div 4 + y div 400 - y div 100"
    by (simp add: days_before_year_def)
  have old: "days_before_year y = a * 365 + q4 + q400 - q100"
    by (simp add: days_before_year_def y q)
  show ?thesis
  proof (cases "leap_year y")
    case True
    then show ?thesis unfolding new old l d using m le y by (auto simp: leap_year_def)
  next
    case False
    then show ?thesis unfolding new old l d using m le y by (auto simp: leap_year_def)
  qed
qed

lemma month_lengths_pos: "0 < sum_list (month_lengths y)"
  by (simp add: month_lengths_def)

text \<open>The year of a day: the last year that does not start after it.\<close>

function year_from :: "nat \<Rightarrow> nat \<Rightarrow> nat" where
  "year_from y n =
     (if 0 < y \<and> days_before_year (Suc y) \<le> n then year_from (Suc y) n else y)"
  by pat_completeness auto
termination
  by (relation "measure (\<lambda>(y, n). Suc n - days_before_year y)")
    (auto simp: days_before_year_Suc month_lengths_def)

declare year_from.simps [simp del]

definition year_of_day :: "nat \<Rightarrow> nat" where
  "year_of_day n = year_from (Suc (n div 366)) n"

fun split_month :: "nat list \<Rightarrow> nat \<Rightarrow> nat \<times> nat" where
  "split_month [] n = (0, n)"
| "split_month (l # ls) n =
     (if n < l then (0, n) else let (m, d) = split_month ls (n - l) in (Suc m, d))"

definition civil :: "nat \<Rightarrow> nat \<times> nat \<times> nat" where
  "civil n =
     (let y = year_of_day n; (m, d) = split_month (month_lengths y) (n - days_before_year y)
      in (y, Suc m, Suc d))"

definition ordinal :: "nat \<Rightarrow> nat \<Rightarrow> nat \<Rightarrow> nat" where
  "ordinal y m d = days_before_year y + sum_list (take (m - 1) (month_lengths y)) + (d - 1)"

lemma year_from_bounds:
  assumes "0 < y" "days_before_year y \<le> n"
  shows "0 < year_from y n \<and> days_before_year (year_from y n) \<le> n
    \<and> n < days_before_year (Suc (year_from y n))"
  using assms
proof (induction y n rule: year_from.induct)
  case (1 y n)
  show ?case
  proof (cases "days_before_year (Suc y) \<le> n")
    case True
    then show ?thesis using 1 by (subst (1 2 3) year_from.simps) simp
  next
    case False
    then show ?thesis using 1 by (subst (1 2 3) year_from.simps) simp
  qed
qed

lemma year_of_day_bounds:
  "0 < year_of_day n \<and> days_before_year (year_of_day n) \<le> n
    \<and> n < days_before_year (Suc (year_of_day n))"
proof -
  have "days_before_year (Suc (n div 366)) \<le> n"
  proof -
    define q where "q = n div 366"
    have "366 * q \<le> n" by (simp add: q_def)
    moreover have "4 * (q div 4) \<le> q" "400 * (q div 400) \<le> q" by simp_all
    ultimately show ?thesis unfolding q_def[symmetric] by (simp add: days_before_year_def)
  qed
  then show ?thesis unfolding year_of_day_def using year_from_bounds by simp
qed

lemma split_month_ok:
  assumes "n < sum_list ls" "split_month ls n = (m, d)"
  shows "m < length ls \<and> d < ls ! m \<and> sum_list (take m ls) + d = n"
  using assms
proof (induction ls arbitrary: n m d)
  case (Cons l ls)
  show ?case
  proof (cases "n < l")
    case False
    obtain m' d' where s: "split_month ls (n - l) = (m', d')" by fastforce
    have "n - l < sum_list ls" using Cons.prems(1) False by simp
    from Cons.IH[OF this s] Cons.prems False s show ?thesis by (auto simp: Let_def)
  qed (use Cons.prems in auto)
qed simp

lemma month_lengths_31: "i < 12 \<Longrightarrow> month_lengths y ! i \<le> 31"
  by (auto simp: month_lengths_def nth_Cons split: nat.splits)

lemma civil_ok:
  assumes "civil n = (y, m, d)"
  shows "0 < y" "0 < m" "m \<le> 12" "0 < d" "d \<le> month_lengths y ! (m - 1)" "ordinal y m d = n"
    "y = year_of_day n"
proof -
  let ?y = "year_of_day n"
  obtain m' d' where s: "split_month (month_lengths ?y) (n - days_before_year ?y) = (m', d')"
    by (cases "split_month (month_lengths ?y) (n - days_before_year ?y)")
  have e: "y = ?y" "m = Suc m'" "d = Suc d'" using assms s by (auto simp: civil_def Let_def)
  have "n - days_before_year ?y < sum_list (month_lengths ?y)"
    using year_of_day_bounds[of n] days_before_year_Suc[of ?y] by linarith
  from split_month_ok[OF this s] have r: "m' < 12" "d' < month_lengths ?y ! m'"
    "sum_list (take m' (month_lengths ?y)) + d' = n - days_before_year ?y"
    by (auto simp: month_lengths_def)
  show "0 < y" "0 < m" "m \<le> 12" "0 < d" "d \<le> month_lengths y ! (m - 1)" "ordinal y m d = n"
    "y = ?y"
    using r year_of_day_bounds[of n] by (auto simp: e ordinal_def)
qed

section \<open>\<open>isoformat\<close> and \<open>fromisoformat\<close>\<close>

definition day_micros :: nat where
  "day_micros = 86400 * 1000000"

definition last_year :: nat where
  "last_year = 9999"

definition iso_date :: "nat \<Rightarrow> string" where
  "iso_date n = (let (y, m, d) = civil n in pad 4 y @ ''-'' @ pad 2 m @ ''-'' @ pad 2 d)"

definition iso_time :: "nat \<Rightarrow> string" where
  "iso_time u =
     (let s = u div 1000000; f = u mod 1000000
      in pad 2 (s div 3600) @ '':'' @ pad 2 (s div 60 mod 60) @ '':'' @ pad 2 (s mod 60)
           @ (if f = 0 then [] else ''.'' @ pad 6 f))"

definition isoformat_z :: "micros \<Rightarrow> string" where
  "isoformat_z t =
     (let n = nat t in iso_date (n div day_micros) @ ''T'' @ iso_time (n mod day_micros) @ ''Z'')"

definition read_field :: "nat \<Rightarrow> string \<Rightarrow> string \<Rightarrow> (nat \<times> string) option" where
  "read_field w sep s =
     (case read_digits w 0 s of
        None \<Rightarrow> None
      | Some (v, rest) \<Rightarrow>
          if starts_with rest sep then Some (v, drop (length sep) rest) else None)"

definition read_date :: "string \<Rightarrow> (nat \<times> string) option" where
  "read_date s =
     (case read_field 4 ''-'' s of
        None \<Rightarrow> None
      | Some (y, s1) \<Rightarrow>
     (case read_field 2 ''-'' s1 of
        None \<Rightarrow> None
      | Some (m, s2) \<Rightarrow>
     (case read_field 2 ''T'' s2 of
        None \<Rightarrow> None
      | Some (d, s3) \<Rightarrow>
          if 0 < y \<and> 0 < m \<and> m \<le> 12 \<and> 0 < d \<and> d \<le> month_lengths y ! (m - 1)
          then Some (ordinal y m d, s3) else None)))"

definition read_fraction :: "string \<Rightarrow> nat option" where
  "read_fraction s =
     (if s = ''Z'' then Some 0
      else if starts_with s ''.''
      then case read_field 6 ''Z'' (tl s) of Some (f, []) \<Rightarrow> Some f | _ \<Rightarrow> None
      else None)"

definition read_time :: "string \<Rightarrow> nat option" where
  "read_time s =
     (case read_field 2 '':'' s of
        None \<Rightarrow> None
      | Some (h, s1) \<Rightarrow>
     (case read_field 2 '':'' s1 of
        None \<Rightarrow> None
      | Some (mi, s2) \<Rightarrow>
     (case read_field 2 [] s2 of
        None \<Rightarrow> None
      | Some (sec, s3) \<Rightarrow>
     (case read_fraction s3 of
        None \<Rightarrow> None
      | Some f \<Rightarrow>
          if h < 24 \<and> mi < 60 \<and> sec < 60
          then Some (((h * 60 + mi) * 60 + sec) * 1000000 + f) else None))))"

definition fromisoformat :: "string \<Rightarrow> micros option" where
  "fromisoformat s =
     (case read_date s of
        None \<Rightarrow> None
      | Some (n, rest) \<Rightarrow> map_option (\<lambda>u. int (n * day_micros + u)) (read_time rest))"

lemma read_field_pad:
  "v < 10 ^ w \<Longrightarrow> read_field w sep (pad w v @ sep @ s) = Some (v, s)"
  by (simp add: read_field_def)

lemma read_date_iso:
  assumes "year_of_day n \<le> last_year"
  shows "read_date (iso_date n @ ''T'' @ s) = Some (n, s)"
proof -
  obtain y m d where c: "civil n = (y, m, d)" by (cases "civil n")
  note ok = civil_ok[OF c]
  have d31: "d \<le> 31" using ok(2,3,5) month_lengths_31[of "m - 1" y] by linarith
  have "y < 10 ^ 4" "m < 10 ^ 2" "d < 10 ^ 2" using ok(3,7) d31 assms by (simp_all add: last_year_def)
  then show ?thesis
    using ok read_field_pad[of y 4 "''-''"] read_field_pad[of m 2 "''-''"]
      read_field_pad[of d 2 "''T''"]
    by (simp add: read_date_def iso_date_def c)
qed

lemma read_fraction_iso:
  "f < 1000000 \<Longrightarrow> read_fraction ((if f = 0 then [] else ''.'' @ pad 6 f) @ ''Z'') = Some f"
  using read_field_pad[of f 6 "''Z''" "[]"] by (simp add: read_fraction_def starts_with_def)

lemma read_time_iso:
  assumes "u < day_micros"
  shows "read_time (iso_time u @ ''Z'') = Some u"
proof -
  define s f where sf: "s = u div 1000000" "f = u mod 1000000"
  have u: "u = s * 1000000 + f" "f < 1000000" by (simp_all add: sf)
  have s: "s < 86400" using assms by (simp add: sf day_micros_def div_less_iff_less_mult)
  have b: "s div 3600 < 24" "s div 60 mod 60 < 60" "s mod 60 < 60"
    using s by (simp_all add: div_less_iff_less_mult)
  have e: "(s div 3600 * 60 + s div 60 mod 60) * 60 + s mod 60 = s"
  proof -
    have "s div 3600 = s div 60 div 60" by (simp add: div_mult2_eq[symmetric])
    then show ?thesis by simp
  qed
  have p: "s div 3600 < 10 ^ 2" "s div 60 mod 60 < 10 ^ 2" "s mod 60 < 10 ^ 2" using b by simp_all
  have i: "iso_time u @ ''Z'' = pad 2 (s div 3600) @ '':'' @ pad 2 (s div 60 mod 60) @ '':''
      @ pad 2 (s mod 60) @ [] @ (if f = 0 then [] else ''.'' @ pad 6 f) @ ''Z''"
    by (simp add: iso_time_def sf Let_def)
  have "read_time (iso_time u @ ''Z'')
      = Some (((s div 3600 * 60 + s div 60 mod 60) * 60 + s mod 60) * 1000000 + f)"
    unfolding i read_time_def read_field_pad[OF p(1)] read_field_pad[OF p(2)]
      read_field_pad[OF p(3)] read_fraction_iso[OF u(2)]
      option.case prod.case using b by simp
  then show ?thesis by (simp only: e u(1))
qed

lemma fromisoformat_isoformat:
  assumes "0 \<le> t" "year_of_day (nat t div day_micros) \<le> last_year"
  shows "fromisoformat (isoformat_z t) = Some t"
proof -
  have "nat t mod day_micros < day_micros" by (simp add: day_micros_def)
  note t = read_time_iso[OF this]
  have "int (nat t div day_micros * day_micros + nat t mod day_micros) = t"
    using assms(1) div_mult_mod_eq[of "nat t" day_micros] by simp
  then show ?thesis
    using t read_date_iso[OF assms(2)]
    by (simp add: fromisoformat_def isoformat_z_def Let_def del: of_nat_add of_nat_mult)
qed

text \<open>The instants of Python's \<open>datetime\<close>: the years 1 to 9999.\<close>

definition representable :: "micros \<Rightarrow> bool" where
  "representable t = (0 \<le> t \<and> year_of_day (nat t div day_micros) \<le> last_year)"

lemma iso_roundtrip [simp]: "representable t \<Longrightarrow> fromisoformat (isoformat_z t) = Some t"
  by (simp add: representable_def fromisoformat_isoformat)

end
