(* ===== verification/AuthzTuples.thy ===== *)
theory AuthzTuples
  imports Clock "HOL-Library.Multiset"
begin

text \<open>
  The projection of the database's sharing rows onto OpenFGA relation tuples (\<open>app/authz\<close>):
  the tuple type (\<open>tuple_types\<close>), the source rows (\<open>tuple_rows\<close>), which rows are admitted
  (\<open>tuple_filters\<close>), what one row projects (\<open>tuples\<close>), the check against the authorization
  model (\<open>tuple_model_guard\<close>, with the relations of \<open>model.json\<close>), how tuples of one key are
  merged (\<open>tuple_merge\<close>) and the whole store contents (\<open>expected_tuples\<close>).

  A condition's context is kept as the JSON object itself, its members in key order, and
  \<open>context_json\<close> is its encoding: the code keeps the encoding and decodes it on use. The times
  and durations in an expiry context are read in the form the projection writes, and context
  texts are ASCII (the encoder escapes the rest, which only matters to the sort order).

  The lemmas show that the merge permits exactly what its rows permit, that the result has one
  tuple per key, that a stored expiry is the row's expiry, and that a user without a live
  membership and an archived agent project nothing but ownership.
\<close>

section \<open>Tuples\<close>

datatype rule_error = TupleRuleError | KeyError | ValueError

definition run_sources :: "string list" where
  "run_sources = [''CHAT'', ''TRIGGER'', ''CHANNEL'', ''SUBAGENT'', ''API'']"

definition expiry_condition :: string where
  "expiry_condition = ''non_expired_grant''"

definition run_source_condition :: string where
  "run_source_condition = ''allowed_run_source''"

record condition =
  c_name :: string
  c_context :: "(string \<times> json) list"

record relation_tuple =
  rt_user :: string
  rt_relation :: string
  rt_object :: string
  rt_condition :: "condition option"

text \<open>\<open>json.dumps(..., sort_keys=True)\<close> followed by \<open>json.loads\<close>: members in key order.\<close>

fun sort_json :: "json \<Rightarrow> json" where
  "sort_json (JList xs) = JList (map sort_json xs)"
| "sort_json (JObj ms) = JObj (sort_key fst (map (\<lambda>(k, v). (k, sort_json v)) ms))"
| "sort_json v = v"

definition sorted_members :: "(string \<times> json) list \<Rightarrow> (string \<times> json) list" where
  "sorted_members ms = sort_key fst (map (\<lambda>(k, v). (k, sort_json v)) ms)"

definition context_json :: "condition \<Rightarrow> string" where
  "context_json c = dumps_sorted (JObj (c_context c))"

definition plain_tuple :: "string \<Rightarrow> string \<Rightarrow> string \<Rightarrow> relation_tuple" where
  "plain_tuple u r ob = \<lparr>rt_user = u, rt_relation = r, rt_object = ob, rt_condition = None\<rparr>"

definition tuple_of ::
    "string \<Rightarrow> string \<Rightarrow> string \<Rightarrow> string option \<Rightarrow> (string \<times> json) list option \<Rightarrow> relation_tuple"
  where
  "tuple_of u r ob cond ctx =
     (case cond of
        None \<Rightarrow> plain_tuple u r ob
      | Some n \<Rightarrow>
          \<lparr>rt_user = u, rt_relation = r, rt_object = ob, rt_condition =
             Some \<lparr>c_name = n, c_context = sorted_members (case ctx of None \<Rightarrow> [] | Some ms \<Rightarrow> ms)\<rparr>\<rparr>)"

type_synonym tuple_key = "string \<times> string \<times> string"

definition key_of :: "relation_tuple \<Rightarrow> tuple_key" where
  "key_of t = (rt_user t, rt_relation t, rt_object t)"

definition tuple_sort_key :: "relation_tuple \<Rightarrow> string \<times> string \<times> string \<times> string \<times> string" where
  "tuple_sort_key t =
     (rt_object t, rt_relation t, rt_user t,
      case rt_condition t of None \<Rightarrow> ([], []) | Some c \<Rightarrow> (c_name c, context_json c))"

section \<open>Source rows\<close>

record tenant_member_row =
  tm_tenant :: uuid
  tm_user :: uuid
  tm_status :: string

record tenant_role_row =
  tr_tenant :: uuid
  tr_user :: uuid
  tr_role :: string

record organization_row =
  og_id :: uuid
  og_tenant :: uuid
  og_status :: string

record org_member_row =
  om_org :: uuid
  om_user :: uuid
  om_status :: string

record org_role_row =
  or_org :: uuid
  or_role :: string
  or_ptype :: string
  or_pid :: uuid

record group_row =
  gr_id :: uuid
  gr_org :: uuid

record group_member_row =
  gm_group :: uuid
  gm_org :: uuid
  gm_user :: uuid

record capability_row =
  cp_org :: uuid
  cp_capability :: string
  cp_ptype :: string
  cp_pid :: uuid

record resource_row =
  rs_type :: string
  rs_id :: uuid
  rs_org :: "uuid option"
  rs_owner :: "uuid option"
  rs_system :: bool
  rs_archived_at :: "micros option"

record credential_row =
  cr_id :: uuid
  cr_org :: "uuid option"
  cr_tenant :: "uuid option"
  cr_owner :: "uuid option"
  cr_scope :: string
  cr_system :: bool

record marketplace_item_row =
  mi_id :: uuid
  mi_org :: "uuid option"
  mi_tenant :: "uuid option"
  mi_owner :: "uuid option"
  mi_system :: bool
  mi_publication :: string

record mcp_tool_row =
  mt_id :: uuid
  mt_server :: uuid

record model_row =
  mo_id :: uuid
  mo_visible :: bool

record grant_row =
  g_id :: uuid
  g_org :: uuid
  g_rtype :: string
  g_rid :: uuid
  g_relation :: string
  g_ptype :: string
  g_pid :: uuid
  g_granted_at :: micros
  g_state :: string
  g_kind :: string
  g_cond_name :: "string option"
  g_cond_context :: "(string \<times> json) list option"
  g_expires_at :: "micros option"
  g_tenant :: "uuid option"

datatype row = TenantMemberRow tenant_member_row | TenantRoleRow tenant_role_row
  | OrganizationRow organization_row | OrgMemberRow org_member_row | OrgRoleRow org_role_row
  | GroupRow group_row | GroupMemberRow group_member_row | CapabilityRow capability_row
  | ResourceRow resource_row | CredentialRow credential_row
  | MarketplaceItemRow marketplace_item_row | McpToolRow mcp_tool_row | GrantRow grant_row

record snapshot =
  tenant_members :: "tenant_member_row list"
  tenant_roles :: "tenant_role_row list"
  organizations :: "organization_row list"
  org_members :: "org_member_row list"
  org_roles :: "org_role_row list"
  groups :: "group_row list"
  group_members :: "group_member_row list"
  capabilities :: "capability_row list"
  resources :: "resource_row list"
  credentials :: "credential_row list"
  marketplace_items :: "marketplace_item_row list"
  mcp_tools :: "mcp_tool_row list"
  models :: "model_row list"
  grants :: "grant_row list"

section \<open>Admission\<close>

definition archive_revoked_kinds :: "string list" where
  "archive_revoked_kinds = [''share'', ''delegation'']"

record live =
  l_tenant_members :: "(uuid \<times> uuid) list"
  l_org_members :: "(uuid \<times> uuid) list"
  l_groups :: "(uuid \<times> uuid) list"
  l_agents :: "(uuid option \<times> uuid) list"
  l_archived_agents :: "uuid list"
  l_visible_models :: "uuid list"

definition live_of :: "snapshot \<Rightarrow> live" where
  "live_of s =
     (let agents = filter (\<lambda>r. rs_type r = ''agent'') (resources s)
      in \<lparr>l_tenant_members =
            map (\<lambda>m. (tm_tenant m, tm_user m)) (filter (\<lambda>m. tm_status m = ''active'') (tenant_members s)),
          l_org_members =
            map (\<lambda>m. (om_org m, om_user m)) (filter (\<lambda>m. om_status m = ''active'') (org_members s)),
          l_groups = map (\<lambda>g. (gr_org g, gr_id g)) (groups s),
          l_agents = map (\<lambda>a. (rs_org a, rs_id a)) agents,
          l_archived_agents = map rs_id (filter (\<lambda>a. rs_archived_at a \<noteq> None) agents),
          l_visible_models = map mo_id (filter mo_visible (models s))\<rparr>)"

definition live_principal :: "live \<Rightarrow> uuid \<Rightarrow> string \<Rightarrow> uuid \<Rightarrow> bool" where
  "live_principal l org ptype pid =
     (if ptype = ''user'' then (org, pid) \<in> set (l_org_members l)
      else if ptype = ''group'' then (org, pid) \<in> set (l_groups l)
      else if ptype = ''agent'' then (Some org, pid) \<in> set (l_agents l)
      else True)"

definition live_grant :: "live \<Rightarrow> grant_row \<Rightarrow> bool" where
  "live_grant l g =
     (let archived = (g_rtype g = ''agent'' \<and> g_rid g \<in> set (l_archived_agents l))
           \<or> (g_ptype g = ''agent'' \<and> g_pid g \<in> set (l_archived_agents l))
      in if archived \<and> g_kind g \<in> set archive_revoked_kinds then False
         else if g_rtype g = ''llm_model'' \<and> g_rid g \<notin> set (l_visible_models l) then False
         else live_principal l (g_org g) (g_ptype g) (g_pid g))"

definition admitted_rows :: "snapshot \<Rightarrow> row list" where
  "admitted_rows s =
     (let l = live_of s
      in map TenantMemberRow (tenant_members s)
       @ map TenantRoleRow (filter (\<lambda>r. (tr_tenant r, tr_user r) \<in> set (l_tenant_members l)) (tenant_roles s))
       @ map OrganizationRow (organizations s)
       @ map OrgMemberRow (org_members s)
       @ map OrgRoleRow (filter (\<lambda>r. live_principal l (or_org r) (or_ptype r) (or_pid r)) (org_roles s))
       @ map GroupRow (groups s)
       @ map GroupMemberRow (filter (\<lambda>m. (gm_org m, gm_group m) \<in> set (l_groups l)
            \<and> (gm_org m, gm_user m) \<in> set (l_org_members l)) (group_members s))
       @ map CapabilityRow (filter (\<lambda>c. live_principal l (cp_org c) (cp_ptype c) (cp_pid c)) (capabilities s))
       @ map ResourceRow (resources s)
       @ map CredentialRow (credentials s)
       @ map MarketplaceItemRow (marketplace_items s)
       @ map McpToolRow (mcp_tools s)
       @ map GrantRow (filter (live_grant l) (grants s)))"

section \<open>The authorization model\<close>

text \<open>(subject type, subject relation, condition)\<close>

type_synonym restriction = "string \<times> string \<times> string"

abbreviation subject_user :: restriction where "subject_user \<equiv> (''user'', '''', '''')"
abbreviation subject_group :: restriction where "subject_group \<equiv> (''group'', ''member'', '''')"
abbreviation subject_org :: restriction where "subject_org \<equiv> (''organization'', ''member'', '''')"
abbreviation subject_agent :: restriction where "subject_agent \<equiv> (''agent'', '''', '''')"

text \<open>The directly assignable relations of each object type, from \<open>model.json\<close>.\<close>

definition model_restrictions :: "(string \<times> (string list \<times> restriction list) list) list" where
  "model_restrictions =
    [(''tenant'',
      [([''admin'', ''auditor'', ''member''],
        [subject_user]),
       ([''can_create_org'', ''can_manage_tenant'', ''can_manage_tenant_catalog'',
         ''can_view_tenant_audit'', ''can_view_tenant_usage''],
        [])]),
     (''group'',
      [([''member''],
        [subject_user]),
       ([''org''],
        [(''organization'', '''', '''')])]),
     (''organization'',
      [([''admin'', ''auditor'', ''builder'', ''cap_connect_database'',
         ''cap_share_org_wide'', ''member''],
        [subject_user, subject_group]),
       ([''boundary'', ''can_manage_members'', ''can_manage_policy'', ''can_view_audit'',
         ''can_view_usage'', ''governor''],
        []),
       ([''cap_create_agent'', ''cap_create_skill'', ''cap_create_tool'',
         ''cap_publish_marketplace'', ''cap_register_mcp''],
        [subject_user, subject_group, subject_org]),
       ([''resident_agent''],
        [subject_agent]),
       ([''tenant''],
        [(''tenant'', '''', '''')])]),
     (''llm_model'',
      [([''can_use''],
        []),
       ([''consumer''],
        [subject_user, subject_group, subject_org])]),
     (''credential'',
      [([''allowed_org'', ''org''],
        [(''organization'', '''', '''')]),
       ([''can_delete'', ''can_edit'', ''can_govern'', ''can_revoke'', ''can_share'',
         ''can_use'', ''in_boundary''],
        []),
       ([''consumer''],
        [subject_user, subject_group, subject_org, subject_agent]),
       ([''manager'', ''owner''],
        [subject_user]),
       ([''tenant''],
        [(''tenant'', '''', '''')])]),
     (''tool'',
      [([''allowed_org'', ''org''],
        [(''organization'', '''', '''')]),
       ([''can_delete'', ''can_edit'', ''can_govern'', ''can_revoke'', ''can_share'',
         ''can_use'', ''can_view'', ''in_boundary''],
        []),
       ([''consumer''],
        [subject_user, subject_group, subject_org, subject_agent]),
       ([''editor'', ''manager''],
        [subject_user, subject_group]),
       ([''owner''],
        [subject_user]),
       ([''viewer''],
        [subject_user, subject_group, subject_org])]),
     (''mcp_server'',
      [([''allowed_org'', ''org''],
        [(''organization'', '''', '''')]),
       ([''can_delete'', ''can_edit'', ''can_govern'', ''can_revoke'', ''can_share'',
         ''can_use'', ''can_view'', ''in_boundary''],
        []),
       ([''consumer''],
        [subject_user, subject_group, subject_org, (''agent'', '''', ''allowed_run_source'')]),
       ([''editor'', ''manager''],
        [subject_user, subject_group]),
       ([''owner''],
        [subject_user]),
       ([''viewer''],
        [subject_user, subject_group, subject_org])]),
     (''mcp_tool'',
      [([''blocked''],
        [subject_user, subject_group, subject_org, subject_agent]),
       ([''can_invoke''],
        []),
       ([''server''],
        [(''mcp_server'', '''', '''')])]),
     (''skill'',
      [([''allowed_org'', ''org''],
        [(''organization'', '''', '''')]),
       ([''can_delete'', ''can_edit'', ''can_govern'', ''can_revoke'', ''can_share'',
         ''can_use'', ''can_view'', ''in_boundary''],
        []),
       ([''consumer''],
        [subject_user, subject_group, subject_org, subject_agent]),
       ([''editor'', ''manager''],
        [subject_user, subject_group]),
       ([''owner''],
        [subject_user]),
       ([''viewer''],
        [subject_user, subject_group, subject_org])]),
     (''agent'',
      [([''can_clone'', ''can_delete'', ''can_deploy'', ''can_edit'', ''can_govern'',
         ''can_revoke'', ''can_run'', ''can_share'', ''can_view_config'', ''in_boundary''],
        []),
       ([''consumer''],
        [subject_user, subject_group, subject_org, subject_agent,
         (''user'', '''', ''non_expired_grant'')]),
       ([''editor'', ''manager''],
        [subject_user, subject_group]),
       ([''org''],
        [(''organization'', '''', '''')]),
       ([''owner''],
        [subject_user]),
       ([''viewer''],
        [subject_user, subject_group, subject_org])]),
     (''knowledge_base'',
      [([''can_delete'', ''can_edit'', ''can_govern'', ''can_query'', ''can_revoke'',
         ''can_share'', ''can_view'', ''in_boundary''],
        []),
       ([''consumer''],
        [subject_user, subject_group, subject_org, subject_agent]),
       ([''editor'', ''manager'', ''viewer''],
        [subject_user, subject_group]),
       ([''org''],
        [(''organization'', '''', '''')]),
       ([''owner''],
        [subject_user])]),
     (''document'',
      [([''can_view''],
        []),
       ([''kb''],
        [(''knowledge_base'', '''', '''')]),
       ([''viewer''],
        [subject_user, subject_group])]),
     (''db_connection'',
      [([''can_delete'', ''can_edit'', ''can_explore'', ''can_govern'', ''can_revoke'',
         ''can_share'', ''in_boundary''],
        []),
       ([''explorer''],
        [subject_user, subject_group, (''user'', '''', ''in_company_network'')]),
       ([''manager''],
        [subject_user, subject_group]),
       ([''org''],
        [(''organization'', '''', '''')]),
       ([''owner''],
        [subject_user])]),
     (''db_query_tool'',
      [([''can_use''],
        []),
       ([''connection''],
        [(''db_connection'', '''', '''')]),
       ([''consumer''],
        [subject_user, subject_group, subject_org, subject_agent])]),
     (''marketplace_item'',
      [([''can_govern'', ''can_install'', ''can_manage'', ''can_view''],
        []),
       ([''installer'', ''viewer''],
        [subject_user, subject_group, subject_org, (''tenant'', ''member'', '''')]),
       ([''manager'', ''owner''],
        [subject_user]),
       ([''org''],
        [(''organization'', '''', '''')]),
       ([''tenant''],
        [(''tenant'', '''', '''')])]),
     (''workflow'',
      [([''can_delete'', ''can_edit'', ''can_revoke'', ''can_run'', ''can_share'',
         ''in_boundary''],
        []),
       ([''consumer''],
        [subject_user, subject_group, subject_org]),
       ([''editor'', ''manager''],
        [subject_user, subject_group]),
       ([''org''],
        [(''organization'', '''', '''')]),
       ([''owner''],
        [subject_user])])]"

definition condition_parameters :: "string \<Rightarrow> string list option" where
  "condition_parameters n = map_of
     [(''allowed_run_source'', [''allowed_sources'', ''run_source'']),
      (''in_company_network'', [''cidr'', ''user_ip'']),
      (''non_expired_grant'', [''current_time'', ''grant_duration'', ''grant_time''])] n"

definition runtime_parameters :: "string list" where
  "runtime_parameters = [''current_time'', ''run_source'', ''user_ip'']"

definition restrictions :: "string \<Rightarrow> string \<Rightarrow> restriction list option" where
  "restrictions typ rel =
     (case map_of model_restrictions typ of
        None \<Rightarrow> None
      | Some entries \<Rightarrow> map_option snd (find (\<lambda>(rels, _). rel \<in> set rels) entries))"

definition assert_model_valid :: "relation_tuple \<Rightarrow> rule_error + unit" where
  "assert_model_valid t =
     (case restrictions (before_char (CHR '':'') (rt_object t)) (rt_relation t) of
        None \<Rightarrow> Inl TupleRuleError
      | Some allowed \<Rightarrow>
          let subject = before_char (CHR ''#'') (rt_user t);
              subject_relation = after_char (CHR ''#'') (rt_user t);
              cond = (case rt_condition t of None \<Rightarrow> [] | Some c \<Rightarrow> c_name c)
          in if (before_char (CHR '':'') subject, subject_relation, cond) \<notin> set allowed
             then Inl TupleRuleError
             else (case rt_condition t of
                     None \<Rightarrow> Inr ()
                   | Some c \<Rightarrow>
                       (case condition_parameters cond of
                          None \<Rightarrow> Inl KeyError
                        | Some params \<Rightarrow>
                            let stored = map fst (c_context c)
                            in if (\<exists>k\<in>set stored. k \<notin> set params)
                                 \<or> (\<exists>k\<in>set params. k \<notin> set stored \<and> k \<notin> set runtime_parameters)
                               then Inl TupleRuleError else Inr ())))"

section \<open>What one row projects\<close>

definition ref :: "string \<Rightarrow> uuid \<Rightarrow> string" where
  "ref kind v = kind @ '':'' @ v"

definition principal_ref :: "string \<Rightarrow> uuid \<Rightarrow> string \<Rightarrow> rule_error + string" where
  "principal_ref ptype pid rel =
     (if ptype = ''user'' \<or> ptype = ''agent'' then Inr (ref ptype pid)
      else if ptype = ''organization'' \<and> rel = ''allowed_org'' then Inr (ref ''organization'' pid)
      else if ptype = ''group'' \<or> ptype = ''organization'' then Inr (ref ptype pid @ ''#member'')
      else Inl TupleRuleError)"

definition org_and_owner ::
    "string \<Rightarrow> uuid \<Rightarrow> uuid option \<Rightarrow> uuid option \<Rightarrow> bool \<Rightarrow> relation_tuple list" where
  "org_and_owner kind rid org owner system =
     (if system then []
      else (case org of None \<Rightarrow> []
              | Some o' \<Rightarrow> [plain_tuple (ref ''organization'' o') ''org'' (ref kind rid)])
         @ (case owner of None \<Rightarrow> []
              | Some u \<Rightarrow> [plain_tuple (ref ''user'' u) ''owner'' (ref kind rid)]))"

definition duration_text :: "micros \<Rightarrow> string" where
  "duration_text d =
     (if d mod 1000000 = 0 then show_int (d div 1000000) @ ''s'' else show_int d @ ''us'')"

definition marketplace_tenant :: "grant_row \<Rightarrow> relation_tuple list" where
  "marketplace_tenant g =
     (if g_rtype g \<noteq> ''marketplace_item'' \<or> g_ptype g \<noteq> ''organization'' then []
      else case g_tenant g of
             None \<Rightarrow> []
           | Some t \<Rightarrow> [plain_tuple (ref ''tenant'' t) ''tenant'' (ref ''marketplace_item'' (g_rid g))])"

definition expiry_context :: "micros \<Rightarrow> micros \<Rightarrow> (string \<times> json) list" where
  "expiry_context start e =
     [(''grant_time'', JStr (isoformat_z start)), (''grant_duration'', JStr (duration_text (e - start)))]"

definition principal_tuple :: "grant_row \<Rightarrow> micros \<Rightarrow> rule_error + relation_tuple list" where
  "principal_tuple g now =
     (case principal_ref (g_ptype g) (g_pid g) (g_relation g) of
        Inl e \<Rightarrow> Inl e
      | Inr u \<Rightarrow>
          let ob = ref (g_rtype g) (g_rid g)
          in case g_expires_at g of
               Some e \<Rightarrow>
                 if g_cond_name g \<noteq> None then Inl TupleRuleError
                 else let start = g_granted_at g
                      in if e \<le> now \<or> e \<le> start then Inr []
                         else Inr [tuple_of u (g_relation g) ob (Some expiry_condition)
                                     (Some (expiry_context start e))]
             | None \<Rightarrow>
                 (case g_cond_name g of
                    Some n \<Rightarrow> Inr [tuple_of u (g_relation g) ob (Some n) (g_cond_context g)]
                  | None \<Rightarrow>
                      if g_rtype g = ''mcp_server'' \<and> g_ptype g = ''agent'' then Inl TupleRuleError
                      else Inr [plain_tuple u (g_relation g) ob]))"

definition grant_tuples :: "grant_row \<Rightarrow> micros \<Rightarrow> rule_error + relation_tuple list" where
  "grant_tuples g now =
     (if g_state g \<noteq> ''active'' then Inr []
      else case principal_tuple g now of
             Inl e \<Rightarrow> Inl e
           | Inr ts \<Rightarrow> Inr (marketplace_tenant g @ ts))"

definition one_principal ::
    "string \<Rightarrow> uuid \<Rightarrow> string \<Rightarrow> string \<Rightarrow> rule_error + relation_tuple list" where
  "one_principal ptype pid rel ob =
     (case principal_ref ptype pid rel of
        Inl e \<Rightarrow> Inl e | Inr u \<Rightarrow> Inr [plain_tuple u rel ob])"

fun row_tuples :: "micros \<Rightarrow> row \<Rightarrow> rule_error + relation_tuple list" where
  "row_tuples now (TenantMemberRow m) =
     Inr (if tm_status m = ''active''
          then [plain_tuple (ref ''user'' (tm_user m)) ''member'' (ref ''tenant'' (tm_tenant m))] else [])"
| "row_tuples now (TenantRoleRow r) =
     Inr [plain_tuple (ref ''user'' (tr_user r)) (tr_role r) (ref ''tenant'' (tr_tenant r))]"
| "row_tuples now (OrganizationRow r) =
     Inr [plain_tuple (ref ''tenant'' (og_tenant r)) ''tenant'' (ref ''organization'' (og_id r))]"
| "row_tuples now (OrgMemberRow m) =
     Inr (if om_status m = ''active''
          then [plain_tuple (ref ''user'' (om_user m)) ''member'' (ref ''organization'' (om_org m))] else [])"
| "row_tuples now (OrgRoleRow r) =
     one_principal (or_ptype r) (or_pid r) (or_role r) (ref ''organization'' (or_org r))"
| "row_tuples now (GroupRow g) =
     Inr [plain_tuple (ref ''organization'' (gr_org g)) ''org'' (ref ''group'' (gr_id g))]"
| "row_tuples now (GroupMemberRow m) =
     Inr [plain_tuple (ref ''user'' (gm_user m)) ''member'' (ref ''group'' (gm_group m))]"
| "row_tuples now (CapabilityRow c) =
     one_principal (cp_ptype c) (cp_pid c) (cp_capability c) (ref ''organization'' (cp_org c))"
| "row_tuples now (ResourceRow r) =
     Inr (org_and_owner (rs_type r) (rs_id r) (rs_org r) (rs_owner r) (rs_system r)
        @ (if rs_type r = ''agent''
           then case rs_org r of None \<Rightarrow> []
                | Some o' \<Rightarrow> [plain_tuple (ref ''agent'' (rs_id r)) ''resident_agent'' (ref ''organization'' o')]
           else []))"
| "row_tuples now (CredentialRow c) =
     Inr ((if cr_scope c = ''tenant''
           then case cr_tenant c of None \<Rightarrow> []
                | Some t \<Rightarrow> [plain_tuple (ref ''tenant'' t) ''tenant'' (ref ''credential'' (cr_id c))]
           else [])
        @ org_and_owner ''credential'' (cr_id c) (cr_org c) (cr_owner c) (cr_system c))"
| "row_tuples now (MarketplaceItemRow i) =
     Inr (case mi_tenant i of
        None \<Rightarrow> org_and_owner ''marketplace_item'' (mi_id i) (mi_org i) (mi_owner i) (mi_system i)
      | Some t \<Rightarrow>
          if mi_system i
          then org_and_owner ''marketplace_item'' (mi_id i) (mi_org i) (mi_owner i) (mi_system i)
          else org_and_owner ''marketplace_item'' (mi_id i) (mi_org i) (mi_owner i) False
             @ [plain_tuple (ref ''tenant'' t) ''tenant'' (ref ''marketplace_item'' (mi_id i))]
             @ (if mi_publication i = ''approved''
                then [plain_tuple (ref ''tenant'' t @ ''#member'') ''installer''
                        (ref ''marketplace_item'' (mi_id i))] else []))"
| "row_tuples now (McpToolRow t) =
     Inr [plain_tuple (ref ''mcp_server'' (mt_server t)) ''server'' (ref ''mcp_tool'' (mt_id t))]"
| "row_tuples now (GrantRow g) = grant_tuples g now"

text \<open>The first failure stops: an exception raised while a sequence is produced.\<close>

fun collect :: "('e + 'a) list \<Rightarrow> 'e + 'a list" where
  "collect [] = Inr []"
| "collect (Inl e # rs) = Inl e"
| "collect (Inr x # rs) = (case collect rs of Inl e \<Rightarrow> Inl e | Inr xs \<Rightarrow> Inr (x # xs))"

definition tuples_for :: "micros \<Rightarrow> row \<Rightarrow> rule_error + relation_tuple list" where
  "tuples_for now r =
     (case row_tuples now r of
        Inl e \<Rightarrow> Inl e
      | Inr ts \<Rightarrow> (case collect (map assert_model_valid ts) of Inl e \<Rightarrow> Inl e | Inr _ \<Rightarrow> Inr ts))"

section \<open>Merging\<close>

definition read_int :: "string \<Rightarrow> int option" where
  "read_int s =
     (case s of
        [] \<Rightarrow> None
      | c # r \<Rightarrow>
          if c = CHR ''-''
          then (if r \<noteq> [] \<and> list_all is_digit r then map_option (\<lambda>(n, _). - int n) (read_digits (length r) 0 r) else None)
          else (if list_all is_digit s then map_option (\<lambda>(n, _). int n) (read_digits (length s) 0 s) else None))"

definition ends_with :: "string \<Rightarrow> string \<Rightarrow> bool" where
  "ends_with s p = (length p \<le> length s \<and> drop (length s - length p) s = p)"

definition duration_of :: "string \<Rightarrow> micros option" where
  "duration_of s =
     (if ends_with s ''us'' then read_int (take (length s - 2) s)
      else map_option (\<lambda>n. n * 1000000) (read_int (take (length s - 1) s)))"

definition context_of :: "relation_tuple \<Rightarrow> (string \<times> json) list" where
  "context_of t = (case rt_condition t of None \<Rightarrow> [] | Some c \<Rightarrow> c_context c)"

definition expiry_end :: "relation_tuple \<Rightarrow> rule_error + micros" where
  "expiry_end t =
     (case (map_of (context_of t) ''grant_time'', map_of (context_of t) ''grant_duration'') of
        (Some (JStr start), Some (JStr d)) \<Rightarrow>
          (case (fromisoformat start, duration_of d) of
             (Some s, Some n) \<Rightarrow> Inr (s + n)
           | _ \<Rightarrow> Inl ValueError)
      | (Some _, Some _) \<Rightarrow> Inl ValueError
      | _ \<Rightarrow> Inl KeyError)"

text \<open>\<open>str(source)\<close> of an entry of the list; the entries are strings.\<close>

fun source_text :: "json \<Rightarrow> string" where
  "source_text (JStr s) = s"
| "source_text v = dumps_sorted v"

definition sources_of :: "relation_tuple \<Rightarrow> string list" where
  "sources_of t =
     (case map_of (context_of t) ''allowed_sources'' of Some (JList xs) \<Rightarrow> map source_text xs | _ \<Rightarrow> [])"

definition run_source_context :: "string list \<Rightarrow> (string \<times> json) list" where
  "run_source_context found =
     [(''allowed_sources'',
       JList (map JStr (filter (\<lambda>s. s \<in> set found) run_sources
          @ sort (remdups (filter (\<lambda>s. s \<notin> set run_sources) found)))))]"

text \<open>The tuples of one key, distinct and in order, with the first of them.\<close>

definition merge_distinct :: "relation_tuple \<Rightarrow> relation_tuple list \<Rightarrow> rule_error + relation_tuple" where
  "merge_distinct first ds =
     (let names = set (map c_name (List.map_filter rt_condition ds))
      in if (\<exists>t\<in>set ds. rt_condition t = None)
         then Inr (plain_tuple (rt_user first) (rt_relation first) (rt_object first))
         else if names = {expiry_condition}
         then (case collect (map expiry_end ds) of
                 Inl e \<Rightarrow> Inl e
               | Inr ends \<Rightarrow>
                   (case find (\<lambda>t. expiry_end t = Inr (Max (set ends))) ds of
                      None \<Rightarrow> Inl ValueError
                    | Some t \<Rightarrow> Inr t))
         else if names = {run_source_condition}
         then Inr (tuple_of (rt_user first) (rt_relation first) (rt_object first)
                     (Some run_source_condition)
                     (Some (run_source_context (concat (map sources_of ds)))))
         else Inl TupleRuleError)"

definition merge_key :: "relation_tuple list \<Rightarrow> rule_error + relation_tuple" where
  "merge_key items =
     (let ds = sort_key tuple_sort_key (remdups items)
      in case ds of
           [] \<Rightarrow> Inl ValueError
         | [t] \<Rightarrow> Inr t
         | first # _ # _ \<Rightarrow> merge_distinct first ds)"

definition first_keys :: "relation_tuple list \<Rightarrow> tuple_key list" where
  "first_keys ts = rev (remdups (rev (map key_of ts)))"

definition merge_tuples :: "relation_tuple list \<Rightarrow> rule_error + relation_tuple list" where
  "merge_tuples ts =
     (case collect (map (\<lambda>k. merge_key (filter (\<lambda>t. key_of t = k) ts)) (first_keys ts)) of
        Inl e \<Rightarrow> Inl e
      | Inr merged \<Rightarrow> Inr (sort_key tuple_sort_key merged))"

definition expected_tuples :: "snapshot \<Rightarrow> micros \<Rightarrow> rule_error + relation_tuple list" where
  "expected_tuples s now =
     (case collect (map (tuples_for now) (admitted_rows s)) of
        Inl e \<Rightarrow> Inl e
      | Inr tss \<Rightarrow> merge_tuples (concat tss))"

section \<open>What a tuple permits\<close>

text \<open>
  The server's reading of a stored tuple: the conditions of \<open>model.fga\<close>. The network condition
  is evaluated by the server on its own parameters (\<open>net\<close>).
\<close>

definition allows :: "(condition \<Rightarrow> bool) \<Rightarrow> relation_tuple \<Rightarrow> micros \<Rightarrow> string \<Rightarrow> bool" where
  "allows net t now src =
     (case rt_condition t of
        None \<Rightarrow> True
      | Some c \<Rightarrow>
          if c_name c = expiry_condition
          then (case expiry_end t of Inr e \<Rightarrow> now < e | Inl _ \<Rightarrow> False)
          else if c_name c = run_source_condition then src \<in> set (sources_of t)
          else net c)"

lemma tuple_fields [simp]:
  "rt_user (plain_tuple u r ob) = u" "rt_relation (plain_tuple u r ob) = r"
  "rt_object (plain_tuple u r ob) = ob" "rt_condition (plain_tuple u r ob) = None"
  "key_of (plain_tuple u r ob) = (u, r, ob)"
  by (simp_all add: plain_tuple_def key_of_def)

lemma tuple_of_fields [simp]:
  "rt_user (tuple_of u r ob c x) = u" "rt_relation (tuple_of u r ob c x) = r"
  "rt_object (tuple_of u r ob c x) = ob" "key_of (tuple_of u r ob c x) = (u, r, ob)"
  by (auto simp: tuple_of_def key_of_def split: option.splits)

lemma collect_map_Inr [simp]: "collect (map Inr xs) = Inr xs"
  by (induction xs) auto

lemma collect_Inr: "collect rs = Inr xs \<longleftrightarrow> rs = map Inr xs"
proof
  show "collect rs = Inr xs \<Longrightarrow> rs = map Inr xs"
  proof (induction rs arbitrary: xs)
    case (Cons r rs)
    then show ?case by (cases r) (auto split: sum.splits)
  qed auto
qed simp

lemma collect_map: "collect (map f xs) = Inr ys \<longleftrightarrow> map f xs = map Inr ys"
  by (rule collect_Inr)

lemma map_Inr_member:
  assumes "map f xs = map Inr ys"
  shows "x \<in> set xs \<Longrightarrow> \<exists>y\<in>set ys. f x = Inr y" "y \<in> set ys \<Longrightarrow> \<exists>x\<in>set xs. f x = Inr y"
proof -
  have e: "f ` set xs = Inr ` set ys" using arg_cong[OF assms, of set] by simp
  show "x \<in> set xs \<Longrightarrow> \<exists>y\<in>set ys. f x = Inr y" using e by blast
  show "y \<in> set ys \<Longrightarrow> \<exists>x\<in>set xs. f x = Inr y" using e by (metis imageE imageI)
qed

lemma allows_unconditioned: "rt_condition t = None \<Longrightarrow> allows net t now src"
  by (simp add: allows_def)

lemma sources_run_source:
  "set (sources_of (tuple_of u r ob (Some run_source_condition) (Some (run_source_context xs)))) = set xs"
  by (auto simp: sources_of_def context_of_def tuple_of_def run_source_context_def sorted_members_def
      comp_def)

lemma names_single:
  assumes "\<forall>t\<in>set ds. rt_condition t \<noteq> None" "set (map c_name (List.map_filter rt_condition ds)) = {n}"
    "t \<in> set ds"
  obtains c where "rt_condition t = Some c" "c_name c = n"
proof -
  obtain c where c: "rt_condition t = Some c" using assms(1,3) by blast
  then have "c \<in> set (List.map_filter rt_condition ds)"
    using assms(3) by (auto simp: map_filter_def image_iff intro!: bexI[of _ t])
  then have "c_name c = n" using assms(2) by auto
  then show ?thesis using c that by blast
qed

lemma merge_distinct_expiry:
  assumes ds: "ds \<noteq> []" and cond: "\<forall>t\<in>set ds. rt_condition t \<noteq> None"
    and names: "set (map c_name (List.map_filter rt_condition ds)) = {expiry_condition}"
    and ends: "collect (map expiry_end ds) = Inr es"
    and m: "find (\<lambda>t. expiry_end t = Inr (Max (set es))) ds = Some m"
  shows "allows net m now src \<longleftrightarrow> (\<exists>t\<in>set ds. allows net t now src)"
proof -
  note e = ends[unfolded collect_map]
  have mem: "m \<in> set ds" "expiry_end m = Inr (Max (set es))"
    using m by (auto simp: find_Some_iff)
  have al: "allows net t now src \<longleftrightarrow> (\<exists>x. expiry_end t = Inr x \<and> now < x)" if t: "t \<in> set ds" for t
  proof -
    obtain c where "rt_condition t = Some c" "c_name c = expiry_condition"
      using names_single[OF cond names t] by blast
    then show ?thesis by (cases "expiry_end t") (simp_all add: allows_def)
  qed
  have ne: "set es \<noteq> {}" using ds e by (cases ds) auto
  show ?thesis
  proof
    assume "allows net m now src" then show "\<exists>t\<in>set ds. allows net t now src" using mem(1) by blast
  next
    assume "\<exists>t\<in>set ds. allows net t now src"
    then obtain t x where t: "t \<in> set ds" "expiry_end t = Inr x" "now < x" using al by blast
    have "x \<in> set es" using map_Inr_member(1)[OF e t(1)] t(2) by auto
    then have "x \<le> Max (set es)" by simp
    then have "now < Max (set es)" using t(3) by linarith
    then show "allows net m now src" using al[OF mem(1)] mem(2) by blast
  qed
qed

lemma merge_distinct_source:
  assumes cond: "\<forall>t\<in>set ds. rt_condition t \<noteq> None"
    and names: "set (map c_name (List.map_filter rt_condition ds)) = {run_source_condition}"
  shows "allows net (tuple_of u r ob (Some run_source_condition)
      (Some (run_source_context (concat (map sources_of ds))))) now src
    \<longleftrightarrow> (\<exists>t\<in>set ds. allows net t now src)"
proof -
  have ne: "run_source_condition \<noteq> expiry_condition"
    by (simp add: run_source_condition_def expiry_condition_def)
  let ?m = "tuple_of u r ob (Some run_source_condition)
      (Some (run_source_context (concat (map sources_of ds))))"
  have "allows net ?m now src \<longleftrightarrow> src \<in> set (sources_of ?m)"
    using ne by (simp add: allows_def tuple_of_def)
  also have "\<dots> \<longleftrightarrow> (\<exists>t\<in>set ds. src \<in> set (sources_of t))"
    unfolding sources_run_source by simp
  also have "\<dots> \<longleftrightarrow> (\<exists>t\<in>set ds. allows net t now src)"
  proof -
    have "allows net t now src \<longleftrightarrow> src \<in> set (sources_of t)" if t: "t \<in> set ds" for t
    proof -
      obtain c where "rt_condition t = Some c" "c_name c = run_source_condition"
        using names_single[OF cond names t] by blast
      then show ?thesis using ne by (simp add: allows_def)
    qed
    then show ?thesis by blast
  qed
  finally show ?thesis .
qed

lemma merge_distinct_permits:
  assumes "ds \<noteq> []" "\<forall>t\<in>set ds. key_of t = k" "first \<in> set ds" "merge_distinct first ds = Inr m"
  shows "key_of m = k \<and> (allows net m now src \<longleftrightarrow> (\<exists>t\<in>set ds. allows net t now src))"
proof -
  let ?names = "set (map c_name (List.map_filter rt_condition ds))"
  have kf: "(rt_user first, rt_relation first, rt_object first) = k"
    using assms(2,3) by (auto simp: key_of_def)
  note m = assms(4)[unfolded merge_distinct_def Let_def]
  consider (plain) "\<exists>t\<in>set ds. rt_condition t = None"
    | (expiry) "\<forall>t\<in>set ds. rt_condition t \<noteq> None" "?names = {expiry_condition}"
    | (source) "\<forall>t\<in>set ds. rt_condition t \<noteq> None" "?names \<noteq> {expiry_condition}"
        "?names = {run_source_condition}"
    using m by (metis Inl_Inr_False)
  then show ?thesis
  proof cases
    case plain
    then have "m = plain_tuple (rt_user first) (rt_relation first) (rt_object first)" using m by simp
    moreover have "\<exists>t\<in>set ds. allows net t now src" using plain allows_unconditioned by blast
    ultimately show ?thesis using kf allows_unconditioned[of m] by simp
  next
    case expiry
    have "\<not> (\<exists>t\<in>set ds. rt_condition t = None)" using expiry(1) by blast
    then have "(case collect (map expiry_end ds) of Inl e \<Rightarrow> Inl e
        | Inr es \<Rightarrow> (case find (\<lambda>t. expiry_end t = Inr (Max (set es))) ds of
            None \<Rightarrow> Inl ValueError | Some t \<Rightarrow> Inr t)) = Inr m"
      using m expiry(2) by (simp only: if_False if_True refl)
    then obtain es where es: "collect (map expiry_end ds) = Inr es"
      "find (\<lambda>t. expiry_end t = Inr (Max (set es))) ds = Some m"
      by (cases "collect (map expiry_end ds)") (auto split: option.splits)
    have "m \<in> set ds" using es(2) by (auto simp: find_Some_iff)
    then show ?thesis using merge_distinct_expiry[OF assms(1) expiry es] assms(2) by blast
  next
    case source
    have cf: "(\<exists>t\<in>set ds. rt_condition t = None) = False" using source(1) by blast
    have ne: "({run_source_condition} = {expiry_condition}) = False"
      by (simp add: run_source_condition_def expiry_condition_def)
    have "m = tuple_of (rt_user first) (rt_relation first) (rt_object first)
        (Some run_source_condition) (Some (run_source_context (concat (map sources_of ds))))"
      using m unfolding cf source(3) ne if_False by (simp only: if_True sum.inject refl)
    then show ?thesis using merge_distinct_source[OF source(1,3)] kf by simp
  qed
qed

lemma merge_key_permits:
  assumes keys: "\<forall>t\<in>set items. key_of t = k" and m: "merge_key items = Inr m"
  shows "key_of m = k \<and> (allows net m now src \<longleftrightarrow> (\<exists>t\<in>set items. allows net t now src))"
proof -
  define ds where "ds = sort_key tuple_sort_key (remdups items)"
  have set_ds: "set ds = set items" by (simp add: ds_def)
  note m' = m[unfolded merge_key_def ds_def[symmetric] Let_def]
  consider (empty) "ds = []" | (one) t where "ds = [t]" | (more) f g r where "ds = f # g # r"
    by (metis neq_Nil_conv)
  then show ?thesis
  proof cases
    case empty then show ?thesis using m' by simp
  next
    case (one t)
    then have "m = t" "set items = {t}" using m' set_ds by auto
    then show ?thesis using keys by simp
  next
    case (more f g r)
    then have "merge_distinct f ds = Inr m" using m' by simp
    moreover have "ds \<noteq> []" "f \<in> set ds" using more by simp_all
    moreover have "\<forall>t\<in>set ds. key_of t = k" unfolding set_ds by (rule keys)
    ultimately show ?thesis
      using merge_distinct_permits[of ds k f m net now src] unfolding set_ds by blast
  qed
qed

section \<open>The whole projection\<close>

lemma set_first_keys: "set (first_keys ts) = key_of ` set ts"
  by (simp add: first_keys_def)

lemma distinct_first_keys: "distinct (first_keys ts)"
  by (simp add: first_keys_def)

lemma merge_tuples_cases:
  assumes "merge_tuples ts = Inr ms"
  obtains merged where "ms = sort_key tuple_sort_key merged" "map key_of merged = first_keys ts"
    "map (\<lambda>k. merge_key (filter (\<lambda>t. key_of t = k) ts)) (first_keys ts) = map Inr merged"
proof -
  let ?f = "\<lambda>k. merge_key (filter (\<lambda>t. key_of t = k) ts)"
  obtain merged where c: "collect (map ?f (first_keys ts)) = Inr merged"
    and ms: "ms = sort_key tuple_sort_key merged"
    using assms by (auto simp: merge_tuples_def split: sum.splits)
  note e = c[unfolded collect_map]
  have l: "length (first_keys ts) = length merged" using arg_cong[OF e, of length] by simp
  have "key_of (merged ! i) = first_keys ts ! i" if "i < length merged" for i
  proof -
    have "?f (first_keys ts ! i) = Inr (merged ! i)"
      using arg_cong[OF e, of "\<lambda>xs. xs ! i"] that l by simp
    from merge_key_permits[OF _ this] show ?thesis by simp
  qed
  then have "map key_of merged = first_keys ts" using l by (auto intro: nth_equalityI)
  then show ?thesis using that ms e by blast
qed

lemma merge_tuples_keys:
  assumes "merge_tuples ts = Inr ms"
  shows "distinct (map key_of ms)" "sorted (map tuple_sort_key ms)" "key_of ` set ms = key_of ` set ts"
proof -
  obtain merged where m: "ms = sort_key tuple_sort_key merged" "map key_of merged = first_keys ts"
    using merge_tuples_cases[OF assms] by blast
  show "distinct (map key_of ms)" using m distinct_first_keys[of ts] by (simp add: distinct_map_sort_key)
  show "sorted (map tuple_sort_key ms)" using m by simp
  show "key_of ` set ms = key_of ` set ts"
    using arg_cong[OF m(2), of set] m(1) by (simp add: set_first_keys)
qed

lemma merge_tuples_permits:
  assumes "merge_tuples ts = Inr ms"
  shows "(\<exists>t\<in>set ms. key_of t = k \<and> allows net t now src)
    \<longleftrightarrow> (\<exists>t\<in>set ts. key_of t = k \<and> allows net t now src)"
proof -
  let ?f = "\<lambda>k. merge_key (filter (\<lambda>t. key_of t = k) ts)"
  obtain merged where m: "ms = sort_key tuple_sort_key merged"
    and e: "map ?f (first_keys ts) = map Inr merged"
    using merge_tuples_cases[OF assms] by blast
  have p: "key_of y = q \<and> (allows net y now src \<longleftrightarrow> (\<exists>t\<in>set ts. key_of t = q \<and> allows net t now src))"
    if "?f q = Inr y" for q y
  proof -
    have "\<forall>t\<in>set (filter (\<lambda>t. key_of t = q) ts). key_of t = q" by simp
    from merge_key_permits[OF this that, of net now src] show ?thesis
      unfolding set_filter by blast
  qed
  show ?thesis
  proof
    assume "\<exists>t\<in>set ms. key_of t = k \<and> allows net t now src"
    then obtain y where y: "y \<in> set merged" "key_of y = k" "allows net y now src"
      unfolding m set_sort by blast
    obtain q where "?f q = Inr y" using map_Inr_member(2)[OF e y(1)] by blast
    then show "\<exists>t\<in>set ts. key_of t = k \<and> allows net t now src" using p y(2,3) by blast
  next
    assume r: "\<exists>t\<in>set ts. key_of t = k \<and> allows net t now src"
    then have "k \<in> set (first_keys ts)" by (auto simp: set_first_keys)
    then obtain y where y: "y \<in> set merged" "?f k = Inr y" using map_Inr_member(1)[OF e] by blast
    then have "y \<in> set ms" "key_of y = k" "allows net y now src"
      unfolding m set_sort using p[OF y(2)] r by blast+
    then show "\<exists>t\<in>set ms. key_of t = k \<and> allows net t now src" by blast
  qed
qed

lemma expected_tuples_cases:
  assumes "expected_tuples s now = Inr ts"
  obtains tss where "map (tuples_for now) (admitted_rows s) = map Inr tss"
    "merge_tuples (concat tss) = Inr ts"
  using assms by (auto simp: expected_tuples_def collect_map split: sum.splits)

text \<open>
  C9: the expected store contents have one tuple per key, in the store's order, and permit an
  access (at a time, for a run source) exactly when a row that is admitted projects a tuple that
  permits it: merging neither adds nor loses an access.
\<close>
theorem store_permits_exactly_what_rows_grant:
  assumes "expected_tuples s now = Inr ts"
  shows "distinct (map key_of ts) \<and> sorted (map tuple_sort_key ts)
    \<and> ((\<exists>t\<in>set ts. key_of t = k \<and> allows net t at src)
       \<longleftrightarrow> (\<exists>r\<in>set (admitted_rows s). \<exists>tr. tuples_for now r = Inr tr
              \<and> (\<exists>t\<in>set tr. key_of t = k \<and> allows net t at src)))"
proof -
  obtain tss where e: "map (tuples_for now) (admitted_rows s) = map Inr tss"
    and m: "merge_tuples (concat tss) = Inr ts"
    using expected_tuples_cases[OF assms] by blast
  have "(\<exists>t\<in>set (concat tss). key_of t = k \<and> allows net t at src)
      \<longleftrightarrow> (\<exists>r\<in>set (admitted_rows s). \<exists>tr. tuples_for now r = Inr tr
              \<and> (\<exists>t\<in>set tr. key_of t = k \<and> allows net t at src))" (is "?l \<longleftrightarrow> ?r")
  proof
    assume ?l
    then obtain tr t where t: "tr \<in> set tss" "t \<in> set tr" "key_of t = k" "allows net t at src" by auto
    then show ?r using map_Inr_member(2)[OF e t(1)] by blast
  next
    assume ?r
    then obtain r tr t where t: "r \<in> set (admitted_rows s)" "tuples_for now r = Inr tr"
      "t \<in> set tr" "key_of t = k" "allows net t at src" by blast
    then have "tr \<in> set tss" using map_Inr_member(1)[OF e t(1)] by auto
    then show ?l using t(3-5) by auto
  qed
  then show ?thesis using merge_tuples_permits[OF m] merge_tuples_keys[OF m] by simp
qed

lemma expected_origin:
  assumes "expected_tuples s now = Inr ts" "t \<in> set ts"
  obtains r tr t' where "r \<in> set (admitted_rows s)" "row_tuples now r = Inr tr"
    "\<forall>x\<in>set tr. assert_model_valid x = Inr ()" "t' \<in> set tr" "key_of t' = key_of t"
proof -
  obtain tss where e: "map (tuples_for now) (admitted_rows s) = map Inr tss"
    and m: "merge_tuples (concat tss) = Inr ts"
    using expected_tuples_cases[OF assms(1)] by blast
  have "key_of t \<in> key_of ` set (concat tss)" using merge_tuples_keys(3)[OF m] assms(2) by blast
  then obtain tr t' where t: "tr \<in> set tss" "t' \<in> set tr" "key_of t' = key_of t" by auto
  obtain r where r: "r \<in> set (admitted_rows s)" "tuples_for now r = Inr tr"
    using map_Inr_member(2)[OF e t(1)] by blast
  then obtain us where us: "row_tuples now r = Inr tr" "collect (map assert_model_valid tr) = Inr us"
    by (auto simp: tuples_for_def split: sum.splits)
  have "\<forall>x\<in>set tr. assert_model_valid x = Inr ()"
    using map_Inr_member(1)[OF us(2)[unfolded collect_map]] by fastforce
  then show ?thesis using that[OF r(1) us(1) _ t(2,3)] by blast
qed

section \<open>Every expected tuple is one the store accepts\<close>

lemma unconditioned_is_plain: "rt_condition x = None \<Longrightarrow> x = plain_tuple (rt_user x) (rt_relation x) (rt_object x)"
  by (cases x) (simp add: plain_tuple_def)

lemma run_source_valid:
  assumes "assert_model_valid x = Inr ()" "rt_condition x = Some c" "c_name c = run_source_condition"
  shows "assert_model_valid (tuple_of (rt_user x) (rt_relation x) (rt_object x) (Some run_source_condition)
    (Some (run_source_context found))) = Inr ()"
proof -
  obtain allowed where "restrictions (before_char (CHR '':'') (rt_object x)) (rt_relation x) = Some allowed"
    "(before_char (CHR '':'') (before_char (CHR ''#'') (rt_user x)), after_char (CHR ''#'') (rt_user x), run_source_condition)
       \<in> set allowed"
    using assms by (auto simp: assert_model_valid_def Let_def split: option.splits if_splits)
  then show ?thesis
    by (simp add: assert_model_valid_def Let_def tuple_of_def run_source_condition_def condition_parameters_def
        run_source_context_def sorted_members_def runtime_parameters_def)
qed

lemma merge_distinct_valid:
  assumes "\<forall>t \<in> set ds. assert_model_valid t = Inr () \<and> key_of t = key_of first" "merge_distinct first ds = Inr t"
  shows "assert_model_valid t = Inr ()"
proof -
  let ?names = "set (map c_name (List.map_filter rt_condition ds))"
  consider "\<exists>x \<in> set ds. rt_condition x = None" | "\<forall>x \<in> set ds. rt_condition x \<noteq> None" "?names = {expiry_condition}"
    | "\<forall>x \<in> set ds. rt_condition x \<noteq> None" "?names \<noteq> {expiry_condition}" "?names = {run_source_condition}"
    using assms(2) by (auto simp: merge_distinct_def Let_def split: if_splits)
  then show ?thesis
  proof cases
    case 1
    then obtain x where x: "x \<in> set ds" "rt_condition x = None" by blast
    then have "t = plain_tuple (rt_user first) (rt_relation first) (rt_object first)"
      using assms(2) 1 unfolding merge_distinct_def Let_def by (simp only: if_True Inr_inject eq_commute)
    then have "t = x" using unconditioned_is_plain[OF x(2)] assms(1) x(1) by (simp add: key_of_def)
    then show ?thesis using assms(1) x(1) by blast
  next
    case 2
    then have n: "(\<exists>x \<in> set ds. rt_condition x = None) = False" by blast
    obtain u where "find u ds = Some t"
      using assms(2) unfolding merge_distinct_def Let_def n 2(2) by (auto split: sum.splits option.splits)
    then have "t \<in> set ds" by (auto simp: find_Some_iff)
    then show ?thesis using assms(1) by blast
  next
    case 3
    have n: "(\<exists>x \<in> set ds. rt_condition x = None) = False" using 3(1) by blast
    have "run_source_condition \<in> ?names" unfolding 3(3) by simp
    then obtain x c where x: "x \<in> set ds" "rt_condition x = Some c" "c_name c = run_source_condition"
      by (auto simp: List.map_filter_def)
    have t: "t = tuple_of (rt_user first) (rt_relation first) (rt_object first) (Some run_source_condition)
        (Some (run_source_context (concat (map sources_of ds))))"
      using assms(2) n 3(2,3) unfolding merge_distinct_def Let_def by (simp only: if_False if_True Inr_inject eq_commute)
    have "key_of x = key_of first" using assms(1) x(1) by blast
    then show ?thesis using run_source_valid[OF _ x(2,3)] assms(1) x(1) unfolding t by (simp add: key_of_def)
  qed
qed

lemma merge_key_valid:
  assumes "\<forall>t \<in> set items. assert_model_valid t = Inr () \<and> key_of t = k" "merge_key items = Inr t"
  shows "assert_model_valid t = Inr ()"
proof -
  let ?ds = "sort_key tuple_sort_key (remdups items)"
  have s: "set ?ds = set items" by simp
  show ?thesis
  proof (cases ?ds rule: remdups_adj.cases)
    case 1
    then show ?thesis using assms(2) by (simp add: merge_key_def)
  next
    case (2 x)
    then have "t = x" using assms(2) by (simp add: merge_key_def)
    then show ?thesis using assms(1) s 2 by (metis list.set_intros(1))
  next
    case (3 x y r)
    then have "merge_distinct x ?ds = Inr t" using assms(2) by (simp add: merge_key_def)
    moreover have "\<forall>t \<in> set ?ds. assert_model_valid t = Inr () \<and> key_of t = key_of x"
      using assms(1) s 3 by (metis list.set_intros(1))
    ultimately show ?thesis by (rule merge_distinct_valid[rotated])
  qed
qed


section \<open>Removed members and archived agents\<close>

lemma ref_same [simp]: "ref k a = ref k b \<longleftrightarrow> a = b"
  by (simp add: ref_def)

lemma ref_other [simp]:
  "ref ''agent'' a \<noteq> ref ''user'' b" "ref ''user'' b \<noteq> ref ''agent'' a"
  "ref ''organization'' a \<noteq> ref ''user'' b" "ref ''organization'' a \<noteq> ref ''agent'' b"
  "ref ''tenant'' a \<noteq> ref ''user'' b" "ref ''tenant'' a \<noteq> ref ''agent'' b"
  "ref ''group'' a \<noteq> ref ''user'' b" "ref ''group'' a \<noteq> ref ''agent'' b"
  "ref ''mcp_server'' a \<noteq> ref ''user'' b" "ref ''mcp_server'' a \<noteq> ref ''agent'' b"
  "ref ''credential'' a \<noteq> ref ''agent'' b" "ref ''marketplace_item'' a \<noteq> ref ''agent'' b"
  "ref ''mcp_tool'' a \<noteq> ref ''agent'' b"
  "ref ''group'' a @ x \<noteq> ref ''user'' b" "ref ''group'' a @ x \<noteq> ref ''agent'' b"
  "ref ''organization'' a @ x \<noteq> ref ''user'' b" "ref ''organization'' a @ x \<noteq> ref ''agent'' b"
  "ref ''tenant'' a @ x \<noteq> ref ''user'' b" "ref ''tenant'' a @ x \<noteq> ref ''agent'' b"
  by (simp_all add: ref_def)

lemmas ref_other_sym [simp] = ref_other[symmetric]

lemma principal_ref_cases:
  assumes "principal_ref pt pid rel = Inr v"
  obtains (user) "pt = ''user''" "v = ref ''user'' pid" | (agent) "pt = ''agent''" "v = ref ''agent'' pid"
  | (org) "pt = ''organization''" "rel = ''allowed_org''" "v = ref ''organization'' pid"
  | (group_members) "pt = ''group''" "v = ref ''group'' pid @ ''#member''"
  | (org_members) "pt = ''organization''" "rel \<noteq> ''allowed_org''" "v = ref ''organization'' pid @ ''#member''"
proof -
  consider "pt = ''user''" | "pt = ''agent''" | "pt = ''organization''" "rel = ''allowed_org''"
    | "pt = ''group''" | "pt = ''organization''" "rel \<noteq> ''allowed_org''"
    | "pt \<noteq> ''user''" "pt \<noteq> ''agent''" "pt \<noteq> ''organization''" "pt \<noteq> ''group''"
    by blast
  then show ?thesis
    using assms user agent org group_members org_members
    by cases (simp_all add: principal_ref_def)
qed

lemma principal_ref_user:
  assumes "principal_ref pt pid rel = Inr (ref ''user'' u)" shows "pt = ''user'' \<and> pid = u"
  using assms by (cases rule: principal_ref_cases) simp_all

lemma principal_ref_agent:
  assumes "principal_ref pt pid rel = Inr (ref ''agent'' u)" shows "pt = ''agent'' \<and> pid = u"
  using assms by (cases rule: principal_ref_cases) simp_all

lemma one_principal_Inr: "one_principal pt pid rel ob = Inr tr \<Longrightarrow>
    \<exists>u. principal_ref pt pid rel = Inr u \<and> tr = [plain_tuple u rel ob]"
  by (auto simp: one_principal_def split: sum.splits)

lemma principal_tuple_Inr:
  assumes "principal_tuple g now = Inr tr" "t \<in> set tr"
  shows "principal_ref (g_ptype g) (g_pid g) (g_relation g) = Inr (rt_user t)
    \<and> rt_relation t = g_relation g \<and> rt_object t = ref (g_rtype g) (g_rid g)"
  using assms by (auto simp: principal_tuple_def Let_def split: sum.splits option.splits if_splits)

lemma grant_tuples_Inr:
  assumes "grant_tuples g now = Inr tr" "t \<in> set tr"
  shows "(\<exists>tn. rt_user t = ref ''tenant'' tn \<and> rt_object t = ref ''marketplace_item'' (g_rid g))
    \<or> (principal_ref (g_ptype g) (g_pid g) (g_relation g) = Inr (rt_user t)
       \<and> rt_object t = ref (g_rtype g) (g_rid g))"
proof -
  obtain ps where ps: "principal_tuple g now = Inr ps" if "g_state g = ''active''"
    using assms(1) by (auto simp: grant_tuples_def split: if_splits sum.splits)
  then have "t \<in> set (marketplace_tenant g) \<or> t \<in> set ps" "g_state g = ''active''"
    using assms by (auto simp: grant_tuples_def split: if_splits sum.splits)
  then show ?thesis
    using principal_tuple_Inr[of g now ps t] ps
    by (auto simp: marketplace_tenant_def split: if_splits option.splits)
qed

definition removed_user :: "snapshot \<Rightarrow> uuid \<Rightarrow> bool" where
  "removed_user s u =
     ((\<forall>m\<in>set (tenant_members s). tm_user m = u \<longrightarrow> tm_status m \<noteq> ''active'')
      \<and> (\<forall>m\<in>set (org_members s). om_user m = u \<longrightarrow> om_status m \<noteq> ''active''))"

lemma removed_user_not_live:
  assumes "removed_user s u"
  shows "(tn, u) \<notin> set (l_tenant_members (live_of s))" "(og, u) \<notin> set (l_org_members (live_of s))"
    "\<not> live_principal (live_of s) og ''user'' u"
  using assms by (auto simp: removed_user_def live_of_def live_principal_def Let_def)

lemma org_and_owner_user:
  "t \<in> set (org_and_owner kind rid org owner system) \<Longrightarrow>
    (\<exists>u. rt_user t = ref ''user'' u \<and> rt_relation t = ''owner'')
    \<or> (\<exists>og. rt_user t = ref ''organization'' og)"
  by (auto simp: org_and_owner_def split: if_splits option.splits)

lemma row_tuples_removed_user:
  assumes "removed_user s u" "r \<in> set (admitted_rows s)" "row_tuples now r = Inr tr" "t \<in> set tr"
    "rt_user t = ref ''user'' u"
  shows "rt_relation t = ''owner''"
proof (cases r)
  case (TenantMemberRow m)
  then show ?thesis using assms
    by (auto simp: admitted_rows_def Let_def removed_user_def split: if_splits)
next
  case (TenantRoleRow m)
  then show ?thesis using assms removed_user_not_live[OF assms(1)]
    by (auto simp: admitted_rows_def Let_def)
next
  case (OrganizationRow m)
  then show ?thesis using assms by auto
next
  case (OrgMemberRow m)
  then show ?thesis using assms
    by (auto simp: admitted_rows_def Let_def removed_user_def split: if_splits)
next
  case (OrgRoleRow m)
  then have "or_ptype m = ''user''" "or_pid m = u"
    using one_principal_Inr[of _ _ _ _ tr] principal_ref_user assms(3-5) by fastforce+
  then show ?thesis using assms(2) removed_user_not_live[OF assms(1)] OrgRoleRow
    by (auto simp: admitted_rows_def Let_def)
next
  case (GroupRow m)
  then show ?thesis using assms by auto
next
  case (GroupMemberRow m)
  then show ?thesis using assms removed_user_not_live[OF assms(1)]
    by (auto simp: admitted_rows_def Let_def)
next
  case (CapabilityRow m)
  then have "cp_ptype m = ''user''" "cp_pid m = u"
    using one_principal_Inr[of _ _ _ _ tr] principal_ref_user assms(3-5) by fastforce+
  then show ?thesis using assms(2) removed_user_not_live[OF assms(1)] CapabilityRow
    by (auto simp: admitted_rows_def Let_def)
next
  case (ResourceRow m)
  then have "t \<in> set (org_and_owner (rs_type m) (rs_id m) (rs_org m) (rs_owner m) (rs_system m))"
    using assms(3-5) by (auto split: if_splits option.splits)
  then show ?thesis using org_and_owner_user assms(5) by fastforce
next
  case (CredentialRow m)
  then have "t \<in> set (org_and_owner ''credential'' (cr_id m) (cr_org m) (cr_owner m) (cr_system m))"
    using assms(3-5) by (auto split: if_splits option.splits)
  then show ?thesis using org_and_owner_user assms(5) by fastforce
next
  case (MarketplaceItemRow m)
  then have "\<exists>sys. t \<in> set (org_and_owner ''marketplace_item'' (mi_id m) (mi_org m) (mi_owner m) sys)"
    using assms(3-5) by (auto split: if_splits option.splits)
  then show ?thesis using org_and_owner_user assms(5) by fastforce
next
  case (McpToolRow m)
  then show ?thesis using assms by auto
next
  case (GrantRow g)
  then have "g_ptype g = ''user''" "g_pid g = u"
    using grant_tuples_Inr[of g now tr t] principal_ref_user assms(3-5) by auto
  then show ?thesis using assms(2) removed_user_not_live[OF assms(1)] GrantRow
    by (auto simp: admitted_rows_def Let_def live_grant_def split: if_splits)
qed

text \<open>
  C13: a user without an active membership anywhere (suspended or removed) keeps no access by
  role, capability, group, membership or direct grant: every expected tuple with that user as
  its subject is an ownership tuple.
\<close>
theorem removed_user_keeps_only_ownership:
  assumes "expected_tuples s now = Inr ts" "removed_user s u"
  shows "\<forall>t\<in>set ts. rt_user t = ref ''user'' u \<longrightarrow> rt_relation t = ''owner''"
proof (intro ballI impI)
  fix t assume t: "t \<in> set ts" and u: "rt_user t = ref ''user'' u"
  obtain r tr t' where o: "r \<in> set (admitted_rows s)" "row_tuples now r = Inr tr" "t' \<in> set tr"
    "key_of t' = key_of t"
    using expected_origin[OF assms(1) t] by metis
  then have "rt_relation t' = ''owner''"
    using row_tuples_removed_user[OF assms(2)] u by (metis key_of_def prod.inject)
  then show "rt_relation t = ''owner''" using o(4) by (simp add: key_of_def)
qed

definition resource_types :: "string list" where
  "resource_types = [''agent'', ''skill'', ''tool'', ''mcp_server'', ''mcp_tool'', ''credential'',
     ''marketplace_item'', ''knowledge_base'', ''document'', ''db_connection'', ''db_query_tool'',
     ''workflow'', ''llm_model'']"

definition archived_agent :: "snapshot \<Rightarrow> uuid \<Rightarrow> bool" where
  "archived_agent s a =
     (\<exists>r\<in>set (resources s). rs_type r = ''agent'' \<and> rs_id r = a \<and> rs_archived_at r \<noteq> None)"

definition grants_of_agent_revocable :: "snapshot \<Rightarrow> uuid \<Rightarrow> bool" where
  "grants_of_agent_revocable s a =
     (\<forall>g\<in>set (grants s). g_rtype g \<in> set resource_types \<and>
        ((g_rtype g = ''agent'' \<and> g_rid g = a) \<or> (g_ptype g = ''agent'' \<and> g_pid g = a)
          \<longrightarrow> g_kind g \<in> set archive_revoked_kinds))"

lemma before_colon_ref [simp]:
  "before_char (CHR '':'') (ref ''organization'' x) = ''organization''"
  "before_char (CHR '':'') (before_char (CHR ''#'') (ref ''agent'' x)) = ''agent''"
  by (simp_all add: ref_def before_char_def)

lemma organization_agent_entries:
  "\<exists>es. map_of model_restrictions ''organization'' = Some es
    \<and> list_all (\<lambda>(rels, al). list_all (\<lambda>(ty, _, _). ty = ''agent'' \<longrightarrow> rels = [''resident_agent'']) al) es"
  by (simp add: model_restrictions_def)

lemma restrictions_organization:
  assumes "restrictions ''organization'' rel = Some allowed" "(''agent'', sr, c) \<in> set allowed"
  shows "rel = ''resident_agent''"
proof -
  obtain es where es: "map_of model_restrictions ''organization'' = Some es"
    "list_all (\<lambda>(rels, al). list_all (\<lambda>(ty, _, _). ty = ''agent'' \<longrightarrow> rels = [''resident_agent'']) al) es"
    using organization_agent_entries by blast
  obtain rels where "(rels, allowed) \<in> set es" "rel \<in> set rels"
    using assms(1) es(1) by (auto simp: restrictions_def find_Some_iff) (metis nth_mem)
  then show ?thesis using es(2) assms(2) by (force simp: list_all_iff)
qed

lemma organization_relation_of_agent:
  assumes "assert_model_valid (plain_tuple (ref ''agent'' a) rel (ref ''organization'' og)) = Inr ()"
  shows "rel = ''resident_agent''"
proof -
  obtain allowed where r: "restrictions ''organization'' rel = Some allowed"
    using assms by (auto simp: assert_model_valid_def split: option.splits)
  then have "(''agent'', after_char (CHR ''#'') (ref ''agent'' a), []) \<in> set allowed"
    using assms by (auto simp: assert_model_valid_def Let_def split: if_splits)
  then show ?thesis using restrictions_organization[OF r] by blast
qed

lemma archived_not_live_grant:
  assumes "archived_agent s a" "g_kind g \<in> set archive_revoked_kinds"
    "(g_rtype g = ''agent'' \<and> g_rid g = a) \<or> (g_ptype g = ''agent'' \<and> g_pid g = a)"
  shows "\<not> live_grant (live_of s) g"
proof -
  have "a \<in> set (l_archived_agents (live_of s))"
    using assms(1) by (auto simp: archived_agent_def live_of_def Let_def)
  then show ?thesis using assms(2,3) by (auto simp: live_grant_def Let_def)
qed

lemma org_and_owner_relation:
  "t \<in> set (org_and_owner kind rid org owner system) \<Longrightarrow>
    (rt_relation t = ''org'' \<or> rt_relation t = ''owner'') \<and> ((\<exists>v. rt_user t = ref ''organization'' v) \<or> (\<exists>v. rt_user t = ref ''user'' v))
    \<and> rt_object t = ref kind rid"
  by (auto simp: org_and_owner_def split: if_splits option.splits)

lemma row_tuples_archived_agent_user:
  assumes "archived_agent s a" "grants_of_agent_revocable s a" "r \<in> set (admitted_rows s)"
    "row_tuples now r = Inr tr" "\<forall>x\<in>set tr. assert_model_valid x = Inr ()" "t \<in> set tr"
    "rt_user t = ref ''agent'' a"
  shows "rt_relation t = ''resident_agent''"
proof -
  have one: "rt_relation t = ''resident_agent''"
    if op: "one_principal pt pid rel (ref ''organization'' og) = Inr tr" for pt pid rel og
  proof -
    obtain u where "tr = [plain_tuple u rel (ref ''organization'' og)]"
      using one_principal_Inr[OF op] by blast
    then show ?thesis using assms(5-7) organization_relation_of_agent by auto
  qed
  have oo: False if "t \<in> set (org_and_owner kind rid org owner system)" for kind rid org owner system
    using org_and_owner_relation[OF that] assms(7) by auto
  show ?thesis
  proof (cases r)
    case (GrantRow g)
    then have "g_ptype g = ''agent''" "g_pid g = a"
      using grant_tuples_Inr[of g now tr t] principal_ref_agent assms(4,6,7) by auto
    moreover have "g \<in> set (grants s)" "live_grant (live_of s) g"
      using assms(3) GrantRow by (auto simp: admitted_rows_def Let_def)
    ultimately show ?thesis
      using archived_not_live_grant[OF assms(1), of g] assms(2)
      by (auto simp: grants_of_agent_revocable_def)
  next
    case (ResourceRow m)
    then show ?thesis
      using assms(4,6) oo[of "rs_type m" "rs_id m" "rs_org m" "rs_owner m" "rs_system m"]
      by (auto split: if_splits option.splits)
  next
    case (CredentialRow m)
    then show ?thesis
      using assms(4,6,7) oo[of "''credential''" "cr_id m" "cr_org m" "cr_owner m" "cr_system m"]
      by (auto split: if_splits option.splits)
  next
    case (MarketplaceItemRow m)
    then show ?thesis
      using assms(4,6,7) oo[of "''marketplace_item''" "mi_id m" "mi_org m" "mi_owner m" "mi_system m"]
        oo[of "''marketplace_item''" "mi_id m" "mi_org m" "mi_owner m" False]
      by (auto split: if_splits option.splits)
  next
    case (OrgRoleRow m) then show ?thesis using one assms(4) by simp
  next
    case (CapabilityRow m) then show ?thesis using one assms(4) by simp
  qed (use assms(4,6,7) in \<open>auto split: if_splits\<close>)
qed

lemma ref_agent_objects [simp]:
  "ref ''tenant'' x = ref ''agent'' a \<longleftrightarrow> False" "ref ''organization'' x = ref ''agent'' a \<longleftrightarrow> False"
  "ref ''group'' x = ref ''agent'' a \<longleftrightarrow> False" "ref ''credential'' x = ref ''agent'' a \<longleftrightarrow> False"
  "ref ''mcp_tool'' x = ref ''agent'' a \<longleftrightarrow> False" "ref ''marketplace_item'' x = ref ''agent'' a \<longleftrightarrow> False"
  by simp_all

lemma ref_resource_type:
  assumes "k \<in> set resource_types" "ref k x = ref ''agent'' a"
  shows "k = ''agent'' \<and> x = a"
proof -
  have "list_all (\<lambda>k. CHR '':'' \<notin> set k) resource_types" by (simp add: resource_types_def)
  then have k: "CHR '':'' \<notin> set k" using assms(1) by (auto simp: list_all_iff)
  have "before_char (CHR '':'') (ref k x) = k" using k by (simp add: ref_def)
  moreover have "before_char (CHR '':'') (ref ''agent'' a) = ''agent''"
    by (simp add: ref_def before_char_def)
  ultimately show ?thesis using assms(2) by simp
qed

lemma one_principal_object: "one_principal pt pid rel ob = Inr tr \<Longrightarrow> t \<in> set tr \<Longrightarrow> rt_object t = ob"
  using one_principal_Inr[of pt pid rel ob tr] by auto

lemma row_tuples_archived_agent_object:
  assumes "archived_agent s a" "grants_of_agent_revocable s a" "r \<in> set (admitted_rows s)"
    "row_tuples now r = Inr tr" "t \<in> set tr" "rt_object t = ref ''agent'' a"
  shows "rt_relation t = ''org'' \<or> rt_relation t = ''owner''"
proof -
  have oo: "rt_relation t = ''org'' \<or> rt_relation t = ''owner''"
    if "t \<in> set (org_and_owner kind rid org owner system)" for kind rid org owner system
    using org_and_owner_relation[OF that] by blast
  have one: False if "one_principal pt pid rel (ref ''organization'' og) = Inr tr" for pt pid rel og
    using one_principal_object[OF that assms(5)] assms(6) by simp
  show ?thesis
  proof (cases r)
    case (GrantRow g)
    moreover have g: "g \<in> set (grants s)" "live_grant (live_of s) g"
      using assms(3) GrantRow by (auto simp: admitted_rows_def Let_def)
    moreover have "g_rtype g \<in> set resource_types"
      using assms(2) g(1) by (auto simp: grants_of_agent_revocable_def)
    moreover have "ref (g_rtype g) (g_rid g) = ref ''agent'' a"
      using grant_tuples_Inr[of g now tr t] assms(4-6) GrantRow by fastforce
    ultimately have "g_rtype g = ''agent''" "g_rid g = a"
      using ref_resource_type[of "g_rtype g" "g_rid g" a] by simp_all
    then show ?thesis
      using archived_not_live_grant[OF assms(1), of g] assms(2) g
      by (auto simp: grants_of_agent_revocable_def)
  next
    case (ResourceRow m)
    then show ?thesis
      using assms(4-6) oo[of "rs_type m" "rs_id m" "rs_org m" "rs_owner m" "rs_system m"]
      by (auto split: if_splits option.splits)
  next
    case (CredentialRow m)
    then show ?thesis
      using assms(4-6) oo[of "''credential''" "cr_id m" "cr_org m" "cr_owner m" "cr_system m"]
      by (auto split: if_splits option.splits)
  next
    case (MarketplaceItemRow m)
    then show ?thesis
      using assms(4-6) oo[of "''marketplace_item''" "mi_id m" "mi_org m" "mi_owner m"]
      by (auto split: if_splits option.splits)
  next
    case (OrgRoleRow m) then show ?thesis using one assms(4) by fastforce
  next
    case (CapabilityRow m) then show ?thesis using one assms(4) by fastforce
  qed (use assms(4-6) in \<open>auto split: if_splits\<close>)
qed

text \<open>
  An archived agent whose grants are shares and delegations keeps only its residence (and
  ownership of it): no expected tuple lets it reach another resource, and no expected tuple on it
  is a share.
\<close>
theorem archived_agent_keeps_only_residence:
  assumes "expected_tuples s now = Inr ts" "archived_agent s a" "grants_of_agent_revocable s a"
  shows "\<forall>t\<in>set ts. (rt_user t = ref ''agent'' a \<longrightarrow> rt_relation t = ''resident_agent'')
    \<and> (rt_object t = ref ''agent'' a \<longrightarrow> rt_relation t = ''org'' \<or> rt_relation t = ''owner'')"
proof
  fix t assume t: "t \<in> set ts"
  obtain r tr t' where o: "r \<in> set (admitted_rows s)" "row_tuples now r = Inr tr"
    "\<forall>x\<in>set tr. assert_model_valid x = Inr ()" "t' \<in> set tr" "key_of t' = key_of t"
    using expected_origin[OF assms(1) t] by metis
  then have f: "rt_user t' = rt_user t" "rt_relation t' = rt_relation t" "rt_object t' = rt_object t"
    by (simp_all add: key_of_def)
  show "(rt_user t = ref ''agent'' a \<longrightarrow> rt_relation t = ''resident_agent'')
    \<and> (rt_object t = ref ''agent'' a \<longrightarrow> rt_relation t = ''org'' \<or> rt_relation t = ''owner'')"
    using row_tuples_archived_agent_user[OF assms(2,3) o(1-4)]
      row_tuples_archived_agent_object[OF assms(2,3) o(1,2,4)] unfolding f by blast
qed

section \<open>Expiry\<close>

lemma read_digits_append:
  "read_digits (length xs + w) acc (xs @ s) =
     (case read_digits (length xs) acc xs of None \<Rightarrow> None | Some (v, _) \<Rightarrow> read_digits w v s)"
  by (induction xs arbitrary: acc) auto

lemma read_digits_show: "read_digits (length (digits n)) 0 (digits n) = Some (n, [])"
proof (induction n rule: digits.induct)
  case (1 n)
  show ?case
  proof (cases "n < 10")
    case True then show ?thesis by (subst (1 2) digits.simps) simp
  next
    case False
    have d: "digits n = digits (n div 10) @ [char_of (48 + n mod 10)]"
      by (subst digits.simps) (simp add: False)
    show ?thesis
      unfolding d length_append using 1[OF False]
        read_digits_append[of "digits (n div 10)" 1 0 "[char_of (48 + n mod 10)]"] by simp
  qed
qed

lemma digits_all: "list_all is_digit (digits n)" "digits n \<noteq> []" "digits n = c # r \<Longrightarrow> is_digit c"
proof -
  show a: "list_all is_digit (digits n)" for n
  proof (induction n rule: digits.induct)
    case (1 n)
    then show ?case by (subst digits.simps) (auto simp: list_all_iff)
  qed
  show "digits n \<noteq> []" by (subst digits.simps) simp
  show "digits n = c # r \<Longrightarrow> is_digit c" using a[of n] by simp
qed

lemma read_int_show: "0 \<le> i \<Longrightarrow> read_int (show_int i) = Some i"
proof -
  assume i: "0 \<le> i"
  obtain c r where d: "digits (nat i) = c # r" using digits_all(2) by (metis neq_Nil_conv)
  have "c \<noteq> CHR ''-''" using digits_all(3)[OF d] by (auto simp: code_of_def)
  then show ?thesis
    using i d read_digits_show[of "nat i"] digits_all(1)[of "nat i"]
    by (simp add: read_int_def show_int_def)
qed

lemma last_digit: "is_digit (last (digits n))"
  using digits_all(1,2)[of n] by (simp add: list_all_iff)

lemma ends_with_us [simp]: "ends_with (s @ ''us'') ''us''"
  by (simp add: ends_with_def)

lemma ends_with_s: "ends_with (digits n @ ''s'') ''us'' \<longleftrightarrow> False"
proof
  assume "ends_with (digits n @ ''s'') ''us''"
  then have l: "1 \<le> length (digits n)" and e: "drop (length (digits n) - 1) (digits n @ ''s'') = ''us''"
    by (auto simp: ends_with_def)
  then have "drop (length (digits n) - 1) (digits n) = ''u''"
    by (simp add: drop_append)
  then have "last (digits n) = CHR ''u''" using l
    by (metis last.simps last_drop diff_less length_greater_0_conv less_numeral_extra(1) One_nat_def Suc_le_eq)
  then show False using last_digit[of n] by (simp add: code_of_def)
qed simp

lemma duration_round_trip: "0 \<le> d \<Longrightarrow> duration_of (duration_text d) = Some d"
proof -
  assume d: "0 \<le> d"
  have show_d: "show_int i = digits (nat i)" if "0 \<le> i" for i using that by (simp add: show_int_def)
  show ?thesis
  proof (cases "d mod 1000000 = 0")
    case True
    have "0 \<le> d div 1000000" using d by simp
    moreover have "d div 1000000 * 1000000 = d" using True by auto
    ultimately show ?thesis using True read_int_show[of "d div 1000000"]
      by (simp add: duration_of_def duration_text_def show_d ends_with_s)
  next
    case False
    then show ?thesis using d read_int_show[of d] by (simp add: duration_of_def duration_text_def)
  qed
qed

lemma expiry_of_projection:
  assumes "representable start" "start < e"
  shows "expiry_end (tuple_of u r ob (Some expiry_condition) (Some (expiry_context start e))) = Inr e"
proof -
  have "duration_of (duration_text (e - start)) = Some (e - start)"
    using assms(2) by (simp add: duration_round_trip)
  moreover have "map_of (context_of (tuple_of u r ob (Some expiry_condition)
      (Some (expiry_context start e)))) k = map_of (expiry_context start e) k" for k
    by (auto simp: context_of_def tuple_of_def expiry_context_def sorted_members_def)
  ultimately show ?thesis using assms(1) by (simp add: expiry_end_def expiry_context_def)
qed

text \<open>
  An active grant with an expiry projects a tuple that is in force exactly until that instant:
  the text form of its start and duration loses nothing, to the microsecond.
\<close>
theorem expiring_grant_ends_on_time:
  assumes "g_state g = ''active''" "g_expires_at g = Some e" "representable (g_granted_at g)"
    "grant_tuples g now = Inr ts" "t \<in> set ts" "rt_condition t \<noteq> None"
  shows "expiry_end t = Inr e \<and> (allows net t at src \<longleftrightarrow> at < e)"
proof -
  obtain u where u: "t = tuple_of u (g_relation g) (ref (g_rtype g) (g_rid g)) (Some expiry_condition)
      (Some (expiry_context (g_granted_at g) e))" "g_granted_at g < e"
    using assms by (auto simp: grant_tuples_def principal_tuple_def marketplace_tenant_def Let_def
        split: sum.splits if_splits option.splits)
  have "expiry_end t = Inr e" using expiry_of_projection[OF assms(3) u(2)] u(1) by simp
  moreover have "rt_condition t = Some \<lparr>c_name = expiry_condition,
      c_context = sorted_members (expiry_context (g_granted_at g) e)\<rparr>"
    unfolding u(1) by (simp add: tuple_of_def)
  ultimately show ?thesis by (simp add: allows_def)
qed

section \<open>A company with a suspended member and an archived agent\<close>

definition demo_snapshot :: snapshot where
  "demo_snapshot =
     \<lparr>tenant_members = [\<lparr>tm_tenant = ''t'', tm_user = ''ann'', tm_status = ''active''\<rparr>,
        \<lparr>tm_tenant = ''t'', tm_user = ''bob'', tm_status = ''suspended''\<rparr>],
      tenant_roles = [\<lparr>tr_tenant = ''t'', tr_user = ''bob'', tr_role = ''admin''\<rparr>],
      organizations = [\<lparr>og_id = ''o'', og_tenant = ''t'', og_status = ''active''\<rparr>],
      org_members = [\<lparr>om_org = ''o'', om_user = ''ann'', om_status = ''active''\<rparr>],
      org_roles = [\<lparr>or_org = ''o'', or_role = ''admin'', or_ptype = ''user'', or_pid = ''bob''\<rparr>],
      groups = [], group_members = [], capabilities = [],
      resources = [\<lparr>rs_type = ''agent'', rs_id = ''bot'', rs_org = Some ''o'', rs_owner = Some ''bob'',
        rs_system = False, rs_archived_at = Some 5\<rparr>],
      credentials = [], marketplace_items = [], mcp_tools = [], models = [],
      grants = [\<lparr>g_id = ''g1'', g_org = ''o'', g_rtype = ''tool'', g_rid = ''x'', g_relation = ''viewer'',
          g_ptype = ''user'', g_pid = ''bob'', g_granted_at = 1, g_state = ''active'', g_kind = ''share'',
          g_cond_name = None, g_cond_context = None, g_expires_at = None, g_tenant = None\<rparr>,
        \<lparr>g_id = ''g2'', g_org = ''o'', g_rtype = ''tool'', g_rid = ''x'', g_relation = ''viewer'',
          g_ptype = ''user'', g_pid = ''ann'', g_granted_at = 1, g_state = ''active'', g_kind = ''share'',
          g_cond_name = None, g_cond_context = None, g_expires_at = None, g_tenant = None\<rparr>,
        \<lparr>g_id = ''g3'', g_org = ''o'', g_rtype = ''tool'', g_rid = ''x'', g_relation = ''consumer'',
          g_ptype = ''agent'', g_pid = ''bot'', g_granted_at = 1, g_state = ''active'',
          g_kind = ''delegation'', g_cond_name = None, g_cond_context = None, g_expires_at = None,
          g_tenant = None\<rparr>]\<rparr>"

definition demo_store :: "relation_tuple list" where
  "demo_store =
     [plain_tuple ''organization:o'' ''org'' ''agent:bot'', plain_tuple ''user:bob'' ''owner'' ''agent:bot'',
      plain_tuple ''user:ann'' ''member'' ''organization:o'',
      plain_tuple ''agent:bot'' ''resident_agent'' ''organization:o'',
      plain_tuple ''tenant:t'' ''tenant'' ''organization:o'',
      plain_tuple ''user:ann'' ''member'' ''tenant:t'', plain_tuple ''user:ann'' ''viewer'' ''tool:x'']"

lemma demo_store_expected: "expected_tuples demo_snapshot 10 = Inr demo_store"
  by code_simp


lemma demo_removed_user: "removed_user demo_snapshot ''bob''" by code_simp

lemma demo_archived_agent:
  "archived_agent demo_snapshot ''bot''" "grants_of_agent_revocable demo_snapshot ''bot''"
  by code_simp+

lemma store_permits_exactly_what_rows_grant_witness:
  "distinct (map key_of demo_store)
   \<and> (\<exists>t\<in>set demo_store. key_of t = (''user:ann'', ''viewer'', ''tool:x'') \<and> allows (\<lambda>_. True) t 9 ''API'')"
proof -
  have "\<exists>t\<in>set demo_store. key_of t = (''user:ann'', ''viewer'', ''tool:x'') \<and> allows (\<lambda>_. True) t 9 ''API''"
    by (simp add: demo_store_def allows_def)
  then show ?thesis using store_permits_exactly_what_rows_grant[OF demo_store_expected] by blast
qed

lemma removed_user_keeps_only_ownership_witness:
  "rt_relation ` set (filter (\<lambda>t. rt_user t = ref ''user'' ''bob'') demo_store) = {''owner''}"
proof -
  have "filter (\<lambda>t. rt_user t = ref ''user'' ''bob'') demo_store \<noteq> []" by (simp add: demo_store_def ref_def)
  then obtain t where "t \<in> set (filter (\<lambda>t. rt_user t = ref ''user'' ''bob'') demo_store)"
    by (cases "filter (\<lambda>t. rt_user t = ref ''user'' ''bob'') demo_store") auto
  then show ?thesis
    using removed_user_keeps_only_ownership[OF demo_store_expected demo_removed_user] by force
qed

lemma archived_agent_keeps_only_residence_witness:
  "rt_relation ` set (filter (\<lambda>t. rt_user t = ref ''agent'' ''bot'') demo_store) = {''resident_agent''}"
proof -
  have "filter (\<lambda>t. rt_user t = ref ''agent'' ''bot'') demo_store \<noteq> []" by (simp add: demo_store_def ref_def)
  then obtain t where "t \<in> set (filter (\<lambda>t. rt_user t = ref ''agent'' ''bot'') demo_store)"
    by (cases "filter (\<lambda>t. rt_user t = ref ''agent'' ''bot'') demo_store") auto
  then show ?thesis
    using archived_agent_keeps_only_residence[OF demo_store_expected demo_archived_agent] by force
qed

definition demo_expiring_grant :: grant_row where
  "demo_expiring_grant =
     \<lparr>g_id = ''g'', g_org = ''o'', g_rtype = ''agent'', g_rid = ''bot'', g_relation = ''consumer'',
      g_ptype = ''user'', g_pid = ''ann'', g_granted_at = 1500000, g_state = ''active'', g_kind = ''share'',
      g_cond_name = None, g_cond_context = None, g_expires_at = Some 61500001, g_tenant = None\<rparr>"

definition demo_expiring_tuple :: relation_tuple where
  "demo_expiring_tuple = tuple_of ''user:ann'' ''consumer'' ''agent:bot'' (Some expiry_condition)
     (Some [(''grant_time'', JStr ''0001-01-01T00:00:01.500000Z''), (''grant_duration'', JStr ''60000001us'')])"

lemma first_year: "year_of_day 0 = 1"
  by (simp add: year_of_day_def year_from.simps[of "Suc 0" 0] days_before_year_def)

lemma pad_numeral [simp]:
  "pad (numeral w) n = char_of (48 + n div 10 ^ pred_numeral w mod 10) # pad (pred_numeral w) n"
  unfolding numeral_eq_Suc[of w] pad.simps ..

lemma digit_chars:
  "char_of (48 :: nat) = CHR ''0''" "char_of (49 :: nat) = CHR ''1''" "char_of (53 :: nat) = CHR ''5''"
  "char_of (54 :: nat) = CHR ''6''"
  by code_simp+

lemma demo_date: "iso_date 0 = ''0001-01-01''"
  by (simp add: iso_date_def civil_def first_year month_lengths_def days_before_year_def digit_chars)

lemma demo_start_text: "isoformat_z 1500000 = ''0001-01-01T00:00:01.500000Z''"
  by (simp add: isoformat_z_def day_micros_def iso_time_def demo_date Let_def digit_chars)

lemma demo_duration_text: "duration_text 60000001 = ''60000001us''"
  by (simp add: duration_text_def show_int_def digits.simps digit_chars)

lemma demo_expiring: "grant_tuples demo_expiring_grant 2000000 = Inr [demo_expiring_tuple]"
  by (simp add: grant_tuples_def principal_tuple_def marketplace_tenant_def demo_expiring_grant_def
      demo_expiring_tuple_def expiry_context_def demo_start_text demo_duration_text
      principal_ref_def ref_def Let_def)

lemma demo_expiring_start: "representable (g_granted_at demo_expiring_grant)"
  by (simp add: representable_def demo_expiring_grant_def day_micros_def first_year last_year_def)

lemma expiring_grant_ends_on_time_witness:
  "allows (\<lambda>_. True) demo_expiring_tuple 61500000 ''CHAT'' \<and> \<not> allows (\<lambda>_. True) demo_expiring_tuple 61500001 ''CHAT''"
proof -
  have "g_state demo_expiring_grant = ''active''" "g_expires_at demo_expiring_grant = Some 61500001"
    by (simp_all add: demo_expiring_grant_def)
  moreover have "rt_condition demo_expiring_tuple \<noteq> None" by (simp add: demo_expiring_tuple_def tuple_of_def)
  ultimately have "allows (\<lambda>_. True) demo_expiring_tuple at ''CHAT'' \<longleftrightarrow> at < 61500001" for at
    using expiring_grant_ends_on_time[OF _ _ demo_expiring_start demo_expiring] by simp
  then show ?thesis by simp
qed

end
