(* ===== verification/Revocations.thy ===== *)
theory Revocations
  imports AuthzTuples
begin

text \<open>
  Revocation markers and the deny overlay (\<open>authz/revocations\<close>, \<open>authz/pending_markers\<close>,
  \<open>authz/revocation_overlay\<close>, \<open>authz/principal\<close>) over the authorization tables
  (\<open>models/authz\<close>): grants, markers, the tuple queue and the decision epoch of each
  organization.

  Each operation takes the tables and returns them updated; a new row's identifier is an
  argument. \<open>z_bumped\<close> is the session's note of the organizations whose epoch this transaction
  already raised. The clock of the pending hint is an argument in microseconds.

  The lemmas show that the overlay's query finds every marker that matters, when an object is
  blocked, that a recorded marker is not hidden by the hint, and that a recorded revocation ends
  every reusable decision of the organization.
\<close>

section \<open>The tables\<close>

record resource_grant =
  rg_id :: uuid
  rg_org :: uuid
  rg_tenant :: uuid
  rg_state :: string
  rg_rtype :: string
  rg_rid :: uuid
  rg_relation :: string
  rg_ptype :: string
  rg_pid :: uuid
  rg_kind :: string
  rg_cond_name :: "string option"
  rg_cond_context :: "(string \<times> json) list option"
  rg_expires_at :: "micros option"
  rg_granted_by :: "uuid option"
  rg_granted_at :: micros
  rg_revoked_by :: "uuid option"
  rg_revoked_at :: "micros option"
  rg_source_link :: "json option"

record revocation =
  rv_id :: uuid
  rv_org :: uuid
  rv_tenant :: uuid
  rv_scope :: string
  rv_subject :: string
  rv_object :: string
  rv_created_at :: micros
  rv_deleted_at :: "micros option"
  rv_finalized_at :: "micros option"

record outbox_row =
  ob_id :: uuid
  ob_seq :: int
  ob_key :: string
  ob_op :: string
  ob_tuple :: json
  ob_source_table :: string
  ob_source_id :: uuid
  ob_attempts :: nat
  ob_next_attempt :: micros
  ob_error :: "string option"
  ob_processed_at :: "micros option"
  ob_created_at :: micros

record authz_db =
  z_epochs :: "(uuid \<times> int) list"
  z_grants :: "resource_grant list"
  z_markers :: "revocation list"
  z_outbox :: "outbox_row list"
  z_bumped :: "uuid list"

definition commit_session :: "authz_db \<Rightarrow> authz_db" where
  "commit_session db = db\<lparr>z_bumped := []\<rparr>"

section \<open>Markers\<close>

datatype revocation_error = UnknownScope | BadReference | UnknownOrganization

definition revocation_scopes :: "string list" where
  "revocation_scopes = [''grant'', ''membership'', ''group_member'', ''role'', ''capability'',
     ''ownership'', ''resource'']"

definition org_wide_scopes :: "string list" where
  "org_wide_scopes = [''membership'', ''group_member'', ''role'', ''capability'']"

definition max_ref :: nat where "max_ref = 100"

definition valid_ref :: "string \<Rightarrow> bool" where
  "valid_ref v = (v \<noteq> [] \<and> length v \<le> max_ref)"

definition bump_epoch :: "uuid \<Rightarrow> authz_db \<Rightarrow> revocation_error + (int \<times> authz_db)" where
  "bump_epoch org db =
     (case map_of (z_epochs db) org of
        None \<Rightarrow> Inl UnknownOrganization
      | Some e \<Rightarrow> Inr (e + 1, db\<lparr>z_epochs := AList.update org (e + 1) (z_epochs db)\<rparr>))"

definition current_epoch :: "uuid \<Rightarrow> authz_db \<Rightarrow> revocation_error + int" where
  "current_epoch org db =
     (case map_of (z_epochs db) org of None \<Rightarrow> Inl UnknownOrganization | Some e \<Rightarrow> Inr e)"

record decision_stamp =
  st_org :: uuid
  st_epoch :: int

definition take_stamp :: "uuid \<Rightarrow> authz_db \<Rightarrow> revocation_error + decision_stamp" where
  "take_stamp org db =
     (case current_epoch org db of
        Inl e \<Rightarrow> Inl e | Inr n \<Rightarrow> Inr \<lparr>st_org = org, st_epoch = n\<rparr>)"

definition stamp_is_current :: "decision_stamp \<Rightarrow> authz_db \<Rightarrow> bool" where
  "stamp_is_current s db = (map_of (z_epochs db) (st_org s) = Some (st_epoch s))"

definition new_marker ::
    "uuid \<Rightarrow> micros \<Rightarrow> uuid \<Rightarrow> uuid \<Rightarrow> string \<Rightarrow> string \<Rightarrow> string \<Rightarrow> revocation" where
  "new_marker mid now org tenant scope subject ob =
     \<lparr>rv_id = mid, rv_org = org, rv_tenant = tenant, rv_scope = scope, rv_subject = subject,
      rv_object = ob, rv_created_at = now, rv_deleted_at = None, rv_finalized_at = None\<rparr>"

definition record_revocation ::
    "uuid \<Rightarrow> micros \<Rightarrow> uuid \<Rightarrow> uuid \<Rightarrow> string \<Rightarrow> string \<Rightarrow> string \<Rightarrow> authz_db
      \<Rightarrow> revocation_error + (revocation \<times> authz_db)" where
  "record_revocation mid now org tenant scope subject ob db =
     (if scope \<notin> set revocation_scopes then Inl UnknownScope
      else if \<not> valid_ref subject \<or> \<not> valid_ref ob then Inl BadReference
      else
        let m = new_marker mid now org tenant scope subject ob
        in case (if org \<in> set (z_bumped db) then Inr db
                 else case bump_epoch org db of
                        Inl e \<Rightarrow> Inl e
                      | Inr (_, db1) \<Rightarrow> Inr (db1\<lparr>z_bumped := org # z_bumped db1\<rparr>)) of
             Inl e \<Rightarrow> Inl e
           | Inr db1 \<Rightarrow> Inr (m, db1\<lparr>z_markers := z_markers db1 @ [m]\<rparr>))"

definition mark_fga_deleted :: "uuid list \<Rightarrow> micros \<Rightarrow> authz_db \<Rightarrow> nat \<times> authz_db" where
  "mark_fga_deleted ids now db =
     (let hit = (\<lambda>m. rv_id m \<in> set ids \<and> rv_deleted_at m = None)
      in (length (filter hit (z_markers db)),
          db\<lparr>z_markers := map (\<lambda>m. if hit m then m\<lparr>rv_deleted_at := Some now\<rparr> else m) (z_markers db)\<rparr>))"

definition finalize_marker :: "micros \<Rightarrow> revocation \<Rightarrow> revocation" where
  "finalize_marker now m =
     m\<lparr>rv_finalized_at := Some now, rv_deleted_at := or_else (rv_deleted_at m) (Some now)\<rparr>"

definition finalize_revocations :: "uuid list \<Rightarrow> micros \<Rightarrow> authz_db \<Rightarrow> nat \<times> authz_db" where
  "finalize_revocations ids now db =
     (let hit = (\<lambda>m. rv_id m \<in> set ids \<and> rv_finalized_at m = None)
      in (length (filter hit (z_markers db)),
          db\<lparr>z_markers := map (\<lambda>m. if hit m then finalize_marker now m else m) (z_markers db)\<rparr>))"

definition pending_markers :: "authz_db \<Rightarrow> revocation list" where
  "pending_markers db = filter (\<lambda>m. rv_finalized_at m = None) (z_markers db)"

definition count_pending :: "authz_db \<Rightarrow> nat" where
  "count_pending db = length (pending_markers db)"

definition oldest_pending_at :: "authz_db \<Rightarrow> micros option" where
  "oldest_pending_at db =
     (case pending_markers db of [] \<Rightarrow> None | ms \<Rightarrow> Some (Min (set (map rv_created_at ms))))"

section \<open>The pending hint\<close>

record pending_hint =
  ph_ttl :: micros
  ph_count :: "nat option"
  ph_read_at :: micros

definition hint_fresh :: "micros \<Rightarrow> pending_hint \<Rightarrow> bool" where
  "hint_fresh clock h = (ph_count h \<noteq> None \<and> clock - ph_read_at h < ph_ttl h)"

definition note_recorded :: "micros \<Rightarrow> pending_hint \<Rightarrow> pending_hint" where
  "note_recorded clock h =
     h\<lparr>ph_count := Some (max (case ph_count h of None \<Rightarrow> 0 | Some n \<Rightarrow> n) 1), ph_read_at := clock\<rparr>"

definition reset_hint :: "pending_hint \<Rightarrow> pending_hint" where
  "reset_hint h = h\<lparr>ph_count := None, ph_read_at := 0\<rparr>"

text \<open>\<open>read_count\<close> is the count query; \<open>None\<close> is a storage failure, which propagates.\<close>

definition any_pending :: "micros \<Rightarrow> nat option \<Rightarrow> pending_hint \<Rightarrow> (bool \<times> pending_hint) option" where
  "any_pending clock read_count h =
     (let answer = (\<lambda>h. (case ph_count h of None \<Rightarrow> False | Some n \<Rightarrow> n \<noteq> 0, h))
      in if hint_fresh clock h then Some (answer h)
         else case read_count of
                None \<Rightarrow> None
              | Some n \<Rightarrow> Some (answer (h\<lparr>ph_count := Some n, ph_read_at := clock\<rparr>)))"

section \<open>Principals and the overlay\<close>

record principal =
  pr_kind :: string
  pr_id :: uuid
  pr_org :: uuid
  pr_run_source :: string
  pr_user_ip :: "string option"
  pr_acting_user :: "uuid option"

definition fga :: "principal \<Rightarrow> string" where
  "fga p = pr_kind p @ '':'' @ pr_id p"

definition revocation_subjects :: "principal \<Rightarrow> string list" where
  "revocation_subjects p =
     fga p # (case pr_acting_user p of None \<Rightarrow> [] | Some u \<Rightarrow> [''user:'' @ u])"

definition actor_subject :: "string \<Rightarrow> bool" where
  "actor_subject s = (starts_with s ''user:'' \<or> starts_with s ''agent:'')"

type_synonym marker_row = "string \<times> string \<times> string"

fun blocked_loop :: "string list \<Rightarrow> string list \<Rightarrow> string list \<Rightarrow> marker_row list \<Rightarrow> string list" where
  "blocked_loop subjects wanted blocked [] = blocked"
| "blocked_loop subjects wanted blocked ((scope, subject, ob) # rows) =
     (if subject \<in> set subjects \<and> scope \<in> set org_wide_scopes then wanted
      else if ob \<in> set wanted \<and> (subject \<in> set subjects \<or> \<not> actor_subject subject)
      then blocked_loop subjects wanted (ob # blocked) rows
      else blocked_loop subjects wanted blocked rows)"

definition blocked_objects :: "marker_row list \<Rightarrow> principal \<Rightarrow> string list \<Rightarrow> string list" where
  "blocked_objects rows p objs = blocked_loop (revocation_subjects p) objs [] rows"

definition marker_row :: "revocation \<Rightarrow> marker_row" where
  "marker_row m = (rv_scope m, rv_subject m, rv_object m)"

definition overlay_query :: "authz_db \<Rightarrow> principal \<Rightarrow> string list \<Rightarrow> marker_row list" where
  "overlay_query db p objs =
     map marker_row (filter (\<lambda>m. rv_org m = pr_org p \<and> rv_finalized_at m = None
        \<and> (rv_subject m \<in> set (revocation_subjects p) \<or> rv_object m \<in> set objs)) (z_markers db))"

datatype unavailable = AuthzUnavailable

text \<open>\<open>storage\<close>: whether the marker table can be read.\<close>

definition overlay_blocked ::
    "bool \<Rightarrow> micros \<Rightarrow> authz_db \<Rightarrow> pending_hint \<Rightarrow> principal \<Rightarrow> string list
      \<Rightarrow> (unavailable + string list) \<times> pending_hint" where
  "overlay_blocked storage clock db h p objs =
     (if objs = [] then (Inr [], h)
      else case any_pending clock (if storage then Some (count_pending db) else None) h of
             None \<Rightarrow> (Inl AuthzUnavailable, h)
           | Some (False, h1) \<Rightarrow> (Inr [], h1)
           | Some (True, h1) \<Rightarrow>
               if storage then (Inr (blocked_objects (overlay_query db p objs) p objs), h1)
               else (Inl AuthzUnavailable, h1))"

section \<open>What the overlay guarantees\<close>

text \<open>A pending marker of the principal's organization that refuses an object.\<close>

definition marker_vetoes :: "revocation \<Rightarrow> principal \<Rightarrow> string \<Rightarrow> bool" where
  "marker_vetoes m p ob =
     (rv_org m = pr_org p \<and> rv_finalized_at m = None
      \<and> ((rv_subject m \<in> set (revocation_subjects p) \<and> rv_scope m \<in> set org_wide_scopes)
         \<or> (rv_object m = ob
            \<and> (rv_subject m \<in> set (revocation_subjects p) \<or> \<not> actor_subject (rv_subject m)))))"

lemma blocked_loop_set:
  assumes "set blocked \<subseteq> set wanted"
  shows "x \<in> set (blocked_loop subjects wanted blocked rows) \<longleftrightarrow>
    x \<in> set blocked \<or> (x \<in> set wanted \<and> (\<exists>(sc, su, ob)\<in>set rows.
      (su \<in> set subjects \<and> sc \<in> set org_wide_scopes)
      \<or> (ob = x \<and> (su \<in> set subjects \<or> \<not> actor_subject su))))"
  using assms
proof (induction subjects wanted blocked rows rule: blocked_loop.induct)
  case (2 subjects wanted blocked scope subject ob rows)
  then show ?case
    by (cases "subject \<in> set subjects \<and> scope \<in> set org_wide_scopes";
        cases "ob \<in> set wanted \<and> (subject \<in> set subjects \<or> \<not> actor_subject subject)")
      auto
qed simp

lemma overlay_blocks_exactly:
  assumes "ob \<in> set objs"
  shows "ob \<in> set (blocked_objects (overlay_query db p objs) p objs)
    \<longleftrightarrow> (\<exists>m\<in>set (z_markers db). marker_vetoes m p ob)"
  using assms
  by (auto simp: blocked_objects_def blocked_loop_set overlay_query_def marker_row_def marker_vetoes_def)

lemma blocked_objects_subset: "set (blocked_objects rows p objs) \<subseteq> set objs"
  by (auto simp: blocked_objects_def blocked_loop_set)

lemma any_pending_True:
  assumes "any_pending clock (Some n) h = Some (b, h')" "0 < n"
    "ph_count h \<noteq> Some 0 \<or> \<not> hint_fresh clock h"
  shows "b"
  using assms by (auto simp: any_pending_def hint_fresh_def Let_def split: if_splits option.splits)

lemma vetoing_marker_pending: "m \<in> set (z_markers db) \<Longrightarrow> marker_vetoes m p ob \<Longrightarrow> 0 < count_pending db"
  by (auto simp: count_pending_def pending_markers_def marker_vetoes_def filter_empty_conv)

lemma overlay_enforces:
  assumes "m \<in> set (z_markers db)" "marker_vetoes m p ob" "ob \<in> set objs"
    "ph_count h \<noteq> Some 0 \<or> ph_read_at h + ph_ttl h \<le> clock"
    "overlay_blocked storage clock db h p objs = (answer, h')"
  shows "(answer = Inl AuthzUnavailable \<and> \<not> storage)
    \<or> (\<exists>blocked. answer = Inr blocked \<and> ob \<in> set blocked
         \<and> (\<forall>x\<in>set blocked. \<exists>m\<in>set (z_markers db). marker_vetoes m p x))"
proof -
  have stale: "ph_count h \<noteq> Some 0 \<or> \<not> hint_fresh clock h"
    using assms(4) by (auto simp: hint_fresh_def)
  have ne: "objs \<noteq> []" using assms(3) by auto
  show ?thesis
  proof (cases storage)
    case False
    then show ?thesis
      using assms(5) ne stale by (auto simp: overlay_blocked_def any_pending_def hint_fresh_def Let_def
          split: option.splits if_splits bool.splits prod.splits)
  next
    case True
    obtain b h1 where a: "any_pending clock (Some (count_pending db)) h = Some (b, h1)"
      by (cases "hint_fresh clock h") (simp_all add: any_pending_def Let_def)
    have b using any_pending_True[OF a _ stale] vetoing_marker_pending[OF assms(1,2)] by simp
    then have "answer = Inr (blocked_objects (overlay_query db p objs) p objs)"
      using assms(5) a True ne by (simp add: overlay_blocked_def)
    moreover have "\<forall>x\<in>set (blocked_objects (overlay_query db p objs) p objs).
        \<exists>m\<in>set (z_markers db). marker_vetoes m p x"
      using overlay_blocks_exactly blocked_objects_subset by blast
    ultimately show ?thesis using overlay_blocks_exactly[OF assms(3)] assms(1,2) by blast
  qed
qed

text \<open>
  C7: a pending marker that concerns a principal and an object is enforced: the overlay blocks
  the object, or reports that it cannot tell, unless the process answered a zero count less than
  one hint lifetime ago (a process that recorded a marker itself holds no such zero); and it
  blocks an object only for such a marker.
\<close>
theorem pending_marker_is_enforced:
  assumes "m \<in> set (z_markers db)" "marker_vetoes m p ob" "ob \<in> set objs"
    "ph_count h \<noteq> Some 0 \<or> ph_read_at h + ph_ttl h \<le> clock"
    "overlay_blocked storage clock db h p objs = (answer, h')"
  shows "(answer = Inl AuthzUnavailable \<and> \<not> storage)
    \<or> (\<exists>blocked. answer = Inr blocked \<and> ob \<in> set blocked
         \<and> (\<forall>x\<in>set blocked. \<exists>m\<in>set (z_markers db). marker_vetoes m p x))"
  by (rule overlay_enforces[OF assms])

lemma note_recorded_never_zero: "ph_count (note_recorded clock h) \<noteq> Some 0"
  by (simp add: note_recorded_def)

lemma hint_keeps_nonzero:
  "any_pending clock (Some n) h = Some (b, h') \<Longrightarrow> 0 < n \<Longrightarrow> ph_count h \<noteq> Some 0 \<Longrightarrow> ph_count h' \<noteq> Some 0"
  by (auto simp: any_pending_def Let_def split: if_splits)

section \<open>The decision epoch\<close>

lemma record_revocation_fields:
  assumes "record_revocation mid now org tenant scope subject ob db = Inr (m, db')"
  shows "z_markers db' = z_markers db @ [m]" "z_grants db' = z_grants db" "z_outbox db' = z_outbox db"
    "m = new_marker mid now org tenant scope subject ob"
  using assms by (auto simp: record_revocation_def bump_epoch_def Let_def split: if_splits sum.splits option.splits)

text \<open>
  A decision stamped before a revocation in the organization is never reused after it: the
  transaction that records the revocation raises the organization's epoch.
\<close>
theorem revocation_ends_reuse:
  assumes "take_stamp org db = Inr st" "z_bumped db = []"
    "record_revocation mid now org tenant scope subject ob db = Inr (m, db')"
  shows "\<not> stamp_is_current st (commit_session db')"
proof -
  obtain e where e: "map_of (z_epochs db) org = Some e" and st: "st = \<lparr>st_org = org, st_epoch = e\<rparr>"
    using assms(1) by (auto simp: take_stamp_def current_epoch_def split: option.splits sum.splits)
  have "map_of (z_epochs db') org = Some (e + 1)"
    using assms(2,3) e by (auto simp: record_revocation_def bump_epoch_def Let_def update_conv
        split: if_splits sum.splits option.splits)
  then show ?thesis by (simp add: stamp_is_current_def commit_session_def st)
qed

definition demo_markers :: authz_db where
  "demo_markers =
     \<lparr>z_epochs = [(''o'', 4)], z_grants = [],
      z_markers = [new_marker ''m1'' 5 ''o'' ''t'' ''grant'' ''group:g#member'' ''tool:x''],
      z_outbox = [], z_bumped = []\<rparr>"

definition demo_principal :: principal where
  "demo_principal = \<lparr>pr_kind = ''user'', pr_id = ''ann'', pr_org = ''o'', pr_run_source = ''CHAT'',
     pr_user_ip = None, pr_acting_user = None\<rparr>"

lemma demo_marker_vetoes:
  "new_marker ''m1'' 5 ''o'' ''t'' ''grant'' ''group:g#member'' ''tool:x'' \<in> set (z_markers demo_markers)"
  "marker_vetoes (new_marker ''m1'' 5 ''o'' ''t'' ''grant'' ''group:g#member'' ''tool:x'') demo_principal ''tool:x''"
  by code_simp+

lemma pending_marker_is_enforced_witness:
  "\<exists>blocked. fst (overlay_blocked True 7 demo_markers \<lparr>ph_ttl = 1, ph_count = None, ph_read_at = 0\<rparr>
     demo_principal [''tool:x'', ''tool:y'']) = Inr blocked \<and> ''tool:x'' \<in> set blocked"
  using pending_marker_is_enforced[OF demo_marker_vetoes, of "[''tool:x'', ''tool:y'']"
      "\<lparr>ph_ttl = 1, ph_count = None, ph_read_at = 0\<rparr>" 7 True]
  by (metis list.set_intros(1) option.distinct(1) pending_hint.select_convs(2) prod.collapse)

lemma revocation_ends_reuse_witness:
  "\<not> stamp_is_current \<lparr>st_org = ''o'', st_epoch = 4\<rparr> (commit_session
     (snd (case record_revocation ''m2'' 9 ''o'' ''t'' ''grant'' ''user:ann'' ''tool:x'' demo_markers of
       Inr r \<Rightarrow> r)))"
proof -
  have "take_stamp ''o'' demo_markers = Inr \<lparr>st_org = ''o'', st_epoch = 4\<rparr>" by code_simp
  moreover have "z_bumped demo_markers = []" by code_simp
  moreover obtain m db' where
    r: "record_revocation ''m2'' 9 ''o'' ''t'' ''grant'' ''user:ann'' ''tool:x'' demo_markers = Inr (m, db')"
    by (simp add: record_revocation_def demo_markers_def valid_ref_def max_ref_def revocation_scopes_def
        bump_epoch_def Let_def)
  ultimately show ?thesis using revocation_ends_reuse[OF _ _ r] by simp
qed

end
