(* ===== verification/FgaClient.thy ===== *)
theory FgaClient
  imports Revocations
begin

text \<open>
  The OpenFGA adapter (\<open>authz/client\<close>): single checks, correlated batch checks, listed objects,
  paged reads and idempotent writes over the SDK, whose calls are parameters. \<open>None\<close> from the SDK
  is one of the exceptions the adapter turns into \<open>AuthzUnavailable\<close>; metrics and timeouts (a
  timeout is such an exception) are not modelled. An answer that is not a JSON boolean is refused.

  The interface \<open>authz_client\<close> is what the decision service relies on: a batch has one answer per
  query. It is interpreted on the adapter for every SDK.
\<close>

record check_query =
  cq_user :: string
  cq_relation :: string
  cq_object :: string
  cq_context :: "(string \<times> json) list"

record list_query =
  lq_user :: string
  lq_relation :: string
  lq_type :: string
  lq_context :: "(string \<times> json) list"

record batch_item =
  bi_id :: string
  bi_error :: bool
  bi_allowed :: json

record stored_key =
  sk_user :: string
  sk_relation :: string
  sk_object :: string
  sk_condition :: "(string \<times> (string \<times> json) list option) option"

record sdk =
  sdk_check :: "check_query \<Rightarrow> json option"
  sdk_batch_check :: "(string \<times> check_query) list \<Rightarrow> batch_item list option"
  sdk_list_objects :: "list_query \<Rightarrow> string list option"
  sdk_read :: "string \<Rightarrow> nat \<Rightarrow> (stored_key list \<times> string option) option"

record fga_client =
  fc_check :: "check_query \<Rightarrow> unavailable + bool"
  fc_batch :: "check_query list \<Rightarrow> unavailable + bool list"
  fc_list :: "list_query \<Rightarrow> unavailable + string list"

definition client_check :: "sdk \<Rightarrow> check_query \<Rightarrow> unavailable + bool" where
  "client_check s q = (case sdk_check s q of Some (JBool b) \<Rightarrow> Inr b | _ \<Rightarrow> Inl AuthzUnavailable)"

fun collect_answers :: "batch_item list \<Rightarrow> (string \<times> bool) list \<Rightarrow> unavailable + (string \<times> bool) list" where
  "collect_answers [] answers = Inr answers"
| "collect_answers (i # items) answers =
     (if bi_error i \<or> bi_id i \<in> fst ` set answers then Inl AuthzUnavailable
      else case bi_allowed i of
             JBool b \<Rightarrow> collect_answers items (answers @ [(bi_id i, b)])
           | _ \<Rightarrow> Inl AuthzUnavailable)"

definition correlation :: "nat \<Rightarrow> string" where
  "correlation i = show_int (int i)"

definition client_batch_check :: "sdk \<Rightarrow> check_query list \<Rightarrow> unavailable + bool list" where
  "client_batch_check s qs =
     (if qs = [] then Inr []
      else
        let ids = map correlation [0..<length qs]
        in case sdk_batch_check s (zip ids qs) of
             None \<Rightarrow> Inl AuthzUnavailable
           | Some items \<Rightarrow>
               (case collect_answers items [] of
                  Inl e \<Rightarrow> Inl e
                | Inr answers \<Rightarrow>
                    if fst ` set answers \<noteq> set ids then Inl AuthzUnavailable
                    else Inr (map (\<lambda>i. the (map_of answers i)) ids)))"

definition client_list_objects :: "sdk \<Rightarrow> list_query \<Rightarrow> unavailable + string list" where
  "client_list_objects s q = (case sdk_list_objects s q of None \<Rightarrow> Inl AuthzUnavailable | Some os \<Rightarrow> Inr os)"

definition sdk_client :: "sdk \<Rightarrow> fga_client" where
  "sdk_client s =
     \<lparr>fc_check = client_check s, fc_batch = client_batch_check s, fc_list = client_list_objects s\<rparr>"

definition tuple_of_key :: "stored_key \<Rightarrow> relation_tuple" where
  "tuple_of_key k =
     (case sk_condition k of
        None \<Rightarrow> plain_tuple (sk_user k) (sk_relation k) (sk_object k)
      | Some (name, ctx) \<Rightarrow>
          tuple_of (sk_user k) (sk_relation k) (sk_object k) (Some name)
            (Some (case ctx of None \<Rightarrow> [] | Some c \<Rightarrow> c)))"

definition read_page :: "sdk \<Rightarrow> string \<Rightarrow> nat \<Rightarrow> unavailable + (relation_tuple list \<times> string)" where
  "read_page s token page_size =
     (case sdk_read s token page_size of
        None \<Rightarrow> Inl AuthzUnavailable
      | Some (keys, following) \<Rightarrow> Inr (map tuple_of_key keys, case following of None \<Rightarrow> [] | Some t \<Rightarrow> t))"

text \<open>A store that never ends its pages is \<open>None\<close>.\<close>

partial_function (option) read_pages ::
    "sdk \<Rightarrow> nat \<Rightarrow> string \<Rightarrow> relation_tuple list \<Rightarrow> (unavailable + relation_tuple list) option" where
  "read_pages s page_size token found =
     (case read_page s token page_size of
        Inl e \<Rightarrow> Some (Inl e)
      | Inr (page, following) \<Rightarrow>
          if following = [] then Some (Inr (found @ page)) else read_pages s page_size following (found @ page))"

definition read_all :: "sdk \<Rightarrow> nat \<Rightarrow> (unavailable + relation_tuple list) option" where
  "read_all s page_size = read_pages s page_size [] []"

section \<open>What a batch answers\<close>

lemma digits_inj: assumes "digits m = digits n" shows "m = n"
proof -
  have "read_digits (length (digits n)) 0 (digits n) = Some (m, [])"
    using read_digits_show[of m] unfolding assms .
  then show ?thesis unfolding read_digits_show by simp
qed

lemma correlation_inj: "inj correlation"
  by (rule injI) (auto simp: correlation_def show_int_def dest: digits_inj)

lemma collect_answers_spec:
  "collect_answers items answers = Inr out \<Longrightarrow> distinct (map fst answers) \<Longrightarrow>
    distinct (map fst out) \<and> set out = set answers \<union> {(bi_id i, b) |i b. i \<in> set items \<and> bi_allowed i = JBool b}
    \<and> (\<forall>i\<in>set items. \<not> bi_error i)"
proof (induction items answers rule: collect_answers.induct)
  case (2 i items answers)
  obtain b where b: "bi_allowed i = JBool b" "\<not> bi_error i" "bi_id i \<notin> fst ` set answers"
    "collect_answers items (answers @ [(bi_id i, b)]) = Inr out"
    using "2.prems"(1) by (auto split: if_splits json.splits)
  have "distinct (map fst (answers @ [(bi_id i, b)]))" using "2.prems"(2) b(3) by simp
  from "2.IH"[OF _ b(1) b(4) this] b(2,3) show ?case using b(1) by auto
qed auto

lemma batch_answer:
  assumes "client_batch_check s qs = Inr bs" "k < length qs"
  shows "\<exists>items i. sdk_batch_check s (zip (map correlation [0..<length qs]) qs) = Some items
    \<and> i \<in> set items \<and> bi_id i = correlation k \<and> \<not> bi_error i \<and> bi_allowed i = JBool (bs ! k)"
proof -
  let ?ids = "map correlation [0..<length qs]"
  have ne: "qs \<noteq> []" using assms(2) by auto
  obtain items answers where it: "sdk_batch_check s (zip ?ids qs) = Some items"
    and an: "collect_answers items [] = Inr answers" "fst ` set answers = set ?ids"
    and bs: "bs = map (\<lambda>i. the (map_of answers i)) ?ids"
    using assms(1) ne by (auto simp: client_batch_check_def Let_def split: option.splits sum.splits if_splits)
  note sp = collect_answers_spec[OF an(1)]
  have "correlation k \<in> fst ` set answers" unfolding an(2) using assms(2) by auto
  then obtain b where b: "(correlation k, b) \<in> set answers" by auto
  then have "map_of answers (correlation k) = Some b" using sp by simp
  then have "bs ! k = b" using bs assms(2) by simp
  then show ?thesis using it sp b by auto
qed

lemma batch_length: "client_batch_check s qs = Inr bs \<Longrightarrow> length bs = length qs"
  by (auto simp: client_batch_check_def Let_def split: option.splits sum.splits if_splits)

text \<open>
  What a batch answer means, by its correlation ids alone: it answers every question exactly once, without an error
  and with a boolean; and what it says of one question.
\<close>

definition answers_all :: "batch_item list \<Rightarrow> string list \<Rightarrow> bool" where
  "answers_all items ids \<longleftrightarrow>
     distinct (map bi_id items) \<and> set (map bi_id items) = set ids
     \<and> (\<forall>i \<in> set items. \<not> bi_error i \<and> (bi_allowed i = JBool True \<or> bi_allowed i = JBool False))"

definition answers_yes :: "batch_item list \<Rightarrow> string \<Rightarrow> bool" where
  "answers_yes items i = (\<exists>item \<in> set items. bi_id item = i \<and> bi_allowed item = JBool True)"

lemma collect_answers_exact:
  "collect_answers items acc =
    (if distinct (map bi_id items) \<and> bi_id ` set items \<inter> fst ` set acc = {}
        \<and> (\<forall>i \<in> set items. \<not> bi_error i \<and> (bi_allowed i = JBool True \<or> bi_allowed i = JBool False))
     then Inr (acc @ map (\<lambda>i. (bi_id i, bi_allowed i = JBool True)) items) else Inl AuthzUnavailable)"
proof (induction items acc rule: collect_answers.induct)
  case (2 i items acc)
  show ?case
  proof (cases "bi_error i \<or> bi_id i \<in> fst ` set acc")
    case True
    then show ?thesis by auto
  next
    case False
    show ?thesis
    proof (cases "\<exists>b. bi_allowed i = JBool b")
      case True
      then obtain b where b: "bi_allowed i = JBool b" by blast
      have step: "collect_answers (i # items) acc = collect_answers items (acc @ [(bi_id i, b)])" using False b by simp
      have t: "bi_allowed i = JBool True \<or> bi_allowed i = JBool False" "(bi_allowed i = JBool True) = b"
        using b by (cases b; simp)+
      have k: "bi_id ` set items \<inter> fst ` set (acc @ [(bi_id i, b)]) = {} \<longleftrightarrow>
          bi_id ` set items \<inter> fst ` set acc = {} \<and> bi_id i \<notin> bi_id ` set items" by auto
      have n: "\<not> bi_error i" "bi_id i \<notin> fst ` set acc" using False by simp_all
      have l: "(acc @ [(bi_id i, b)]) @ map (\<lambda>i. (bi_id i, bi_allowed i = JBool True)) items
          = acc @ map (\<lambda>i. (bi_id i, bi_allowed i = JBool True)) (i # items)" by (simp add: t(2))
      show ?thesis unfolding step "2.IH"[OF False b] k l using n t(1) by (intro if_cong) auto
    next
      case no: False
      then show ?thesis using False by (cases "bi_allowed i") auto
    qed
  qed
qed simp

lemma answers_lookup:
  assumes "distinct (map bi_id items)" "i \<in> bi_id ` set items"
  shows "map_of (map (\<lambda>i. (bi_id i, bi_allowed i = JBool True)) items) i = Some (answers_yes items i)"
proof -
  obtain x where x: "x \<in> set items" "bi_id x = i" using assms(2) by auto
  have inj: "inj_on bi_id (set items)" using assms(1) by (simp add: distinct_map)
  have u: "y = x" if "y \<in> set items" "bi_id y = i" for y
    by (rule inj_onD[OF inj]) (use that x in simp_all)
  have "answers_yes items i = (bi_allowed x = JBool True)"
    unfolding answers_yes_def using u x by blast
  moreover have "map_of (map (\<lambda>i. (bi_id i, bi_allowed i = JBool True)) items) i = Some (bi_allowed x = JBool True)"
    using x assms(1) by (intro map_of_is_SomeI) (auto simp: comp_def)
  ultimately show ?thesis by simp
qed

lemma client_batch_exact:
  assumes "qs \<noteq> []" "ids = map correlation [0..<length qs]"
  shows "client_batch_check s qs =
    (case sdk_batch_check s (zip ids qs) of None \<Rightarrow> Inl AuthzUnavailable
     | Some items \<Rightarrow> if answers_all items ids then Inr (map (answers_yes items) ids) else Inl AuthzUnavailable)"
proof (cases "sdk_batch_check s (zip ids qs)")
  case None
  then show ?thesis using assms by (simp add: client_batch_check_def Let_def)
next
  case (Some items)
  let ?found = "map (\<lambda>i. (bi_id i, bi_allowed i = JBool True)) items"
  have f: "fst ` set ?found = set (map bi_id items)" by (simp add: image_image)
  have m: "map (\<lambda>i. the (map_of ?found i)) ids = map (answers_yes items) ids" if "answers_all items ids"
    using that answers_lookup[of items] by (intro map_cong refl) (simp add: answers_all_def)
  define ok where "ok \<longleftrightarrow> distinct (map bi_id items)
      \<and> (\<forall>i \<in> set items. \<not> bi_error i \<and> (bi_allowed i = JBool True \<or> bi_allowed i = JBool False))"
  have c: "collect_answers items [] = (if ok then Inr ?found else Inl AuthzUnavailable)"
    by (simp add: collect_answers_exact ok_def)
  have a: "answers_all items ids \<longleftrightarrow> ok \<and> set (map bi_id items) = set ids" by (auto simp: answers_all_def ok_def)
  show ?thesis
  proof (cases "answers_all items ids")
    case True
    then have "collect_answers items [] = Inr ?found" using c a by simp
    then show ?thesis using True Some assms m[OF True] f
      by (simp add: client_batch_check_def Let_def answers_all_def del: map_map)
  next
    case False
    then have "collect_answers items [] = Inl AuthzUnavailable
        \<or> (collect_answers items [] = Inr ?found \<and> set (map bi_id items) \<noteq> set ids)"
      using c a by (cases ok) simp_all
    moreover have "client_batch_check s qs = (case collect_answers items [] of Inl e \<Rightarrow> Inl e
        | Inr answers \<Rightarrow> if fst ` set answers \<noteq> set ids then Inl AuthzUnavailable
            else Inr (map (\<lambda>i. the (map_of answers i)) ids))"
      by (simp only: client_batch_check_def Let_def assms(1) if_False option.case Some flip: assms(2))
    ultimately have "client_batch_check s qs = Inl AuthzUnavailable" using f by (elim disjE) (simp_all del: set_map)
    then show ?thesis using False Some by simp
  qed
qed

section \<open>The client's interface\<close>

locale authz_client =
  fixes batch :: "check_query list \<Rightarrow> unavailable + bool list"
  assumes one_answer_each: "batch qs = Inr bs \<Longrightarrow> length bs = length qs"
begin

lemma answers_found:
  assumes "batch (map q items) = Inr bs" "distinct items" "x \<in> set items"
  shows "\<exists>k<length items. items ! k = x \<and> map_of (zip items bs) x = Some (bs ! k)"
proof -
  have l: "length bs = length items" using one_answer_each[OF assms(1)] by simp
  obtain k where k: "k < length items" "items ! k = x" using assms(3) by (auto simp: in_set_conv_nth)
  have "map_of (zip items bs) (items ! k) = Some (bs ! k)"
    using map_of_zip_nth[of items bs k] l assms(2) k(1) by simp
  then show ?thesis using k by auto
qed

end

interpretation adapter: authz_client "fc_batch (sdk_client s)" for s
  by unfold_locales (simp add: sdk_client_def batch_length)

end
