(* ===== verification/TupleOutbox.thy ===== *)
theory TupleOutbox
  imports Revocations
begin

text \<open>
  The queue of tuple changes (\<open>authz/outbox\<close>) and the tuple store it feeds (\<open>authz/fake\<close>).

  A row carries its operation as JSON (\<open>encode\<close>, \<open>decode\<close>). The store is behind the
  interface \<open>tuple_writer\<close>: what a successful call does to one key, and that a failed call
  touches no other key (it may have been applied or not). \<open>FakeTupleStore\<close> is the
  repository's in-memory store and interprets the interface. A failed call is \<open>Some\<close> error text.

  The main lemmas: the round trip of the encoding; which rows a batch processes; that rows of one
  key take effect in the order of \<open>seq\<close>; and that a working store drains.
\<close>

section \<open>Operations\<close>

datatype op_kind = OpWrite | OpDelete

record tuple_op =
  to_kind :: op_kind
  to_tuple :: relation_tuple
  to_replace :: bool

definition op_text :: "op_kind \<Rightarrow> string" where
  "op_text k = (case k of OpWrite \<Rightarrow> ''write'' | OpDelete \<Rightarrow> ''delete'')"

definition encode_op :: "tuple_op \<Rightarrow> json" where
  "encode_op op =
     (let t = to_tuple op
      in JObj ([(''user'', JStr (rt_user t)), (''relation'', JStr (rt_relation t)),
                (''object'', JStr (rt_object t))]
           @ (case rt_condition t of
                None \<Rightarrow> []
              | Some c \<Rightarrow> [(''condition'', JObj [(''name'', JStr (c_name c)), (''context'', JObj (c_context c))])])
           @ (if to_replace op then [(''replace'', JBool True)] else [])))"

fun members_of :: "json \<Rightarrow> (string \<times> json) list" where
  "members_of (JObj ms) = ms"
| "members_of v = []"

definition decode_condition ::
    "json option \<Rightarrow> rule_error + (string option \<times> (string \<times> json) list option)" where
  "decode_condition c =
     (case c of
        Some (JObj ms) \<Rightarrow>
          (case map_of ms ''name'' of
             None \<Rightarrow> Inl KeyError
           | Some n \<Rightarrow> Inr (Some (source_text n),
               Some (case map_of ms ''context'' of Some (JObj ctx) \<Rightarrow> ctx | _ \<Rightarrow> [])))
      | _ \<Rightarrow> Inr (None, None))"

definition decode_op :: "string \<Rightarrow> json \<Rightarrow> rule_error + tuple_op" where
  "decode_op op data =
     (if op \<noteq> ''write'' \<and> op \<noteq> ''delete'' then Inl ValueError
      else let ms = members_of data
           in case decode_condition (map_of ms ''condition'') of
                Inl e \<Rightarrow> Inl e
              | Inr (name, ctx) \<Rightarrow>
                  (case (map_of ms ''user'', map_of ms ''relation'', map_of ms ''object'') of
                     (Some u, Some r, Some ob) \<Rightarrow>
                       Inr \<lparr>to_kind = (if op = ''write'' then OpWrite else OpDelete),
                            to_tuple = tuple_of (source_text u) (source_text r) (source_text ob) name ctx,
                            to_replace = (map_of ms ''replace'' = Some (JBool True))\<rparr>
                   | _ \<Rightarrow> Inl KeyError))"

definition key_text :: "relation_tuple \<Rightarrow> string" where
  "key_text t = rt_user t @ '' '' @ rt_relation t @ '' '' @ rt_object t"

section \<open>The store\<close>

type_synonym 's writer = "relation_tuple list \<Rightarrow> 's \<Rightarrow> string option \<times> 's"

record fake_store =
  fs_tuples :: "(tuple_key \<times> relation_tuple) list"
  fs_fail_calls :: int
  fs_failing :: "string list"
  fs_calls :: "(string \<times> relation_tuple) list"

definition fake_guard :: "string \<Rightarrow> relation_tuple list \<Rightarrow> fake_store \<Rightarrow> string option \<times> fake_store" where
  "fake_guard operation ts s =
     (if 0 < fs_fail_calls s \<or> (\<exists>t\<in>set ts. rt_object t \<in> set (fs_failing s))
      then (Some operation, s\<lparr>fs_fail_calls := max (fs_fail_calls s - 1) 0\<rparr>)
      else (None, s\<lparr>fs_calls := fs_calls s @ map (\<lambda>t. (operation, t)) ts\<rparr>))"

fun fake_put :: "fake_store writer" where
  "fake_put [] s = (None, s)"
| "fake_put (t # ts) s =
     (case map_of (fs_tuples s) (key_of t) of
        None \<Rightarrow> fake_put ts (s\<lparr>fs_tuples := fs_tuples s @ [(key_of t, t)]\<rparr>)
      | Some stored \<Rightarrow> if stored \<noteq> t then (Some ''write'', s) else fake_put ts s)"

definition fake_write :: "fake_store writer" where
  "fake_write ts s =
     (case fake_guard ''write'' ts s of (Some e, s1) \<Rightarrow> (Some e, s1) | (None, s1) \<Rightarrow> fake_put ts s1)"

definition fake_delete :: "fake_store writer" where
  "fake_delete ts s =
     (case fake_guard ''delete'' ts s of
        (Some e, s1) \<Rightarrow> (Some e, s1)
      | (None, s1) \<Rightarrow> (None, foldl (\<lambda>s t. s\<lparr>fs_tuples := AList.delete (key_of t) (fs_tuples s)\<rparr>) s1 ts))"

definition fake_stored :: "fake_store \<Rightarrow> tuple_key \<Rightarrow> relation_tuple option" where
  "fake_stored s = map_of (fs_tuples s)"

section \<open>The queue\<close>

definition max_batch :: nat where "max_batch = 100"
definition max_backoff :: micros where "max_backoff = seconds 300"
definition error_width :: nat where "error_width = 500"

definition next_seq :: "outbox_row list \<Rightarrow> int" where
  "next_seq obs = (case obs of [] \<Rightarrow> 1 | _ \<Rightarrow> Max (set (map ob_seq obs)) + 1)"

definition queue_row ::
    "uuid \<Rightarrow> tuple_op \<Rightarrow> string \<Rightarrow> uuid \<Rightarrow> micros \<Rightarrow> int \<Rightarrow> outbox_row" where
  "queue_row rid op table src now seq =
     \<lparr>ob_id = rid, ob_seq = seq, ob_key = key_text (to_tuple op), ob_op = op_text (to_kind op),
      ob_tuple = encode_op op, ob_source_table = table, ob_source_id = src, ob_attempts = 0,
      ob_next_attempt = now, ob_error = None, ob_processed_at = None, ob_created_at = now\<rparr>"

text \<open>One INSERT per operation; the identifiers are drawn by the caller of the model.\<close>

fun enqueue_ops ::
    "(uuid \<times> tuple_op) list \<Rightarrow> string \<Rightarrow> uuid \<Rightarrow> micros \<Rightarrow> outbox_row list \<Rightarrow> outbox_row list" where
  "enqueue_ops [] table src now obs = obs"
| "enqueue_ops ((rid, op) # ops) table src now obs =
     enqueue_ops ops table src now (obs @ [queue_row rid op table src now (next_seq obs)])"

record outbox_run =
  run_processed :: "uuid list"
  run_failed :: "uuid list"
  run_deferred :: "uuid list"

definition empty_run :: outbox_run where
  "empty_run = \<lparr>run_processed = [], run_failed = [], run_deferred = []\<rparr>"

text \<open>\<open>locked\<close>: rows another transaction holds (\<open>FOR UPDATE SKIP LOCKED\<close>).\<close>

definition due_rows :: "uuid list option \<Rightarrow> nat \<Rightarrow> micros \<Rightarrow> uuid list \<Rightarrow> outbox_row list \<Rightarrow> outbox_row list" where
  "due_rows ids limit stamp locked obs =
     take limit (filter (\<lambda>r. ob_id r \<notin> set locked) (sort_key ob_seq
       (filter (\<lambda>r. ob_processed_at r = None \<and> ob_next_attempt r \<le> stamp
          \<and> (case ids of None \<Rightarrow> True | Some is \<Rightarrow> ob_id r \<in> set is)) obs)))"

definition older_pending :: "outbox_row list \<Rightarrow> outbox_row list \<Rightarrow> string \<Rightarrow> int option" where
  "older_pending batch obs key =
     (if key \<notin> set (map ob_key batch) then None
      else case filter (\<lambda>r. ob_processed_at r = None \<and> ob_key r = key
                   \<and> ob_id r \<notin> set (map ob_id batch)) obs of
             [] \<Rightarrow> None
           | rs \<Rightarrow> Some (Min (set (map ob_seq rs))))"

definition send_op :: "'s writer \<Rightarrow> 's writer \<Rightarrow> tuple_op \<Rightarrow> 's \<Rightarrow> string option \<times> 's" where
  "send_op wr dl op s =
     (case (if to_kind op = OpDelete \<or> to_replace op then dl [to_tuple op] s else (None, s)) of
        (Some e, s1) \<Rightarrow> (Some e, s1)
      | (None, s1) \<Rightarrow> if to_kind op = OpWrite then wr [to_tuple op] s1 else (None, s1))"

definition error_name :: "rule_error \<Rightarrow> string" where
  "error_name e = (case e of TupleRuleError \<Rightarrow> ''TupleRuleError'' | KeyError \<Rightarrow> ''KeyError''
     | ValueError \<Rightarrow> ''ValueError'')"

text \<open>
  \<open>timedelta(seconds=n)\<close> holds at most 999999999 days; a longer one raises \<open>OverflowError\<close>,
  which \<open>None\<close> stands for.
\<close>

definition timedelta_seconds :: "int \<Rightarrow> micros option" where
  "timedelta_seconds n = (if n div 86400 > 999999999 then None else Some (seconds n))"

definition back_off :: "string \<Rightarrow> micros \<Rightarrow> outbox_row \<Rightarrow> outbox_row option" where
  "back_off err stamp r =
     (let n = Suc (ob_attempts r)
      in map_option (\<lambda>d. r\<lparr>ob_attempts := n, ob_next_attempt := stamp + min d max_backoff,
             ob_error := Some (take error_width err)\<rparr>) (timedelta_seconds (2 ^ n)))"

definition send_row ::
    "'s writer \<Rightarrow> 's writer \<Rightarrow> outbox_row \<Rightarrow> 's \<Rightarrow> string option \<times> 's" where
  "send_row wr dl r s =
     (case decode_op (ob_op r) (ob_tuple r) of
        Inl e \<Rightarrow> (Some (error_name e), s)
      | Inr op \<Rightarrow> send_op wr dl op s)"

definition landed_row :: "micros \<Rightarrow> outbox_row \<Rightarrow> outbox_row" where
  "landed_row stamp r = r\<lparr>ob_processed_at := Some stamp, ob_error := None\<rparr>"

text \<open>
  The batch loop. \<open>None\<close>: an exception left the loop, so the session is rolled back while the
  calls already made stay made.
\<close>

type_synonym 's apply_result = "(outbox_run \<times> outbox_row list) option \<times> 's"

definition note_row :: "(outbox_run \<Rightarrow> outbox_run) \<Rightarrow> 's apply_result \<Rightarrow> 's apply_result" where
  "note_row f res = (map_option (\<lambda>(run, obs). (f run, obs)) (fst res), snd res)"

fun apply_rows ::
    "'s writer \<Rightarrow> 's writer \<Rightarrow> (string \<Rightarrow> int option) \<Rightarrow> micros \<Rightarrow> string list
      \<Rightarrow> outbox_row list \<Rightarrow> outbox_row list \<Rightarrow> 's \<Rightarrow> 's apply_result" where
  "apply_rows wr dl older stamp blocked [] obs s = (Some (empty_run, obs), s)"
| "apply_rows wr dl older stamp blocked (r # batch) obs s =
     (if ob_key r \<in> set blocked \<or> (case older (ob_key r) of None \<Rightarrow> ob_seq r | Some n \<Rightarrow> n) < ob_seq r
      then note_row (\<lambda>run. run\<lparr>run_deferred := ob_id r # run_deferred run\<rparr>)
             (apply_rows wr dl older stamp blocked batch obs s)
      else case send_row wr dl r s of
             (Some err, s1) \<Rightarrow>
               (case back_off err stamp r of
                  None \<Rightarrow> (None, s1)
                | Some r1 \<Rightarrow>
                    note_row (\<lambda>run. run\<lparr>run_failed := ob_id r # run_failed run\<rparr>)
                      (apply_rows wr dl older stamp (ob_key r # blocked) batch (row_put ob_id r1 obs) s1))
           | (None, s1) \<Rightarrow>
               note_row (\<lambda>run. run\<lparr>run_processed := ob_id r # run_processed run\<rparr>)
                 (apply_rows wr dl older stamp blocked batch (row_put ob_id (landed_row stamp r) obs) s1))"

text \<open>The queue part of \<open>process_outbox\<close>: one batch of due rows.\<close>

definition apply_due ::
    "'s writer \<Rightarrow> 's writer \<Rightarrow> uuid list option \<Rightarrow> nat \<Rightarrow> micros \<Rightarrow> uuid list
      \<Rightarrow> outbox_row list \<Rightarrow> 's \<Rightarrow> 's apply_result" where
  "apply_due wr dl ids limit stamp locked obs s =
     (let batch = due_rows ids limit stamp locked obs
      in apply_rows wr dl (older_pending batch obs) stamp [] batch obs s)"

section \<open>The encoding loses nothing\<close>

lemma sort_key_map_snd:
  "map (\<lambda>(k, v). (k, f v)) (sort_key fst xs) = sort_key fst (map (\<lambda>(k, v). (k, f v)) xs)"
proof (induction xs)
  case (Cons x xs)
  have "map (\<lambda>(k, v). (k, f v)) (insort_key fst x ys)
      = insort_key fst (case x of (k, v) \<Rightarrow> (k, f v)) (map (\<lambda>(k, v). (k, f v)) ys)" for ys
    by (induction ys) (auto split: prod.splits)
  then show ?case using Cons by simp
qed simp

lemma sort_key_twice: "sort_key f (sort_key f xs) = sort_key f xs"
  by (simp add: sort_key_id_if_sorted)

lemma sort_json_idem [simp]: "sort_json (sort_json v) = sort_json v"
proof (induction v rule: sort_json.induct)
  case (2 ms)
  have "map (\<lambda>(k, v). (k, sort_json v)) (map (\<lambda>(k, v). (k, sort_json v)) ms)
      = map (\<lambda>(k, v). (k, sort_json v)) ms"
    using 2 by auto
  then show ?case by (simp only: sort_json.simps sort_key_map_snd sort_key_twice)
qed auto

lemma sorted_members_idem [simp]: "sorted_members (sorted_members ms) = sorted_members ms"
proof -
  have "map (\<lambda>(k, v). (k, sort_json v)) (map (\<lambda>(k, v). (k, sort_json v)) ms)
      = map (\<lambda>(k, v). (k, sort_json v)) ms"
    by auto
  then show ?thesis by (simp only: sorted_members_def sort_key_map_snd sort_key_twice)
qed

text \<open>A tuple as the program builds it: its context is the decoding of an encoding.\<close>

definition normal_tuple :: "relation_tuple \<Rightarrow> bool" where
  "normal_tuple t = (case rt_condition t of None \<Rightarrow> True
     | Some c \<Rightarrow> sorted_members (c_context c) = c_context c)"

lemma normal_tuple_of [simp]: "normal_tuple (tuple_of u r ob c x)" "normal_tuple (plain_tuple u r ob)"
  by (auto simp: normal_tuple_def tuple_of_def split: option.splits)

lemma decode_encode:
  assumes "normal_tuple (to_tuple op)"
  shows "decode_op (op_text (to_kind op)) (encode_op op) = Inr op"
proof -
  obtain k t rep where op: "op = \<lparr>to_kind = k, to_tuple = t, to_replace = rep\<rparr>" by (cases op)
  obtain u r ob c where t: "t = \<lparr>rt_user = u, rt_relation = r, rt_object = ob, rt_condition = c\<rparr>"
    by (cases t)
  show ?thesis using assms
    by (cases k; cases c; cases rep)
      (auto simp: op t decode_op_def encode_op_def op_text_def decode_condition_def tuple_of_def
        plain_tuple_def normal_tuple_def Let_def)
qed

text \<open>
  A queued tuple change decodes to itself: whatever tuple the program built (plain or with a
  condition and any context), whatever the operation.
\<close>
theorem queued_operation_round_trip:
  "decode_op (op_text k) (encode_op \<lparr>to_kind = k, to_tuple = tuple_of u r ob c ctx, to_replace = rep\<rparr>)
   = Inr \<lparr>to_kind = k, to_tuple = tuple_of u r ob c ctx, to_replace = rep\<rparr>"
  using decode_encode[of "\<lparr>to_kind = k, to_tuple = tuple_of u r ob c ctx, to_replace = rep\<rparr>"] by simp

section \<open>What a writer promises\<close>

definition op_effect :: "tuple_op \<Rightarrow> relation_tuple option" where
  "op_effect op = (if to_kind op = OpWrite then Some (to_tuple op) else None)"

locale tuple_writer =
  fixes wr dl :: "relation_tuple list \<Rightarrow> 's \<Rightarrow> string option \<times> 's"
    and stored :: "'s \<Rightarrow> tuple_key \<Rightarrow> relation_tuple option"
  assumes write_ok: "wr [t] s = (None, s') \<Longrightarrow> stored s' = (stored s)(key_of t \<mapsto> t)"
    and delete_ok: "dl [t] s = (None, s') \<Longrightarrow> stored s' = (stored s)(key_of t := None)"
    and write_failed: "wr [t] s = (Some e, s') \<Longrightarrow> k \<noteq> key_of t \<Longrightarrow> stored s' k = stored s k"
    and delete_failed: "dl [t] s = (Some e, s') \<Longrightarrow> k \<noteq> key_of t \<Longrightarrow> stored s' k = stored s k"
begin

lemma write_frame: "wr [t] s = (res, s') \<Longrightarrow> k \<noteq> key_of t \<Longrightarrow> stored s' k = stored s k"
  by (cases res) (auto simp: write_ok write_failed)

lemma delete_frame: "dl [t] s = (res, s') \<Longrightarrow> k \<noteq> key_of t \<Longrightarrow> stored s' k = stored s k"
  by (cases res) (auto simp: delete_ok delete_failed)

lemma send_ok:
  "send_op wr dl op s = (None, s') \<Longrightarrow> stored s' = (stored s)(key_of (to_tuple op) := op_effect op)"
proof (cases "to_kind op")
  case OpWrite
  then show "send_op wr dl op s = (None, s') \<Longrightarrow> ?thesis"
    by (auto simp: send_op_def op_effect_def write_ok delete_ok split: prod.splits option.splits if_splits
        dest!: write_ok delete_ok)
next
  case OpDelete
  then show "send_op wr dl op s = (None, s') \<Longrightarrow> ?thesis"
    by (auto simp: send_op_def op_effect_def split: prod.splits option.splits if_splits
        dest!: delete_ok)
qed

lemma send_frame:
  "send_op wr dl op s = (res, s') \<Longrightarrow> k \<noteq> key_of (to_tuple op) \<Longrightarrow> stored s' k = stored s k"
  by (auto simp: send_op_def split: prod.splits option.splits if_splits)
    (metis write_frame delete_frame)+

end

text \<open>The repository's in-memory store keeps these promises.\<close>

lemma fake_guard_keeps: "fake_guard op ts s = (res, s') \<Longrightarrow> fake_stored s' = fake_stored s"
  by (auto simp: fake_guard_def fake_stored_def split: if_splits)

lemma fake_put_one:
  "fake_put [t] s = (None, s') \<Longrightarrow> fake_stored s' = (fake_stored s)(key_of t \<mapsto> t)"
  "fake_put [t] s = (Some e, s') \<Longrightarrow> fake_stored s' = fake_stored s"
  by (auto simp: fake_stored_def map_add_def fun_eq_iff split: option.splits if_splits)

interpretation fake: tuple_writer fake_write fake_delete fake_stored
proof
  fix t s s' and e :: string and k
  show "fake_write [t] s = (None, s') \<Longrightarrow> fake_stored s' = (fake_stored s)(key_of t \<mapsto> t)"
    by (auto simp: fake_write_def fake_put_one dest: fake_guard_keeps simp del: fake_put.simps
        split: prod.splits option.splits)
  show "fake_delete [t] s = (None, s') \<Longrightarrow> fake_stored s' = (fake_stored s)(key_of t := None)"
    by (auto simp: fake_delete_def fake_stored_def delete_conv
        dest!: fake_guard_keeps[unfolded fake_stored_def] split: prod.splits option.splits)
  show "fake_write [t] s = (Some e, s') \<Longrightarrow> k \<noteq> key_of t \<Longrightarrow> fake_stored s' k = fake_stored s k"
    by (auto simp: fake_write_def dest!: fake_guard_keeps fake_put_one(2) simp del: fake_put.simps
        split: prod.splits option.splits)
  show "fake_delete [t] s = (Some e, s') \<Longrightarrow> k \<noteq> key_of t \<Longrightarrow> fake_stored s' k = fake_stored s k"
    by (auto simp: fake_delete_def dest: fake_guard_keeps split: prod.splits option.splits)
qed

section \<open>Rows of one key take effect in order\<close>

definition row_key :: "outbox_row \<Rightarrow> tuple_key option" where
  "row_key r = (case decode_op (ob_op r) (ob_tuple r) of Inl _ \<Rightarrow> None | Inr op \<Rightarrow> Some (key_of (to_tuple op)))"

definition row_effect :: "outbox_row \<Rightarrow> relation_tuple option" where
  "row_effect r = (case decode_op (ob_op r) (ob_tuple r) of Inl _ \<Rightarrow> None | Inr op \<Rightarrow> op_effect op)"

definition row_ok :: "outbox_row \<Rightarrow> bool" where
  "row_ok r = (case decode_op (ob_op r) (ob_tuple r) of
     Inl _ \<Rightarrow> False | Inr op \<Rightarrow> ob_key r = key_text (to_tuple op))"

definition settled :: "tuple_key \<Rightarrow> outbox_row list \<Rightarrow> outbox_row \<Rightarrow> bool" where
  "settled k obs r = (r \<in> set obs \<and> row_key r = Some k
     \<and> (\<forall>r'\<in>set obs. row_key r' = Some k \<longrightarrow> ob_processed_at r' \<noteq> None \<and> ob_seq r' \<le> ob_seq r))"

definition rows_ok :: "outbox_row list \<Rightarrow> bool" where
  "rows_ok obs = (distinct (map ob_id obs) \<and> distinct (map ob_seq obs) \<and> (\<forall>r\<in>set obs. row_ok r)
     \<and> (\<forall>r1\<in>set obs. \<forall>r2\<in>set obs. ob_key r1 = ob_key r2 \<and> ob_seq r1 < ob_seq r2
          \<and> ob_processed_at r2 \<noteq> None \<longrightarrow> ob_processed_at r1 \<noteq> None))"

definition store_ok :: "(tuple_key \<Rightarrow> relation_tuple option) \<Rightarrow> outbox_row list \<Rightarrow> bool" where
  "store_ok st obs = (\<forall>k r. settled k obs r \<longrightarrow> st k = row_effect r)"

text \<open>What the rest of a batch may rely on: every older pending row of a key is still to come, or the key is held.\<close>

definition batch_ok :: "(string \<Rightarrow> int option) \<Rightarrow> string list \<Rightarrow> outbox_row list \<Rightarrow> outbox_row list \<Rightarrow> bool" where
  "batch_ok older blocked batch obs =
     (sorted_wrt (\<lambda>a b. ob_seq a < ob_seq b) batch \<and> set batch \<subseteq> set obs
      \<and> (\<forall>r\<in>set batch. ob_processed_at r = None)
      \<and> (\<forall>r\<in>set batch. \<forall>r'\<in>set obs. ob_key r' = ob_key r \<and> ob_processed_at r' = None \<and> ob_seq r' < ob_seq r
           \<longrightarrow> r' \<in> set batch \<or> ob_key r \<in> set blocked \<or> (\<exists>n. older (ob_key r) = Some n \<and> n < ob_seq r)))"

lemma row_put_set:
  assumes "distinct (map key rs)" "r0 \<in> set rs" "key r = key r0"
  shows "set (row_put key r rs) = insert r (set rs - {r0})"
proof -
  have "x = r0" if "x \<in> set rs" "key x = key r" for x
    using assms that by (auto simp: distinct_map inj_on_def)
  then show ?thesis using assms(2,3) by (auto simp: row_put_def)
qed

lemma row_put_map:
  assumes "distinct (map key rs)" "r0 \<in> set rs" "key r = key r0" "f r = f r0"
  shows "map f (row_put key r rs) = map f rs"
proof -
  have "f (if key x = key r then r else x) = f x" if "x \<in> set rs" for x
    using assms that by (auto simp: distinct_map inj_on_def)
  then show ?thesis by (simp add: row_put_def)
qed

lemma row_key_text:
  assumes "row_ok r" "row_ok r'" "row_key r = Some k" "row_key r' = Some k"
  shows "ob_key r = ob_key r'"
  using assms by (auto simp: row_ok_def row_key_def key_text_def key_of_def split: sum.splits)

lemma changed_row_fields [simp]:
  "ob_id (landed_row stamp r) = ob_id r" "ob_seq (landed_row stamp r) = ob_seq r"
  "ob_key (landed_row stamp r) = ob_key r" "row_key (landed_row stamp r) = row_key r"
  "row_effect (landed_row stamp r) = row_effect r" "row_ok (landed_row stamp r) = row_ok r"
  "ob_processed_at (landed_row stamp r) = Some stamp"
  "ob_source_table (landed_row stamp r) = ob_source_table r" "ob_source_id (landed_row stamp r) = ob_source_id r"
  by (simp_all add: landed_row_def row_key_def row_effect_def row_ok_def split: sum.split)

lemma back_off_fields:
  assumes "back_off err stamp r = Some r1"
  shows "ob_id r1 = ob_id r" "ob_seq r1 = ob_seq r" "ob_key r1 = ob_key r" "row_key r1 = row_key r"
    "row_effect r1 = row_effect r" "row_ok r1 = row_ok r" "ob_processed_at r1 = ob_processed_at r"
    "ob_source_table r1 = ob_source_table r" "ob_source_id r1 = ob_source_id r"
    "ob_attempts r1 = Suc (ob_attempts r)"
  using assms by (auto simp: back_off_def Let_def row_key_def row_effect_def row_ok_def split: sum.splits)

lemma rows_ok_put:
  assumes ok: "rows_ok obs" and r: "r \<in> set obs" and e: "ob_id r1 = ob_id r" "ob_seq r1 = ob_seq r"
    "ob_key r1 = ob_key r" "row_ok r1 = row_ok r"
    and p: "ob_processed_at r1 = None \<longrightarrow> ob_processed_at r = None"
    and first: "ob_processed_at r1 \<noteq> None \<longrightarrow>
      (\<forall>r'\<in>set obs. ob_key r' = ob_key r \<and> ob_seq r' < ob_seq r \<longrightarrow> ob_processed_at r' \<noteq> None)"
    and same: "ob_processed_at r1 = None \<longrightarrow> ob_processed_at r = None"
  shows "rows_ok (row_put ob_id r1 obs)"
proof -
  have d: "distinct (map ob_id obs)" "distinct (map ob_seq obs)" using ok by (auto simp: rows_ok_def)
  have s: "set (row_put ob_id r1 obs) = insert r1 (set obs - {r})" by (rule row_put_set[OF d(1) r e(1)])
  have m: "map ob_seq (row_put ob_id r1 obs) = map ob_seq obs" by (rule row_put_map[OF d(1) r e(1,2)])
  have o: "ob_processed_at a \<noteq> None" if "a \<in> set obs" "b \<in> set obs" "ob_key a = ob_key b"
    "ob_seq a < ob_seq b" "ob_processed_at b \<noteq> None" for a b
    using ok that unfolding rows_ok_def by blast
  have "ob_processed_at a \<noteq> None" if "a \<in> insert r1 (set obs - {r})" "b \<in> insert r1 (set obs - {r})"
    "ob_key a = ob_key b" "ob_seq a < ob_seq b" "ob_processed_at b \<noteq> None" for a b
    using that o[of a b] o[of r b] o[of a r] first p r e by (metis Diff_iff insert_iff less_irrefl)
  then show ?thesis using ok d m e r unfolding rows_ok_def s by auto
qed

context tuple_writer
begin

lemma send_row_frame:
  "send_row wr dl r s = (res, s') \<Longrightarrow> Some k \<noteq> row_key r \<Longrightarrow> stored s' k = stored s k"
  by (auto simp: send_row_def row_key_def dest: send_frame split: sum.splits)

lemma send_row_ok:
  assumes "send_row wr dl r s = (None, s')" "row_key r = Some k"
  shows "stored s' k = row_effect r"
  using assms by (auto simp: send_row_def row_key_def row_effect_def dest!: send_ok split: sum.splits)

end

lemma note_row_Some [simp]:
  "note_row f res = (Some (run, obs), s) \<longleftrightarrow> (\<exists>run'. res = (Some (run', obs), s) \<and> run = f run')"
  by (cases res) (auto simp: note_row_def)

lemma note_row_None [simp]: "note_row f res = (None, s) \<longleftrightarrow> res = (None, s)"
  by (cases res) (auto simp: note_row_def)

lemma batch_ok_skip:
  assumes "batch_ok older blocked (r # batch) obs"
    "ob_key r \<in> set blocked \<or> (case older (ob_key r) of None \<Rightarrow> ob_seq r | Some n \<Rightarrow> n) < ob_seq r"
  shows "batch_ok older blocked batch obs"
proof -
  have "\<exists>n. older (ob_key r) = Some n \<and> n < ob_seq r" if "ob_key r \<notin> set blocked"
    using assms(2) that by (auto split: option.splits)
  then show ?thesis using assms(1) unfolding batch_ok_def by fastforce
qed

lemma batch_ok_put:
  assumes b: "batch_ok older blocked (r # batch) obs" and ok: "rows_ok obs"
    and e: "ob_id r1 = ob_id r" "ob_seq r1 = ob_seq r" "ob_key r1 = ob_key r"
    and h: "ob_processed_at r1 \<noteq> None \<or> ob_key r \<in> set blocked'" "set blocked \<subseteq> set blocked'"
  shows "batch_ok older blocked' batch (row_put ob_id r1 obs)"
proof -
  have d: "distinct (map ob_id obs)" using ok by (auto simp: rows_ok_def)
  have r: "r \<in> set obs" and nr: "r \<notin> set batch" using b by (auto simp: batch_ok_def)
  have s: "set (row_put ob_id r1 obs) = insert r1 (set obs - {r})" by (rule row_put_set[OF d r e(1)])
  have "x \<in> set batch \<or> ob_key q \<in> set blocked' \<or> (\<exists>n. older (ob_key q) = Some n \<and> n < ob_seq q)"
    if "q \<in> set batch" "x \<in> insert r1 (set obs - {r})" "ob_key x = ob_key q"
      "ob_processed_at x = None" "ob_seq x < ob_seq q" for q x
  proof (cases "x = r1")
    case True
    then have "ob_key q \<in> set blocked'" using that(3,4) h(1) e(3) by auto
    then show ?thesis by blast
  next
    case False
    then have "x \<in> set obs" "x \<noteq> r" using that(2) by auto
    then have "x \<in> set (r # batch) \<or> ob_key q \<in> set blocked \<or> (\<exists>n. older (ob_key q) = Some n \<and> n < ob_seq q)"
      using b that unfolding batch_ok_def by (metis list.set_intros(2))
    then show ?thesis using \<open>x \<noteq> r\<close> h(2) by auto
  qed
  moreover have "set batch \<subseteq> set (row_put ob_id r1 obs)" using b nr unfolding s batch_ok_def by auto
  ultimately show ?thesis using b unfolding batch_ok_def s by auto
qed

lemma batch_first:
  assumes "batch_ok older blocked (r # batch) obs"
    "\<not> (ob_key r \<in> set blocked \<or> (case older (ob_key r) of None \<Rightarrow> ob_seq r | Some n \<Rightarrow> n) < ob_seq r)"
  shows "\<forall>r'\<in>set obs. ob_key r' = ob_key r \<and> ob_seq r' < ob_seq r \<longrightarrow> ob_processed_at r' \<noteq> None"
proof (intro ballI impI notI)
  fix r' assume r': "r' \<in> set obs" "ob_key r' = ob_key r \<and> ob_seq r' < ob_seq r" "ob_processed_at r' = None"
  have "r' \<in> set (r # batch) \<or> ob_key r \<in> set blocked \<or> (\<exists>n. older (ob_key r) = Some n \<and> n < ob_seq r)"
    using assms(1) r' unfolding batch_ok_def by (meson list.set_intros(1))
  moreover have "r' \<notin> set (r # batch)" using assms(1) r'(2) by (auto simp: batch_ok_def)
  ultimately show False using assms(2) by auto
qed

lemma store_ok_put:
  assumes ok: "rows_ok obs" "store_ok st obs" and r: "r \<in> set obs" "ob_processed_at r = None"
    and e: "ob_id r1 = ob_id r" "ob_seq r1 = ob_seq r" "row_key r1 = row_key r" "row_effect r1 = row_effect r"
    and frame: "\<And>k. Some k \<noteq> row_key r \<Longrightarrow> st1 k = st k"
    and landed: "\<And>k. ob_processed_at r1 \<noteq> None \<Longrightarrow> row_key r = Some k \<Longrightarrow> st1 k = row_effect r"
  shows "store_ok st1 (row_put ob_id r1 obs)"
  unfolding store_ok_def
proof (intro allI impI)
  fix k r0 assume st: "settled k (row_put ob_id r1 obs) r0"
  have d: "distinct (map ob_id obs)" "distinct (map ob_seq obs)" using ok(1) by (auto simp: rows_ok_def)
  have s: "set (row_put ob_id r1 obs) = insert r1 (set obs - {r})" by (rule row_put_set[OF d(1) r(1) e(1)])
  note st' = st[unfolded settled_def s]
  show "st1 k = row_effect r0"
  proof (cases "row_key r = Some k")
    case True
    then have l: "ob_processed_at r1 \<noteq> None" "ob_seq r \<le> ob_seq r0" using st' e by auto
    show ?thesis
    proof (cases "r0 = r1")
      case True then show ?thesis using landed[OF l(1) \<open>row_key r = Some k\<close>] e(4) by simp
    next
      case False
      then have r0: "r0 \<in> set obs" "r0 \<noteq> r" "row_key r0 = Some k" using st' by auto
      then have "ob_seq r \<noteq> ob_seq r0" using d(2) r(1) by (auto simp: distinct_map inj_on_def)
      then have "ob_seq r < ob_seq r0" using l(2) by simp
      moreover have "ob_key r = ob_key r0"
        using row_key_text[OF _ _ True r0(3)] ok(1) r(1) r0(1) unfolding rows_ok_def by blast
      moreover have "ob_processed_at r0 \<noteq> None" using st' r0 by blast
      ultimately have "ob_processed_at r \<noteq> None" using ok(1) r(1) r0(1) unfolding rows_ok_def by blast
      then show ?thesis using r(2) by simp
    qed
  next
    case False
    then have "settled k obs r0" using st' e unfolding settled_def by (metis Diff_iff insert_iff singletonD)
    then have "st k = row_effect r0" using ok(2) unfolding store_ok_def by blast
    then show ?thesis using frame False by simp
  qed
qed

context tuple_writer
begin

lemma apply_rows_inv:
  assumes "rows_ok obs" "store_ok (stored s) obs" "batch_ok older blocked batch obs"
    "apply_rows wr dl older stamp blocked batch obs s = (Some (run, obs'), s')"
  shows "rows_ok obs' \<and> store_ok (stored s') obs'"
  using assms
proof (induction batch arbitrary: blocked obs s run)
  case (Cons r batch)
  note b = Cons.prems(3) and ok = Cons.prems(1,2)
  have r: "r \<in> set obs" "ob_processed_at r = None" using b by (auto simp: batch_ok_def)
  show ?case
  proof (cases "ob_key r \<in> set blocked \<or> (case older (ob_key r) of None \<Rightarrow> ob_seq r | Some n \<Rightarrow> n) < ob_seq r")
    case True
    then obtain run' where "apply_rows wr dl older stamp blocked batch obs s = (Some (run', obs'), s')"
      using Cons.prems(4) by auto
    then show ?thesis using Cons.IH[OF ok batch_ok_skip[OF b True]] by blast
  next
    case False
    note first = batch_first[OF b False]
    obtain res s1 where se: "send_row wr dl r s = (res, s1)" by fastforce
    show ?thesis
    proof (cases res)
      case None
      let ?obs = "row_put ob_id (landed_row stamp r) obs"
      have "stored s1 k = row_effect r" if "row_key r = Some k" for k
        using send_row_ok[OF se[unfolded None] that] .
      then have "store_ok (stored s1) ?obs"
        using store_ok_put[OF ok r, of "landed_row stamp r" "stored s1"] send_row_frame[OF se] by simp
      moreover have "rows_ok ?obs" using rows_ok_put[OF ok(1) r(1), of "landed_row stamp r"] first by simp
      moreover have "batch_ok older blocked batch ?obs" using batch_ok_put[OF b ok(1)] by simp
      moreover obtain run' where "apply_rows wr dl older stamp blocked batch ?obs s1 = (Some (run', obs'), s')"
        using Cons.prems(4) False se None by auto
      ultimately show ?thesis using Cons.IH by blast
    next
      case (Some err)
      then obtain r1 where r1: "back_off err stamp r = Some r1"
        using Cons.prems(4) False se by (auto split: option.splits)
      note f = back_off_fields[OF r1]
      let ?obs = "row_put ob_id r1 obs"
      have "store_ok (stored s1) ?obs"
        using store_ok_put[OF ok r f(1,2,4,5), of "stored s1"] send_row_frame[OF se] f(7) r(2) by simp
      moreover have "rows_ok ?obs" using rows_ok_put[OF ok(1) r(1) f(1,2,3,6)] f(7) r(2) by simp
      moreover have "batch_ok older (ob_key r # blocked) batch ?obs"
        using batch_ok_put[OF b ok(1) f(1,2,3), of "ob_key r # blocked"] by auto
      moreover obtain run' where
        "apply_rows wr dl older stamp (ob_key r # blocked) batch ?obs s1 = (Some (run', obs'), s')"
        using Cons.prems(4) False se Some r1 by auto
      ultimately show ?thesis using Cons.IH by blast
    qed
  qed
qed simp

end

section \<open>The queue as a state machine\<close>

lemma due_props:
  assumes "rows_ok obs"
  shows "sorted_wrt (\<lambda>a b. ob_seq a < ob_seq b) (due_rows ids limit stamp locked obs)"
    "r \<in> set (due_rows ids limit stamp locked obs) \<Longrightarrow> r \<in> set obs \<and> ob_processed_at r = None
       \<and> ob_next_attempt r \<le> stamp \<and> ob_id r \<notin> set locked"
proof -
  let ?p = "\<lambda>r. ob_processed_at r = None \<and> ob_next_attempt r \<le> stamp
          \<and> (case ids of None \<Rightarrow> True | Some is \<Rightarrow> ob_id r \<in> set is)"
  let ?xs = "filter (\<lambda>r. ob_id r \<notin> set locked) (sort_key ob_seq (filter ?p obs))"
  have "distinct (map ob_seq (sort_key ob_seq (filter ?p obs)))"
    unfolding distinct_map_sort_key using assms by (auto simp: rows_ok_def distinct_map_filter)
  then have d: "distinct (map ob_seq ?xs)" by (rule distinct_map_filter)
  have "sorted (map ob_seq ?xs)" by (rule sorted_filter) simp
  then have "sorted_wrt (<) (map ob_seq ?xs)" using d by (simp add: strict_sorted_iff)
  then have "sorted_wrt (\<lambda>a b. ob_seq a < ob_seq b) ?xs" by (simp add: sorted_wrt_map)
  then show "sorted_wrt (\<lambda>a b. ob_seq a < ob_seq b) (due_rows ids limit stamp locked obs)"
    unfolding due_rows_def by (rule sorted_wrt_take)
  show "r \<in> set (due_rows ids limit stamp locked obs) \<Longrightarrow> r \<in> set obs \<and> ob_processed_at r = None
       \<and> ob_next_attempt r \<le> stamp \<and> ob_id r \<notin> set locked"
    unfolding due_rows_def by (auto dest!: in_set_takeD)
qed

lemma due_batch_ok:
  assumes ok: "rows_ok obs"
  shows "batch_ok (older_pending (due_rows ids limit stamp locked obs) obs) []
    (due_rows ids limit stamp locked obs) obs"
proof -
  let ?b = "due_rows ids limit stamp locked obs"
  note p = due_props(1)[OF ok, of ids limit stamp locked] due_props(2)[OF ok, of _ ids limit stamp locked]
  have "\<exists>n. older_pending ?b obs (ob_key r) = Some n \<and> n < ob_seq r"
    if r: "r \<in> set ?b" and x: "x \<in> set obs" "ob_key x = ob_key r" "ob_processed_at x = None"
      "ob_seq x < ob_seq r" "x \<notin> set ?b" for r x
  proof -
    let ?rs = "filter (\<lambda>q. ob_processed_at q = None \<and> ob_key q = ob_key r \<and> ob_id q \<notin> set (map ob_id ?b)) obs"
    have "ob_id x \<notin> set (map ob_id ?b)"
    proof
      assume "ob_id x \<in> set (map ob_id ?b)"
      then obtain y where "y \<in> set ?b" "ob_id y = ob_id x" by auto
      then have "y = x" using ok x(1) p(2)[of y] by (auto simp: rows_ok_def distinct_map inj_on_def)
      then show False using x(5) \<open>y \<in> set ?b\<close> by simp
    qed
    then have m: "x \<in> set ?rs" using x by simp
    then have "Min (set (map ob_seq ?rs)) \<le> ob_seq x" by (intro Min_le) auto
    then have l: "Min (set (map ob_seq ?rs)) < ob_seq r" using x(4) by linarith
    have "?rs \<noteq> []" using m by (metis empty_iff list.set(1))
    then have "older_pending ?b obs (ob_key r) = Some (Min (set (map ob_seq ?rs)))"
      using r unfolding older_pending_def by (cases ?rs) simp_all
    then show ?thesis using l by blast
  qed
  then show ?thesis using p unfolding batch_ok_def by (metis subsetI)
qed

definition effect_of_newest :: "('s \<Rightarrow> tuple_key \<Rightarrow> relation_tuple option) \<Rightarrow> outbox_row list \<Rightarrow> 's \<Rightarrow> bool" where
  "effect_of_newest stored obs s = (rows_ok obs \<and> store_ok (stored s) obs)"

context tuple_writer
begin

lemma apply_due_inv:
  assumes "effect_of_newest stored obs s"
    "apply_due wr dl ids limit stamp locked obs s = (Some (run, obs'), s')"
  shows "effect_of_newest stored obs' s'"
  using apply_rows_inv[OF _ _ due_batch_ok] assms unfolding effect_of_newest_def apply_due_def Let_def
  by blast

lemma apply_rows_frame:
  assumes "apply_rows wr dl older stamp blocked batch obs s = (res, s')"
    "\<forall>r\<in>set batch. row_key r \<noteq> Some k"
  shows "stored s' k = stored s k"
  using assms
proof (induction batch arbitrary: blocked obs s res)
  case (Cons r batch)
  have IH: "apply_rows wr dl older stamp bl batch ob q = (x, s') \<Longrightarrow> stored s' k = stored q k" for bl ob q x
    using Cons.IH Cons.prems(2) by simp
  obtain sres s1 where se: "send_row wr dl r s = (sres, s1)" by fastforce
  have f: "stored s1 k = stored s k" using send_row_frame[OF se, of k] Cons.prems(2) by fastforce
  have note_IH: "note_row g (apply_rows wr dl older stamp bl batch ob q) = (x, s') \<Longrightarrow> stored s' k = stored q k"
    for g bl ob q x
    using IH[of bl ob q] by (cases "apply_rows wr dl older stamp bl batch ob q") (auto simp: note_row_def)
  show ?case
  proof (cases sres)
    case None
    then show ?thesis using Cons.prems(1) se f note_IH by (auto split: if_splits)
  next
    case (Some err)
    then show ?thesis using Cons.prems(1) se f note_IH
      by (auto split: if_splits option.splits)
  qed
qed simp

text \<open>A batch that an exception ends changes no row, and the store only where rows are pending.\<close>

lemma apply_due_aborted:
  assumes "effect_of_newest stored obs s" "apply_due wr dl ids limit stamp locked obs s = (None, s')"
  shows "effect_of_newest stored obs s'"
proof -
  have "stored s' k = row_effect r" if st: "settled k obs r" for k r
  proof -
    have "row_key q \<noteq> Some k" if "q \<in> set (due_rows ids limit stamp locked obs)" for q
      using due_props(2)[of obs q ids limit stamp locked] assms(1) st that
      unfolding effect_of_newest_def settled_def by blast
    then have "stored s' k = stored s k"
      using apply_rows_frame assms(2) unfolding apply_due_def Let_def by blast
    then show ?thesis using assms(1) st unfolding effect_of_newest_def store_ok_def by simp
  qed
  then show ?thesis using assms(1) unfolding effect_of_newest_def store_ok_def by blast
qed

end

lemma next_seq_greater: "r \<in> set obs \<Longrightarrow> ob_seq r < next_seq obs"
proof -
  assume r: "r \<in> set obs"
  then have "ob_seq r \<le> Max (set (map ob_seq obs))" by (intro Max_ge) auto
  moreover have "obs \<noteq> []" using r by auto
  ultimately show ?thesis by (cases obs) (auto simp: next_seq_def)
qed

lemma queue_row_ok: "normal_tuple (to_tuple op) \<Longrightarrow> row_ok (queue_row rid op table src now seq)"
  by (simp add: row_ok_def queue_row_def decode_encode)

lemma queue_row_fields [simp]:
  "ob_id (queue_row rid op table src now seq) = rid" "ob_seq (queue_row rid op table src now seq) = seq"
  "ob_processed_at (queue_row rid op table src now seq) = None"
  "ob_source_table (queue_row rid op table src now seq) = table"
  "ob_source_id (queue_row rid op table src now seq) = src"
  by (simp_all add: queue_row_def)

lemma enqueue_inv:
  assumes "effect_of_newest stored obs s" "distinct (map fst ops)"
    "\<forall>x\<in>set ops. fst x \<notin> ob_id ` set obs \<and> normal_tuple (to_tuple (snd x))"
  shows "effect_of_newest stored (enqueue_ops ops table src now obs) s"
  using assms
proof (induction ops arbitrary: obs)
  case (Cons x ops)
  obtain rid op where x: "x = (rid, op)" by fastforce
  let ?q = "queue_row rid op table src now (next_seq obs)"
  have s: "settled k obs r" if "settled k (obs @ [?q]) r" for k r
    using that by (auto simp: settled_def)
  have "rows_ok (obs @ [?q])"
    using Cons.prems(1,3) queue_row_ok[of op rid table src now "next_seq obs"] next_seq_greater[of _ obs]
    by (fastforce simp: effect_of_newest_def rows_ok_def x)
  moreover have "store_ok (stored s) (obs @ [?q])"
    using Cons.prems(1) s unfolding effect_of_newest_def store_ok_def by blast
  ultimately have "effect_of_newest stored (obs @ [?q]) s" by (simp add: effect_of_newest_def)
  moreover have "\<forall>y\<in>set ops. fst y \<notin> ob_id ` set (obs @ [?q]) \<and> normal_tuple (to_tuple (snd y))"
    using Cons.prems(2,3) by (force simp: x)
  ultimately show ?case using Cons.IH Cons.prems(2) by (simp add: x)
qed simp

text \<open>Everything that happens to the queue and the store: writers enqueue, drains run and may be cut short.\<close>

inductive queue_step ::
    "'s writer \<Rightarrow> 's writer \<Rightarrow> outbox_row list \<times> 's \<Rightarrow> outbox_row list \<times> 's \<Rightarrow> bool" for wr dl where
  step_enqueue: "distinct (map fst ops)
     \<Longrightarrow> \<forall>x\<in>set ops. fst x \<notin> ob_id ` set obs \<and> normal_tuple (to_tuple (snd x))
     \<Longrightarrow> queue_step wr dl (obs, s) (enqueue_ops ops table src now obs, s)"
| step_drain: "apply_due wr dl ids limit stamp locked obs s = (Some (run, obs'), s')
     \<Longrightarrow> queue_step wr dl (obs, s) (obs', s')"
| step_aborted: "apply_due wr dl ids limit stamp locked obs s = (None, s')
     \<Longrightarrow> queue_step wr dl (obs, s) (obs, s')"

context tuple_writer
begin

lemma queue_step_inv:
  "queue_step wr dl a b \<Longrightarrow> effect_of_newest stored (fst a) (snd a) \<Longrightarrow> effect_of_newest stored (fst b) (snd b)"
proof (induction rule: queue_step.induct)
  case (step_enqueue ops obs s table src now)
  then show ?case using enqueue_inv by simp
next
  case (step_drain ids limit stamp locked obs s run obs' s')
  then show ?case using apply_due_inv by simp
next
  case (step_aborted ids limit stamp locked obs s s')
  then show ?case using apply_due_aborted by simp
qed

end

sublocale tuple_writer \<subseteq> queue: invariant_system "queue_step wr dl"
  "\<lambda>(obs, s). effect_of_newest stored obs s"
  by unfold_locales (use queue_step_inv in auto)

context tuple_writer
begin

lemma queue_reachable:
  "(queue_step wr dl)\<^sup>*\<^sup>* ([], s0) (obs, s) \<Longrightarrow> effect_of_newest stored obs s"
  using queue.reach_inv[of "([], s0)" "(obs, s)"]
  by (simp add: effect_of_newest_def rows_ok_def store_ok_def settled_def)

end

text \<open>
  C6: changes of one tuple key reach the store in the order they were queued, through retries,
  concurrent batches, partial batches and drains cut short by an exception: once every row of a
  key has been applied, the store holds for that key what its newest row asked for.
\<close>
theorem drained_key_holds_newest_row:
  assumes "tuple_writer wr dl stored" "(queue_step wr dl)\<^sup>*\<^sup>* ([], s0) (obs, s)"
    "r \<in> set obs" "row_key r = Some k"
    "\<forall>r'\<in>set obs. row_key r' = Some k \<longrightarrow> ob_processed_at r' \<noteq> None \<and> ob_seq r' \<le> ob_seq r"
  shows "stored s k = row_effect r"
proof -
  have "effect_of_newest stored obs s" by (rule tuple_writer.queue_reachable[OF assms(1,2)])
  moreover have "settled k obs r" using assms(3-5) by (auto simp: settled_def)
  ultimately show ?thesis unfolding effect_of_newest_def store_ok_def by blast
qed

definition demo_write :: "string \<Rightarrow> tuple_op" where
  "demo_write rel = \<lparr>to_kind = OpWrite, to_tuple = plain_tuple ''user:ann'' rel ''tool:x'', to_replace = False\<rparr>"

definition demo_delete :: "string \<Rightarrow> tuple_op" where
  "demo_delete rel = \<lparr>to_kind = OpDelete, to_tuple = plain_tuple ''user:ann'' rel ''tool:x'', to_replace = False\<rparr>"

definition empty_store :: fake_store where
  "empty_store = \<lparr>fs_tuples = [], fs_fail_calls = 0, fs_failing = [], fs_calls = []\<rparr>"

definition demo_queue :: "outbox_row list" where
  "demo_queue = enqueue_ops [(''1'', demo_write ''viewer''), (''2'', demo_delete ''viewer''),
     (''3'', demo_write ''editor'')] ''resource_grants'' ''g'' 0 []"

definition demo_drained :: "fake_store apply_result" where
  "demo_drained = apply_due fake_write fake_delete None 100 1 [] demo_queue empty_store"

definition landed_queue :: "outbox_row list" where
  "landed_queue = map (landed_row 1) demo_queue"

lemma demo_drained_queue: "map_option snd (fst demo_drained) = Some landed_queue"
  by code_simp

lemma demo_queue_run:
  "(queue_step fake_write fake_delete)\<^sup>*\<^sup>* ([], empty_store) (landed_queue, snd demo_drained)"
proof -
  have "queue_step fake_write fake_delete ([], empty_store) (demo_queue, empty_store)"
    unfolding demo_queue_def
    by (rule step_enqueue) (simp_all add: demo_write_def demo_delete_def)
  moreover obtain run where "fst demo_drained = Some (run, landed_queue)"
    using demo_drained_queue by auto
  then have "apply_due fake_write fake_delete None 100 1 [] demo_queue empty_store
      = (Some (run, landed_queue), snd demo_drained)"
    unfolding demo_drained_def[symmetric] by (metis prod.collapse)
  then have "queue_step fake_write fake_delete (demo_queue, empty_store) (landed_queue, snd demo_drained)"
    by (rule step_drain)
  ultimately show ?thesis by (meson converse_rtranclp_into_rtranclp r_into_rtranclp)
qed

lemma drained_key_holds_newest_row_witness:
  "fake_stored (snd demo_drained) (''user:ann'', ''editor'', ''tool:x'')
     = Some (plain_tuple ''user:ann'' ''editor'' ''tool:x'')
   \<and> fake_stored (snd demo_drained) (''user:ann'', ''viewer'', ''tool:x'') = None"
proof
  let ?e = "landed_queue ! 2" and ?v = "landed_queue ! 1"
  have e: "?e \<in> set landed_queue" "row_key ?e = Some (''user:ann'', ''editor'', ''tool:x'')"
    "row_effect ?e = Some (plain_tuple ''user:ann'' ''editor'' ''tool:x'')"
    "\<forall>r'\<in>set landed_queue. row_key r' = Some (''user:ann'', ''editor'', ''tool:x'')
       \<longrightarrow> ob_processed_at r' \<noteq> None \<and> ob_seq r' \<le> ob_seq ?e"
    by code_simp+
  have v: "?v \<in> set landed_queue" "row_key ?v = Some (''user:ann'', ''viewer'', ''tool:x'')"
    "row_effect ?v = None"
    "\<forall>r'\<in>set landed_queue. row_key r' = Some (''user:ann'', ''viewer'', ''tool:x'')
       \<longrightarrow> ob_processed_at r' \<noteq> None \<and> ob_seq r' \<le> ob_seq ?v"
    by code_simp+
  note t = drained_key_holds_newest_row[OF fake.tuple_writer_axioms demo_queue_run]
  show "fake_stored (snd demo_drained) (''user:ann'', ''editor'', ''tool:x'')
     = Some (plain_tuple ''user:ann'' ''editor'' ''tool:x'')" using t[OF e(1,2,4)] e(3) by simp
  show "fake_stored (snd demo_drained) (''user:ann'', ''viewer'', ''tool:x'') = None"
    using t[OF v(1,2,4)] v(3) by simp
qed

section \<open>A working store drains, a failing row is retried\<close>

text \<open>A store whose calls succeed.\<close>

definition never_fails :: "'s writer \<Rightarrow> bool" where
  "never_fails f = (\<forall>t s. fst (f [t] s) = None)"

lemma send_row_works:
  assumes "never_fails wr" "never_fails dl" "row_ok r"
  shows "fst (send_row wr dl r s) = None"
proof -
  obtain op where op: "decode_op (ob_op r) (ob_tuple r) = Inr op"
    using assms(3) by (auto simp: row_ok_def split: sum.splits)
  have "fst (send_op wr dl op s) = None" for s
    using assms(1,2) unfolding never_fails_def send_op_def
    by (auto split: prod.splits option.splits) (metis fst_conv option.distinct(1))+
  then show ?thesis by (simp add: send_row_def op)
qed

lemma apply_rows_drains:
  assumes "never_fails wr" "never_fails dl" "distinct (map ob_id obs)" "\<forall>r\<in>set obs. row_ok r"
    "set batch = {r \<in> set obs. ob_processed_at r = None}" "distinct batch"
    "\<forall>r\<in>set batch. older (ob_key r) = None"
  shows "\<exists>run obs' s'. apply_rows wr dl older stamp [] batch obs s = (Some (run, obs'), s')
    \<and> (\<forall>r\<in>set obs'. ob_processed_at r \<noteq> None) \<and> run_processed run = map ob_id batch"
  using assms
proof (induction batch arbitrary: obs s)
  case Nil
  then have "\<forall>r\<in>set obs. ob_processed_at r \<noteq> None" by auto
  then show ?case by (simp add: empty_run_def)
next
  case (Cons r batch)
  have r: "r \<in> set obs" "ob_processed_at r = None" using Cons.prems(5) by auto
  then obtain s1 where se: "send_row wr dl r s = (None, s1)"
    using send_row_works[OF Cons.prems(1,2)] Cons.prems(4) by (metis prod.collapse)
  let ?obs = "row_put ob_id (landed_row stamp r) obs"
  have st: "set ?obs = insert (landed_row stamp r) (set obs - {r})"
    by (rule row_put_set[OF Cons.prems(3) r(1)]) simp
  have "\<exists>run obs' s'. apply_rows wr dl older stamp [] batch ?obs s1 = (Some (run, obs'), s')
    \<and> (\<forall>r\<in>set obs'. ob_processed_at r \<noteq> None) \<and> run_processed run = map ob_id batch"
  proof (rule Cons.IH[OF Cons.prems(1,2)])
    show "distinct (map ob_id ?obs)" using Cons.prems(3) by simp
    show "\<forall>r\<in>set ?obs. row_ok r" using Cons.prems(4) r(1) unfolding st by auto
    show "set batch = {r \<in> set ?obs. ob_processed_at r = None}"
      using Cons.prems(5,6) unfolding st by auto
  qed (use Cons.prems(6,7) in auto)
  then show ?case using se Cons.prems(7) by auto
qed

text \<open>
  C37: when the store works, one batch that takes every pending row applies all of them: nothing is
  deferred or left behind, whatever the order and number of changes per key.
\<close>
theorem working_store_drains:
  assumes "never_fails wr" "never_fails dl" "rows_ok obs" "length obs \<le> limit"
    "\<forall>r\<in>set obs. ob_processed_at r = None \<longrightarrow> ob_next_attempt r \<le> stamp"
  shows "\<exists>run obs' s'. apply_due wr dl None limit stamp [] obs s = (Some (run, obs'), s')
    \<and> (\<forall>r\<in>set obs'. ob_processed_at r \<noteq> None)
    \<and> run_processed run = map ob_id (due_rows None limit stamp [] obs)"
proof -
  let ?b = "due_rows None limit stamp [] obs"
  have "length (filter (\<lambda>r. ob_processed_at r = None \<and> ob_next_attempt r \<le> stamp) obs) \<le> limit"
    using assms(4) by (meson length_filter_le le_trans)
  then have b: "?b = sort_key ob_seq (filter (\<lambda>r. ob_processed_at r = None \<and> ob_next_attempt r \<le> stamp) obs)"
    by (simp add: due_rows_def)
  then have sb: "set ?b = {r \<in> set obs. ob_processed_at r = None}" using assms(5) by auto
  have "distinct (map ob_seq ?b)"
    unfolding b distinct_map_sort_key using assms(3) by (auto simp: rows_ok_def distinct_map_filter)
  then have d: "distinct ?b" by (simp add: distinct_map)
  have "older_pending ?b obs (ob_key r) = None" if r: "r \<in> set ?b" for r
  proof -
    have "filter (\<lambda>q. ob_processed_at q = None \<and> ob_key q = ob_key r \<and> ob_id q \<notin> set (map ob_id ?b)) obs = []"
      using sb by (auto simp: filter_empty_conv)
    then show ?thesis by (simp add: older_pending_def)
  qed
  then show ?thesis
    using apply_rows_drains[OF assms(1,2) _ _ sb d, of "older_pending ?b obs" stamp s] assms(3)
    unfolding apply_due_def Let_def rows_ok_def by blast
qed

lemma seconds_power: "timedelta_seconds (2 ^ n) = Some d \<Longrightarrow> d = seconds (2 ^ n) \<and> seconds 1 \<le> d"
  by (auto simp: timedelta_seconds_def split: if_splits)

lemma timedelta_power: "timedelta_seconds (2 ^ n) = None \<longleftrightarrow> 47 \<le> n"
proof
  assume n: "47 \<le> n"
  then have "(2 :: int) ^ 47 div 86400 \<le> 2 ^ n div 86400"
    by (intro zdiv_mono1 power_increasing) auto
  then show "timedelta_seconds (2 ^ n) = None" by (simp add: timedelta_seconds_def)
next
  assume t: "timedelta_seconds (2 ^ n) = None"
  show "47 \<le> n"
  proof (rule ccontr)
    assume "\<not> 47 \<le> n"
    then have "(2 :: int) ^ n div 86400 \<le> 2 ^ 46 div 86400"
      by (intro zdiv_mono1 power_increasing) auto
    then show False using t by (simp add: timedelta_seconds_def split: if_splits)
  qed
qed

text \<open>
  A failed call delays its row by at least a second and at most five minutes, counts the
  attempt, keeps the row queued and records at most 500 characters of the error; from the 47th
  failure on the exponential delay cannot be formed and the call raises instead.
\<close>
theorem retry_within_five_minutes:
  "(back_off err stamp r = None \<longleftrightarrow> 46 \<le> ob_attempts r)
   \<and> (\<forall>r1. back_off err stamp r = Some r1 \<longrightarrow>
        stamp + seconds 1 \<le> ob_next_attempt r1 \<and> ob_next_attempt r1 \<le> stamp + seconds 300
        \<and> ob_attempts r1 = Suc (ob_attempts r) \<and> ob_processed_at r1 = ob_processed_at r
        \<and> (\<exists>e. ob_error r1 = Some e \<and> length e \<le> 500))"
proof -
  have "back_off err stamp r = None \<longleftrightarrow> 46 \<le> ob_attempts r"
    using timedelta_power[of "Suc (ob_attempts r)"] by (simp add: back_off_def Let_def)
  moreover have "stamp + seconds 1 \<le> ob_next_attempt r1 \<and> ob_next_attempt r1 \<le> stamp + seconds 300
        \<and> (\<exists>e. ob_error r1 = Some e \<and> length e \<le> 500)" if r1: "back_off err stamp r = Some r1" for r1
  proof -
    obtain d where "timedelta_seconds (2 ^ Suc (ob_attempts r)) = Some d"
      "r1 = r\<lparr>ob_attempts := Suc (ob_attempts r), ob_next_attempt := stamp + min d max_backoff,
         ob_error := Some (take error_width err)\<rparr>"
      using r1 by (auto simp: back_off_def Let_def)
    moreover have "seconds 1 \<le> d" using seconds_power[OF calculation(1)] by blast
    ultimately show ?thesis by (simp add: max_backoff_def error_width_def)
  qed
  ultimately show ?thesis using back_off_fields(7,10)[of err stamp r] by auto
qed


definition stuck_row :: outbox_row where
  "stuck_row = (queue_row ''1'' (demo_write ''viewer'') ''resource_grants'' ''g'' 0 1)\<lparr>ob_attempts := 46\<rparr>"

definition stuck_queue :: "outbox_row list" where
  "stuck_queue = stuck_row # [queue_row ''2''
     \<lparr>to_kind = OpDelete, to_tuple = plain_tuple ''user:bob'' ''viewer'' ''tool:y'', to_replace = False\<rparr>
     ''resource_grants'' ''h'' 0 2]"

definition refusing_store :: fake_store where
  "refusing_store = empty_store\<lparr>fs_failing := [''tool:x'']\<rparr>"


lemma retry_within_five_minutes_witness:
  "\<exists>r1. back_off ''AuthzUnavailable'' 7 (stuck_row\<lparr>ob_attempts := 45\<rparr>) = Some r1
     \<and> ob_next_attempt r1 \<le> 7 + seconds 300"
  using retry_within_five_minutes[of "''AuthzUnavailable''" 7 "stuck_row\<lparr>ob_attempts := 45\<rparr>"]
  by (cases "back_off ''AuthzUnavailable'' 7 (stuck_row\<lparr>ob_attempts := 45\<rparr>)") auto

definition plain_store :: "relation_tuple list \<Rightarrow> nat \<Rightarrow> string option \<times> nat" where
  "plain_store ts n = (None, n + length ts)"

lemma working_store_drains_witness:
  "\<exists>run obs' s'. apply_due plain_store plain_store None 100 1 [] demo_queue 0 = (Some (run, obs'), s')
    \<and> filter (\<lambda>r. ob_processed_at r = None) obs' = []"
proof -
  have w: "never_fails plain_store" by (simp add: never_fails_def plain_store_def)
  have "rows_ok demo_queue" "length demo_queue \<le> 100"
    "\<forall>r\<in>set demo_queue. ob_processed_at r = None \<longrightarrow> ob_next_attempt r \<le> 1"
    by code_simp+
  from working_store_drains[OF w w this, of 0] show ?thesis by (auto simp: filter_empty_conv)
qed

end
