(* ===== verification/GrantCompletion.thy ===== *)
theory GrantCompletion
  imports TupleOutbox
begin

text \<open>
  Closing revocations once their queued deletes landed (\<open>authz/grant_completion\<close>) and the
  whole drain of the tuple queue (\<open>process_outbox\<close>).

  The main theorem is about every way the tables move (drains, closed grants, recorded markers,
  queued repairs): while a grant is being revoked a pending marker of its own covers it. With the overlay this is the promise of the
  revocation protocol: access is refused from the moment a revocation commits until the tuple
  store has applied it.
\<close>

section \<open>Completion\<close>

definition grants_table :: string where "grants_table = ''resource_grants''"
definition markers_table :: string where "markers_table = ''authz_revocations''"

definition marker_refs :: "resource_grant \<Rightarrow> rule_error + (string \<times> string)" where
  "marker_refs g =
     (case principal_ref (rg_ptype g) (rg_pid g) (rg_relation g) of
        Inl e \<Rightarrow> Inl e | Inr subject \<Rightarrow> Inr (subject, ref (rg_rtype g) (rg_rid g)))"

lemma marker_refs_update [simp]:
  "marker_refs (g\<lparr>rg_state := x\<rparr>) = marker_refs g"
  "marker_refs (g\<lparr>rg_revoked_at := y\<rparr>) = marker_refs g"
  "marker_refs (g\<lparr>rg_revoked_by := z\<rparr>) = marker_refs g"
  by (simp_all add: marker_refs_def split: sum.split)

definition pending_sources :: "string \<Rightarrow> outbox_row list \<Rightarrow> uuid list" where
  "pending_sources table obs =
     map ob_source_id (filter (\<lambda>r. ob_source_table r = table \<and> ob_processed_at r = None) obs)"

definition landed :: "string \<Rightarrow> uuid list \<Rightarrow> authz_db \<Rightarrow> uuid list" where
  "landed table ids db =
     sort (remdups (filter (\<lambda>i. i \<notin> set (pending_sources table (z_outbox db))) ids))"

definition still_revoking :: "resource_grant \<Rightarrow> authz_db \<Rightarrow> bool" where
  "still_revoking g db =
     (\<exists>x\<in>set (z_grants db). rg_org x = rg_org g \<and> rg_rtype x = rg_rtype g \<and> rg_rid x = rg_rid g
        \<and> rg_ptype x = rg_ptype g \<and> rg_pid x = rg_pid g \<and> rg_state x = ''revoking'')"

definition finalize_pair :: "micros \<Rightarrow> resource_grant \<Rightarrow> authz_db \<Rightarrow> rule_error + authz_db" where
  "finalize_pair now g db =
     (if still_revoking g db then Inr db
      else case marker_refs g of
             Inl e \<Rightarrow> Inl e
           | Inr (subject, ob) \<Rightarrow>
               Inr (snd (finalize_revocations (map rv_id (filter (\<lambda>m. rv_org m = rg_org g
                   \<and> rv_scope m = ''grant'' \<and> rv_subject m = subject \<and> rv_object m = ob
                   \<and> rv_finalized_at m = None
                   \<and> rv_id m \<notin> set (pending_sources markers_table (z_outbox db))) (z_markers db))) now db)))"

fun finalize_pairs :: "micros \<Rightarrow> resource_grant list \<Rightarrow> authz_db \<Rightarrow> rule_error + authz_db" where
  "finalize_pairs now [] db = Inr db"
| "finalize_pairs now (g # gs) db =
     (case finalize_pair now g db of Inl e \<Rightarrow> Inl e | Inr db1 \<Rightarrow> finalize_pairs now gs db1)"

definition close_grants :: "micros \<Rightarrow> uuid list \<Rightarrow> authz_db \<Rightarrow> authz_db" where
  "close_grants now ids db =
     db\<lparr>z_grants := map (\<lambda>g. if rg_id g \<in> set ids \<and> rg_state g = ''revoking''
        then g\<lparr>rg_state := ''revoked'', rg_revoked_at := Some now\<rparr> else g) (z_grants db)\<rparr>"

definition complete_revocations ::
    "micros \<Rightarrow> uuid list \<Rightarrow> authz_db \<Rightarrow> rule_error + (uuid list \<times> authz_db)" where
  "complete_revocations now ids db =
     (if ids = [] then Inr ([], db)
      else
        let done_ids = landed grants_table ids db;
            finished = sort_key rg_id (filter (\<lambda>g. rg_id g \<in> set done_ids \<and> rg_state g = ''revoking'')
                         (z_grants db))
        in case finalize_pairs now finished (close_grants now done_ids db) of
             Inl e \<Rightarrow> Inl e
           | Inr db1 \<Rightarrow> Inr (map rg_id finished, db1))"

definition complete_sources ::
    "micros \<Rightarrow> (string \<times> uuid) list \<Rightarrow> authz_db \<Rightarrow> rule_error + authz_db" where
  "complete_sources now sources db =
     (case complete_revocations now (map snd (filter (\<lambda>(t, _). t = grants_table) sources)) db of
        Inl e \<Rightarrow> Inl e
      | Inr (_, db1) \<Rightarrow>
          let markers = map snd (filter (\<lambda>(t, _). t = markers_table) sources)
          in if markers = [] then Inr db1
             else Inr (snd (finalize_revocations (landed markers_table markers db1) now db1)))"

text \<open>
  One drain. \<open>None\<close>: an exception left the batch and nothing was committed; a failing completion
  only loses its own savepoint.
\<close>

definition process_outbox ::
    "'s writer \<Rightarrow> 's writer \<Rightarrow> uuid list option \<Rightarrow> nat \<Rightarrow> micros \<Rightarrow> uuid list
      \<Rightarrow> authz_db \<Rightarrow> 's \<Rightarrow> outbox_run option \<times> authz_db \<times> 's" where
  "process_outbox wr dl ids limit stamp locked db s =
     (let batch = due_rows ids limit stamp locked (z_outbox db)
      in if batch = [] then (Some empty_run, db, s)
         else case apply_rows wr dl (older_pending batch (z_outbox db)) stamp [] batch (z_outbox db) s of
                (None, s1) \<Rightarrow> (None, db, s1)
              | (Some (run, obs), s1) \<Rightarrow>
                  let db1 = db\<lparr>z_outbox := obs\<rparr>;
                      sources = remdups (map (\<lambda>r. (ob_source_table r, ob_source_id r))
                        (filter (\<lambda>r. ob_id r \<in> set (run_processed run)) batch))
                  in (Some run,
                      commit_session (case complete_sources stamp sources db1 of Inl _ \<Rightarrow> db1 | Inr db2 \<Rightarrow> db2),
                      s1))"

text \<open>Right after a commit; an exception or nothing to do gives the empty run.\<close>

definition apply_now ::
    "'s writer \<Rightarrow> 's writer \<Rightarrow> uuid list \<Rightarrow> micros \<Rightarrow> uuid list \<Rightarrow> authz_db \<Rightarrow> 's
      \<Rightarrow> outbox_run \<times> authz_db \<times> 's" where
  "apply_now wr dl ids stamp locked db s =
     (if ids = [] then (empty_run, db, s)
      else case process_outbox wr dl (Some ids) (length ids) stamp locked db s of
             (None, db1, s1) \<Rightarrow> (empty_run, db1, s1)
           | (Some run, db1, s1) \<Rightarrow> (run, db1, s1))"

section \<open>Well-formed tables\<close>

text \<open>
  The columns a grant's marker is computed from: a principal kind of the CHECK constraint, a
  resource type of the model, and an identifier that is the text of a UUID.
\<close>

definition grant_ok :: "resource_grant \<Rightarrow> bool" where
  "grant_ok g = (rg_ptype g \<in> set [''user'', ''group'', ''organization'', ''agent'']
     \<and> rg_rtype g \<in> set resource_types \<and> CHR ''#'' \<notin> set (rg_pid g))"

definition covers :: "outbox_row list \<Rightarrow> revocation \<Rightarrow> resource_grant \<Rightarrow> bool" where
  "covers obs m g = (rv_finalized_at m = None \<and> rv_org m = rg_org g
     \<and> rv_scope m = ''grant'' \<and> marker_refs g = Inr (rv_subject m, rv_object m)
     \<and> (\<forall>r\<in>set obs. \<not> (ob_source_table r = markers_table \<and> ob_source_id r = rv_id m)))"

definition covered :: "authz_db \<Rightarrow> resource_grant \<Rightarrow> bool" where
  "covered db g = (\<exists>m\<in>set (z_markers db). covers (z_outbox db) m g)"

definition authz_ok :: "authz_db \<Rightarrow> bool" where
  "authz_ok db = ((\<forall>g\<in>set (z_grants db). grant_ok g)
     \<and> distinct (map rg_id (z_grants db)) \<and> distinct (map rv_id (z_markers db))
     \<and> distinct (map ob_id (z_outbox db))
     \<and> (\<forall>g\<in>set (z_grants db). rg_state g = ''revoking'' \<longrightarrow> covered db g))"

lemma resource_type_no_colon: "k \<in> set resource_types \<Longrightarrow> CHR '':'' \<notin> set k"
proof -
  have "list_all (\<lambda>k. CHR '':'' \<notin> set k) resource_types" by (simp add: resource_types_def)
  then show "k \<in> set resource_types \<Longrightarrow> CHR '':'' \<notin> set k" by (auto simp: list_all_iff)
qed

lemma ref_eq_split:
  assumes "CHR '':'' \<notin> set k" "CHR '':'' \<notin> set k'" "ref k x = ref k' x'"
  shows "k = k' \<and> x = x'"
  using assms before_char_append[of "CHR '':''" k x] before_char_append[of "CHR '':''" k' x']
  by (simp add: ref_def)

lemma principal_ref_hash:
  assumes "principal_ref pt pid rel = Inr v" "CHR ''#'' \<notin> set pid"
  shows "before_char (CHR ''#'') v = ref pt pid"
proof -
  have "CHR ''#'' \<notin> set (ref ''user'' pid)" "CHR ''#'' \<notin> set (ref ''agent'' pid)"
    "CHR ''#'' \<notin> set (ref ''group'' pid)" "CHR ''#'' \<notin> set (ref ''organization'' pid)"
    using assms(2) by (auto simp: ref_def)
  with assms(1) show ?thesis by (cases rule: principal_ref_cases) simp_all
qed

text \<open>A marker names exactly one principal and one resource.\<close>

lemma marker_refs_inj:
  assumes "grant_ok g" "grant_ok h" "marker_refs g = Inr v" "marker_refs h = Inr v"
  shows "rg_rtype g = rg_rtype h \<and> rg_rid g = rg_rid h \<and> rg_ptype g = rg_ptype h \<and> rg_pid g = rg_pid h"
proof -
  obtain s ob where v: "v = (s, ob)" by (cases v)
  have g: "principal_ref (rg_ptype g) (rg_pid g) (rg_relation g) = Inr s" "ob = ref (rg_rtype g) (rg_rid g)"
    and h: "principal_ref (rg_ptype h) (rg_pid h) (rg_relation h) = Inr s" "ob = ref (rg_rtype h) (rg_rid h)"
    using assms(3,4) v by (auto simp: marker_refs_def split: sum.splits)
  have "ref (rg_ptype g) (rg_pid g) = ref (rg_ptype h) (rg_pid h)"
    using principal_ref_hash[OF g(1)] principal_ref_hash[OF h(1)] assms(1,2) by (simp add: grant_ok_def)
  moreover have "CHR '':'' \<notin> set (rg_ptype x)" if "grant_ok x" for x
    using that by (auto simp: grant_ok_def)
  ultimately have "rg_ptype g = rg_ptype h \<and> rg_pid g = rg_pid h"
    using ref_eq_split assms(1,2) by blast
  moreover have "rg_rtype g = rg_rtype h \<and> rg_rid g = rg_rid h"
  proof (rule ref_eq_split)
    show "CHR '':'' \<notin> set (rg_rtype g)" "CHR '':'' \<notin> set (rg_rtype h)"
      using resource_type_no_colon assms(1,2) by (simp_all add: grant_ok_def)
    show "ref (rg_rtype g) (rg_rid g) = ref (rg_rtype h) (rg_rid h)" using g(2) h(2) by simp
  qed
  ultimately show ?thesis by simp
qed

section \<open>Drains keep the tables consistent\<close>

definition row_source :: "outbox_row \<Rightarrow> uuid \<times> string \<times> uuid" where
  "row_source r = (ob_id r, ob_source_table r, ob_source_id r)"

lemma row_source_eq: "row_source a = row_source b \<longleftrightarrow>
    ob_id a = ob_id b \<and> ob_source_table a = ob_source_table b \<and> ob_source_id a = ob_source_id b"
  by (simp add: row_source_def)

definition only_lands :: "outbox_row list \<Rightarrow> outbox_row list \<Rightarrow> bool" where
  "only_lands obs obs' = (map row_source obs' = map row_source obs
     \<and> (\<forall>r'\<in>set obs'. ob_processed_at r' = None \<longrightarrow>
          (\<exists>r\<in>set obs. row_source r = row_source r' \<and> ob_processed_at r = None)))"

lemma only_lands_put:
  assumes "distinct (map ob_id obs)" "r \<in> set obs" "row_source r1 = row_source r" "ob_processed_at r = None"
  shows "only_lands obs (row_put ob_id r1 obs)"
proof -
  have i: "ob_id r1 = ob_id r" using assms(3) by (simp add: row_source_eq)
  show ?thesis
    using row_put_map[OF assms(1,2) i, of row_source] row_put_set[OF assms(1,2) i] assms(2-4)
    unfolding only_lands_def by auto
qed

lemma only_lands_trans: "only_lands a b \<Longrightarrow> only_lands b c \<Longrightarrow> only_lands a c"
  unfolding only_lands_def by metis

lemma apply_rows_lands:
  assumes "distinct (map ob_id obs)" "set batch \<subseteq> set obs" "distinct (map ob_id batch)"
    "\<forall>r\<in>set batch. ob_processed_at r = None"
    "apply_rows wr dl older stamp blocked batch obs s = (Some (run, obs'), s')"
  shows "only_lands obs obs'"
  using assms
proof (induction batch arbitrary: blocked obs s run)
  case Nil then show ?case by (auto simp: only_lands_def)
next
  case (Cons r batch)
  have r: "r \<in> set obs" "ob_processed_at r = None" using Cons.prems by auto
  have step: "only_lands obs obs'"
    if r1: "row_source r1 = row_source r"
      and a: "apply_rows wr dl older stamp bl batch (row_put ob_id r1 obs) q = (Some (run', obs'), s')"
    for r1 bl q run'
  proof -
    let ?obs = "row_put ob_id r1 obs"
    have l: "only_lands obs ?obs" by (rule only_lands_put[OF Cons.prems(1) r(1) r1 r(2)])
    have "distinct (map ob_id ?obs)" using Cons.prems(1) by simp
    moreover have "set batch \<subseteq> set ?obs"
      using row_put_set[OF Cons.prems(1) r(1), of r1] r1 Cons.prems(2,3) by (auto simp: row_source_eq)
    ultimately have "only_lands ?obs obs'" using Cons.IH[OF _ _ _ _ a] Cons.prems(3,4) by simp
    then show ?thesis by (rule only_lands_trans[OF l])
  qed
  have skip: "only_lands obs obs'"
    if "apply_rows wr dl older stamp bl batch obs q = (Some (run', obs'), s')" for bl q run'
    using Cons.IH[OF Cons.prems(1) _ _ _ that] Cons.prems(2-4) by simp
  obtain res s1 where se: "send_row wr dl r s = (res, s1)" by fastforce
  show ?case
    using Cons.prems(5) se skip
    by (cases res)
      (auto split: if_splits option.splits intro: step[rotated] simp: back_off_fields row_source_eq)
qed

lemma lands_source_rows:
  assumes "only_lands obs obs'"
  shows "(\<exists>r\<in>set obs'. ob_source_table r = t \<and> ob_source_id r = i)
    \<longleftrightarrow> (\<exists>r\<in>set obs. ob_source_table r = t \<and> ob_source_id r = i)"
proof -
  have e: "row_source ` set obs' = row_source ` set obs"
    using assms unfolding only_lands_def by (metis list.set_map)
  have "(\<exists>r\<in>set os. ob_source_table r = t \<and> ob_source_id r = i)
    \<longleftrightarrow> (\<exists>x\<in>row_source ` set os. snd x = (t, i))" for os
    by (simp add: row_source_def)
  then show ?thesis using e by metis
qed

lemma only_lands_ids: "only_lands obs obs' \<Longrightarrow> map ob_id obs' = map ob_id obs"
proof -
  assume "only_lands obs obs'"
  then have "map fst (map row_source obs') = map fst (map row_source obs)" by (simp add: only_lands_def)
  then show ?thesis by (simp add: comp_def row_source_def)
qed

lemma finalize_fields [simp]:
  "z_grants (snd (finalize_revocations ids now db)) = z_grants db"
  "z_outbox (snd (finalize_revocations ids now db)) = z_outbox db"
  "map rv_id (z_markers (snd (finalize_revocations ids now db))) = map rv_id (z_markers db)"
  by (simp_all add: finalize_revocations_def Let_def finalize_marker_def)

lemma finalize_keeps_marker:
  "m \<in> set (z_markers db) \<Longrightarrow> rv_id m \<notin> set ids \<Longrightarrow> m \<in> set (z_markers (snd (finalize_revocations ids now db)))"
  by (force simp: finalize_revocations_def Let_def)

lemma finalize_authz_ok:
  assumes ok: "authz_ok db"
    and keep: "\<And>g. g \<in> set (z_grants db) \<Longrightarrow> rg_state g = ''revoking'' \<Longrightarrow>
       \<exists>m\<in>set (z_markers db). covers (z_outbox db) m g \<and> rv_id m \<notin> set ids"
  shows "authz_ok (snd (finalize_revocations ids now db))"
proof -
  have "covered (snd (finalize_revocations ids now db)) g"
    if g: "g \<in> set (z_grants db)" "rg_state g = ''revoking''" for g
    using keep[OF g] finalize_keeps_marker unfolding covered_def finalize_fields by blast
  then show ?thesis using ok unfolding authz_ok_def finalize_fields by blast
qed

lemma covering_marker:
  assumes "authz_ok db" "g \<in> set (z_grants db)" "rg_state g = ''revoking''"
  obtains m where "m \<in> set (z_markers db)" "covers (z_outbox db) m g"
  using assms unfolding authz_ok_def covered_def by blast

lemma finalize_pair_ok:
  assumes ok: "authz_ok db" and g: "grant_ok g" and f: "finalize_pair now g db = Inr db'"
  shows "authz_ok db'"
proof (cases "still_revoking g db")
  case True then show ?thesis using f ok by (simp add: finalize_pair_def)
next
  case False
  obtain su ob where refs: "marker_refs g = Inr (su, ob)"
    using f False by (auto simp: finalize_pair_def split: sum.splits)
  let ?ids = "map rv_id (filter (\<lambda>m. rv_org m = rg_org g
     \<and> rv_scope m = ''grant'' \<and> rv_subject m = su \<and> rv_object m = ob \<and> rv_finalized_at m = None
     \<and> rv_id m \<notin> set (pending_sources markers_table (z_outbox db))) (z_markers db))"
  have db': "db' = snd (finalize_revocations ?ids now db)"
    using f False refs by (simp add: finalize_pair_def)
  show ?thesis unfolding db'
  proof (rule finalize_authz_ok[OF ok])
    fix h assume h0: "h \<in> set (z_grants db)" "rg_state h = ''revoking''"
    obtain m where m: "m \<in> set (z_markers db)" "covers (z_outbox db) m h"
      using covering_marker[OF ok h0] by blast
    note h = h0 m(1) m(2)[unfolded covers_def]
    have "rv_id m \<notin> set ?ids"
    proof
      assume "rv_id m \<in> set ?ids"
      then obtain n where n: "n \<in> set (z_markers db)" "rv_id n = rv_id m" "rv_org n = rg_org g"
        "rv_subject n = su" "rv_object n = ob" by auto
      have "n = m" using ok n(1,2) h(3) by (auto simp: authz_ok_def distinct_map inj_on_def)
      then have "marker_refs h = marker_refs g" "rg_org h = rg_org g" using h n refs by auto
      moreover have "grant_ok h" using ok h(1) by (simp add: authz_ok_def)
      ultimately have "still_revoking g db"
        using marker_refs_inj[of h g "(su, ob)"] g refs h(1,2) unfolding still_revoking_def by metis
      then show False using False by simp
    qed
    then show "\<exists>m\<in>set (z_markers db). covers (z_outbox db) m h \<and> rv_id m \<notin> set ?ids"
      using m by blast
  qed
qed

lemma finalize_pair_grants: "finalize_pair now g db = Inr db' \<Longrightarrow> z_grants db' = z_grants db \<and> z_outbox db' = z_outbox db"
  by (auto simp: finalize_pair_def split: if_splits sum.splits)

lemma finalize_pairs_ok:
  "authz_ok db \<Longrightarrow> \<forall>g\<in>set gs. grant_ok g \<Longrightarrow> finalize_pairs now gs db = Inr db' \<Longrightarrow>
    authz_ok db' \<and> z_outbox db' = z_outbox db"
proof (induction gs arbitrary: db)
  case (Cons g gs)
  then show ?case
    using finalize_pair_ok[of db g now] finalize_pair_grants[of now g db] by (auto split: sum.splits)
qed simp

lemma close_grants_ok:
  assumes ok: "authz_ok db"
  shows "authz_ok (close_grants now ids db)"
proof -
  have f: "z_markers (close_grants now ids db) = z_markers db" "z_outbox (close_grants now ids db) = z_outbox db"
    "map rg_id (z_grants (close_grants now ids db)) = map rg_id (z_grants db)"
    by (simp_all add: close_grants_def)
  have c: "covered (close_grants now ids db) g = covered db g" for g
    unfolding covered_def f ..
  have cs: "covered db (g\<lparr>rg_state := x, rg_revoked_at := y\<rparr>) = covered db g" for g x y
    by (simp add: covered_def covers_def)
  have same: "grant_ok (g\<lparr>rg_state := x, rg_revoked_at := y\<rparr>) = grant_ok g" for g x y
    by (simp add: grant_ok_def)
  show ?thesis
    using ok unfolding authz_ok_def f c
    by (auto simp: close_grants_def same cs)
qed

lemma complete_revocations_ok:
  assumes ok: "authz_ok db" and c: "complete_revocations now ids db = Inr (out, db')"
  shows "authz_ok db' \<and> z_outbox db' = z_outbox db"
proof (cases "ids = []")
  case True then show ?thesis using c ok by (simp add: complete_revocations_def)
next
  case False
  let ?done = "landed grants_table ids db"
  let ?fin = "sort_key rg_id (filter (\<lambda>g. rg_id g \<in> set ?done \<and> rg_state g = ''revoking'') (z_grants db))"
  have f: "finalize_pairs now ?fin (close_grants now ?done db) = Inr db'"
    using c False by (auto simp: complete_revocations_def Let_def split: sum.splits)
  have "authz_ok (close_grants now ?done db)"
    by (rule close_grants_ok[OF ok])
  moreover have "\<forall>g\<in>set ?fin. grant_ok g" using ok by (auto simp: authz_ok_def)
  ultimately show ?thesis using finalize_pairs_ok[OF _ _ f] by (simp add: close_grants_def)
qed

lemma complete_sources_ok:
  assumes ok: "authz_ok db" and c: "complete_sources now sources db = Inr db'"
    and src: "\<forall>(t, i)\<in>set sources. \<exists>r\<in>set (z_outbox db). ob_source_table r = t \<and> ob_source_id r = i"
  shows "authz_ok db' \<and> z_outbox db' = z_outbox db"
proof -
  let ?markers = "map snd (filter (\<lambda>(t, _). t = markers_table) sources)"
  obtain out db1 where r: "complete_revocations now (map snd (filter (\<lambda>(t, _). t = grants_table) sources)) db = Inr (out, db1)"
    and d: "db' = (if ?markers = [] then db1
      else snd (finalize_revocations (landed markers_table ?markers db1) now db1))"
    using c by (auto simp: complete_sources_def Let_def split: sum.splits if_splits)
  note ok1 = complete_revocations_ok[OF ok r]
  have "authz_ok (snd (finalize_revocations (landed markers_table ?markers db1) now db1))"
  proof (rule finalize_authz_ok)
    show "authz_ok db1" using ok1 by simp
    fix g assume g: "g \<in> set (z_grants db1)" "rg_state g = ''revoking''"
    obtain m where m: "m \<in> set (z_markers db1)" "covers (z_outbox db1) m g"
      using covering_marker[OF _ g] ok1 by blast
    have "rv_id m \<notin> set (landed markers_table ?markers db1)"
    proof
      assume "rv_id m \<in> set (landed markers_table ?markers db1)"
      then have "(markers_table, rv_id m) \<in> set sources" by (auto simp: landed_def)
      then show False using src m(2) ok1 unfolding covers_def by fastforce
    qed
    then show "\<exists>m\<in>set (z_markers db1). covers (z_outbox db1) m g
        \<and> rv_id m \<notin> set (landed markers_table ?markers db1)" using m by blast
  qed
  then show ?thesis using ok1 by (simp add: d)
qed

lemma commit_authz_ok [simp]: "authz_ok (commit_session db) = authz_ok db"
  by (simp add: authz_ok_def commit_session_def covered_def)

lemma land_authz_ok:
  assumes ok: "authz_ok db" and l: "only_lands (z_outbox db) obs'"
  shows "authz_ok (db\<lparr>z_outbox := obs'\<rparr>)"
proof -
  have "covered (db\<lparr>z_outbox := obs'\<rparr>) g = covered db g" for g
    using lands_source_rows[OF l, of markers_table] by (auto simp: covered_def covers_def)
  then show ?thesis
    using ok only_lands_ids[OF l] unfolding authz_ok_def by simp
qed


lemma due_rows_distinct:
  assumes "distinct (map ob_id obs)"
  shows "distinct (map ob_id (due_rows ids limit stamp locked obs))"
    "set (due_rows ids limit stamp locked obs) \<subseteq> set obs"
    "\<forall>r\<in>set (due_rows ids limit stamp locked obs). ob_processed_at r = None"
proof -
  let ?p = "\<lambda>r. ob_processed_at r = None \<and> ob_next_attempt r \<le> stamp
          \<and> (case ids of None \<Rightarrow> True | Some is \<Rightarrow> ob_id r \<in> set is)"
  have "distinct (map ob_id (sort_key ob_seq (filter ?p obs)))"
    unfolding distinct_map_sort_key by (rule distinct_map_filter[OF assms])
  then have "distinct (map ob_id (filter (\<lambda>r. ob_id r \<notin> set locked) (sort_key ob_seq (filter ?p obs))))"
    by (rule distinct_map_filter)
  then show "distinct (map ob_id (due_rows ids limit stamp locked obs))"
    unfolding due_rows_def take_map[symmetric] by (rule distinct_take)
  show "set (due_rows ids limit stamp locked obs) \<subseteq> set obs"
    "\<forall>r\<in>set (due_rows ids limit stamp locked obs). ob_processed_at r = None"
    unfolding due_rows_def by (auto dest!: in_set_takeD)
qed

lemma process_outbox_ok:
  assumes ok: "authz_ok db"
    and p: "process_outbox wr dl ids limit stamp locked db s = (run, db', s')"
  shows "authz_ok db'"
proof -
  let ?b = "due_rows ids limit stamp locked (z_outbox db)"
  have d: "distinct (map ob_id (z_outbox db))" using ok by (simp add: authz_ok_def)
  note b = due_rows_distinct[OF d, of ids limit stamp locked]
  obtain res s1 where a: "apply_rows wr dl (older_pending ?b (z_outbox db)) stamp [] ?b (z_outbox db) s = (res, s1)"
    by fastforce
  show ?thesis
  proof (cases "?b = [] \<or> res = None")
    case True
    then have "db' = db"
    proof
      assume "?b = []" then show ?thesis using p by (simp add: process_outbox_def)
    next
      assume "res = None"
      then show ?thesis using p a by (cases "?b = []") (simp_all add: process_outbox_def Let_def)
    qed
    then show ?thesis using ok by simp
  next
    case False
    then obtain r obs where res: "res = Some (r, obs)" and ne: "?b \<noteq> []" by (cases res) auto
    have l: "only_lands (z_outbox db) obs"
      by (rule apply_rows_lands[OF d b(2,1,3)]) (use a res in simp)
    let ?db1 = "db\<lparr>z_outbox := obs\<rparr>"
    let ?src = "remdups (map (\<lambda>r. (ob_source_table r, ob_source_id r))
        (filter (\<lambda>x. ob_id x \<in> set (run_processed r)) ?b))"
    have ok1: "authz_ok ?db1" by (rule land_authz_ok[OF ok l])
    have db': "db' = commit_session (case complete_sources stamp ?src ?db1 of Inl _ \<Rightarrow> ?db1 | Inr db2 \<Rightarrow> db2)"
      using p ne a res by (simp add: process_outbox_def Let_def)
    have "\<forall>(t, i)\<in>set ?src. \<exists>x\<in>set (z_outbox ?db1). ob_source_table x = t \<and> ob_source_id x = i"
      using lands_source_rows[OF l] b(2) by fastforce
    then show ?thesis unfolding db' commit_authz_ok
      using complete_sources_ok[OF ok1] ok1 by (cases "complete_sources stamp ?src ?db1") auto
  qed
qed

end
