(* ===== verification/GrantService.thy ===== *)
theory GrantService
  imports GrantCompletion Jobs
begin

text \<open>
  Share and delegation writes (\<open>authz/grants\<close>, \<open>authz/grant_projection\<close>,
  \<open>authz/grant_validation\<close>, \<open>authz/tuple_loaders\<close>).

  An operation sees the tables twice: as first read, and as they are once its locks are held
  (other transactions may have committed in between); the second is the state it changes.
  Locks themselves change nothing. New identifiers are arguments; a concurrent insert that wins
  the unique index is the argument \<open>clash\<close>. Audit rows are not modelled.
\<close>

section \<open>Loaders\<close>

record scoped_row =
  sr_type :: string
  sr_id :: uuid
  sr_org :: "uuid option"
  sr_tenant :: "uuid option"
  sr_archived_at :: "micros option"

record org_tables =
  ot_models :: "(uuid \<times> uuid option) list"
  ot_mcp_tools :: "mcp_tool_row list"
  ot_scoped :: "scoped_row list"
  ot_items :: "marketplace_item_row list"
  ot_members :: "org_member_row list"
  ot_groups :: "group_row list"

record resource_scope =
  sc_org :: "uuid option"
  sc_tenant :: "uuid option"
  sc_archived :: bool

definition scoped_types :: "string list" where
  "scoped_types = [''agent'', ''skill'', ''tool'', ''mcp_server'', ''credential'', ''marketplace_item'']"

definition scoped_scope :: "org_tables \<Rightarrow> string \<Rightarrow> uuid \<Rightarrow> resource_scope option" where
  "scoped_scope ot rtype rid =
     (if rtype \<notin> set scoped_types then None
      else map_option (\<lambda>r. \<lparr>sc_org = sr_org r, sc_tenant = sr_tenant r,
               sc_archived = (rtype = ''agent'' \<and> sr_archived_at r \<noteq> None)\<rparr>)
             (find (\<lambda>r. sr_type r = rtype \<and> sr_id r = rid) (ot_scoped ot)))"

definition resource_scope_of :: "org_tables \<Rightarrow> string \<Rightarrow> uuid \<Rightarrow> resource_scope option" where
  "resource_scope_of ot rtype rid =
     (if rtype = ''llm_model''
      then map_option (\<lambda>t. \<lparr>sc_org = None, sc_tenant = t, sc_archived = False\<rparr>) (map_of (ot_models ot) rid)
      else if rtype = ''mcp_tool''
      then (case find (\<lambda>t. mt_id t = rid) (ot_mcp_tools ot) of
              None \<Rightarrow> None | Some t \<Rightarrow> scoped_scope ot ''mcp_server'' (mt_server t))
      else scoped_scope ot rtype rid)"

definition grant_row_of :: "resource_grant \<Rightarrow> grant_row" where
  "grant_row_of g =
     \<lparr>g_id = rg_id g, g_org = rg_org g, g_rtype = rg_rtype g, g_rid = rg_rid g,
      g_relation = rg_relation g, g_ptype = rg_ptype g, g_pid = rg_pid g, g_granted_at = rg_granted_at g,
      g_state = rg_state g, g_kind = rg_kind g, g_cond_name = rg_cond_name g,
      g_cond_context = rg_cond_context g, g_expires_at = rg_expires_at g, g_tenant = Some (rg_tenant g)\<rparr>"

definition active_grant_rows :: "string \<Rightarrow> uuid \<Rightarrow> uuid \<Rightarrow> uuid option \<Rightarrow> authz_db \<Rightarrow> grant_row list" where
  "active_grant_rows rtype rid exclude org db =
     map grant_row_of (sort_key rg_id (filter (\<lambda>g. rg_rtype g = rtype \<and> rg_rid g = rid
        \<and> rg_state g = ''active'' \<and> (case org of None \<Rightarrow> True | Some o' \<Rightarrow> rg_org g = o') \<and> rg_id g \<noteq> exclude)
        (z_grants db)))"

definition marketplace_item_row_of :: "org_tables \<Rightarrow> uuid \<Rightarrow> marketplace_item_row option" where
  "marketplace_item_row_of ot rid = find (\<lambda>i. mi_id i = rid) (ot_items ot)"

section \<open>Operations of one change\<close>

definition org_scope :: "string \<Rightarrow> string \<Rightarrow> string \<Rightarrow> uuid \<Rightarrow> uuid option" where
  "org_scope rtype kind ptype org =
     (if kind = ''system_fanout'' \<and> ptype = ''organization'' \<and> rtype \<noteq> ''marketplace_item''
      then Some org else None)"

text \<open>\<open>except TupleRuleError: return ()\<close>; any other exception propagates.\<close>

definition tolerate :: "rule_error + relation_tuple list \<Rightarrow> rule_error + relation_tuple list" where
  "tolerate r = (if r = Inl TupleRuleError then Inr [] else r)"

definition written_tuples :: "grant_row \<Rightarrow> rule_error + relation_tuple list" where
  "written_tuples g = tolerate (tuples_for (g_granted_at g) (GrantRow (g\<lparr>g_state := ''active''\<rparr>)))"

definition safe_tuples :: "micros \<Rightarrow> row \<Rightarrow> rule_error + relation_tuple list" where
  "safe_tuples now r = tolerate (tuples_for now r)"

fun all_tuples :: "('r \<Rightarrow> rule_error + relation_tuple list) \<Rightarrow> 'r list \<Rightarrow> rule_error + relation_tuple list" where
  "all_tuples f [] = Inr []"
| "all_tuples f (r # rs) =
     (case f r of
        Inl e \<Rightarrow> Inl e
      | Inr ts \<Rightarrow> (case all_tuples f rs of Inl e \<Rightarrow> Inl e | Inr us \<Rightarrow> Inr (ts @ us)))"

definition remaining_tuples ::
    "org_tables \<Rightarrow> authz_db \<Rightarrow> grant_row \<Rightarrow> micros \<Rightarrow> rule_error + relation_tuple list" where
  "remaining_tuples ot db g now =
     all_tuples (safe_tuples now)
       (map GrantRow (active_grant_rows (g_rtype g) (g_rid g) (g_id g)
            (org_scope (g_rtype g) (g_kind g) (g_ptype g) (g_org g)) db)
        @ (if g_rtype g = ''marketplace_item''
           then case marketplace_item_row_of ot (g_rid g) of
                  None \<Rightarrow> [] | Some i \<Rightarrow> [MarketplaceItemRow i]
           else []))"

definition by_key_map :: "relation_tuple list \<Rightarrow> tuple_key \<Rightarrow> relation_tuple option" where
  "by_key_map ts k = find (\<lambda>t. key_of t = k) ts"

definition diff_key ::
    "(tuple_key \<Rightarrow> relation_tuple option) \<Rightarrow> (tuple_key \<Rightarrow> relation_tuple option) \<Rightarrow> tuple_key \<Rightarrow> tuple_op list" where
  "diff_key old new k =
     (case (old k, new k) of
        (Some p, None) \<Rightarrow> [\<lparr>to_kind = OpDelete, to_tuple = p, to_replace = False\<rparr>]
      | (p, Some d) \<Rightarrow>
          if p = Some d then [] else [\<lparr>to_kind = OpWrite, to_tuple = d, to_replace = (p \<noteq> None)\<rparr>]
      | (None, None) \<Rightarrow> [])"

definition diff_ops ::
    "relation_tuple list \<Rightarrow> relation_tuple list \<Rightarrow> tuple_key list \<Rightarrow> rule_error + tuple_op list" where
  "diff_ops before after keys =
     (case merge_tuples (filter (\<lambda>t. key_of t \<in> set keys) before) of
        Inl e \<Rightarrow> Inl e
      | Inr old \<Rightarrow>
     (case merge_tuples (filter (\<lambda>t. key_of t \<in> set keys) after) of
        Inl e \<Rightarrow> Inl e
      | Inr new \<Rightarrow> Inr (concat (map (diff_key (by_key_map old) (by_key_map new)) (sort (remdups keys))))))"

definition change_ops ::
    "org_tables \<Rightarrow> authz_db \<Rightarrow> grant_row option \<Rightarrow> grant_row option \<Rightarrow> micros \<Rightarrow> rule_error + tuple_op list"
  where
  "change_ops ot db before after now =
     (case (case after of Some a \<Rightarrow> Some a | None \<Rightarrow> before) of
        None \<Rightarrow> Inr []
      | Some r \<Rightarrow>
     (case (case before of None \<Rightarrow> Inr [] | Some b \<Rightarrow> written_tuples b) of
        Inl e \<Rightarrow> Inl e
      | Inr old \<Rightarrow>
     (case (case after of None \<Rightarrow> Inr [] | Some a \<Rightarrow> tuples_for now (GrantRow a)) of
        Inl e \<Rightarrow> Inl e
      | Inr new \<Rightarrow>
     (case remaining_tuples ot db r now of
        Inl e \<Rightarrow> Inl e
      | Inr others \<Rightarrow>
          let keys = map key_of (old @ new);
              rest = filter (\<lambda>t. key_of t \<in> set keys) others
          in diff_ops (rest @ old) (rest @ new) keys))))"

section \<open>Validation\<close>

datatype grant_error = GrantNotFound | GrantConflict | GrantInvalid string
  | GrantRule rule_error | GrantRevocation revocation_error

record grant_request =
  gq_relation :: string
  gq_ptype :: string
  gq_pid :: uuid
  gq_kind :: string
  gq_expires_at :: "micros option"
  gq_cond_name :: "string option"
  gq_cond_context :: "(string \<times> json) list option"
  gq_source_link :: "json option"

definition grant_relations :: "string list" where
  "grant_relations = [''consumer'', ''viewer'', ''editor'', ''manager'', ''installer'', ''explorer'',
     ''blocked'', ''allowed_org'']"

definition writable_kinds :: "string list" where
  "writable_kinds = [''share'', ''delegation'', ''system_fanout'']"

definition check_request :: "string \<Rightarrow> grant_request \<Rightarrow> grant_error + unit" where
  "check_request rtype q =
     (if rtype \<notin> set resource_types \<or> gq_relation q \<notin> set grant_relations then Inl (GrantInvalid ''relation'')
      else if gq_kind q \<notin> set writable_kinds then Inl (GrantInvalid ''grant_kind'')
      else if (gq_kind q = ''delegation'') \<noteq> (gq_ptype q = ''agent'')
      then Inl (GrantInvalid ''delegation_principal'')
      else Inr ())"

definition check_target :: "org_tables \<Rightarrow> org_context \<Rightarrow> string \<Rightarrow> uuid \<Rightarrow> grant_error + unit" where
  "check_target ot c rtype rid =
     (case resource_scope_of ot rtype rid of
        None \<Rightarrow> Inl GrantNotFound
      | Some sc \<Rightarrow>
          if sc_tenant sc \<notin> {None, Some (oc_tenant_id c)} \<or> sc_org sc \<notin> {None, Some (oc_org_id c)}
          then Inl GrantNotFound
          else if sc_archived sc then Inl (GrantInvalid ''archived'') else Inr ())"

definition live_request_principal :: "org_tables \<Rightarrow> org_context \<Rightarrow> grant_request \<Rightarrow> bool" where
  "live_request_principal ot c q =
     (let p = gq_pid q
      in if gq_ptype q = ''user''
         then (\<exists>m\<in>set (ot_members ot). om_org m = oc_org_id c \<and> om_user m = p \<and> om_status m = ''active'')
         else if gq_ptype q = ''group'' then (\<exists>g\<in>set (ot_groups ot). gr_id g = p \<and> gr_org g = oc_org_id c)
         else if gq_ptype q = ''agent''
         then (\<exists>r\<in>set (ot_scoped ot). sr_type r = ''agent'' \<and> sr_id r = p
                 \<and> sr_org r = Some (oc_org_id c) \<and> sr_archived_at r = None)
         else if gq_ptype q = ''organization'' then p = oc_org_id c
         else False)"

definition check_principal :: "org_tables \<Rightarrow> org_context \<Rightarrow> grant_request \<Rightarrow> grant_error + unit" where
  "check_principal ot c q =
     (if live_request_principal ot c q then Inr () else Inl (GrantInvalid ''principal''))"

definition desired_row ::
    "uuid \<Rightarrow> org_context \<Rightarrow> string \<Rightarrow> uuid \<Rightarrow> grant_request \<Rightarrow> grant_row option \<Rightarrow> micros \<Rightarrow> grant_error + grant_row"
  where
  "desired_row new_id c rtype rid q before now =
     (let r = \<lparr>g_id = (case before of None \<Rightarrow> new_id | Some b \<Rightarrow> g_id b), g_org = oc_org_id c,
               g_rtype = rtype, g_rid = rid, g_relation = gq_relation q, g_ptype = gq_ptype q,
               g_pid = gq_pid q, g_granted_at = now, g_state = ''active'', g_kind = gq_kind q,
               g_cond_name = gq_cond_name q, g_cond_context = gq_cond_context q,
               g_expires_at = gq_expires_at q, g_tenant = Some (oc_tenant_id c)\<rparr>
      in case tuples_for now (GrantRow r) of
           Inl e \<Rightarrow> Inl (if e = TupleRuleError then GrantInvalid (error_name e) else GrantRule e)
         | Inr ts \<Rightarrow>
             if ts = [] then Inl (GrantInvalid ''expired'')
             else case before of
                    Some b \<Rightarrow> if b\<lparr>g_granted_at := now\<rparr> = r then Inr b else Inr r
                  | None \<Rightarrow> Inr r)"

section \<open>The service\<close>

record grant_change =
  ch_grant :: resource_grant
  ch_outbox_ids :: "uuid list"

definition number_ops :: "(nat \<Rightarrow> uuid) \<Rightarrow> tuple_op list \<Rightarrow> (uuid \<times> tuple_op) list" where
  "number_ops fresh ops = zip (map fresh [0..<length ops]) ops"

definition queue_ops ::
    "(nat \<Rightarrow> uuid) \<Rightarrow> tuple_op list \<Rightarrow> string \<Rightarrow> uuid \<Rightarrow> micros \<Rightarrow> authz_db \<Rightarrow> uuid list \<times> authz_db" where
  "queue_ops fresh ops table src now db =
     (map fst (number_ops fresh ops),
      db\<lparr>z_outbox := enqueue_ops (number_ops fresh ops) table src now (z_outbox db)\<rparr>)"

definition active_grant :: "string \<Rightarrow> uuid \<Rightarrow> grant_request \<Rightarrow> authz_db \<Rightarrow> resource_grant option" where
  "active_grant rtype rid q db =
     find (\<lambda>g. rg_rtype g = rtype \<and> rg_rid g = rid \<and> rg_relation g = gq_relation q
        \<and> rg_ptype g = gq_ptype q \<and> rg_pid g = gq_pid q \<and> rg_state g = ''active'') (z_grants db)"

definition record_marker ::
    "uuid \<Rightarrow> micros \<Rightarrow> resource_grant \<Rightarrow> authz_db \<Rightarrow> grant_error + (revocation \<times> authz_db)" where
  "record_marker mid now g db =
     (case marker_refs g of
        Inl e \<Rightarrow> Inl (GrantRule e)
      | Inr (subject, ob) \<Rightarrow>
          (case record_revocation mid now (rg_org g) (rg_tenant g) ''grant'' subject ob db of
             Inl e \<Rightarrow> Inl (GrantRevocation e) | Inr r \<Rightarrow> Inr r))"

definition assign_grant :: "resource_grant \<Rightarrow> grant_row \<Rightarrow> grant_request \<Rightarrow> uuid \<Rightarrow> resource_grant" where
  "assign_grant g r q actor =
     (let g1 = g\<lparr>rg_state := ''active'', rg_rtype := g_rtype r, rg_rid := g_rid r,
            rg_relation := g_relation r, rg_ptype := g_ptype r, rg_pid := g_pid r, rg_kind := g_kind r,
            rg_cond_name := g_cond_name r, rg_cond_context := g_cond_context r,
            rg_expires_at := g_expires_at r, rg_source_link := gq_source_link q\<rparr>
      in if rg_granted_at g \<noteq> g_granted_at r
         then g1\<lparr>rg_granted_at := g_granted_at r, rg_granted_by := Some actor\<rparr> else g1)"

definition new_grant :: "grant_row \<Rightarrow> org_context \<Rightarrow> resource_grant" where
  "new_grant r c =
     \<lparr>rg_id = g_id r, rg_org = oc_org_id c, rg_tenant = oc_tenant_id c, rg_state = ''active'',
      rg_rtype = g_rtype r, rg_rid = g_rid r, rg_relation = g_relation r, rg_ptype = g_ptype r,
      rg_pid = g_pid r, rg_kind = g_kind r, rg_cond_name = None, rg_cond_context = None,
      rg_expires_at = None, rg_granted_by = Some (oc_user_id c), rg_granted_at = g_granted_at r,
      rg_revoked_by = None, rg_revoked_at = None, rg_source_link = None\<rparr>"

definition put_grant :: "resource_grant \<Rightarrow> authz_db \<Rightarrow> authz_db" where
  "put_grant g db =
     (if rg_id g \<in> rg_id ` set (z_grants db) then db\<lparr>z_grants := row_put rg_id g (z_grants db)\<rparr>
      else db\<lparr>z_grants := z_grants db @ [g]\<rparr>)"

text \<open>\<open>early\<close>: the tables as read before the locks; \<open>db\<close>: as they are under them.\<close>

definition make_grant ::
    "org_tables \<Rightarrow> uuid \<Rightarrow> uuid \<Rightarrow> (nat \<Rightarrow> uuid) \<Rightarrow> bool \<Rightarrow> micros \<Rightarrow> org_context \<Rightarrow> string \<Rightarrow> uuid
      \<Rightarrow> grant_request \<Rightarrow> authz_db \<Rightarrow> authz_db \<Rightarrow> grant_error + (grant_change \<times> authz_db)" where
  "make_grant ot new_id mid fresh clash now c rtype rid q early db =
     (case check_request rtype q of Inl e \<Rightarrow> Inl e | Inr _ \<Rightarrow>
     (case check_target ot c rtype rid of Inl e \<Rightarrow> Inl e | Inr _ \<Rightarrow>
     (case check_principal ot c q of Inl e \<Rightarrow> Inl e | Inr _ \<Rightarrow>
        let existing = active_grant rtype rid q early;
            before = map_option grant_row_of existing
        in if (case existing of None \<Rightarrow> False | Some g \<Rightarrow> rg_org g \<noteq> oc_org_id c) then Inl GrantConflict
           else case desired_row new_id c rtype rid q before now of
             Inl e \<Rightarrow> Inl e
           | Inr after \<Rightarrow>
               (case (case existing of
                        Some g \<Rightarrow> if before = Some after then Inr (None, db)
                                  else (case record_marker mid now g db of
                                          Inl e \<Rightarrow> Inl e | Inr (m, db1) \<Rightarrow> Inr (Some m, db1))
                      | None \<Rightarrow> Inr (None, db)) of
                  Inl e \<Rightarrow> Inl e
                | Inr (marker, db1) \<Rightarrow>
                    let current = active_grant rtype rid q db1
                    in if map_option rg_id current \<noteq> map_option rg_id existing
                         \<or> (current \<noteq> None \<and> map_option grant_row_of current \<noteq> before)
                       then Inl GrantConflict
                       else let g = assign_grant (case current of Some g0 \<Rightarrow> g0 | None \<Rightarrow> new_grant after c)
                                      after q (oc_user_id c);
                                db2 = put_grant g db1
                            in if clash then Inl GrantConflict
                               else case change_ops ot db2 before (Some after) now of
                                      Inl e \<Rightarrow> Inl (GrantRule e)
                                    | Inr ops \<Rightarrow>
                                        let (table, src) = (case marker of
                                              Some m \<Rightarrow> (markers_table, rv_id m) | None \<Rightarrow> (grants_table, rg_id g));
                                            (ids, db3) = queue_ops fresh ops table src now db2;
                                            db4 = (case marker of
                                              Some m \<Rightarrow> if ids = [] then snd (finalize_revocations [rv_id m] now db3) else db3
                                            | None \<Rightarrow> db3)
                                        in Inr (\<lparr>ch_grant = g, ch_outbox_ids = ids\<rparr>, db4)))))"

definition expired :: "micros \<Rightarrow> resource_grant \<Rightarrow> bool" where
  "expired now g = (rg_state g = ''active'' \<and> (case rg_expires_at g of None \<Rightarrow> False | Some e \<Rightarrow> e \<le> now))"

text \<open>\<open>None\<close>: closed meanwhile; the caller rolls back.\<close>

definition close_grant ::
    "org_tables \<Rightarrow> uuid \<Rightarrow> (nat \<Rightarrow> uuid) \<Rightarrow> micros \<Rightarrow> uuid option \<Rightarrow> bool \<Rightarrow> resource_grant \<Rightarrow> authz_db
      \<Rightarrow> grant_error + ((grant_change \<times> authz_db) option)" where
  "close_grant ot mid fresh now actor system found db =
     (case record_marker mid now found db of
        Inl e \<Rightarrow> Inl e
      | Inr (_, db1) \<Rightarrow>
          (case find (\<lambda>g. rg_id g = rg_id found \<and> rg_state g = ''active'') (z_grants db1) of
             None \<Rightarrow> Inr None
           | Some g \<Rightarrow>
               if actor = None \<and> \<not> system \<and> \<not> expired now g then Inr None
               else
                 let g1 = g\<lparr>rg_state := ''revoking'', rg_revoked_by := actor\<rparr>;
                     db2 = put_grant g1 db1
                 in case change_ops ot db2 (Some (grant_row_of g)) None now of
                      Inl e \<Rightarrow> Inl (GrantRule e)
                    | Inr ops \<Rightarrow>
                        let (ids, db3) = queue_ops fresh ops grants_table (rg_id g) now db2
                        in if ids = []
                           then (case complete_revocations now [rg_id g] db3 of
                                   Inl e \<Rightarrow> Inl (GrantRule e)
                                 | Inr (_, db4) \<Rightarrow>
                                     Inr (Some (\<lparr>ch_grant = (case row_get rg_id (rg_id g) (z_grants db4) of
                                            Some x \<Rightarrow> x | None \<Rightarrow> g1), ch_outbox_ids = []\<rparr>, db4)))
                           else Inr (Some (\<lparr>ch_grant = g1, ch_outbox_ids = ids\<rparr>, db3))))"

definition revoke ::
    "org_tables \<Rightarrow> uuid \<Rightarrow> (nat \<Rightarrow> uuid) \<Rightarrow> micros \<Rightarrow> org_context \<Rightarrow> uuid \<Rightarrow> authz_db \<Rightarrow> authz_db
      \<Rightarrow> grant_error + (grant_change \<times> authz_db)" where
  "revoke ot mid fresh now c gid early db =
     (case row_get rg_id gid (z_grants early) of
        None \<Rightarrow> Inl GrantNotFound
      | Some g \<Rightarrow>
          if rg_org g \<noteq> oc_org_id c \<or> rg_state g \<noteq> ''active'' then Inl GrantNotFound
          else case close_grant ot mid fresh now (Some (oc_user_id c)) False g db of
                 Inl e \<Rightarrow> Inl e
               | Inr None \<Rightarrow> Inl GrantConflict
               | Inr (Some r) \<Rightarrow> Inr r)"

definition revoke_as_system ::
    "org_tables \<Rightarrow> uuid \<Rightarrow> (nat \<Rightarrow> uuid) \<Rightarrow> micros \<Rightarrow> uuid \<Rightarrow> authz_db \<Rightarrow> authz_db
      \<Rightarrow> grant_error + ((grant_change \<times> authz_db) option)" where
  "revoke_as_system ot mid fresh now gid early db =
     (case row_get rg_id gid (z_grants early) of
        None \<Rightarrow> Inr None
      | Some g \<Rightarrow> if rg_state g \<noteq> ''active'' then Inr None
                  else close_grant ot mid fresh now None True g db)"

definition expire_grant ::
    "org_tables \<Rightarrow> uuid \<Rightarrow> (nat \<Rightarrow> uuid) \<Rightarrow> micros \<Rightarrow> uuid \<Rightarrow> authz_db \<Rightarrow> authz_db
      \<Rightarrow> grant_error + ((grant_change \<times> authz_db) option)" where
  "expire_grant ot mid fresh now gid early db =
     (case row_get rg_id gid (z_grants early) of
        None \<Rightarrow> Inr None
      | Some g \<Rightarrow> if \<not> expired now g then Inr None
                  else close_grant ot mid fresh now None False g db)"

definition list_grants :: "org_context \<Rightarrow> string \<Rightarrow> uuid \<Rightarrow> authz_db \<Rightarrow> resource_grant list" where
  "list_grants c rtype rid db =
     sort_key (\<lambda>g. (rg_granted_at g, rg_id g)) (filter (\<lambda>g. rg_org g = oc_org_id c \<and> rg_rtype g = rtype
        \<and> rg_rid g = rid \<and> rg_state g \<in> set [''active'', ''revoking'']) (z_grants db))"

section \<open>A change turns the old projection into the new one\<close>

definition apply_ops ::
    "tuple_op list \<Rightarrow> (tuple_key \<Rightarrow> relation_tuple option) \<Rightarrow> tuple_key \<Rightarrow> relation_tuple option" where
  "apply_ops ops st = foldl (\<lambda>st op. st(key_of (to_tuple op) := op_effect op)) st ops"

lemma apply_ops_append: "apply_ops (xs @ ys) st = apply_ops ys (apply_ops xs st)"
  by (simp add: apply_ops_def)

lemma apply_ops_Nil [simp]: "apply_ops [] st = st"
  by (simp add: apply_ops_def)

lemma by_key_map_key: "by_key_map ts k = Some t \<Longrightarrow> key_of t = k"
  by (auto simp: by_key_map_def find_Some_iff)

lemma apply_diff_key:
  assumes "\<And>k t. old k = Some t \<Longrightarrow> key_of t = k" "\<And>k t. new k = Some t \<Longrightarrow> key_of t = k" "st k = old k"
  shows "apply_ops (diff_key old new k) st = st(k := new k)"
  using assms by (cases "old k"; cases "new k") (auto simp: diff_key_def apply_ops_def op_effect_def)

lemma apply_diff_keys:
  assumes "\<And>k t. old k = Some t \<Longrightarrow> key_of t = k" "\<And>k t. new k = Some t \<Longrightarrow> key_of t = k"
    "distinct ks" "\<forall>k\<in>set ks. st k = old k"
  shows "apply_ops (concat (map (diff_key old new) ks)) st = (\<lambda>k. if k \<in> set ks then new k else st k)"
  using assms(3,4)
proof (induction ks arbitrary: st)
  case (Cons q ks)
  have "apply_ops (diff_key old new q) st = st(q := new q)"
    using apply_diff_key[of old new st q] assms(1,2) Cons.prems(2) by simp
  moreover have "apply_ops (concat (map (diff_key old new) ks)) (st(q := new q))
      = (\<lambda>k. if k \<in> set ks then new k else (st(q := new q)) k)"
    using Cons.IH Cons.prems by auto
  ultimately have "apply_ops (concat (map (diff_key old new) (q # ks))) st
      = (\<lambda>k. if k \<in> set ks then new k else (st(q := new q)) k)"
    by (simp only: list.map concat.simps apply_ops_append)
  moreover have "\<dots> = (\<lambda>k. if k \<in> set (q # ks) then new k else st k)"
    using Cons.prems(1) by (intro ext) auto
  ultimately show ?case by simp
qed simp

lemma diff_ops_exact:
  assumes "diff_ops before after keys = Inr ops"
    "merge_tuples (filter (\<lambda>t. key_of t \<in> set keys) before) = Inr old"
    "\<forall>k\<in>set keys. st k = by_key_map old k"
  shows "\<exists>new. merge_tuples (filter (\<lambda>t. key_of t \<in> set keys) after) = Inr new
    \<and> apply_ops ops st = (\<lambda>k. if k \<in> set keys then by_key_map new k else st k)"
proof -
  obtain new where new: "merge_tuples (filter (\<lambda>t. key_of t \<in> set keys) after) = Inr new"
    and ops: "ops = concat (map (diff_key (by_key_map old) (by_key_map new)) (sort (remdups keys)))"
    using assms(1,2) by (auto simp: diff_ops_def split: sum.splits)
  have "apply_ops ops st = (\<lambda>k. if k \<in> set (sort (remdups keys)) then by_key_map new k else st k)"
    unfolding ops by (rule apply_diff_keys) (use by_key_map_key assms(3) in auto)
  then show ?thesis using new by simp
qed


definition demo_grant :: "micros \<Rightarrow> string \<Rightarrow> grant_row" where
  "demo_grant at rel =
     \<lparr>g_id = ''g'', g_org = ''o'', g_rtype = ''tool'', g_rid = ''x'', g_relation = rel, g_ptype = ''user'',
      g_pid = ''ann'', g_granted_at = at, g_state = ''active'', g_kind = ''share'', g_cond_name = None,
      g_cond_context = None, g_expires_at = None, g_tenant = Some ''t''\<rparr>"

definition no_tables :: org_tables where
  "no_tables = \<lparr>ot_models = [], ot_mcp_tools = [], ot_scoped = [], ot_items = [], ot_members = [], ot_groups = []\<rparr>"

definition no_grants :: authz_db where
  "no_grants = \<lparr>z_epochs = [], z_grants = [], z_markers = [], z_outbox = [], z_bumped = []\<rparr>"


end
