(* ===== verification/GrantSafety.thy ===== *)
theory GrantSafety
  imports GrantService
begin

text \<open>
  Every way the authorization tables move together: grants made and closed, markers recorded by
  other services, queued changes, drains of the queue. A history is the list of committed states,
  newest first; an operation may have read its grant in any earlier one.

  The invariant of \<open>GrantCompletion\<close> holds in every history, and with the overlay it gives the
  promise of the revocation protocol: while a grant is being revoked its principal is refused.
\<close>

section \<open>Queueing and recording keep the tables consistent\<close>

definition identity :: "resource_grant \<Rightarrow> uuid \<times> uuid \<times> (rule_error + (string \<times> string))" where
  "identity g = (rg_id g, rg_org g, marker_refs g)"

lemma identity_eq: "identity a = identity b \<longleftrightarrow>
    rg_id a = rg_id b \<and> rg_org a = rg_org b \<and> marker_refs a = marker_refs b"
  by (simp add: identity_def)

text \<open>Grants stay in the table and keep what identifies them.\<close>

definition evolves :: "authz_db \<Rightarrow> authz_db \<Rightarrow> bool" where
  "evolves early db = (identity ` set (z_grants early) \<subseteq> identity ` set (z_grants db))"

lemma evolves_refl [simp]: "evolves db db"
  by (simp add: evolves_def)

lemma evolves_trans: "evolves a b \<Longrightarrow> evolves b c \<Longrightarrow> evolves a c"
  by (auto simp: evolves_def)

lemma evolves_same_grants: "z_grants b = z_grants a \<Longrightarrow> evolves a b"
  by (simp add: evolves_def)

definition fresh_ids :: "(nat \<Rightarrow> uuid) \<Rightarrow> authz_db \<Rightarrow> bool" where
  "fresh_ids fresh db = (inj fresh \<and> (\<forall>n. fresh n \<notin> ob_id ` set (z_outbox db)))"

definition fresh_marker :: "uuid \<Rightarrow> authz_db \<Rightarrow> bool" where
  "fresh_marker mid db = (mid \<notin> rv_id ` set (z_markers db)
     \<and> (\<forall>r\<in>set (z_outbox db). \<not> (ob_source_table r = markers_table \<and> ob_source_id r = mid)))"

lemma enqueue_shape:
  "\<exists>new. enqueue_ops ops table src now obs = obs @ new \<and> map ob_id new = map fst ops
     \<and> (\<forall>r\<in>set new. ob_source_table r = table \<and> ob_source_id r = src)"
proof (induction ops table src now obs rule: enqueue_ops.induct)
  case (2 rid op ops table src now obs)
  then obtain new where "enqueue_ops ops table src now (obs @ [queue_row rid op table src now (next_seq obs)])
      = (obs @ [queue_row rid op table src now (next_seq obs)]) @ new"
    "map ob_id new = map fst ops" "\<forall>r\<in>set new. ob_source_table r = table \<and> ob_source_id r = src" by blast
  then show ?case
    by (intro exI[of _ "queue_row rid op table src now (next_seq obs) # new"]) (simp add: queue_row_def)
qed simp

lemma number_ops_ids: "map fst (number_ops fresh ops) = map fresh [0..<length ops]"
  by (simp add: number_ops_def)

lemma queue_ops_ok:
  assumes ok: "authz_ok db" and fr: "fresh_ids fresh db"
    and m: "table = markers_table \<Longrightarrow> \<forall>g\<in>set (z_grants db). rg_state g = ''revoking'' \<longrightarrow>
       (\<exists>m\<in>set (z_markers db). covers (z_outbox db) m g \<and> rv_id m \<noteq> src)"
    and q: "queue_ops fresh ops table src now db = (ids, db')"
  shows "authz_ok db'"
proof -
  obtain new where new: "enqueue_ops (number_ops fresh ops) table src now (z_outbox db) = z_outbox db @ new"
    "map ob_id new = map fresh [0..<length ops]" "\<forall>r\<in>set new. ob_source_table r = table \<and> ob_source_id r = src"
    using enqueue_shape[of "number_ops fresh ops" table src now "z_outbox db", unfolded number_ops_ids] by blast
  have db': "db' = db\<lparr>z_outbox := z_outbox db @ new\<rparr>" using q new(1) by (simp add: queue_ops_def)
  have "\<forall>n. fresh n \<notin> ob_id ` set (z_outbox db)" "inj fresh" using fr by (simp_all add: fresh_ids_def)
  then have "ob_id ` set (z_outbox db) \<inter> set (map fresh [0..<length ops]) = {}"
    "distinct (map fresh [0..<length ops])"
    by (force, simp add: distinct_map inj_on_def)
  then have "distinct (map ob_id (z_outbox db) @ map ob_id new)"
    using ok unfolding new(2) by (simp add: authz_ok_def)
  then have d: "distinct (map ob_id (z_outbox db'))" by (simp add: db')
  have cov: "covered db' x" if x: "x \<in> set (z_grants db)" "rg_state x = ''revoking''" for x
  proof -
    obtain n where n: "n \<in> set (z_markers db)" "covers (z_outbox db) n x" "table = markers_table \<longrightarrow> rv_id n \<noteq> src"
    proof (cases "table = markers_table")
      case True then show thesis using m[OF True, rule_format, OF x] that by (auto simp: Bex_def)
    next
      case False then show thesis using covering_marker[OF ok x] that by metis
    qed
    then have "covers (z_outbox db @ new) n x" using new(3) by (auto simp: covers_def)
    then show ?thesis using n(1) by (auto simp: covered_def db')
  qed
  show ?thesis using ok d cov unfolding authz_ok_def by (simp add: db')
qed

lemma queue_ops_fields:
  "queue_ops fresh ops table src now db = (ids, db') \<Longrightarrow>
    z_grants db' = z_grants db \<and> z_markers db' = z_markers db \<and> (ids = [] \<longleftrightarrow> ops = [])"
  by (auto simp: queue_ops_def number_ops_def)

lemma record_fields:
  assumes "record_revocation mid now org tenant scope subject ob db = Inr (m, db')"
  shows "z_grants db' = z_grants db" "z_outbox db' = z_outbox db" "rv_id m = mid" "rv_org m = org"
    "rv_scope m = scope" "rv_subject m = subject" "rv_object m = ob" "rv_finalized_at m = None"
    "z_markers db' = z_markers db @ [m]"
  using record_revocation_fields[OF assms] by (simp_all add: new_marker_def)

lemma record_ok:
  assumes ok: "authz_ok db" and fm: "fresh_marker mid db"
    and r: "record_revocation mid now org tenant scope subject ob db = Inr (m, db')"
  shows "authz_ok db'"
    "\<forall>g\<in>set (z_grants db'). rg_state g = ''revoking'' \<longrightarrow>
       (\<exists>n\<in>set (z_markers db'). covers (z_outbox db') n g \<and> rv_id n \<noteq> rv_id m)"
proof -
  note f = record_fields[OF r]
  show c: "\<forall>g\<in>set (z_grants db'). rg_state g = ''revoking'' \<longrightarrow>
       (\<exists>n\<in>set (z_markers db'). covers (z_outbox db') n g \<and> rv_id n \<noteq> rv_id m)"
  proof (intro ballI impI)
    fix g assume g: "g \<in> set (z_grants db')" "rg_state g = ''revoking''"
    then obtain n where n: "n \<in> set (z_markers db)" "covers (z_outbox db) n g"
      using covering_marker[OF ok] f(1) by metis
    have "rv_id n \<noteq> mid" using fm n(1) by (auto simp: fresh_marker_def)
    then show "\<exists>n\<in>set (z_markers db'). covers (z_outbox db') n g \<and> rv_id n \<noteq> rv_id m"
      using n f(2,3,9) by auto
  qed
  then have "\<forall>g\<in>set (z_grants db'). rg_state g = ''revoking'' \<longrightarrow> covered db' g"
    unfolding covered_def by blast
  then show "authz_ok db'"
    using ok fm f(3) unfolding authz_ok_def f(1,2,9) by (auto simp: fresh_marker_def)
qed

lemma record_marker_Inr:
  assumes "record_marker mid now g db = Inr (m, db')"
  shows "\<exists>su ob. marker_refs g = Inr (su, ob)
    \<and> record_revocation mid now (rg_org g) (rg_tenant g) ''grant'' su ob db = Inr (m, db')"
  using assms by (auto simp: record_marker_def split: sum.splits)

text \<open>A recorded marker covers its grant until a change is queued under it.\<close>

lemma record_marker_covers:
  assumes "record_marker mid now g db = Inr (m, db')" "fresh_marker mid db"
    "rg_org h = rg_org g" "marker_refs h = marker_refs g"
  shows "covers (z_outbox db') m h" "m \<in> set (z_markers db')"
proof -
  obtain su ob where r: "marker_refs g = Inr (su, ob)"
    "record_revocation mid now (rg_org g) (rg_tenant g) ''grant'' su ob db = Inr (m, db')"
    using record_marker_Inr[OF assms(1)] by blast
  note f = record_fields[OF r(2)]
  show "covers (z_outbox db') m h"
    unfolding covers_def f using r(1) assms(2-4) by (auto simp: fresh_marker_def)
  show "m \<in> set (z_markers db')" by (simp add: f(9))
qed

section \<open>Writing a grant\<close>

lemma put_grant_fields [simp]: "z_markers (put_grant g db) = z_markers db" "z_outbox (put_grant g db) = z_outbox db"
  by (simp_all add: put_grant_def)

lemma put_grant_set:
  assumes "distinct (map rg_id (z_grants db))"
  shows "x \<in> set (z_grants (put_grant g db)) \<longleftrightarrow> x = g \<or> (x \<in> set (z_grants db) \<and> rg_id x \<noteq> rg_id g)"
  by (cases "rg_id g \<in> rg_id ` set (z_grants db)") (auto simp: put_grant_def row_put_def image_iff)

lemma put_grant_ok:
  assumes ok: "authz_ok db" and g: "grant_ok g"
    and c: "rg_state g = ''revoking'' \<Longrightarrow> \<exists>m\<in>set (z_markers db). covers (z_outbox db) m g"
  shows "authz_ok (put_grant g db)"
proof -
  have d: "distinct (map rg_id (z_grants db))" using ok by (simp add: authz_ok_def)
  have "distinct (map rg_id (z_grants (put_grant g db)))"
    using d by (cases "rg_id g \<in> rg_id ` set (z_grants db)") (simp_all add: put_grant_def)
  moreover have "covered (put_grant g db) x = covered db x" for x by (simp add: covered_def)
  moreover have "rg_state g = ''revoking'' \<Longrightarrow> covered db g" using c by (simp add: covered_def)
  ultimately show ?thesis
    using ok g unfolding authz_ok_def put_grant_set[OF d] put_grant_fields Ball_def by blast
qed

lemma put_grant_evolves:
  assumes "distinct (map rg_id (z_grants db))"
    "\<forall>x\<in>set (z_grants db). rg_id x = rg_id g \<longrightarrow> identity x = identity g"
  shows "evolves db (put_grant g db)"
  unfolding evolves_def using assms(2) put_grant_set[OF assms(1)] by (auto simp: image_iff Bex_def) metis+

section \<open>Making a grant\<close>

lemma desired_row_fields:
  assumes "desired_row new_id c rtype rid q before now = Inr after"
  shows "g_id after = (case before of None \<Rightarrow> new_id | Some b \<Rightarrow> g_id b)" "g_rtype after = rtype"
    "g_rid after = rid" "g_relation after = gq_relation q" "g_ptype after = gq_ptype q" "g_pid after = gq_pid q"
proof -
  let ?r = "\<lparr>g_id = (case before of None \<Rightarrow> new_id | Some b \<Rightarrow> g_id b), g_org = oc_org_id c,
     g_rtype = rtype, g_rid = rid, g_relation = gq_relation q, g_ptype = gq_ptype q,
     g_pid = gq_pid q, g_granted_at = now, g_state = ''active'', g_kind = gq_kind q,
     g_cond_name = gq_cond_name q, g_cond_context = gq_cond_context q,
     g_expires_at = gq_expires_at q, g_tenant = Some (oc_tenant_id c)\<rparr>"
  have "after\<lparr>g_granted_at := now\<rparr> = ?r"
    using assms by (auto simp: desired_row_def Let_def split: sum.splits if_splits option.splits)
  then have e: "f (after\<lparr>g_granted_at := now\<rparr>) = f ?r" for f :: "grant_row \<Rightarrow> string" by simp
  show "g_id after = (case before of None \<Rightarrow> new_id | Some b \<Rightarrow> g_id b)" using e[of g_id] by simp
  show "g_rtype after = rtype" using e[of g_rtype] by simp
  show "g_rid after = rid" using e[of g_rid] by simp
  show "g_relation after = gq_relation q" using e[of g_relation] by simp
  show "g_ptype after = gq_ptype q" using e[of g_ptype] by simp
  show "g_pid after = gq_pid q" using e[of g_pid] by simp
qed

lemma make_grant_cases:
  assumes "make_grant ot new_id mid fresh clash now c rtype rid q early db = Inr (ch, db')"
  obtains after marker db1 ops ids db3 where
    "rtype \<in> set resource_types" "live_request_principal ot c q"
    "desired_row new_id c rtype rid q (map_option grant_row_of (active_grant rtype rid q early)) now = Inr after"
    "(marker = None \<and> db1 = db) \<or> (\<exists>e m. active_grant rtype rid q early = Some e
        \<and> marker = Some m \<and> record_marker mid now e db = Inr (m, db1))"
    "map_option rg_id (active_grant rtype rid q db1) = map_option rg_id (active_grant rtype rid q early)"
    "ch_grant ch = assign_grant (case active_grant rtype rid q db1 of Some g0 \<Rightarrow> g0 | None \<Rightarrow> new_grant after c)
        after q (oc_user_id c)"
    "queue_ops fresh ops (case marker of Some m \<Rightarrow> markers_table | None \<Rightarrow> grants_table)
        (case marker of Some m \<Rightarrow> rv_id m | None \<Rightarrow> rg_id (ch_grant ch)) now (put_grant (ch_grant ch) db1) = (ids, db3)"
    "db' = db3 \<or> (\<exists>m. marker = Some m \<and> db' = snd (finalize_revocations [rv_id m] now db3))"
proof -
  let ?ex = "active_grant rtype rid q early"
  let ?before = "map_option grant_row_of ?ex"
  have req: "check_request rtype q = Inr ()" and tgt: "check_target ot c rtype rid = Inr ()"
    and pr: "check_principal ot c q = Inr ()"
    using assms unfolding make_grant_def by (auto split: sum.splits)
  note a1 = assms[unfolded make_grant_def req tgt pr sum.case Let_def]
  obtain after where after: "desired_row new_id c rtype rid q ?before now = Inr after"
    using a1 by (auto split: sum.splits if_splits)
  note a2 = a1[unfolded after sum.case]
  obtain marker db1 where m: "(case ?ex of
        Some g \<Rightarrow> if ?before = Some after then Inr (None, db)
                  else (case record_marker mid now g db of
                          Inl e \<Rightarrow> Inl e | Inr (m, db1) \<Rightarrow> Inr (Some m, db1))
      | None \<Rightarrow> Inr (None, db)) = Inr (marker, db1)"
    using a2 by (auto split: if_splits sum.splits)
  note a3 = a2[unfolded m sum.case prod.case]
  let ?g = "assign_grant (case active_grant rtype rid q db1 of Some g0 \<Rightarrow> g0 | None \<Rightarrow> new_grant after c)
        after q (oc_user_id c)"
  have same: "map_option rg_id (active_grant rtype rid q db1) = map_option rg_id ?ex"
    using a3 by (auto split: if_splits)
  obtain ops where ops: "change_ops ot (put_grant ?g db1) ?before (Some after) now = Inr ops"
    using a3 by (auto split: if_splits sum.splits)
  obtain ids db3 where q: "queue_ops fresh ops (case marker of Some m \<Rightarrow> markers_table | None \<Rightarrow> grants_table)
        (case marker of Some m \<Rightarrow> rv_id m | None \<Rightarrow> rg_id ?g) now (put_grant ?g db1) = (ids, db3)"
    by fastforce
  have fin: "ch_grant ch = ?g \<and> (db' = db3 \<or> (\<exists>m. marker = Some m \<and> db' = snd (finalize_revocations [rv_id m] now db3)))"
    using a3 q unfolding ops sum.case by (cases marker) (auto split: if_splits)
  have src: "(marker = None \<and> db1 = db) \<or> (\<exists>e m. ?ex = Some e
        \<and> marker = Some m \<and> record_marker mid now e db = Inr (m, db1))"
    using m by (auto split: option.splits if_splits sum.splits)
  show thesis
  proof (rule that[OF _ _ after src same])
    show "rtype \<in> set resource_types" using req by (auto simp: check_request_def split: if_splits)
    show "live_request_principal ot c q" using pr by (simp add: check_principal_def split: if_splits)
    show "ch_grant ch = ?g" using fin by simp
    show "queue_ops fresh ops (case marker of Some m \<Rightarrow> markers_table | None \<Rightarrow> grants_table)
        (case marker of Some m \<Rightarrow> rv_id m | None \<Rightarrow> rg_id (ch_grant ch)) now (put_grant (ch_grant ch) db1) = (ids, db3)"
      unfolding conjunct1[OF fin] by (rule q)
    show "db' = db3 \<or> (\<exists>m. marker = Some m \<and> db' = snd (finalize_revocations [rv_id m] now db3))"
      using fin by simp
  qed
qed

lemma assign_grant_fields [simp]:
  "rg_id (assign_grant g r q u) = rg_id g" "rg_org (assign_grant g r q u) = rg_org g"
  "rg_state (assign_grant g r q u) = ''active''" "rg_rtype (assign_grant g r q u) = g_rtype r"
  "rg_rid (assign_grant g r q u) = g_rid r" "rg_relation (assign_grant g r q u) = g_relation r"
  "rg_ptype (assign_grant g r q u) = g_ptype r" "rg_pid (assign_grant g r q u) = g_pid r"
  by (simp_all add: assign_grant_def Let_def)

lemma live_request_kind:
  "live_request_principal ot c q \<Longrightarrow> gq_ptype q \<in> set [''user'', ''group'', ''organization'', ''agent'']"
  by (auto simp: live_request_principal_def Let_def split: if_splits)

lemma active_grant_Some:
  "active_grant rtype rid q db = Some g \<Longrightarrow> g \<in> set (z_grants db) \<and> rg_rtype g = rtype \<and> rg_rid g = rid
    \<and> rg_relation g = gq_relation q \<and> rg_ptype g = gq_ptype q \<and> rg_pid g = gq_pid q \<and> rg_state g = ''active''"
  by (auto simp: active_grant_def find_Some_iff)

lemma marker_refs_cong:
  "rg_rtype g = rg_rtype h \<Longrightarrow> rg_rid g = rg_rid h \<Longrightarrow> rg_relation g = rg_relation h \<Longrightarrow>
    rg_ptype g = rg_ptype h \<Longrightarrow> rg_pid g = rg_pid h \<Longrightarrow> marker_refs g = marker_refs h"
  by (simp add: marker_refs_def split: sum.split)

lemma finalize_other_ok:
  assumes "authz_ok db" "\<forall>g\<in>set (z_grants db). rg_state g = ''revoking'' \<longrightarrow>
       (\<exists>m\<in>set (z_markers db). covers (z_outbox db) m g \<and> rv_id m \<noteq> mid)"
  shows "authz_ok (snd (finalize_revocations [mid] now db))"
  by (rule finalize_authz_ok[OF assms(1)]) (use assms(2) in simp)

text \<open>A grant that is not being revoked does not disturb the markers of those that are.\<close>

lemma put_grant_others:
  assumes "distinct (map rg_id (z_grants db))" "rg_state g \<noteq> ''revoking''"
    "\<forall>x\<in>set (z_grants db). rg_state x = ''revoking'' \<longrightarrow>
       (\<exists>m\<in>set (z_markers db). covers (z_outbox db) m x \<and> rv_id m \<noteq> mid)"
  shows "\<forall>x\<in>set (z_grants (put_grant g db)). rg_state x = ''revoking'' \<longrightarrow>
       (\<exists>m\<in>set (z_markers (put_grant g db)). covers (z_outbox (put_grant g db)) m x \<and> rv_id m \<noteq> mid)"
  unfolding put_grant_fields put_grant_set[OF assms(1)] Ball_def using assms(2,3) by blast

lemma queue_keeps_other_cover:
  assumes q: "queue_ops fresh ops markers_table src now db = (ids, db')"
    and c: "\<forall>g\<in>set (z_grants db). rg_state g = ''revoking'' \<longrightarrow>
       (\<exists>m\<in>set (z_markers db). covers (z_outbox db) m g \<and> rv_id m \<noteq> src)"
  shows "\<forall>g\<in>set (z_grants db'). rg_state g = ''revoking'' \<longrightarrow>
       (\<exists>m\<in>set (z_markers db'). covers (z_outbox db') m g \<and> rv_id m \<noteq> src)"
proof -
  obtain new where new: "enqueue_ops (number_ops fresh ops) markers_table src now (z_outbox db) = z_outbox db @ new"
    "\<forall>r\<in>set new. ob_source_table r = markers_table \<and> ob_source_id r = src"
    using enqueue_shape[of "number_ops fresh ops" markers_table src now "z_outbox db"] by blast
  have ob: "z_outbox db' = z_outbox db @ new" using q new(1) by (auto simp: queue_ops_def)
  have "covers (z_outbox db') m g" if "covers (z_outbox db) m g" "rv_id m \<noteq> src" for m g
    using that new(2) unfolding ob covers_def by auto
  then show ?thesis using c queue_ops_fields[OF q] by (metis (no_types, lifting))
qed

lemma make_grant_ok:
  assumes ok: "authz_ok db" and fm: "fresh_marker mid db" and fr: "fresh_ids fresh db"
    and nid: "new_id \<notin> rg_id ` set (z_grants db)" and pid: "CHR ''#'' \<notin> set (gq_pid q)"
    and mk: "make_grant ot new_id mid fresh clash now c rtype rid q early db = Inr (ch, db')"
  shows "authz_ok db' \<and> evolves db db'"
proof -
  obtain after marker db1 ops ids db3 where
    rt: "rtype \<in> set resource_types" and pr: "live_request_principal ot c q"
    and af: "desired_row new_id c rtype rid q (map_option grant_row_of (active_grant rtype rid q early)) now = Inr after"
    and mr: "(marker = None \<and> db1 = db) \<or> (\<exists>e m. active_grant rtype rid q early = Some e
        \<and> marker = Some m \<and> record_marker mid now e db = Inr (m, db1))"
    and same: "map_option rg_id (active_grant rtype rid q db1) = map_option rg_id (active_grant rtype rid q early)"
    and g: "ch_grant ch = assign_grant (case active_grant rtype rid q db1 of Some g0 \<Rightarrow> g0 | None \<Rightarrow> new_grant after c)
        after q (oc_user_id c)"
    and qu: "queue_ops fresh ops (case marker of Some m \<Rightarrow> markers_table | None \<Rightarrow> grants_table)
        (case marker of Some m \<Rightarrow> rv_id m | None \<Rightarrow> rg_id (ch_grant ch)) now (put_grant (ch_grant ch) db1) = (ids, db3)"
    and fin: "db' = db3 \<or> (\<exists>m. marker = Some m \<and> db' = snd (finalize_revocations [rv_id m] now db3))"
    by (rule make_grant_cases[OF mk])
  let ?g = "ch_grant ch"
  let ?others = "\<lambda>mid d. \<forall>g\<in>set (z_grants d). rg_state g = ''revoking'' \<longrightarrow>
       (\<exists>m\<in>set (z_markers d). covers (z_outbox d) m g \<and> rv_id m \<noteq> mid)"
  have rec: "authz_ok db1 \<and> z_grants db1 = z_grants db \<and> z_outbox db1 = z_outbox db
      \<and> (\<forall>m. marker = Some m \<longrightarrow> ?others (rv_id m) db1)"
    using mr
  proof
    assume "marker = None \<and> db1 = db" then show ?thesis using ok by simp
  next
    assume "\<exists>e m. active_grant rtype rid q early = Some e \<and> marker = Some m \<and> record_marker mid now e db = Inr (m, db1)"
    then obtain e m where em: "marker = Some m" "record_marker mid now e db = Inr (m, db1)" by blast
    then obtain su ob where m: "marker = Some m"
      "record_revocation mid now (rg_org e) (rg_tenant e) ''grant'' su ob db = Inr (m, db1)"
      using record_marker_Inr[OF em(2)] by blast
    show ?thesis using record_ok[OF ok fm m(2)] record_fields(1,2)[OF m(2)] m(1) by simp
  qed
  have d1: "distinct (map rg_id (z_grants db1))" using conjunct1[OF rec] unfolding authz_ok_def by blast
  note fields = desired_row_fields[OF af]
  have gf: "rg_state ?g = ''active''" "rg_rtype ?g = rtype" "rg_rid ?g = rid" "rg_relation ?g = gq_relation q"
    "rg_ptype ?g = gq_ptype q" "rg_pid ?g = gq_pid q"
    unfolding g by (simp_all add: fields)
  have gok: "grant_ok ?g" using rt live_request_kind[OF pr] pid gf by (simp add: grant_ok_def)
  have ident: "identity x = identity ?g" if x: "x \<in> set (z_grants db1)" "rg_id x = rg_id ?g" for x
  proof (cases "active_grant rtype rid q db1")
    case None
    then have "rg_id ?g = new_id" using same by (simp add: g fields new_grant_def)
    then have "rg_id x = new_id" "x \<in> set (z_grants db)" using x rec by simp_all
    then show ?thesis using nid imageI[of x "set (z_grants db)" rg_id] by simp
  next
    case (Some g0)
    note a = active_grant_Some[OF Some]
    have "x = g0" using x Some a d1 by (auto simp: g distinct_map inj_on_def)
    then show ?thesis unfolding identity_eq using a gf marker_refs_cong[of g0 ?g] Some by (simp add: g fields)
  qed
  let ?db2 = "put_grant ?g db1"
  have ok2: "authz_ok ?db2" by (rule put_grant_ok) (use rec gok gf in simp_all)
  have ev: "evolves db ?db2"
    using evolves_trans[OF evolves_same_grants put_grant_evolves[OF d1]] rec ident by blast
  have oth: "?others (rv_id m) ?db2" if "marker = Some m" for m
    by (rule put_grant_others[OF d1]) (use gf(1) in simp, use rec that in blast)
  have ok3: "authz_ok db3"
  proof (rule queue_ops_ok[OF ok2 _ _ qu])
    show "fresh_ids fresh ?db2" using fr rec by (simp add: fresh_ids_def)
    show "?others (case marker of Some m \<Rightarrow> rv_id m | None \<Rightarrow> rg_id ?g) ?db2"
      if "(case marker of Some m \<Rightarrow> markers_table | None \<Rightarrow> grants_table) = markers_table"
      using that oth by (cases marker) (simp_all add: markers_table_def grants_table_def)
  qed
  note q3 = queue_ops_fields[OF qu]
  show ?thesis
  proof (cases "db' = db3")
    case True then show ?thesis using ok3 ev q3 by (simp add: evolves_def)
  next
    case False
    then obtain m where m: "marker = Some m" "db' = snd (finalize_revocations [rv_id m] now db3)" using fin by blast
    have "?others (rv_id m) db3"
      using queue_keeps_other_cover[OF _ oth[OF m(1)]] qu m(1) by simp
    then show ?thesis using finalize_other_ok[OF ok3] m(2) ev q3 by (simp add: evolves_def)
  qed
qed

section \<open>Closing a grant\<close>

lemma close_grants_evolves: "evolves db (close_grants now ids db)"
proof -
  have "map identity (z_grants (close_grants now ids db)) = map identity (z_grants db)"
    by (simp add: close_grants_def identity_def)
  then have "set (map identity (z_grants (close_grants now ids db))) = set (map identity (z_grants db))"
    by (rule arg_cong)
  then show ?thesis unfolding evolves_def list.set_map by blast
qed

lemma finalize_pairs_grants: "finalize_pairs now gs db = Inr db' \<Longrightarrow> z_grants db' = z_grants db"
proof (induction gs arbitrary: db)
  case (Cons g gs)
  then show ?case using finalize_pair_grants[of now g db] by (auto split: sum.splits)
qed simp

lemma complete_revocations_evolves: "complete_revocations now ids db = Inr (out, db') \<Longrightarrow> evolves db db'"
  using close_grants_evolves finalize_pairs_grants
  by (fastforce simp: complete_revocations_def Let_def evolves_def split: if_splits sum.splits)

lemma complete_sources_evolves: "complete_sources now sources db = Inr db' \<Longrightarrow> evolves db db'"
  using complete_revocations_evolves
  by (fastforce simp: complete_sources_def Let_def evolves_def split: if_splits sum.splits)

lemma process_outbox_evolves:
  assumes "process_outbox wr dl ids limit stamp locked db s = (run, db', s')"
  shows "evolves db db'"
proof -
  let ?b = "due_rows ids limit stamp locked (z_outbox db)"
  obtain res s1 where a: "apply_rows wr dl (older_pending ?b (z_outbox db)) stamp [] ?b (z_outbox db) s = (res, s1)"
    by fastforce
  show ?thesis
  proof (cases "?b = [] \<or> res = None")
    case True
    then have "db' = db" using assms a by (cases "?b = []") (auto simp: process_outbox_def Let_def)
    then show ?thesis by simp
  next
    case False
    then obtain r obs where res: "res = Some (r, obs)" and ne: "?b \<noteq> []" by (cases res) auto
    let ?db1 = "db\<lparr>z_outbox := obs\<rparr>"
    let ?src = "remdups (map (\<lambda>r. (ob_source_table r, ob_source_id r))
        (filter (\<lambda>x. ob_id x \<in> set (run_processed r)) ?b))"
    have db': "db' = commit_session (case complete_sources stamp ?src ?db1 of Inl _ \<Rightarrow> ?db1 | Inr db2 \<Rightarrow> db2)"
      using assms ne a res by (simp add: process_outbox_def Let_def)
    have "evolves ?db1 (case complete_sources stamp ?src ?db1 of Inl _ \<Rightarrow> ?db1 | Inr db2 \<Rightarrow> db2)"
      using complete_sources_evolves[of stamp ?src ?db1] by (cases "complete_sources stamp ?src ?db1") auto
    then show ?thesis unfolding db' by (simp add: evolves_def commit_session_def)
  qed
qed

lemma close_grant_cases:
  assumes "close_grant ot mid fresh now actor system found db = Inr (Some (ch, db'))"
  obtains m db1 g ops ids db3 where "record_marker mid now found db = Inr (m, db1)"
    "g \<in> set (z_grants db1)" "rg_id g = rg_id found" "rg_state g = ''active''"
    "queue_ops fresh ops grants_table (rg_id g) now
        (put_grant (g\<lparr>rg_state := ''revoking'', rg_revoked_by := actor\<rparr>) db1) = (ids, db3)"
    "db' = db3 \<or> (\<exists>out. complete_revocations now [rg_id g] db3 = Inr (out, db'))"
proof -
  obtain m db1 where m: "record_marker mid now found db = Inr (m, db1)"
    using assms by (auto simp: close_grant_def split: sum.splits)
  note a1 = assms[unfolded close_grant_def m sum.case prod.case Let_def]
  obtain g where g: "find (\<lambda>g. rg_id g = rg_id found \<and> rg_state g = ''active'') (z_grants db1) = Some g"
    using a1 by (auto split: option.splits)
  let ?db2 = "put_grant (g\<lparr>rg_state := ''revoking'', rg_revoked_by := actor\<rparr>) db1"
  note a2 = a1[unfolded g option.case]
  obtain ops where ops: "change_ops ot ?db2 (Some (grant_row_of g)) None now = Inr ops"
    using a2 by (auto split: sum.splits if_splits)
  obtain ids db3 where q: "queue_ops fresh ops grants_table (rg_id g) now ?db2 = (ids, db3)" by fastforce
  have "db' = db3 \<or> (\<exists>out. complete_revocations now [rg_id g] db3 = Inr (out, db'))"
    using a2 unfolding ops sum.case q prod.case by (auto split: if_splits sum.splits)
  then show thesis using that[OF m _ _ _ q] g by (auto simp: find_Some_iff)
qed

lemma close_grant_ok:
  assumes ok: "authz_ok db" and fm: "fresh_marker mid db" and fr: "fresh_ids fresh db"
    and early: "found \<in> set (z_grants early)" "evolves early db"
    and cl: "close_grant ot mid fresh now actor system found db = Inr (Some (ch, db'))"
  shows "authz_ok db' \<and> evolves db db'"
proof -
  obtain m db1 g ops ids db3 where
    m: "record_marker mid now found db = Inr (m, db1)"
    and g: "g \<in> set (z_grants db1)" "rg_id g = rg_id found" "rg_state g = ''active''"
    and qu: "queue_ops fresh ops grants_table (rg_id g) now
        (put_grant (g\<lparr>rg_state := ''revoking'', rg_revoked_by := actor\<rparr>) db1) = (ids, db3)"
    and fin: "db' = db3 \<or> (\<exists>out. complete_revocations now [rg_id g] db3 = Inr (out, db'))"
    by (rule close_grant_cases[OF cl])
  let ?g = "g\<lparr>rg_state := ''revoking'', rg_revoked_by := actor\<rparr>"
  obtain su ob where rr: "record_revocation mid now (rg_org found) (rg_tenant found) ''grant'' su ob db = Inr (m, db1)"
    using record_marker_Inr[OF m] by blast
  note rf = record_fields[OF rr]
  have ok1: "authz_ok db1" by (rule record_ok(1)[OF ok fm rr])
  then have d1: "distinct (map rg_id (z_grants db1))" unfolding authz_ok_def by blast
  have "identity found \<in> identity ` set (z_grants db)" using early by (auto simp: evolves_def)
  then obtain h where h: "h \<in> set (z_grants db1)" "identity h = identity found" using rf(1) by auto
  then have "h = g" using d1 g by (auto simp: identity_eq distinct_map inj_on_def)
  then have same: "rg_org ?g = rg_org found" "marker_refs ?g = marker_refs found"
    using h(2) by (simp_all add: identity_eq)
  note cov = record_marker_covers[OF m fm same]
  have gok: "grant_ok ?g" using ok1 g(1) unfolding authz_ok_def grant_ok_def by simp
  let ?db2 = "put_grant ?g db1"
  have ok2: "authz_ok ?db2"
    by (rule put_grant_ok[OF ok1 gok]) (use cov in blast)
  have "identity x = identity ?g" if "x \<in> set (z_grants db1)" "rg_id x = rg_id ?g" for x
  proof -
    have "x = g" using that g(1) d1 by (auto simp: distinct_map inj_on_def)
    then show ?thesis by (simp add: identity_def)
  qed
  then have ev: "evolves db ?db2"
    using evolves_trans[OF evolves_same_grants[OF rf(1)] put_grant_evolves[OF d1]] by blast
  have ok3: "authz_ok db3"
  proof (rule queue_ops_ok[OF ok2 _ _ qu])
    show "fresh_ids fresh ?db2" using fr rf(2) by (simp add: fresh_ids_def)
    show "grants_table = markers_table \<Longrightarrow> \<forall>x\<in>set (z_grants ?db2). rg_state x = ''revoking'' \<longrightarrow>
       (\<exists>n\<in>set (z_markers ?db2). covers (z_outbox ?db2) n x \<and> rv_id n \<noteq> rg_id g)"
      by (simp add: grants_table_def markers_table_def)
  qed
  have ev3: "evolves db db3" using ev queue_ops_fields[OF qu] by (simp add: evolves_def)
  show ?thesis
    using fin ok3 ev3 complete_revocations_ok[OF ok3] complete_revocations_evolves evolves_trans by blast
qed

end
