(* ===== verification/Lifecycle.thy ===== *)
theory Lifecycle
  imports GrantSafety
begin

text \<open>
  Resources created, handed over and deleted (\<open>authz/resource_lifecycle\<close>) and the pruning of
  closed rows (\<open>authz/jobs\<close>): the other writers of the authorization tables.

  A hook takes the ORM row as a \<open>lifecycle_row\<close> (the columns the hooks read; an MCP server comes
  with the tools its deletion reads). \<open>on\<close> is false in legacy mode. Dropping a deleted resource's
  per-user connections touches other tables and is not modelled. The lemmas show that each hook
  keeps the tables consistent.
\<close>

record owned_columns =
  oc_row_id :: uuid
  oc_row_org :: "uuid option"
  oc_row_tenant :: "uuid option"
  oc_row_owner :: "uuid option"
  oc_row_system :: bool

datatype lifecycle_row =
    AgentOrm owned_columns "micros option"
  | SkillOrm owned_columns
  | ToolOrm owned_columns
  | McpServerOrm owned_columns "mcp_tool_row list"
  | CredentialOrm owned_columns string
  | MarketplaceItemOrm owned_columns "string option"
  | McpToolOrm mcp_tool_row

fun resource_type_of :: "lifecycle_row \<Rightarrow> string" where
  "resource_type_of (AgentOrm _ _) = ''agent''"
| "resource_type_of (SkillOrm _) = ''skill''"
| "resource_type_of (ToolOrm _) = ''tool''"
| "resource_type_of (McpServerOrm _ _) = ''mcp_server''"
| "resource_type_of (CredentialOrm _ _) = ''credential''"
| "resource_type_of (MarketplaceItemOrm _ _) = ''marketplace_item''"
| "resource_type_of (McpToolOrm _) = ''mcp_tool''"

fun table_of :: "lifecycle_row \<Rightarrow> string" where
  "table_of (AgentOrm _ _) = ''agents''"
| "table_of (SkillOrm _) = ''skills''"
| "table_of (ToolOrm _) = ''tools''"
| "table_of (McpServerOrm _ _) = ''mcp_servers''"
| "table_of (CredentialOrm _ _) = ''credentials''"
| "table_of (MarketplaceItemOrm _ _) = ''marketplace_items''"
| "table_of (McpToolOrm _) = ''mcp_tools''"

fun columns_of :: "lifecycle_row \<Rightarrow> owned_columns option" where
  "columns_of (AgentOrm c _) = Some c"
| "columns_of (SkillOrm c) = Some c"
| "columns_of (ToolOrm c) = Some c"
| "columns_of (McpServerOrm c _) = Some c"
| "columns_of (CredentialOrm c _) = Some c"
| "columns_of (MarketplaceItemOrm c _) = Some c"
| "columns_of (McpToolOrm _) = None"

definition lifecycle_id :: "lifecycle_row \<Rightarrow> uuid" where
  "lifecycle_id r = (case r of McpToolOrm t \<Rightarrow> mt_id t | _ \<Rightarrow> oc_row_id (the (columns_of r)))"

definition plain_resource :: "string \<Rightarrow> owned_columns \<Rightarrow> bool \<Rightarrow> micros option \<Rightarrow> row" where
  "plain_resource kind c system archived =
     ResourceRow \<lparr>rs_type = kind, rs_id = oc_row_id c, rs_org = oc_row_org c, rs_owner = oc_row_owner c,
       rs_system = system, rs_archived_at = archived\<rparr>"

fun source_row :: "lifecycle_row \<Rightarrow> row" where
  "source_row (AgentOrm c a) = plain_resource ''agent'' c False a"
| "source_row (SkillOrm c) = plain_resource ''skill'' c (oc_row_system c) None"
| "source_row (ToolOrm c) = plain_resource ''tool'' c (oc_row_system c) None"
| "source_row (McpServerOrm c _) = plain_resource ''mcp_server'' c (oc_row_system c) None"
| "source_row (CredentialOrm c scope) =
     CredentialRow \<lparr>cr_id = oc_row_id c, cr_org = oc_row_org c, cr_tenant = oc_row_tenant c,
       cr_owner = oc_row_owner c, cr_scope = scope, cr_system = oc_row_system c\<rparr>"
| "source_row (MarketplaceItemOrm c publication) =
     MarketplaceItemRow \<lparr>mi_id = oc_row_id c, mi_org = oc_row_org c, mi_tenant = oc_row_tenant c,
       mi_owner = oc_row_owner c, mi_system = oc_row_system c,
       mi_publication = (case publication of Some p \<Rightarrow> if p = [] then ''none'' else p | None \<Rightarrow> ''none'')\<rparr>"
| "source_row (McpToolOrm t) = McpToolRow t"

text \<open>\<open>dataclasses.replace(row, owner_id=...)\<close>\<close>

fun with_owner :: "row \<Rightarrow> uuid option \<Rightarrow> row" where
  "with_owner (ResourceRow r) v = ResourceRow (r\<lparr>rs_owner := v\<rparr>)"
| "with_owner (CredentialRow r) v = CredentialRow (r\<lparr>cr_owner := v\<rparr>)"
| "with_owner (MarketplaceItemRow r) v = MarketplaceItemRow (r\<lparr>mi_owner := v\<rparr>)"
| "with_owner r v = r"

datatype lifecycle_error = LifecycleRule rule_error | NoOwner | LifecycleRevocation revocation_error

definition any_subject :: string where "any_subject = ''*''"

text \<open>\<open>_sorted(set(...))\<close>\<close>

definition sorted_set :: "relation_tuple list \<Rightarrow> relation_tuple list" where
  "sorted_set ts = sort_key tuple_sort_key (remdups ts)"

definition delete_op :: "relation_tuple \<Rightarrow> tuple_op" where
  "delete_op t = \<lparr>to_kind = OpDelete, to_tuple = t, to_replace = False\<rparr>"

definition write_op :: "relation_tuple \<Rightarrow> tuple_op" where
  "write_op t = \<lparr>to_kind = OpWrite, to_tuple = t, to_replace = False\<rparr>"

text \<open>\<open>_queue\<close>: a row of an organization gets a marker that closes with its deletes.\<close>

definition queue_change ::
    "uuid \<Rightarrow> (nat \<Rightarrow> uuid) \<Rightarrow> lifecycle_row \<Rightarrow> tuple_op list \<Rightarrow> string \<Rightarrow> string \<Rightarrow> micros \<Rightarrow> authz_db
      \<Rightarrow> lifecycle_error + (uuid list \<times> authz_db)" where
  "queue_change mid fresh r ops scope subject now db =
     (if ops = [] then Inr ([], db)
      else case (Option.bind (columns_of r) oc_row_org, Option.bind (columns_of r) oc_row_tenant) of
        (Some org, Some tenant) \<Rightarrow>
          (case record_revocation mid now org tenant scope subject
                  (ref (resource_type_of r) (lifecycle_id r)) db of
             Inl e \<Rightarrow> Inl (LifecycleRevocation e)
           | Inr (m, db1) \<Rightarrow> Inr (queue_ops fresh ops markers_table (rv_id m) now db1))
      | _ \<Rightarrow> Inr (queue_ops fresh ops (table_of r) (lifecycle_id r) now db))"

definition on_resource_created ::
    "bool \<Rightarrow> (nat \<Rightarrow> uuid) \<Rightarrow> lifecycle_row \<Rightarrow> micros \<Rightarrow> authz_db \<Rightarrow> lifecycle_error + (uuid list \<times> authz_db)"
  where
  "on_resource_created on fresh r now db =
     (if \<not> on then Inr ([], db)
      else case tuples_for now (source_row r) of
        Inl e \<Rightarrow> Inl (LifecycleRule e)
      | Inr ts \<Rightarrow> Inr (queue_ops fresh (map write_op ts) (table_of r) (lifecycle_id r) now db))"

definition on_owner_changed ::
    "bool \<Rightarrow> uuid \<Rightarrow> (nat \<Rightarrow> uuid) \<Rightarrow> lifecycle_row \<Rightarrow> uuid option \<Rightarrow> micros \<Rightarrow> authz_db
      \<Rightarrow> lifecycle_error + (uuid list \<times> authz_db)" where
  "on_owner_changed on mid fresh r previous now db =
     (if \<not> on then Inr ([], db)
      else if columns_of r = None then Inl NoOwner
      else case tuples_for now (with_owner (source_row r) previous) of
        Inl e \<Rightarrow> Inl (LifecycleRule e)
      | Inr old \<Rightarrow>
      (case tuples_for now (source_row r) of
        Inl e \<Rightarrow> Inl (LifecycleRule e)
      | Inr new \<Rightarrow>
          let ops = map delete_op (sorted_set (filter (\<lambda>t. t \<notin> set new) old))
                  @ map write_op (sorted_set (filter (\<lambda>t. t \<notin> set old) new));
              subject = (case previous of None \<Rightarrow> any_subject | Some u \<Rightarrow> ref ''user'' u)
          in queue_change mid fresh r ops ''ownership'' subject now db))"

definition retired_by :: "string \<Rightarrow> uuid \<Rightarrow> resource_grant \<Rightarrow> bool" where
  "retired_by kind rid g =
     (rg_state g = ''active''
      \<and> ((rg_rtype g = kind \<and> rg_rid g = rid)
         \<or> (kind = ''agent'' \<and> rg_ptype g = ''agent'' \<and> rg_pid g = rid)))"

definition retire_grants :: "string \<Rightarrow> uuid \<Rightarrow> micros \<Rightarrow> authz_db \<Rightarrow> authz_db" where
  "retire_grants kind rid now db =
     db\<lparr>z_grants := map (\<lambda>g. if retired_by kind rid g
        then g\<lparr>rg_state := ''revoked'', rg_revoked_at := Some now\<rparr> else g) (z_grants db)\<rparr>"

definition own_rows :: "lifecycle_row \<Rightarrow> row list" where
  "own_rows r =
     source_row r # (case r of McpServerOrm _ tools \<Rightarrow> map (source_row \<circ> McpToolOrm) tools | _ \<Rightarrow> [])"

definition on_resource_deleted ::
    "bool \<Rightarrow> uuid \<Rightarrow> (nat \<Rightarrow> uuid) \<Rightarrow> lifecycle_row \<Rightarrow> micros \<Rightarrow> authz_db
      \<Rightarrow> lifecycle_error + (uuid list \<times> authz_db)" where
  "on_resource_deleted on mid fresh r now db =
     (if \<not> on then Inr ([], db)
      else
        let kind = resource_type_of r; rid = lifecycle_id r;
            retired = sort_key rg_id (filter (retired_by kind rid) (z_grants db))
        in case all_tuples (tuples_for now) (own_rows r) of
             Inl e \<Rightarrow> Inl (LifecycleRule e)
           | Inr own \<Rightarrow>
          (case all_tuples (written_tuples \<circ> grant_row_of) retired of
             Inl e \<Rightarrow> Inl (LifecycleRule e)
           | Inr found \<Rightarrow>
               queue_change mid fresh r (map delete_op (sorted_set (own @ found))) ''resource'' any_subject now
                 (retire_grants kind rid now db)))"

text \<open>
  \<open>rows\<close> and \<open>markers\<close>: the chunk of rows the unordered \<open>LIMIT\<close> subqueries pick.
\<close>

definition prune :: "micros \<Rightarrow> uuid list \<Rightarrow> uuid list \<Rightarrow> authz_db \<Rightarrow> (nat \<times> nat) \<times> authz_db" where
  "prune cutoff rows markers db =
     (let old_row = (\<lambda>r. ob_id r \<in> set rows
            \<and> (case ob_processed_at r of None \<Rightarrow> False | Some t \<Rightarrow> t < cutoff));
          old_marker = (\<lambda>m. rv_id m \<in> set markers
            \<and> (case rv_finalized_at m of None \<Rightarrow> False | Some t \<Rightarrow> t < cutoff))
      in ((length (filter old_row (z_outbox db)), length (filter old_marker (z_markers db))),
          db\<lparr>z_outbox := filter (\<lambda>r. \<not> old_row r) (z_outbox db),
             z_markers := filter (\<lambda>m. \<not> old_marker m) (z_markers db)\<rparr>))"

section \<open>The hooks keep the tables consistent\<close>

lemma table_of_other: "table_of r \<noteq> markers_table" "table_of r \<noteq> grants_table"
  by (cases r; simp add: markers_table_def grants_table_def)+

lemma recorded_queue_ok:
  assumes ok: "authz_ok db" and fm: "fresh_marker mid db" and fr: "fresh_ids fresh db"
    and r: "record_revocation mid now org tenant scope subject ob db = Inr (m, db1)"
    and q: "queue_ops fresh ops markers_table (rv_id m) t db1 = (ids, db')"
  shows "authz_ok db' \<and> evolves db db'"
proof -
  note rf = record_fields[OF r]
  have "fresh_ids fresh db1" using fr rf(2) by (simp add: fresh_ids_def)
  then have "authz_ok db'"
    using queue_ops_ok[OF record_ok(1)[OF ok fm r] _ _ q] record_ok(2)[OF ok fm r] by blast
  then show ?thesis using queue_ops_fields[OF q] rf(1) by (simp add: evolves_def)
qed

lemma plain_queue_ok:
  assumes "authz_ok db" "fresh_ids fresh db" "table \<noteq> markers_table"
    "queue_ops fresh ops table src t db = (ids, db')"
  shows "authz_ok db' \<and> evolves db db'"
  using queue_ops_ok[OF assms(1,2) _ assms(4)] queue_ops_fields[OF assms(4)] assms(3)
  by (simp add: evolves_def)

lemma queue_change_ok:
  assumes ok: "authz_ok db" and fm: "fresh_marker mid db" and fr: "fresh_ids fresh db"
    and q: "queue_change mid fresh r ops scope subject now db = Inr (ids, db')"
  shows "authz_ok db' \<and> evolves db db'"
proof (cases "ops = []")
  case True then show ?thesis using q ok by (simp add: queue_change_def)
next
  case False
  show ?thesis
  proof (cases "\<exists>org tenant m db1. record_revocation mid now org tenant scope subject
      (ref (resource_type_of r) (lifecycle_id r)) db = Inr (m, db1)
      \<and> queue_ops fresh ops markers_table (rv_id m) now db1 = (ids, db')")
    case True then show ?thesis using recorded_queue_ok[OF ok fm fr] by blast
  next
    case no: False
    have "queue_ops fresh ops (table_of r) (lifecycle_id r) now db = (ids, db')"
      using q False no
      by (auto simp: queue_change_def split: option.splits sum.splits)
    then show ?thesis using plain_queue_ok[OF ok fr table_of_other(1)] by blast
  qed
qed

lemma retire_grants_ok:
  assumes ok: "authz_ok db"
  shows "authz_ok (retire_grants kind rid now db) \<and> evolves db (retire_grants kind rid now db)"
proof -
  let ?db = "retire_grants kind rid now db"
  have f: "z_markers ?db = z_markers db" "z_outbox ?db = z_outbox db"
    "map rg_id (z_grants ?db) = map rg_id (z_grants db)" "map identity (z_grants ?db) = map identity (z_grants db)"
    by (simp_all add: retire_grants_def identity_def)
  have c: "covered ?db g = covered db g" for g unfolding covered_def f ..
  have same: "grant_ok (g\<lparr>rg_state := x, rg_revoked_at := y\<rparr>) = grant_ok g" for g x y
    by (simp add: grant_ok_def)
  have "set (map identity (z_grants ?db)) = set (map identity (z_grants db))" by (rule arg_cong) (rule f(4))
  then have "evolves db ?db" unfolding evolves_def list.set_map by blast
  moreover have "authz_ok ?db"
    using ok unfolding authz_ok_def f c by (auto simp: retire_grants_def same)
  ultimately show ?thesis by simp
qed

lemma created_ok:
  assumes "authz_ok db" "fresh_ids fresh db" "on_resource_created on fresh r now db = Inr (ids, db')"
  shows "authz_ok db' \<and> evolves db db'"
proof (cases on)
  case True
  then obtain ops where "queue_ops fresh ops (table_of r) (lifecycle_id r) now db = (ids, db')"
    using assms(3) by (auto simp: on_resource_created_def split: sum.splits)
  then show ?thesis by (rule plain_queue_ok[OF assms(1,2) table_of_other(1)])
qed (use assms in \<open>simp add: on_resource_created_def\<close>)

lemma owner_changed_ok:
  assumes "authz_ok db" "fresh_marker mid db" "fresh_ids fresh db"
    "on_owner_changed on mid fresh r previous now db = Inr (ids, db')"
  shows "authz_ok db' \<and> evolves db db'"
proof (cases on)
  case True
  then obtain ops scope subject where "queue_change mid fresh r ops scope subject now db = Inr (ids, db')"
    using assms(4) by (auto simp: on_owner_changed_def Let_def split: sum.splits if_splits)
  then show ?thesis by (rule queue_change_ok[OF assms(1-3)])
qed (use assms in \<open>simp add: on_owner_changed_def\<close>)

lemma deleted_ok:
  assumes ok: "authz_ok db" and fm: "fresh_marker mid db" and fr: "fresh_ids fresh db"
    and d: "on_resource_deleted on mid fresh r now db = Inr (ids, db')"
  shows "authz_ok db' \<and> evolves db db'"
proof (cases on)
  case True
  let ?db1 = "retire_grants (resource_type_of r) (lifecycle_id r) now db"
  note r1 = retire_grants_ok[OF ok, of "resource_type_of r" "lifecycle_id r" now]
  obtain ops where q: "queue_change mid fresh r ops ''resource'' any_subject now ?db1 = Inr (ids, db')"
    using True d by (auto simp: on_resource_deleted_def Let_def split: sum.splits)
  have "authz_ok db' \<and> evolves ?db1 db'"
  proof (rule queue_change_ok[OF conjunct1[OF r1] _ _ q])
    show "fresh_marker mid ?db1" using fm by (simp add: fresh_marker_def retire_grants_def)
    show "fresh_ids fresh ?db1" using fr by (simp add: fresh_ids_def retire_grants_def)
  qed
  then show ?thesis using r1 evolves_trans by blast
qed (use assms in \<open>simp add: on_resource_deleted_def\<close>)

lemma prune_ok:
  assumes ok: "authz_ok db"
  shows "authz_ok (snd (prune cutoff rows markers db)) \<and> evolves db (snd (prune cutoff rows markers db))"
proof -
  let ?db = "snd (prune cutoff rows markers db)"
  have g: "z_grants ?db = z_grants db" by (simp add: prune_def Let_def)
  have sub: "set (z_outbox ?db) \<subseteq> set (z_outbox db)" by (auto simp: prune_def Let_def)
  have m: "x \<in> set (z_markers ?db)" if "x \<in> set (z_markers db)" "rv_finalized_at x = None" for x
    using that by (simp add: prune_def Let_def)
  have "covered ?db x" if c: "covered db x" for x
  proof -
    obtain n where n: "n \<in> set (z_markers db)" "covers (z_outbox db) n x" using c by (auto simp: covered_def)
    then have "covers (z_outbox ?db) n x" "rv_finalized_at n = None" using sub by (auto simp: covers_def)
    then show ?thesis using m n(1) by (auto simp: covered_def)
  qed
  moreover have "distinct (map rv_id (z_markers ?db))" "distinct (map ob_id (z_outbox ?db))"
    using ok by (simp_all add: prune_def Let_def authz_ok_def distinct_map_filter)
  ultimately show ?thesis using ok unfolding authz_ok_def g by (simp add: evolves_same_grants[OF g])
qed

end
