(* ===== verification/AuthzHistory.thy ===== *)
theory AuthzHistory
  imports Lifecycle
begin

text \<open>
  Every way the authorization tables move, as one step relation over the list of committed
  states (newest first). An operation may have read its grant in any state committed earlier;
  identifiers it draws are new to the tables. Steps: the grant service (\<open>make\<close>, \<open>revoke\<close>,
  \<open>revoke_as_system\<close>, \<open>expire\<close>), the resource hooks, any other service that records a marker and
  queues its deletes under it or queues changes under a table of its own (membership changes,
  catalog fan-out, reconciliation), the drain of the queue with any tuple store, and pruning.
\<close>

definition uuid_text :: "string \<Rightarrow> bool" where
  "uuid_text s = (CHR ''#'' \<notin> set s)"

inductive authz_step :: "'s writer \<Rightarrow> 's writer \<Rightarrow> authz_db list \<Rightarrow> authz_db \<Rightarrow> bool" for wr dl where
  make: "\<lbrakk>fresh_marker mid db; fresh_ids fresh db; new_id \<notin> rg_id ` set (z_grants db); uuid_text (gq_pid q);
      early \<in> set (db # hs);
      make_grant ot new_id mid fresh clash now c rtype rid q early db = Inr (ch, db')\<rbrakk>
    \<Longrightarrow> authz_step wr dl (db # hs) db'"
| revoke: "\<lbrakk>fresh_marker mid db; fresh_ids fresh db; early \<in> set (db # hs);
      revoke ot mid fresh now c gid early db = Inr (ch, db')\<rbrakk> \<Longrightarrow> authz_step wr dl (db # hs) db'"
| system: "\<lbrakk>fresh_marker mid db; fresh_ids fresh db; early \<in> set (db # hs);
      revoke_as_system ot mid fresh now gid early db = Inr (Some (ch, db'))\<rbrakk>
    \<Longrightarrow> authz_step wr dl (db # hs) db'"
| expire: "\<lbrakk>fresh_marker mid db; fresh_ids fresh db; early \<in> set (db # hs);
      expire_grant ot mid fresh now gid early db = Inr (Some (ch, db'))\<rbrakk>
    \<Longrightarrow> authz_step wr dl (db # hs) db'"
| created: "\<lbrakk>fresh_ids fresh db; on_resource_created on fresh r now db = Inr (ids, db')\<rbrakk>
    \<Longrightarrow> authz_step wr dl (db # hs) db'"
| handed_over: "\<lbrakk>fresh_marker mid db; fresh_ids fresh db;
      on_owner_changed on mid fresh r previous now db = Inr (ids, db')\<rbrakk> \<Longrightarrow> authz_step wr dl (db # hs) db'"
| deleted: "\<lbrakk>fresh_marker mid db; fresh_ids fresh db;
      on_resource_deleted on mid fresh r now db = Inr (ids, db')\<rbrakk> \<Longrightarrow> authz_step wr dl (db # hs) db'"
| marked: "\<lbrakk>fresh_marker mid db; fresh_ids fresh db;
      record_revocation mid now org tenant scope subject ob db = Inr (m, db1);
      queue_ops fresh ops markers_table (rv_id m) t db1 = (ids, db')\<rbrakk> \<Longrightarrow> authz_step wr dl (db # hs) db'"
| queued: "\<lbrakk>fresh_ids fresh db; table \<noteq> markers_table;
      queue_ops fresh ops table src now db = (ids, db')\<rbrakk> \<Longrightarrow> authz_step wr dl (db # hs) db'"
| drained: "process_outbox wr dl only limit stamp locked db s = (run, db', s')
    \<Longrightarrow> authz_step wr dl (db # hs) db'"
| pruned: "authz_step wr dl (db # hs) (snd (prune cutoff rows markers db))"

inductive_cases authz_stepE: "authz_step wr dl hs db'"

definition authz_commit :: "'s writer \<Rightarrow> 's writer \<Rightarrow> authz_db list \<Rightarrow> authz_db list \<Rightarrow> bool" where
  "authz_commit wr dl hs hs' = (\<exists>db'. authz_step wr dl hs db' \<and> hs' = commit_session db' # hs)"

definition empty_tables :: "authz_db \<Rightarrow> bool" where
  "empty_tables db = (z_grants db = [] \<and> z_markers db = [] \<and> z_outbox db = [])"

definition authz_reachable :: "'s writer \<Rightarrow> 's writer \<Rightarrow> authz_db list \<Rightarrow> bool" where
  "authz_reachable wr dl hs = (\<exists>db. empty_tables db \<and> rtranclp (authz_commit wr dl) [db] hs)"

section \<open>The invariant\<close>

fun history_ok :: "authz_db list \<Rightarrow> bool" where
  "history_ok [] = False"
| "history_ok (db # hs) = (authz_ok db \<and> (\<forall>e\<in>set hs. evolves e db))"

lemma closed_ok:
  assumes h: "history_ok (db # hs)" and e: "early \<in> set (db # hs)"
    and f: "fresh_marker mid db" "fresh_ids fresh db"
    and g: "row_get rg_id gid (z_grants early) = Some g"
    and c: "close_grant ot mid fresh now actor system g db = Inr (Some (ch, db'))"
  shows "authz_ok db' \<and> evolves db db'"
  by (rule close_grant_ok[where early = early, OF _ f _ _ c]) (use h e row_get_Some[OF g] in auto)

lemma authz_step_ok:
  assumes "authz_step wr dl (db # hs) db'" "history_ok (db # hs)"
  shows "authz_ok db' \<and> evolves db db'"
proof -
  have ok: "authz_ok db" using assms(2) by simp
  from assms(1) show ?thesis
  proof (cases rule: authz_step.cases)
    case make then show ?thesis using make_grant_ok[OF ok] unfolding uuid_text_def by blast
  next
    case (revoke mid fresh early ot now c gid ch)
    obtain g where "row_get rg_id gid (z_grants early) = Some g"
      "close_grant ot mid fresh now (Some (oc_user_id c)) False g db = Inr (Some (ch, db'))"
      using revoke(4) by (auto simp: revoke_def split: option.splits if_splits sum.splits)
    then show ?thesis by (rule closed_ok[OF assms(2) revoke(3,1,2)])
  next
    case (system mid fresh early ot now gid ch)
    obtain g where "row_get rg_id gid (z_grants early) = Some g"
      "close_grant ot mid fresh now None True g db = Inr (Some (ch, db'))"
      using system(4) by (auto simp: revoke_as_system_def split: option.splits if_splits)
    then show ?thesis by (rule closed_ok[OF assms(2) system(3,1,2)])
  next
    case (expire mid fresh early ot now gid ch)
    obtain g where "row_get rg_id gid (z_grants early) = Some g"
      "close_grant ot mid fresh now None False g db = Inr (Some (ch, db'))"
      using expire(4) by (auto simp: expire_grant_def split: option.splits if_splits)
    then show ?thesis by (rule closed_ok[OF assms(2) expire(3,1,2)])
  next
    case created then show ?thesis using created_ok[OF ok] by blast
  next
    case handed_over then show ?thesis using owner_changed_ok[OF ok] by blast
  next
    case deleted then show ?thesis using deleted_ok[OF ok] by blast
  next
    case marked then show ?thesis using recorded_queue_ok[OF ok] by blast
  next
    case queued then show ?thesis using plain_queue_ok[OF ok] by blast
  next
    case (drained only limit stamp locked s run s')
    then show ?thesis using process_outbox_ok[OF ok drained] process_outbox_evolves[OF drained] by simp
  next
    case pruned then show ?thesis using prune_ok[OF ok] by blast
  qed
qed

lemma authz_commit_ok:
  assumes "authz_commit wr dl hs hs'" "history_ok hs"
  shows "history_ok hs'"
proof -
  obtain db' where st: "authz_step wr dl hs db'" and hs': "hs' = commit_session db' # hs"
    using assms(1) by (auto simp: authz_commit_def)
  obtain db rest where hs: "hs = db # rest" using assms(2) by (cases hs) auto
  have n: "authz_ok db'" "evolves db db'" using authz_step_ok st assms(2) unfolding hs by blast+
  have c: "evolves e (commit_session db') = evolves e db'" for e by (simp add: evolves_def commit_session_def)
  have "evolves e (commit_session db')" if "e \<in> set hs" for e
    using that n(2) evolves_trans[of e db db'] assms(2) unfolding c hs by auto
  then show ?thesis using n(1) by (simp add: hs')
qed

interpretation history: invariant_system "authz_commit wr dl" history_ok for wr dl
  by unfold_locales (rule authz_commit_ok)

lemma empty_history_ok: "empty_tables db \<Longrightarrow> history_ok [db]"
  by (simp add: empty_tables_def authz_ok_def)

lemma history_reachable_ok: "authz_reachable wr dl hs \<Longrightarrow> history_ok hs"
  unfolding authz_reachable_def using history.reach_inv empty_history_ok by blast

section \<open>The promise of the revocation protocol\<close>

text \<open>The principals a grant spoke for: a user (or who acts for one), an agent, or, for a group
  or an organization, everybody.\<close>

definition speaks_for :: "resource_grant \<Rightarrow> principal \<Rightarrow> bool" where
  "speaks_for g p =
     (pr_org p = rg_org g
      \<and> (rg_ptype g \<in> set [''group'', ''organization'']
         \<or> (pr_kind p = rg_ptype g \<and> pr_id p = rg_pid g)
         \<or> (rg_ptype g = ''user'' \<and> pr_acting_user p = Some (rg_pid g))))"

lemma covering_marker_vetoes:
  assumes "covers obs m g" "grant_ok g" "speaks_for g p"
  shows "marker_vetoes m p (ref (rg_rtype g) (rg_rid g))"
proof -
  have refs: "marker_refs g = Inr (rv_subject m, rv_object m)" and m: "rv_org m = rg_org g" "rv_finalized_at m = None"
    using assms(1) by (auto simp: covers_def)
  then obtain s where s: "principal_ref (rg_ptype g) (rg_pid g) (rg_relation g) = Inr s"
    "rv_subject m = s" "rv_object m = ref (rg_rtype g) (rg_rid g)"
    by (auto simp: marker_refs_def split: sum.splits)
  have "rv_subject m \<in> set (revocation_subjects p) \<or> \<not> actor_subject (rv_subject m)"
    using assms(2,3) s(1) unfolding s(2)
    by (auto simp: principal_ref_def grant_ok_def speaks_for_def revocation_subjects_def fga_def ref_def
        actor_subject_def starts_with_def split: if_splits)
  then show ?thesis using m s(3) assms(3) by (simp add: marker_vetoes_def speaks_for_def)
qed


section \<open>A grant made and revoked\<close>

definition demo_empty :: authz_db where
  "demo_empty = \<lparr>z_epochs = [(''o'', 4)], z_grants = [], z_markers = [], z_outbox = [], z_bumped = []\<rparr>"

definition demo_tables :: org_tables where
  "demo_tables =
     \<lparr>ot_models = [], ot_mcp_tools = [],
      ot_scoped = [\<lparr>sr_type = ''tool'', sr_id = ''x'', sr_org = Some ''o'', sr_tenant = Some ''t'', sr_archived_at = None\<rparr>],
      ot_items = [], ot_members = [\<lparr>om_org = ''o'', om_user = ''ann'', om_status = ''active''\<rparr>], ot_groups = []\<rparr>"

definition demo_request :: grant_request where
  "demo_request =
     \<lparr>gq_relation = ''viewer'', gq_ptype = ''user'', gq_pid = ''ann'', gq_kind = ''share'',
      gq_expires_at = None, gq_cond_name = None, gq_cond_context = None, gq_source_link = None\<rparr>"

definition numbered :: "char \<Rightarrow> nat \<Rightarrow> uuid" where
  "numbered c n = c # replicate n (CHR ''i'')"

definition demo_made :: "grant_error + (grant_change \<times> authz_db)" where
  "demo_made = make_grant demo_tables ''g1'' ''m1'' (numbered (CHR ''a'')) False 5 demo_context ''tool'' ''x''
     demo_request demo_empty demo_empty"

definition demo_revoked :: "authz_db \<Rightarrow> grant_error + (grant_change \<times> authz_db)" where
  "demo_revoked db = revoke demo_tables ''m2'' (numbered (CHR ''b'')) 6 demo_context ''g1'' db db"

definition after_commit :: "grant_error + (grant_change \<times> authz_db) \<Rightarrow> authz_db" where
  "after_commit r = (case r of Inl _ \<Rightarrow> demo_empty | Inr (_, db) \<Rightarrow> commit_session db)"

definition demo_db1 :: authz_db where "demo_db1 = after_commit demo_made"
definition demo_db2 :: authz_db where "demo_db2 = after_commit (demo_revoked demo_db1)"

lemma after_commit_runs:
  "(case r of Inl _ \<Rightarrow> False | Inr _ \<Rightarrow> True) \<Longrightarrow> \<exists>ch db. r = Inr (ch, db) \<and> after_commit r = commit_session db"
  by (cases r) (auto simp: after_commit_def)

lemma demo_made_runs: "\<exists>ch db1. demo_made = Inr (ch, db1) \<and> demo_db1 = commit_session db1"
  unfolding demo_db1_def by (rule after_commit_runs) code_simp

lemma demo_revoked_runs: "\<exists>ch db2. demo_revoked demo_db1 = Inr (ch, db2) \<and> demo_db2 = commit_session db2"
  unfolding demo_db2_def by (rule after_commit_runs) code_simp

lemma numbered_inj: "inj (numbered c)"
  by (rule injI) (simp add: numbered_def replicate_eq_replicate)

lemma demo_history_reachable: "authz_reachable plain_store plain_store [demo_db2, demo_db1, demo_empty]"
proof -
  obtain ch1 db1 where d1: "make_grant demo_tables ''g1'' ''m1'' (numbered (CHR ''a'')) False 5 demo_context ''tool'' ''x''
     demo_request demo_empty demo_empty = Inr (ch1, db1)" "demo_db1 = commit_session db1"
    using demo_made_runs unfolding demo_made_def by blast
  have "authz_step plain_store plain_store [demo_empty] db1"
    by (rule authz_step.make[OF _ _ _ _ _ d1(1)])
      (simp_all add: fresh_marker_def fresh_ids_def numbered_inj demo_empty_def uuid_text_def demo_request_def)
  then have s1: "authz_commit plain_store plain_store [demo_empty] [demo_db1, demo_empty]"
    by (auto simp: authz_commit_def d1(2))
  obtain ch2 db2 where d2: "revoke demo_tables ''m2'' (numbered (CHR ''b'')) 6 demo_context ''g1'' demo_db1 demo_db1
     = Inr (ch2, db2)" "demo_db2 = commit_session db2"
    using demo_revoked_runs unfolding demo_revoked_def by blast
  have "z_markers demo_db1 = []" "map ob_id (z_outbox demo_db1) = [''a'']"
    "map ob_source_table (z_outbox demo_db1) = [grants_table]" by code_simp+
  then have "fresh_marker ''m2'' demo_db1" "fresh_ids (numbered (CHR ''b'')) demo_db1"
    by (auto simp: fresh_marker_def fresh_ids_def numbered_inj numbered_def grants_table_def markers_table_def map_eq_Cons_conv)
  then have "authz_step plain_store plain_store [demo_db1, demo_empty] db2"
    by (rule authz_step.revoke[OF _ _ _ d2(1)]) simp
  then have "authz_commit plain_store plain_store [demo_db1, demo_empty] [demo_db2, demo_db1, demo_empty]"
    by (auto simp: authz_commit_def d2(2))
  then have "rtranclp (authz_commit plain_store plain_store) [demo_empty] [demo_db2, demo_db1, demo_empty]"
    using s1 by (meson converse_rtranclp_into_rtranclp r_into_rtranclp)
  then show ?thesis unfolding authz_reachable_def empty_tables_def by (intro exI[of _ demo_empty]) (simp add: demo_empty_def)
qed


end
