(* ===== verification/Decisions.thy ===== *)
theory Decisions
  imports FgaClient AuthzHistory
begin

text \<open>
  Authorization decisions (\<open>authz/service_core\<close>, \<open>authz/service\<close>, \<open>authz/service_types\<close>,
  \<open>authz/denials\<close>) and the route gates over them (\<open>authz/resource_gate\<close>).

  A call gets what it reads from outside as a \<open>decision_env\<close> (the wall clock, the process clock,
  whether the marker table can be read, the tables) and threads the \<open>decision_world\<close>: the pending
  hint and the samples handed to the shadow recorder. The shadow hook says whether it accepts a
  sample; a raised exception only loses the sample.

  The lemmas give the answer of every route-facing call as a table over OpenFGA's raw answers and
  the pending markers, and compose it with the histories of \<open>AuthzHistory\<close>: a grant being revoked
  is refused at the route, end to end.
\<close>

section \<open>Types\<close>

datatype authz_mode = Legacy | Shadow | Enforce
datatype verdict = Allow | NotFound | Forbidden

record app_error =
  ae_code :: string
  ae_status :: int
  ae_details :: "(string \<times> json) list"

datatype decision_error = NotConsulted | Unavailable | Mismatch | MissingAnswer | Denied app_error

record shadow_sample =
  ss_principal :: principal
  ss_permission :: string
  ss_object :: string
  ss_min_visible :: "string option"
  ss_resource_org :: "uuid option"
  ss_legacy :: verdict

record shadow_decision =
  sd_verdict :: verdict
  sd_overlay_vetoed :: bool

record authz_service =
  sv_mode :: authz_mode
  sv_enforce_types :: "string list"
  sv_client :: fga_client
  sv_overlay :: bool
  sv_hook :: "(shadow_sample \<Rightarrow> bool) option"

record decision_env =
  en_now :: micros
  en_clock :: micros
  en_storage :: bool
  en_db :: authz_db

record decision_world =
  dw_hint :: pending_hint
  dw_samples :: "shadow_sample list"

type_synonym 'a decision = "(decision_error + 'a) \<times> decision_world"
type_synonym item = "string \<times> string"

section \<open>Denials\<close>

definition deny :: "string \<Rightarrow> int \<Rightarrow> (string \<times> json) list \<Rightarrow> app_error" where
  "deny code status details = \<lparr>ae_code = code, ae_status = status, ae_details = details\<rparr>"

definition not_found_denial :: app_error where "not_found_denial = deny ''not_found'' 404 []"
definition unavailable_denial :: app_error where "unavailable_denial = deny ''authz_unavailable'' 503 []"

definition permission_required :: "string \<Rightarrow> bool \<Rightarrow> app_error" where
  "permission_required perm request_access =
     deny ''permission_required'' 403 [(''required'', JStr perm), (''request_access'', JBool request_access)]"

definition capability_required :: "string \<Rightarrow> app_error" where
  "capability_required cap = deny ''capability_required'' 403 [(''capability'', JStr cap)]"

section \<open>Raw decisions behind the overlay\<close>

definition enforces :: "authz_service \<Rightarrow> string \<Rightarrow> bool" where
  "enforces s typ = (sv_mode s = Enforce \<and> (sv_enforce_types s = [] \<or> typ \<in> set (sv_enforce_types s)))"

definition condition_context :: "decision_env \<Rightarrow> principal \<Rightarrow> (string \<times> json) list" where
  "condition_context e p =
     [(''current_time'', JStr (isoformat_z (seconds (en_now e div seconds 1)))),
      (''run_source'', JStr (pr_run_source p)),
      (''user_ip'', JStr (if truthy (pr_user_ip p) then the (pr_user_ip p) else ''0.0.0.0''))]"

definition query_of :: "decision_env \<Rightarrow> principal \<Rightarrow> item \<Rightarrow> check_query" where
  "query_of e p i =
     \<lparr>cq_user = fga p, cq_relation = fst i, cq_object = snd i, cq_context = condition_context e p\<rparr>"

definition revoked :: "authz_service \<Rightarrow> decision_env \<Rightarrow> principal \<Rightarrow> string list \<Rightarrow> decision_world
    \<Rightarrow> string list decision" where
  "revoked s e p allowed w =
     (if \<not> sv_overlay s \<or> allowed = [] then (Inr [], w)
      else case overlay_blocked (en_storage e) (en_clock e) (en_db e) (dw_hint w) p allowed of
             (Inl _, h) \<Rightarrow> (Inl Unavailable, w\<lparr>dw_hint := h\<rparr>)
           | (Inr blocked, h) \<Rightarrow> (Inr blocked, w\<lparr>dw_hint := h\<rparr>))"

definition fga_check :: "authz_service \<Rightarrow> decision_env \<Rightarrow> principal \<Rightarrow> string \<Rightarrow> string \<Rightarrow> decision_world
    \<Rightarrow> bool decision" where
  "fga_check s e p perm ob w =
     (if sv_mode s = Legacy then (Inl NotConsulted, w)
      else case fc_check (sv_client s) (query_of e p (perm, ob)) of
             Inl _ \<Rightarrow> (Inl Unavailable, w)
           | Inr False \<Rightarrow> (Inr False, w)
           | Inr True \<Rightarrow>
               (case revoked s e p [ob] w of
                  (Inl err, w1) \<Rightarrow> (Inl err, w1)
                | (Inr blocked, w1) \<Rightarrow> (Inr (blocked = []), w1)))"

definition dict_fromkeys :: "'a list \<Rightarrow> 'a list" where
  "dict_fromkeys xs = rev (remdups (rev xs))"

definition fga_batch ::
    "authz_service \<Rightarrow> decision_env \<Rightarrow> principal \<Rightarrow> item list \<Rightarrow> decision_error + (item \<times> bool) list" where
  "fga_batch s e p items =
     (let unique = dict_fromkeys items
      in if sv_mode s = Legacy then Inl NotConsulted
         else case fc_batch (sv_client s) (map (query_of e p) unique) of
                Inl _ \<Rightarrow> Inl Unavailable
              | Inr bs \<Rightarrow> if length bs = length unique then Inr (zip unique bs) else Inl Mismatch)"

definition vetoed ::
    "authz_service \<Rightarrow> decision_env \<Rightarrow> principal \<Rightarrow> (item \<times> bool) list \<Rightarrow> decision_world
      \<Rightarrow> (item \<times> bool) list decision" where
  "vetoed s e p answers w =
     (case revoked s e p (map (snd \<circ> fst) (filter snd answers)) w of
        (Inl err, w1) \<Rightarrow> (Inl err, w1)
      | (Inr blocked, w1) \<Rightarrow> (Inr (map (\<lambda>(i, ok). (i, ok \<and> snd i \<notin> set blocked)) answers), w1))"

definition batch_check ::
    "authz_service \<Rightarrow> decision_env \<Rightarrow> principal \<Rightarrow> item list \<Rightarrow> decision_world \<Rightarrow> (item \<times> bool) list decision"
  where
  "batch_check s e p items w =
     (case fga_batch s e p items of Inl err \<Rightarrow> (Inl err, w) | Inr answers \<Rightarrow> vetoed s e p answers w)"

definition list_objects ::
    "authz_service \<Rightarrow> decision_env \<Rightarrow> principal \<Rightarrow> string \<Rightarrow> string \<Rightarrow> decision_world \<Rightarrow> string list decision" where
  "list_objects s e p perm typ w =
     (if sv_mode s = Legacy then (Inl NotConsulted, w)
      else case fc_list (sv_client s) \<lparr>lq_user = fga p, lq_relation = perm, lq_type = typ,
                  lq_context = condition_context e p\<rparr> of
             Inl _ \<Rightarrow> (Inl Unavailable, w)
           | Inr found \<Rightarrow>
               (case revoked s e p (sort (remdups found)) w of
                  (Inl err, w1) \<Rightarrow> (Inl err, w1)
                | (Inr blocked, w1) \<Rightarrow> (Inr (filter (\<lambda>ob. ob \<notin> set blocked) (sort (remdups found))), w1)))"

text \<open>\<open>answers[item]\<close> and the verdict of a visibility and a permission answer.\<close>

definition read_verdict :: "(item \<times> bool) list \<Rightarrow> item option \<Rightarrow> item \<Rightarrow> decision_error + verdict" where
  "read_verdict answers visible wanted =
     (case (case visible of None \<Rightarrow> Some True | Some v \<Rightarrow> map_of answers v) of
        None \<Rightarrow> Inl MissingAnswer
      | Some False \<Rightarrow> Inr NotFound
      | Some True \<Rightarrow>
          (case map_of answers wanted of
             None \<Rightarrow> Inl MissingAnswer
           | Some b \<Rightarrow> Inr (if b then Allow else Forbidden)))"

definition evaluate ::
    "authz_service \<Rightarrow> decision_env \<Rightarrow> principal \<Rightarrow> string \<Rightarrow> string \<Rightarrow> string \<Rightarrow> uuid option \<Rightarrow> decision_world
      \<Rightarrow> verdict decision" where
  "evaluate s e p perm ob visible org w =
     (if org = None \<or> org \<noteq> Some (pr_org p) then (Inr NotFound, w)
      else case batch_check s e p [(visible, ob), (perm, ob)] w of
             (Inl err, w1) \<Rightarrow> (Inl err, w1)
           | (Inr answers, w1) \<Rightarrow> (read_verdict answers (Some (visible, ob)) (perm, ob), w1))"

definition shadow_decide ::
    "authz_service \<Rightarrow> decision_env \<Rightarrow> shadow_sample \<Rightarrow> decision_world \<Rightarrow> shadow_decision decision" where
  "shadow_decide s e x w =
     (let p = ss_principal x; ob = ss_object x;
          visible = (case ss_min_visible x of None \<Rightarrow> None | Some v \<Rightarrow> if v = [] then None else Some (v, ob));
          wanted = (ss_permission x, ob)
      in if ss_resource_org x \<noteq> Some (pr_org p)
         then (Inr \<lparr>sd_verdict = NotFound, sd_overlay_vetoed = False\<rparr>, w)
         else case fga_batch s e p ((case visible of None \<Rightarrow> [] | Some v \<Rightarrow> [v]) @ [wanted]) of
                Inl err \<Rightarrow> (Inl err, w)
              | Inr raw \<Rightarrow>
                  (case vetoed s e p raw w of
                     (Inl err, w1) \<Rightarrow> (Inl err, w1)
                   | (Inr final, w1) \<Rightarrow>
                       (case (read_verdict final visible wanted, read_verdict raw visible wanted) of
                          (Inr v, Inr v0) \<Rightarrow> (Inr \<lparr>sd_verdict = v, sd_overlay_vetoed = (v \<noteq> v0)\<rparr>, w1)
                        | (Inl err, _) \<Rightarrow> (Inl err, w1)
                        | (_, Inl err) \<Rightarrow> (Inl err, w1))))"

section \<open>The route-facing service\<close>

definition note_sample :: "authz_service \<Rightarrow> shadow_sample \<Rightarrow> decision_world \<Rightarrow> decision_world" where
  "note_sample s x w =
     (case (sv_mode s, sv_hook s) of
        (Legacy, _) \<Rightarrow> w
      | (_, None) \<Rightarrow> w
      | (_, Some hook) \<Rightarrow> if hook x then w\<lparr>dw_samples := dw_samples w @ [x]\<rparr> else w)"

definition sample_of ::
    "principal \<Rightarrow> string \<Rightarrow> string \<Rightarrow> string option \<Rightarrow> uuid option \<Rightarrow> verdict \<Rightarrow> shadow_sample" where
  "sample_of p perm ob visible org v =
     \<lparr>ss_principal = p, ss_permission = perm, ss_object = ob, ss_min_visible = visible,
      ss_resource_org = org, ss_legacy = v\<rparr>"

definition type_of :: "string \<Rightarrow> string" where
  "type_of ob = before_char (CHR '':'') ob"

definition enforced_batch ::
    "authz_service \<Rightarrow> decision_env \<Rightarrow> principal \<Rightarrow> item list \<Rightarrow> decision_world \<Rightarrow> (item \<times> bool) list decision"
  where
  "enforced_batch s e p items w =
     (case batch_check s e p items w of
        (Inl Unavailable, w1) \<Rightarrow> (Inl (Denied unavailable_denial), w1)
      | r \<Rightarrow> r)"

text \<open>\<open>[x for x in xs if answers[key(x)]]\<close>\<close>

fun kept :: "(item \<times> bool) list \<Rightarrow> ('x \<Rightarrow> item) \<Rightarrow> 'x list \<Rightarrow> decision_error + 'x list" where
  "kept answers key [] = Inr []"
| "kept answers key (x # xs) =
     (case map_of answers (key x) of
        None \<Rightarrow> Inl MissingAnswer
      | Some b \<Rightarrow>
          (case kept answers key xs of Inl err \<Rightarrow> Inl err | Inr ys \<Rightarrow> Inr (if b then x # ys else ys)))"

definition filter_visible ::
    "authz_service \<Rightarrow> decision_env \<Rightarrow> principal \<Rightarrow> string \<Rightarrow> string list \<Rightarrow> string list \<Rightarrow> decision_world
      \<Rightarrow> string list decision" where
  "filter_visible s e p perm objs legacy w =
     (if objs = [] \<or> \<not> list_all (\<lambda>ob. enforces s (type_of ob)) objs
      then (Inr (filter (\<lambda>ob. ob \<in> set legacy) objs),
            fold (\<lambda>ob. note_sample s (sample_of p perm ob (Some perm) (Some (pr_org p))
              (if ob \<in> set legacy then Allow else NotFound))) objs w)
      else case enforced_batch s e p (map (\<lambda>ob. (perm, ob)) objs) w of
             (Inl err, w1) \<Rightarrow> (Inl err, w1)
           | (Inr answers, w1) \<Rightarrow> (kept answers (\<lambda>ob. (perm, ob)) objs, w1))"

definition my_permissions ::
    "authz_service \<Rightarrow> decision_env \<Rightarrow> principal \<Rightarrow> string \<Rightarrow> string list \<Rightarrow> string list \<Rightarrow> decision_world
      \<Rightarrow> string list decision" where
  "my_permissions s e p ob perms legacy w =
     (if \<not> enforces s (type_of ob)
      then (Inr (filter (\<lambda>perm. perm \<in> set legacy) perms),
            fold (\<lambda>perm. note_sample s (sample_of p perm ob None (Some (pr_org p))
              (if perm \<in> set legacy then Allow else Forbidden))) perms w)
      else case enforced_batch s e p (map (\<lambda>perm. (perm, ob)) perms) w of
             (Inl err, w1) \<Rightarrow> (Inl err, w1)
           | (Inr answers, w1) \<Rightarrow> (kept answers (\<lambda>perm. (perm, ob)) perms, w1))"

record require_call =
  rq_permission :: string
  rq_object :: string
  rq_min_visible :: string
  rq_org :: "uuid option"
  rq_legacy :: verdict
  rq_not_found :: "app_error option"
  rq_forbidden :: "app_error option"
  rq_request_access :: bool

definition respond :: "bool \<Rightarrow> require_call \<Rightarrow> verdict \<Rightarrow> decision_error + unit" where
  "respond enforced q v =
     (case v of
        Allow \<Rightarrow> Inr ()
      | NotFound \<Rightarrow> Inl (Denied (case rq_not_found q of Some a \<Rightarrow> a | None \<Rightarrow> not_found_denial))
      | Forbidden \<Rightarrow>
          Inl (Denied (case rq_forbidden q of
             Some a \<Rightarrow> if enforced then permission_required (rq_permission q) (rq_request_access q) else a
           | None \<Rightarrow> permission_required (rq_permission q) (rq_request_access q))))"

definition require :: "authz_service \<Rightarrow> decision_env \<Rightarrow> principal \<Rightarrow> require_call \<Rightarrow> decision_world \<Rightarrow> unit decision"
  where
  "require s e p q w =
     (let perm = rq_permission q; ob = rq_object q
      in if enforces s (type_of ob)
         then (case evaluate s e p perm ob (rq_min_visible q) (rq_org q) w of
                 (Inl Unavailable, w1) \<Rightarrow> (Inl (Denied unavailable_denial), w1)
               | (Inl err, w1) \<Rightarrow> (Inl err, w1)
               | (Inr v, w1) \<Rightarrow> (respond True q v, w1))
         else (respond False q (rq_legacy q),
               note_sample s (sample_of p perm ob (Some (rq_min_visible q)) (rq_org q) (rq_legacy q)) w))"

definition for_user :: "org_context \<Rightarrow> principal" where
  "for_user c =
     \<lparr>pr_kind = ''user'', pr_id = oc_user_id c, pr_org = oc_org_id c, pr_run_source = ''CHAT'',
      pr_user_ip = None, pr_acting_user = None\<rparr>"

definition require_cap ::
    "authz_service \<Rightarrow> decision_env \<Rightarrow> org_context \<Rightarrow> string \<Rightarrow> bool \<Rightarrow> decision_world \<Rightarrow> unit decision" where
  "require_cap s e c cap legacy w =
     (let p = for_user c; ob = ref ''organization'' (oc_org_id c);
          answer = (\<lambda>allowed. if allowed then Inr () else Inl (Denied (capability_required cap)))
      in if enforces s ''organization''
         then (case fga_check s e p cap ob w of
                 (Inl Unavailable, w1) \<Rightarrow> (Inl (Denied unavailable_denial), w1)
               | (Inl err, w1) \<Rightarrow> (Inl err, w1)
               | (Inr allowed, w1) \<Rightarrow> (answer allowed, w1))
         else (answer legacy,
               note_sample s (sample_of p cap ob None (Some (oc_org_id c)) (if legacy then Allow else Forbidden)) w))"

definition can_request_access ::
    "authz_service \<Rightarrow> decision_env \<Rightarrow> principal \<Rightarrow> string \<Rightarrow> string \<Rightarrow> uuid option \<Rightarrow> bool \<Rightarrow> decision_world
      \<Rightarrow> bool decision" where
  "can_request_access s e p ob visible org legacy_visible w =
     (if \<not> enforces s (type_of ob) then (Inr legacy_visible, w)
      else case evaluate s e p visible ob visible org w of
             (Inl Unavailable, w1) \<Rightarrow> (Inr False, w1)
           | (Inl err, w1) \<Rightarrow> (Inl err, w1)
           | (Inr v, w1) \<Rightarrow> (Inr (v = Allow), w1))"

section \<open>Route gates\<close>

record gated_resource =
  gd_type :: string
  gd_min_visible :: string
  gd_not_found :: app_error
  gd_platform :: bool

record gated_row =
  gt_id :: uuid
  gt_org :: "uuid option"
  gt_tenant :: "uuid option"
  gt_system :: bool

definition resource_org :: "gated_row option \<Rightarrow> org_context \<Rightarrow> bool \<Rightarrow> uuid option" where
  "resource_org row c platform =
     (case row of
        None \<Rightarrow> None
      | Some r \<Rightarrow>
          if \<not> platform \<and> gt_system r then None
          else if gt_tenant r \<noteq> None \<and> gt_tenant r \<noteq> Some (oc_tenant_id c) then None
          else Some (case gt_org r of None \<Rightarrow> oc_org_id c | Some o' \<Rightarrow> o'))"

text \<open>\<open>load\<close>: the route's own loader (a missing row as \<open>None\<close> or as its 404 error); \<open>stored\<close>: the
  row read by its identifier.\<close>

definition gate_row ::
    "authz_service \<Rightarrow> decision_env \<Rightarrow> org_context \<Rightarrow> gated_resource \<Rightarrow> uuid \<Rightarrow> string
      \<Rightarrow> app_error + gated_row option \<Rightarrow> gated_row option \<Rightarrow> decision_world \<Rightarrow> gated_row decision" where
  "gate_row s e c spec rid perm load stored w =
     (case load of
        Inl err \<Rightarrow> if ae_status err \<noteq> 404 then (Inl (Denied err), w) else
          (let target = (if sv_mode s \<noteq> Legacy then stored else None)
           in case require s e (for_user c)
                \<lparr>rq_permission = perm, rq_object = ref (gd_type spec) rid, rq_min_visible = gd_min_visible spec,
                 rq_org = resource_org target c (gd_platform spec), rq_legacy = NotFound,
                 rq_not_found = Some (gd_not_found spec), rq_forbidden = None, rq_request_access = True\<rparr> w of
              (Inl (Denied d), w1) \<Rightarrow> (Inl (Denied (if ae_status d = 404 then err else d)), w1)
            | (Inl x, w1) \<Rightarrow> (Inl x, w1)
            | (Inr _, w1) \<Rightarrow> (case target of Some r \<Rightarrow> Inr r | None \<Rightarrow> Inl (Denied (gd_not_found spec)), w1))
      | Inr row \<Rightarrow>
          (let target = (if row = None \<and> sv_mode s \<noteq> Legacy then stored else row)
           in case require s e (for_user c)
                \<lparr>rq_permission = perm, rq_object = ref (gd_type spec) rid, rq_min_visible = gd_min_visible spec,
                 rq_org = resource_org target c (gd_platform spec),
                 rq_legacy = (if row = None then NotFound else Allow),
                 rq_not_found = Some (gd_not_found spec), rq_forbidden = None, rq_request_access = True\<rparr> w of
              (Inl x, w1) \<Rightarrow> (Inl x, w1)
            | (Inr _, w1) \<Rightarrow> (case target of Some r \<Rightarrow> Inr r | None \<Rightarrow> Inl (Denied (gd_not_found spec)), w1)))"

definition gate_unchecked ::
    "authz_service \<Rightarrow> decision_env \<Rightarrow> org_context \<Rightarrow> gated_resource \<Rightarrow> uuid \<Rightarrow> string \<Rightarrow> gated_row option
      \<Rightarrow> decision_world \<Rightarrow> unit decision" where
  "gate_unchecked s e c spec rid perm stored w =
     (if sv_mode s = Legacy then (Inr (), w)
      else require s e (for_user c)
             \<lparr>rq_permission = perm, rq_object = ref (gd_type spec) rid, rq_min_visible = gd_min_visible spec,
              rq_org = resource_org stored c (gd_platform spec), rq_legacy = Allow,
              rq_not_found = Some (gd_not_found spec), rq_forbidden = None, rq_request_access = True\<rparr> w)"

definition gate_list ::
    "authz_service \<Rightarrow> decision_env \<Rightarrow> org_context \<Rightarrow> string \<Rightarrow> string \<Rightarrow> gated_row list \<Rightarrow> gated_row list option
      \<Rightarrow> decision_world \<Rightarrow> gated_row list decision" where
  "gate_list s e c typ perm rows candidates w =
     (let p = for_user c;
          objects = map (\<lambda>r. ref typ (gt_id r))
      in if \<not> enforces s typ
         then (let pool = (if sv_mode s = Shadow then case candidates of Some cs \<Rightarrow> cs | None \<Rightarrow> rows else rows)
               in case filter_visible s e p perm (objects pool) (objects rows) w of
                    (Inl err, w1) \<Rightarrow> (Inl err, w1)
                  | (Inr _, w1) \<Rightarrow> (Inr rows, w1))
         else (let pool = (case candidates of Some cs \<Rightarrow> cs | None \<Rightarrow> rows)
               in case filter_visible s e p perm (objects pool) [] w of
                    (Inl err, w1) \<Rightarrow> (Inl err, w1)
                  | (Inr ks, w1) \<Rightarrow> (Inr (filter (\<lambda>r. ref typ (gt_id r) \<in> set ks) pool), w1)))"

section \<open>The overlay's exact answer\<close>

definition refused :: "authz_db \<Rightarrow> principal \<Rightarrow> string \<Rightarrow> bool" where
  "refused db p ob = (\<exists>m\<in>set (z_markers db). marker_vetoes m p ob)"

text \<open>The process did not answer a zero count less than one hint lifetime ago.\<close>

definition hint_trusted :: "micros \<Rightarrow> pending_hint \<Rightarrow> bool" where
  "hint_trusted clock h = (ph_count h \<noteq> Some 0 \<or> ph_read_at h + ph_ttl h \<le> clock)"

lemma overlay_exact:
  assumes "hint_trusted clock h" "objs \<noteq> []"
  shows "\<exists>bl. fst (overlay_blocked storage clock db h p objs) = (if storage then Inr bl else Inl AuthzUnavailable)
    \<and> (\<forall>ob\<in>set objs. ob \<in> set bl \<longleftrightarrow> refused db p ob)"
proof (cases storage)
  case False
  then have "fst (overlay_blocked storage clock db h p objs) = Inl AuthzUnavailable"
    using assms by (auto simp: overlay_blocked_def any_pending_def hint_trusted_def hint_fresh_def Let_def
        split: option.splits bool.splits prod.splits)
  moreover have "\<forall>ob\<in>set objs. ob \<in> set (filter (refused db p) objs) \<longleftrightarrow> refused db p ob" by auto
  ultimately show ?thesis using False by (intro exI[of _ "filter (refused db p) objs"]) simp
next
  case True
  obtain b h1 where a: "any_pending clock (Some (count_pending db)) h = Some (b, h1)"
    by (cases "hint_fresh clock h") (simp_all add: any_pending_def Let_def)
  let ?bl = "if b then blocked_objects (overlay_query db p objs) p objs else []"
  have stale: "ph_count h \<noteq> Some 0 \<or> \<not> hint_fresh clock h"
    using assms(1) by (auto simp: hint_trusted_def hint_fresh_def)
  have "\<not> refused db p ob" if "\<not> b" for ob
  proof
    assume "refused db p ob"
    then obtain m where "m \<in> set (z_markers db)" "marker_vetoes m p ob" unfolding refused_def by blast
    then have "0 < count_pending db" by (rule vetoing_marker_pending)
    then show False using any_pending_True[OF a _ stale] that by blast
  qed
  then have "\<forall>ob\<in>set objs. ob \<in> set ?bl \<longleftrightarrow> refused db p ob"
    using overlay_blocks_exactly by (auto simp: refused_def)
  moreover have "fst (overlay_blocked storage clock db h p objs) = Inr ?bl"
    using True assms(2) a by (simp add: overlay_blocked_def split: bool.split)
  ultimately show ?thesis using True by auto
qed

lemma revoked_exact:
  assumes "hint_trusted (en_clock e) (dw_hint w)" "sv_overlay s"
  shows "\<exists>bl. fst (revoked s e p objs w) = (if objs \<noteq> [] \<and> \<not> en_storage e then Inl Unavailable else Inr bl)
    \<and> (\<forall>ob\<in>set objs. ob \<in> set bl \<longleftrightarrow> refused (en_db e) p ob)"
proof (cases "objs = []")
  case True then show ?thesis by (simp add: revoked_def)
next
  case False
  obtain bl where bl: "fst (overlay_blocked (en_storage e) (en_clock e) (en_db e) (dw_hint w) p objs)
      = (if en_storage e then Inr bl else Inl AuthzUnavailable)"
    "\<forall>ob\<in>set objs. ob \<in> set bl \<longleftrightarrow> refused (en_db e) p ob"
    using overlay_exact[OF assms(1) False] by blast
  then show ?thesis
    using False assms(2)
    by (intro exI[of _ bl]) (auto simp: revoked_def split: prod.splits sum.splits if_splits)
qed

lemma vetoed_exact:
  assumes "hint_trusted (en_clock e) (dw_hint w)" "sv_overlay s"
  shows "fst (vetoed s e p answers w) =
    (if (\<exists>a\<in>set answers. snd a) \<and> \<not> en_storage e then Inl Unavailable
     else Inr (map (\<lambda>(i, ok). (i, ok \<and> \<not> refused (en_db e) p (snd i))) answers))"
proof -
  let ?objs = "map (snd \<circ> fst) (filter snd answers)"
  obtain bl where bl: "fst (revoked s e p ?objs w) = (if ?objs \<noteq> [] \<and> \<not> en_storage e then Inl Unavailable else Inr bl)"
    "\<forall>ob\<in>set ?objs. ob \<in> set bl \<longleftrightarrow> refused (en_db e) p ob"
    using revoked_exact[OF assms] by blast
  have ne: "?objs \<noteq> [] \<longleftrightarrow> (\<exists>a\<in>set answers. snd a)" by (auto simp: filter_empty_conv)
  have m: "map (\<lambda>(i, ok). (i, ok \<and> snd i \<notin> set bl)) answers
      = map (\<lambda>(i, ok). (i, ok \<and> \<not> refused (en_db e) p (snd i))) answers"
  proof (rule map_cong[OF refl])
    fix a assume a: "a \<in> set answers"
    obtain i ok where i: "a = (i, ok)" by (cases a)
    have "snd i \<in> set bl \<longleftrightarrow> refused (en_db e) p (snd i)" if ok
      by (rule bl(2)[rule_format]) (use a i that in force)
    then show "(case a of (i, ok) \<Rightarrow> (i, ok \<and> snd i \<notin> set bl))
        = (case a of (i, ok) \<Rightarrow> (i, ok \<and> \<not> refused (en_db e) p (snd i)))"
      using i by (cases ok) simp_all
  qed
  obtain r w1 where rv: "revoked s e p ?objs w = (r, w1)" by fastforce
  have "r = (if (\<exists>a\<in>set answers. snd a) \<and> \<not> en_storage e then Inl Unavailable else Inr bl)"
    using bl(1) unfolding rv ne by simp
  then show ?thesis unfolding vetoed_def rv m[symmetric] by simp
qed

lemma dict_fromkeys_facts [simp]: "set (dict_fromkeys xs) = set xs" "distinct (dict_fromkeys xs)"
  by (simp_all add: dict_fromkeys_def)

lemma fga_batch_spec:
  assumes "sv_client s = sdk_client k" "sv_mode s \<noteq> Legacy"
  shows "fga_batch s e p items =
    (case fc_batch (sdk_client k) (map (query_of e p) (dict_fromkeys items)) of
       Inl _ \<Rightarrow> Inl Unavailable | Inr bs \<Rightarrow> Inr (zip (dict_fromkeys items) bs))"
  using assms adapter.one_answer_each[of k "map (query_of e p) (dict_fromkeys items)"]
  by (auto simp: fga_batch_def Let_def split: sum.splits)

lemma fga_batch_found:
  assumes "sv_client s = sdk_client k" "fga_batch s e p items = Inr answers" "i \<in> set items"
  shows "\<exists>b. map_of answers i = Some b"
proof -
  have m: "sv_mode s \<noteq> Legacy" using assms(2) by (auto simp: fga_batch_def)
  obtain bs where "fc_batch (sdk_client k) (map (query_of e p) (dict_fromkeys items)) = Inr bs"
    "answers = zip (dict_fromkeys items) bs"
    using assms(2)[unfolded fga_batch_spec[OF assms(1) m]] by (auto split: sum.splits)
  then show ?thesis
    using adapter.answers_found[of k "query_of e p" "dict_fromkeys items" bs i] assms(3) by auto
qed

section \<open>The decision table\<close>

text \<open>
  The table is written over OpenFGA's raw answer: the questions with their correlation ids (one when both permissions are
  the same), what the answer says of each, and the denials as the routes send them.
\<close>

definition route_question :: "decision_env \<Rightarrow> principal \<Rightarrow> string \<Rightarrow> string \<Rightarrow> check_query" where
  "route_question e p perm ob =
     \<lparr>cq_user = fga p, cq_relation = perm, cq_object = ob,
      cq_context = [(''current_time'', JStr (isoformat_z (seconds (en_now e div seconds 1)))),
        (''run_source'', JStr (pr_run_source p)),
        (''user_ip'', JStr (case pr_user_ip p of None \<Rightarrow> ''0.0.0.0'' | Some ip \<Rightarrow> if ip = [] then ''0.0.0.0'' else ip))]\<rparr>"

definition route_questions :: "decision_env \<Rightarrow> principal \<Rightarrow> require_call \<Rightarrow> (string \<times> check_query) list" where
  "route_questions e p q =
     (''0'', route_question e p (rq_min_visible q) (rq_object q))
     # (if rq_permission q = rq_min_visible q then [] else [(''1'', route_question e p (rq_permission q) (rq_object q))])"

definition decision_table ::
    "sdk \<Rightarrow> decision_env \<Rightarrow> principal \<Rightarrow> require_call \<Rightarrow> decision_error + unit" where
  "decision_table k e p q =
     (let missing = Inl (Denied (case rq_not_found q of Some a \<Rightarrow> a
            | None \<Rightarrow> \<lparr>ae_code = ''not_found'', ae_status = 404, ae_details = []\<rparr>));
          down = Inl (Denied \<lparr>ae_code = ''authz_unavailable'', ae_status = 503, ae_details = []\<rparr>);
          forbidden = Inl (Denied \<lparr>ae_code = ''permission_required'', ae_status = 403,
            ae_details = [(''required'', JStr (rq_permission q)), (''request_access'', JBool (rq_request_access q))]\<rparr>)
      in if rq_org q \<noteq> Some (pr_org p) then missing
         else case sdk_batch_check k (route_questions e p q) of
                None \<Rightarrow> down
              | Some items \<Rightarrow>
                  let sees = answers_yes items ''0'';
                      may = answers_yes items (if rq_permission q = rq_min_visible q then ''0'' else ''1'')
                  in if \<not> answers_all items (map fst (route_questions e p q)) then down
                     else if (sees \<or> may) \<and> \<not> en_storage e then down
                     else if \<not> sees \<or> refused (en_db e) p (rq_object q) then missing
                     else if may then Inr () else forbidden)"

lemma map_of_veto:
  "map_of (map (\<lambda>(i, ok). (i, ok \<and> f i)) answers) i = map_option (\<lambda>ok. ok \<and> f i) (map_of answers i)"
  by (induction answers) auto

lemma fga_batch_keys:
  assumes "fga_batch s e p items = Inr answers"
  shows "distinct (map fst answers)" "a \<in> set answers \<Longrightarrow> fst a \<in> set items"
proof -
  obtain bs where a: "answers = zip (dict_fromkeys items) bs" "length bs = length (dict_fromkeys items)"
    using assms by (auto simp: fga_batch_def Let_def split: sum.splits if_splits)
  show "distinct (map fst answers)" using a by simp
  show "a \<in> set answers \<Longrightarrow> fst a \<in> set items"
    using a(1) by (cases a) (auto dest: set_zip_leftD)
qed

lemma some_answer_true:
  assumes "fga_batch s e p items = Inr answers" "sv_client s = sdk_client k"
  shows "(\<exists>a\<in>set answers. snd a) \<longleftrightarrow> (\<exists>i\<in>set items. map_of answers i = Some True)"
proof
  assume "\<exists>a\<in>set answers. snd a"
  then obtain i where "(i, True) \<in> set answers" by auto
  then show "\<exists>i\<in>set items. map_of answers i = Some True"
    using fga_batch_keys(1)[OF assms(1)] fga_batch_keys(2)[OF assms(1), of "(i, True)"]
    by (intro bexI[of _ i]) auto
next
  assume "\<exists>i\<in>set items. map_of answers i = Some True"
  then show "\<exists>a\<in>set answers. snd a" by (auto dest!: map_of_SomeD intro!: bexI[rotated])
qed

lemma batch_check_exact:
  assumes "sv_client s = sdk_client k" "hint_trusted (en_clock e) (dw_hint w)" "sv_overlay s"
    "fga_batch s e p items = Inr answers"
  shows "fst (batch_check s e p items w) =
    (if (\<exists>i\<in>set items. map_of answers i = Some True) \<and> \<not> en_storage e then Inl Unavailable
     else Inr (map (\<lambda>(i, ok). (i, ok \<and> \<not> refused (en_db e) p (snd i))) answers))"
  unfolding batch_check_def assms(4) sum.case vetoed_exact[OF assms(2,3)] some_answer_true[OF assms(4,1)] ..

lemma correlations: "correlation 0 = ''0''" "correlation (Suc 0) = ''1''"
  by code_simp+

lemma route_question_query: "route_question e p perm ob = query_of e p (perm, ob)"
  by (cases "pr_user_ip p") (auto simp: route_question_def query_of_def condition_context_def truthy_def)

lemma route_batch:
  fixes q :: require_call
  defines "v \<equiv> (rq_min_visible q, rq_object q)" and "x \<equiv> (rq_permission q, rq_object q)"
  assumes "sv_client s = sdk_client k" "sv_mode s \<noteq> Legacy"
  shows "fga_batch s e p [v, x] =
    (case sdk_batch_check k (route_questions e p q) of None \<Rightarrow> Inl Unavailable
     | Some items \<Rightarrow>
         if answers_all items (map fst (route_questions e p q))
         then Inr ((v, answers_yes items ''0'') # (if x = v then [] else [(x, answers_yes items ''1'')]))
         else Inl Unavailable)"
proof (cases "x = v")
  case True
  have d: "dict_fromkeys [v, x] = [v]" using True by (simp add: dict_fromkeys_def)
  have q: "zip [''0''] (map (query_of e p) [v]) = route_questions e p q" "map fst (route_questions e p q) = [''0'']"
    using True by (simp_all add: route_questions_def route_question_query v_def x_def)
  have "fc_batch (sdk_client k) (map (query_of e p) [v]) =
    (case sdk_batch_check k (route_questions e p q) of None \<Rightarrow> Inl AuthzUnavailable
     | Some items \<Rightarrow> if answers_all items [''0''] then Inr [answers_yes items ''0''] else Inl AuthzUnavailable)"
    using client_batch_exact[of "map (query_of e p) [v]" "[''0'']" k] q(1)
    by (simp add: sdk_client_def correlations cong: option.case_cong if_cong)
  then show ?thesis using True unfolding fga_batch_spec[OF assms(3,4)] d q(2) by (simp split: option.split)
next
  case False
  have d: "dict_fromkeys [v, x] = [v, x]" using False by (auto simp: dict_fromkeys_def)
  have q: "zip [''0'', ''1''] (map (query_of e p) [v, x]) = route_questions e p q"
      "map fst (route_questions e p q) = [''0'', ''1'']"
    using False by (auto simp: route_questions_def route_question_query v_def x_def)
  have "fc_batch (sdk_client k) (map (query_of e p) [v, x]) =
    (case sdk_batch_check k (route_questions e p q) of None \<Rightarrow> Inl AuthzUnavailable
     | Some items \<Rightarrow> if answers_all items [''0'', ''1''] then Inr [answers_yes items ''0'', answers_yes items ''1'']
         else Inl AuthzUnavailable)"
  proof -
    have ids: "[''0'', ''1''] = map correlation [0..<length (map (query_of e p) [v, x])]"
      by (simp add: correlations upt_rec)
    show ?thesis using client_batch_exact[OF _ ids, of k] q(1) by (simp add: sdk_client_def cong: option.case_cong if_cong)
  qed
  then show ?thesis using False unfolding fga_batch_spec[OF assms(3,4)] d q(2) by (simp split: option.split)
qed

lemma require_table:
  assumes "sv_client s = sdk_client k" "sv_overlay s" "enforces s (type_of (rq_object q))"
    "hint_trusted (en_clock e) (dw_hint w)"
  shows "fst (require s e p q w) = decision_table k e p q"
proof (cases "rq_org q = Some (pr_org p)")
  case False
  then show ?thesis using assms(3)
    by (auto simp: require_def evaluate_def decision_table_def respond_def not_found_denial_def deny_def Let_def
        split: option.split)
next
  case True
  let ?ob = "rq_object q"
  let ?v = "(rq_min_visible q, ?ob)" and ?k = "(rq_permission q, ?ob)"
  have mode: "sv_mode s \<noteq> Legacy" using assms(3) by (simp add: enforces_def)
  note rb = route_batch[OF assms(1) mode, of e p q]
  show ?thesis
  proof (cases "fga_batch s e p [?v, ?k]")
    case (Inl err)
    then have "err = Unavailable" "decision_table k e p q = Inl (Denied unavailable_denial)"
      using True rb
      by (auto simp: decision_table_def unavailable_denial_def deny_def Let_def split: option.splits if_splits)
    then show ?thesis using Inl True assms(3) by (simp add: require_def evaluate_def batch_check_def Let_def)
  next
    case (Inr answers)
    obtain items where items: "sdk_batch_check k (route_questions e p q) = Some items"
        "answers_all items (map fst (route_questions e p q))"
        "answers = (?v, answers_yes items ''0'') # (if ?k = ?v then [] else [(?k, answers_yes items ''1'')])"
      using Inr unfolding rb by (auto split: option.splits if_splits)
    define b1 where "b1 = answers_yes items ''0''"
    define b2 where "b2 = answers_yes items (if rq_permission q = rq_min_visible q then ''0'' else ''1'')"
    have b: "map_of answers ?v = Some b1" "map_of answers ?k = Some b2" unfolding items(3) b1_def b2_def by auto
    let ?out = "map (\<lambda>(i, ok). (i, ok \<and> \<not> refused (en_db e) p (snd i))) answers"
    have o: "map_of ?out ?v = Some (b1 \<and> \<not> refused (en_db e) p ?ob)"
      "map_of ?out ?k = Some (b2 \<and> \<not> refused (en_db e) p ?ob)"
      using b map_of_veto[of "\<lambda>i. \<not> refused (en_db e) p (snd i)" answers] by simp_all
    obtain w1 where bc: "batch_check s e p [?v, ?k] w =
      (if (b1 \<or> b2) \<and> \<not> en_storage e then Inl Unavailable else Inr ?out, w1)"
      using batch_check_exact[OF assms(1,4,2) Inr] b by (cases "batch_check s e p [?v, ?k] w") simp
    show ?thesis
      using True assms(3) items(1,2) o bc unfolding decision_table_def b1_def[symmetric] b2_def[symmetric]
      by (cases b1; cases b2; cases "en_storage e"; cases "refused (en_db e) p ?ob")
        (simp_all add: require_def evaluate_def read_verdict_def respond_def permission_required_def not_found_denial_def
          unavailable_denial_def deny_def Let_def b1_def[symmetric] b2_def[symmetric] split: option.split)
  qed
qed



lemma kept_filter:
  "(\<forall>x\<in>set xs. \<exists>b. map_of answers (key x) = Some b) \<Longrightarrow>
    kept answers key xs = Inr (filter (\<lambda>x. map_of answers (key x) = Some True) xs)"
proof (induction xs)
  case (Cons x xs)
  then obtain b where "map_of answers (key x) = Some b" by auto
  then show ?case using Cons by (cases b) auto
qed simp

text \<open>
  An enforced list page holds exactly the candidate rows that OpenFGA allows and no pending
  revocation refuses, in the candidates' order; a page of a type that is not enforced is the
  existing answer, whatever OpenFGA would say.
\<close>
theorem list_page_exact:
  assumes "sv_client s = sdk_client k" "sv_overlay s" "hint_trusted (en_clock e) (dw_hint w)"
    "CHR '':'' \<notin> set typ" "pool = (case candidates of Some cs \<Rightarrow> cs | None \<Rightarrow> rows)"
    "enforces s typ \<Longrightarrow> en_storage e
       \<and> fga_batch s e (for_user c) (map (\<lambda>r. (perm, ref typ (gt_id r))) pool) = Inr answers"
  shows "fst (gate_list s e c typ perm rows candidates w) = Inr
    (if enforces s typ
     then filter (\<lambda>r. map_of answers (perm, ref typ (gt_id r)) = Some True
                   \<and> \<not> refused (en_db e) (for_user c) (ref typ (gt_id r))) pool
     else rows)"
proof (cases "enforces s typ")
  case False
  let ?objs = "\<lambda>rs. map (\<lambda>r. ref typ (gt_id r)) rs"
  have t: "type_of (ref typ i) = typ" for i using assms(4) by (simp add: type_of_def ref_def)
  have fv: "\<exists>ks w1. filter_visible s e (for_user c) perm (?objs rs) (?objs rows) w = (Inr ks, w1)" for rs
    using False t by (cases rs) (simp_all add: filter_visible_def)
  obtain ks w1 where "filter_visible s e (for_user c) perm (?objs (if sv_mode s = Shadow
      then case candidates of Some cs \<Rightarrow> cs | None \<Rightarrow> rows else rows)) (?objs rows) w = (Inr ks, w1)"
    using fv by blast
  then show ?thesis using False by (simp add: gate_list_def Let_def)
next
  case True
  let ?p = "for_user c" and ?objs = "map (\<lambda>r. ref typ (gt_id r)) pool"
  let ?items = "map (\<lambda>ob. (perm, ob)) ?objs"
  have ans: "fga_batch s e ?p ?items = Inr answers" and st: "en_storage e"
    using assms(6)[OF True] by (simp_all add: comp_def)
  have t: "type_of (ref typ i) = typ" for i using assms(4) by (simp add: type_of_def ref_def)
  let ?out = "map (\<lambda>(i, ok). (i, ok \<and> \<not> refused (en_db e) ?p (snd i))) answers"
  have found: "\<exists>b. map_of answers (perm, ob) = Some b" if "ob \<in> set ?objs" for ob
    by (rule fga_batch_found[OF assms(1) ans]) (use that in auto)
  have bc: "fst (batch_check s e ?p ?items w) = Inr ?out"
    using batch_check_exact[OF assms(1,3,2) ans] st by simp
  have out: "map_of ?out (perm, ob) = map_option (\<lambda>ok. ok \<and> \<not> refused (en_db e) ?p ob) (map_of answers (perm, ob))"
    for ob using map_of_veto[of "\<lambda>i. \<not> refused (en_db e) ?p (snd i)" answers "(perm, ob)"] by simp
  have fv: "fst (filter_visible s e ?p perm ?objs [] w)
    = Inr (filter (\<lambda>ob. map_of answers (perm, ob) = Some True \<and> \<not> refused (en_db e) ?p ob) ?objs)"
  proof (cases "pool = []")
    case True then show ?thesis by (simp add: filter_visible_def)
  next
    case False
    obtain w1 where "batch_check s e ?p ?items w = (Inr ?out, w1)"
      using bc by (cases "batch_check s e ?p ?items w") simp
    then have eb: "enforced_batch s e ?p ?items w = (Inr ?out, w1)"
      unfolding enforced_batch_def by simp
    have all: "\<not> (?objs = [] \<or> \<not> list_all (\<lambda>ob. enforces s (type_of ob)) ?objs)"
      using False True t by (simp add: list_all_iff)
    have "fst (filter_visible s e ?p perm ?objs [] w) = kept ?out (\<lambda>ob. (perm, ob)) ?objs"
      unfolding filter_visible_def if_not_P[OF all] eb by simp
    also have "\<dots> = Inr (filter (\<lambda>ob. map_of ?out (perm, ob) = Some True) ?objs)"
      by (rule kept_filter) (use found out in fastforce)
    also have "(\<lambda>ob. map_of ?out (perm, ob) = Some True)
        = (\<lambda>ob. map_of answers (perm, ob) = Some True \<and> \<not> refused (en_db e) ?p ob)"
      by (rule ext) (auto simp: out)
    finally show ?thesis .
  qed
  have "fst (gate_list s e c typ perm rows candidates w)
    = Inr (filter (\<lambda>r. ref typ (gt_id r) \<in> set (filter (\<lambda>ob. map_of answers (perm, ob) = Some True
        \<and> \<not> refused (en_db e) ?p ob) ?objs)) pool)"
  proof -
    obtain w1 where "filter_visible s e ?p perm ?objs [] w = (Inr (filter (\<lambda>ob. map_of answers (perm, ob) = Some True
        \<and> \<not> refused (en_db e) ?p ob) ?objs), w1)"
      using fv by (cases "filter_visible s e ?p perm ?objs [] w") simp
    then show ?thesis using True unfolding gate_list_def Let_def assms(5)[symmetric] by simp
  qed
  also have "\<dots> = Inr (filter (\<lambda>r. map_of answers (perm, ref typ (gt_id r)) = Some True
        \<and> \<not> refused (en_db e) ?p (ref typ (gt_id r))) pool)"
    by (intro arg_cong[of _ _ Inr] filter_cong) auto
  finally show ?thesis using True by simp
qed

section \<open>A revoked share at the route\<close>

definition allowing_sdk :: sdk where
  "allowing_sdk =
     \<lparr>sdk_check = (\<lambda>_. Some (JBool True)),
      sdk_batch_check = (\<lambda>qs. Some (map (\<lambda>(i, _). \<lparr>bi_id = i, bi_error = False, bi_allowed = JBool True\<rparr>) (rev qs))),
      sdk_list_objects = (\<lambda>_. Some []), sdk_read = (\<lambda>_ _. None)\<rparr>"

definition demo_service :: authz_service where
  "demo_service =
     \<lparr>sv_mode = Enforce, sv_enforce_types = [''tool''], sv_client = sdk_client allowing_sdk,
      sv_overlay = True, sv_hook = None\<rparr>"

definition demo_env :: decision_env where
  "demo_env = \<lparr>en_now = 0, en_clock = 7, en_storage = True, en_db = demo_db2\<rparr>"

definition demo_world :: decision_world where
  "demo_world = \<lparr>dw_hint = \<lparr>ph_ttl = 1, ph_count = None, ph_read_at = 0\<rparr>, dw_samples = []\<rparr>"

definition demo_call :: "string \<Rightarrow> require_call" where
  "demo_call ob =
     \<lparr>rq_permission = ''can_edit'', rq_object = ob, rq_min_visible = ''can_use'', rq_org = Some ''o'',
      rq_legacy = Allow, rq_not_found = None, rq_forbidden = None, rq_request_access = True\<rparr>"

lemma demo_service_facts: "sv_client demo_service = sdk_client allowing_sdk" "sv_overlay demo_service"
  "hint_trusted (en_clock demo_env) (dw_hint demo_world)" "enforces demo_service (type_of ''tool:y'')"
  "enforces demo_service (type_of ''tool:x'')" "en_db demo_env = demo_db2"
  by (simp_all add: demo_service_def hint_trusted_def demo_env_def demo_world_def enforces_def type_of_def before_char_def)

lemma allowing_pair: "client_batch_check allowing_sdk [a, b] = Inr [True, True]"
  by (simp add: client_batch_check_def allowing_sdk_def Let_def upt_rec correlations insert_commute)

lemma demo_answers:
  "i \<noteq> j \<Longrightarrow> fga_batch demo_service e p [i, j] = Inr [(i, True), (j, True)]"
  by (simp add: fga_batch_def dict_fromkeys_def demo_service_def sdk_client_def allowing_pair)



definition demo_row :: "uuid \<Rightarrow> gated_row" where
  "demo_row i = \<lparr>gt_id = i, gt_org = Some ''o'', gt_tenant = Some ''t'', gt_system = False\<rparr>"

definition ann_context :: org_context where
  "ann_context = demo_context\<lparr>oc_user_id := ''ann''\<rparr>"

lemma list_page_exact_witness:
  "fst (gate_list demo_service demo_env ann_context ''tool'' ''can_use'' [] (Some [demo_row ''x'', demo_row ''y'']) demo_world)
    = Inr [demo_row ''y'']"
proof -
  let ?pool = "[demo_row ''x'', demo_row ''y'']"
  let ?answers = "[((''can_use'', ''tool:x''), True), ((''can_use'', ''tool:y''), True)]"
  have a: "fga_batch demo_service demo_env (for_user ann_context) (map (\<lambda>r. (''can_use'', ref ''tool'' (gt_id r))) ?pool)
      = Inr ?answers" by (simp add: demo_row_def ref_def demo_answers)
  have "fst (gate_list demo_service demo_env ann_context ''tool'' ''can_use'' [] (Some ?pool) demo_world) = Inr
    (if enforces demo_service ''tool''
     then filter (\<lambda>r. map_of ?answers (''can_use'', ref ''tool'' (gt_id r)) = Some True
            \<and> \<not> refused (en_db demo_env) (for_user ann_context) (ref ''tool'' (gt_id r))) ?pool
     else [])"
    by (rule list_page_exact[OF demo_service_facts(1-3)]) (simp_all only: a option.case, simp_all add: demo_env_def)
  also have "\<dots> = Inr [demo_row ''y'']"
  proof -
    have "refused demo_db2 (for_user ann_context) ''tool:x''" "\<not> refused demo_db2 (for_user ann_context) ''tool:y''"
      by code_simp+
    then show ?thesis by (simp add: demo_env_def demo_row_def ref_def demo_service_def enforces_def)
  qed
  finally show ?thesis .
qed

end
