(* ===== verification/Reconcile.thy ===== *)
theory Reconcile
  imports Decisions "HOL-Library.Multiset"
begin

text \<open>
  Reconciling the tuple store with the database (\<open>authz/reconcile_diff\<close>, \<open>authz/reconcile_holds\<close>,
  \<open>authz/reconcile\<close>): what a partition expects and claims, the difference, what is held back, the
  re-read before repairing, the queued repairs and the report.

  Dictionaries keyed by a tuple's key are association lists. The snapshots a partition reads (once
  to compare and once before repairing) are arguments, like the stored tuples. The process-wide
  repair lock and progress reports are not modelled.

  The lemmas show that a repair makes the store what the database projects except for the keys it
  holds, that it never writes against a revocation or a change in flight, and that a store-wide run
  claims every stored tuple exactly once.
\<close>

section \<open>Differences\<close>

type_synonym tuples = "(tuple_key \<times> relation_tuple) list"

record tuple_diff =
  td_missing :: "relation_tuple list"
  td_extra :: "relation_tuple list"
  td_changed :: "relation_tuple list"
  td_held :: "relation_tuple list"

definition index_by_key :: "relation_tuple list \<Rightarrow> tuples" where
  "index_by_key ts = fold (\<lambda>t. AList.update (key_of t) t) ts []"

definition diff_empty :: "tuple_diff \<Rightarrow> bool" where
  "diff_empty d = (td_missing d = [] \<and> td_extra d = [] \<and> td_changed d = [])"

definition sorted_tuples :: "relation_tuple list \<Rightarrow> relation_tuple list" where
  "sorted_tuples ts = sort_key tuple_sort_key ts"

definition diff_tuples :: "tuples \<Rightarrow> tuples \<Rightarrow> tuple_diff" where
  "diff_tuples want have =
     \<lparr>td_missing = sorted_tuples (map snd (filter (\<lambda>(k, _). map_of have k = None) want)),
      td_extra = sorted_tuples (map snd (filter (\<lambda>(k, _). map_of want k = None) have)),
      td_changed = sorted_tuples (map snd (filter (\<lambda>(k, t). map_of have k \<noteq> None \<and> map_of have k \<noteq> Some t) want)),
      td_held = []\<rparr>"

definition own_org :: "uuid option \<Rightarrow> uuid option \<Rightarrow> bool" where
  "own_org org_id org = (org_id = None \<or> org = org_id)"

definition scope_refs :: "snapshot \<Rightarrow> uuid \<Rightarrow> uuid option \<Rightarrow> string list" where
  "scope_refs s tenant org_id =
     (let found = (if org_id \<noteq> None then [] else [ref ''tenant'' tenant])
        @ map (\<lambda>o'. ref ''organization'' (og_id o')) (filter (\<lambda>o'. own_org org_id (Some (og_id o'))) (organizations s))
        @ map (\<lambda>g. ref ''group'' (gr_id g)) (filter (\<lambda>g. own_org org_id (Some (gr_org g))) (groups s))
        @ map (\<lambda>r. ref (rs_type r) (rs_id r)) (filter (\<lambda>r. own_org org_id (rs_org r)) (resources s))
        @ map (\<lambda>c. ref ''credential'' (cr_id c)) (filter (\<lambda>c. own_org org_id (cr_org c)) (credentials s))
        @ map (\<lambda>m. ref ''marketplace_item'' (mi_id m)) (filter (\<lambda>m. own_org org_id (mi_org m)) (marketplace_items s))
      in found @ map (\<lambda>t. ref ''mcp_tool'' (mt_id t))
           (filter (\<lambda>t. ref ''mcp_server'' (mt_server t) \<in> set found) (mcp_tools s)))"

definition in_scope :: "relation_tuple \<Rightarrow> string list \<Rightarrow> bool" where
  "in_scope t refs = (rt_object t \<in> set refs \<or> before_char (CHR ''#'') (rt_user t) \<in> set refs)"

section \<open>Claiming stored tuples\<close>

record stored_index =
  si_stored :: tuples
  si_by_ref :: "(string \<times> tuple_key) list"

definition new_index :: "tuples \<Rightarrow> stored_index" where
  "new_index stored =
     \<lparr>si_stored = stored,
      si_by_ref = concat (map (\<lambda>(k, _). [(snd (snd k), k), (before_char (CHR ''#'') (fst k), k)]) stored)\<rparr>"

definition claim_stored :: "string list option \<Rightarrow> tuple_key list \<Rightarrow> stored_index \<Rightarrow> tuples \<times> stored_index" where
  "claim_stored refs expected ix =
     (case refs of
        None \<Rightarrow> (si_stored ix, ix\<lparr>si_stored := []\<rparr>)
      | Some rs \<Rightarrow>
          let keys = map snd (filter (\<lambda>(r, _). r \<in> set rs) (si_by_ref ix)) @ expected
          in (filter (\<lambda>(k, _). k \<in> set keys) (si_stored ix),
              ix\<lparr>si_stored := filter (\<lambda>(k, _). k \<notin> set keys) (si_stored ix)\<rparr>))"

section \<open>Holding back\<close>

fun marker_blocks :: "relation_tuple \<Rightarrow> marker_row list \<Rightarrow> bool" where
  "marker_blocks t [] = False"
| "marker_blocks t ((scope, subject, ob) # rows) =
     (if subject = rt_user t \<and> (ob = rt_object t \<or> scope \<in> set org_wide_scopes) then True
      else if ob = rt_object t \<and> \<not> actor_subject subject then True
      else marker_blocks t rows)"

definition hold :: "tuple_diff \<Rightarrow> string list \<Rightarrow> marker_row list \<Rightarrow> tuple_diff" where
  "hold d outbox_keys markers =
     (let active = (\<lambda>t. key_text t \<in> set outbox_keys);
          stopped = (\<lambda>t. active t \<or> marker_blocks t markers)
      in \<lparr>td_missing = filter (\<lambda>t. \<not> stopped t) (td_missing d),
          td_extra = filter (\<lambda>t. \<not> active t) (td_extra d),
          td_changed = filter (\<lambda>t. \<not> stopped t) (td_changed d),
          td_held = sorted_tuples (td_held d @ filter stopped (td_missing d) @ filter active (td_extra d)
            @ filter stopped (td_changed d))\<rparr>)"

definition recheck :: "tuple_diff \<Rightarrow> tuples \<Rightarrow> tuple_diff" where
  "recheck d fresh =
     (let wanted = (\<lambda>t. map_of fresh (key_of t) = Some t);
          gone = (\<lambda>t. map_of fresh (key_of t) = None)
      in \<lparr>td_missing = filter wanted (td_missing d),
          td_extra = filter gone (td_extra d),
          td_changed = filter wanted (td_changed d),
          td_held = sorted_tuples (td_held d @ filter (\<lambda>t. \<not> wanted t) (td_missing d)
            @ filter (\<lambda>t. \<not> gone t) (td_extra d) @ filter (\<lambda>t. \<not> wanted t) (td_changed d))\<rparr>)"

definition hold_margin :: micros where "hold_margin = seconds 60"
definition reconcile_table :: string where "reconcile_table = ''authz_reconcile''"

record partition_scope =
  pt_label :: string
  pt_tenant :: "uuid option"
  pt_org :: "uuid option"

definition partitions ::
    "organization_row list \<Rightarrow> uuid list \<Rightarrow> uuid option \<Rightarrow> uuid option \<Rightarrow> partition_scope list option" where
  "partitions orgs tenants tenant org =
     (case org of
        Some i \<Rightarrow>
          (case find (\<lambda>x. og_id x = i) orgs of
             None \<Rightarrow> None
           | Some x \<Rightarrow>
               if tenant \<noteq> None \<and> Some (og_tenant x) \<noteq> tenant then None
               else Some [\<lparr>pt_label = ref ''organization'' i, pt_tenant = Some (og_tenant x), pt_org = Some i\<rparr>])
      | None \<Rightarrow>
          (case tenant of
             Some t \<Rightarrow> Some [\<lparr>pt_label = ref ''tenant'' t, pt_tenant = Some t, pt_org = None\<rparr>]
           | None \<Rightarrow>
               Some (map (\<lambda>t. \<lparr>pt_label = ref ''tenant'' t, pt_tenant = Some t, pt_org = None\<rparr>) (sort tenants)
                 @ [\<lparr>pt_label = ''platform'', pt_tenant = None, pt_org = None\<rparr>])))"

definition since :: "micros \<Rightarrow> micros option \<Rightarrow> bool" where
  "since started t = (case t of None \<Rightarrow> True | Some x \<Rightarrow> started \<le> x)"

definition recent_keys :: "outbox_row list \<Rightarrow> string list \<Rightarrow> micros \<Rightarrow> uuid \<Rightarrow> string list" where
  "recent_keys obs keys started job =
     remdups (map ob_key (filter (\<lambda>r. ob_key r \<in> set keys
        \<and> \<not> (ob_source_table r = reconcile_table \<and> ob_source_id r = job)
        \<and> (since started (ob_processed_at r) \<or> started \<le> ob_created_at r)) obs))"

definition recent_markers :: "revocation list \<Rightarrow> micros \<Rightarrow> marker_row list" where
  "recent_markers ms started = map marker_row (filter (\<lambda>m. since started (rv_finalized_at m)) ms)"

section \<open>One partition and a run\<close>

datatype reconcile_mode = DryRun | Fill | Repair

definition expected_of :: "snapshot \<Rightarrow> partition_scope \<Rightarrow> micros \<Rightarrow> rule_error + (tuples \<times> string list option)" where
  "expected_of s part now =
     (let refs = (case pt_tenant part of None \<Rightarrow> None | Some t \<Rightarrow> Some (scope_refs s t (pt_org part)))
      in case expected_tuples s now of
           Inl e \<Rightarrow> Inl e
         | Inr ts \<Rightarrow>
             Inr (index_by_key (filter (\<lambda>t. pt_org part = None
                    \<or> (case refs of None \<Rightarrow> True | Some rs \<Rightarrow> in_scope t rs)) ts), refs))"

definition repair_op :: "bool \<Rightarrow> relation_tuple \<Rightarrow> tuple_op" where
  "repair_op replace t = \<lparr>to_kind = OpWrite, to_tuple = t, to_replace = replace\<rparr>"

definition repair_ops :: "tuple_diff \<Rightarrow> reconcile_mode \<Rightarrow> tuple_op list" where
  "repair_ops d mode =
     (if mode = Fill then map (repair_op False) (td_missing d)
      else map delete_op (td_extra d) @ map (repair_op True) (td_changed d) @ map (repair_op False) (td_missing d))"

record partition_result =
  pr_diff :: tuple_diff
  pr_expected :: nat
  pr_stored :: nat
  pr_ids :: "uuid list"

definition diff_keys :: "tuple_diff \<Rightarrow> string list" where
  "diff_keys d = sort (remdups (map key_text (td_missing d @ td_extra d @ td_changed d)))"

text \<open>\<open>snap\<close> and \<open>snap2\<close>: the partition's rows at the first and at the second read.\<close>

definition reconcile_partition ::
    "partition_scope \<Rightarrow> snapshot \<Rightarrow> snapshot \<Rightarrow> reconcile_mode \<Rightarrow> micros \<Rightarrow> uuid \<Rightarrow> (nat \<Rightarrow> uuid) \<Rightarrow> micros
      \<Rightarrow> stored_index \<Rightarrow> authz_db \<Rightarrow> rule_error + (partition_result \<times> stored_index \<times> authz_db)" where
  "reconcile_partition part snap snap2 mode started job fresh now ix db =
     (case expected_of snap part now of
        Inl e \<Rightarrow> Inl e
      | Inr (want, refs) \<Rightarrow>
          let (have, ix1) = claim_stored refs (map fst want) ix;
              d = diff_tuples want have;
              result = (\<lambda>d ids. \<lparr>pr_diff = d, pr_expected = length want, pr_stored = length have, pr_ids = ids\<rparr>)
          in if diff_empty d then Inr (result d [], ix1, db)
             else
               let d1 = hold d (recent_keys (z_outbox db) (diff_keys d) started job)
                          (recent_markers (z_markers db) started)
               in if mode = DryRun \<or> diff_empty d1 then Inr (result d1 [], ix1, db)
                  else case expected_of snap2 part now of
                         Inl e \<Rightarrow> Inl e
                       | Inr (want2, _) \<Rightarrow>
                           let d2 = recheck d1 want2;
                               (ids, db1) = queue_ops fresh (repair_ops d2 mode) reconcile_table job now db
                           in Inr (result d2 ids, ix1, db1))"

record reconcile_report =
  rr_expected :: nat
  rr_stored :: nat
  rr_missing :: nat
  rr_extra :: nat
  rr_changed :: nat
  rr_held :: nat
  rr_sample_missing :: "string list"
  rr_sample_extra :: "string list"
  rr_sample_changed :: "string list"
  rr_sample_held :: "string list"
  rr_ids :: "uuid list"

definition report_sample :: nat where "report_sample = 20"

definition empty_report :: reconcile_report where
  "empty_report = \<lparr>rr_expected = 0, rr_stored = 0, rr_missing = 0, rr_extra = 0, rr_changed = 0, rr_held = 0,
     rr_sample_missing = [], rr_sample_extra = [], rr_sample_changed = [], rr_sample_held = [], rr_ids = []\<rparr>"

definition add_result :: "partition_result \<Rightarrow> reconcile_report \<Rightarrow> reconcile_report" where
  "add_result p r =
     (let d = pr_diff p; more = (\<lambda>old items. take report_sample (old @ map key_text items))
      in \<lparr>rr_expected = rr_expected r + pr_expected p, rr_stored = rr_stored r + pr_stored p,
          rr_missing = rr_missing r + length (td_missing d), rr_extra = rr_extra r + length (td_extra d),
          rr_changed = rr_changed r + length (td_changed d), rr_held = rr_held r + length (td_held d),
          rr_sample_missing = more (rr_sample_missing r) (td_missing d),
          rr_sample_extra = more (rr_sample_extra r) (td_extra d),
          rr_sample_changed = more (rr_sample_changed r) (td_changed d),
          rr_sample_held = more (rr_sample_held r) (td_held d),
          rr_ids = rr_ids r @ pr_ids p\<rparr>)"

definition report_diff :: "reconcile_report \<Rightarrow> nat" where
  "report_diff r = rr_missing r + rr_extra r + rr_changed r"

text \<open>The partitions in order, each with its two reads.\<close>

fun reconcile_parts ::
    "(partition_scope \<times> snapshot \<times> snapshot) list \<Rightarrow> reconcile_mode \<Rightarrow> micros \<Rightarrow> uuid \<Rightarrow> (nat \<Rightarrow> nat \<Rightarrow> uuid)
      \<Rightarrow> micros \<Rightarrow> stored_index \<Rightarrow> authz_db \<Rightarrow> reconcile_report \<Rightarrow> rule_error + (reconcile_report \<times> stored_index \<times> authz_db)"
  where
  "reconcile_parts [] mode started job fresh now ix db r = Inr (r, ix, db)"
| "reconcile_parts ((part, s1, s2) # parts) mode started job fresh now ix db r =
     (case reconcile_partition part s1 s2 mode started job (fresh (length parts)) now ix db of
        Inl e \<Rightarrow> Inl e
      | Inr (p, ix1, db1) \<Rightarrow> reconcile_parts parts mode started job fresh now ix1 db1 (add_result p r))"

definition reconcile_run ::
    "relation_tuple list \<Rightarrow> (partition_scope \<times> snapshot \<times> snapshot) list \<Rightarrow> reconcile_mode \<Rightarrow> uuid
      \<Rightarrow> (nat \<Rightarrow> nat \<Rightarrow> uuid) \<Rightarrow> micros \<Rightarrow> authz_db \<Rightarrow> rule_error + (reconcile_report \<times> stored_index \<times> authz_db)" where
  "reconcile_run stored parts mode job fresh now db =
     reconcile_parts parts mode (now - hold_margin) job fresh now (new_index (index_by_key stored)) db empty_report"

section \<open>Dictionaries of tuples\<close>

definition dict_ok :: "tuples \<Rightarrow> bool" where
  "dict_ok d = (distinct (map fst d) \<and> (\<forall>k t. map_of d k = Some t \<longrightarrow> key_of t = k))"

lemma dict_lookup: "dict_ok d \<Longrightarrow> (k, t) \<in> set d \<longleftrightarrow> map_of d k = Some t"
  unfolding dict_ok_def using map_of_eq_Some_iff[of d k t] by blast

lemma dict_key: "dict_ok d \<Longrightarrow> map_of d k = Some t \<Longrightarrow> key_of t = k"
  unfolding dict_ok_def by blast

lemma update_dict_ok: "dict_ok d \<Longrightarrow> dict_ok (AList.update (key_of t) t d)"
  unfolding dict_ok_def by (simp add: update_conv' distinct_update)

lemma index_dict_ok: "dict_ok (index_by_key ts)"
proof -
  have "dict_ok d \<Longrightarrow> dict_ok (fold (\<lambda>t. AList.update (key_of t) t) ts d)" for d
    by (induction ts arbitrary: d) (simp_all add: update_dict_ok)
  moreover have "dict_ok []" by (simp add: dict_ok_def)
  ultimately show ?thesis unfolding index_by_key_def by blast
qed

section \<open>A repair does exactly the difference\<close>

definition key_line :: "tuple_key \<Rightarrow> string" where
  "key_line k = fst k @ '' '' @ fst (snd k) @ '' '' @ snd (snd k)"

lemma key_text_line: "key_text t = key_line (key_of t)"
  unfolding key_text_def key_line_def key_of_def fst_conv snd_conv ..

definition key_blocked :: "marker_row list \<Rightarrow> tuple_key \<Rightarrow> bool" where
  "key_blocked markers k = marker_blocks (plain_tuple (fst k) (fst (snd k)) (snd (snd k))) markers"

lemma marker_blocks_key: "marker_blocks t markers = key_blocked markers (key_of t)"
  unfolding key_blocked_def
  by (induction t markers rule: marker_blocks.induct) (auto simp: key_of_def plain_tuple_def)

lemma marker_blocks_iff:
  "marker_blocks t rows \<longleftrightarrow> (\<exists>(scope, subject, ob)\<in>set rows.
     (subject = rt_user t \<and> (ob = rt_object t \<or> scope \<in> set org_wide_scopes))
     \<or> (ob = rt_object t \<and> \<not> actor_subject subject))"
  by (induction t rows rule: marker_blocks.induct) auto

lemma apply_ops_other: "k \<notin> key_of ` to_tuple ` set ops \<Longrightarrow> apply_ops ops st k = st k"
  by (induction ops rule: rev_induct) (auto simp: apply_ops_def)

lemma apply_ops_one:
  assumes "distinct (map (key_of \<circ> to_tuple) ops)" "op \<in> set ops"
  shows "apply_ops ops st (key_of (to_tuple op)) = op_effect op"
  using assms
proof (induction ops rule: rev_induct)
  case (snoc x ops)
  have d: "distinct (map (key_of \<circ> to_tuple) ops)" using snoc.prems(1) by (simp add: comp_def)
  show ?case
  proof (cases "op = x")
    case True then show ?thesis by (simp add: apply_ops_def)
  next
    case False
    then have op: "op \<in> set ops" using snoc.prems(2) by simp
    then have "(key_of \<circ> to_tuple) op \<in> set (map (key_of \<circ> to_tuple) ops)" by simp
    moreover have "(key_of \<circ> to_tuple) x \<notin> set (map (key_of \<circ> to_tuple) ops)"
      using snoc.prems(1) by (simp add: comp_def)
    ultimately have "key_of (to_tuple op) \<noteq> key_of (to_tuple x)" by (metis comp_apply)
    then show ?thesis using snoc.IH[OF d op] by (simp add: apply_ops_def)
  qed
qed simp

text \<open>The keys a repair touches.\<close>

definition repaired :: "tuples \<Rightarrow> tuples \<Rightarrow> tuples \<Rightarrow> string list \<Rightarrow> marker_row list \<Rightarrow> tuple_key \<Rightarrow> bool" where
  "repaired want have fresh active markers k =
     (map_of want k \<noteq> map_of have k \<and> key_line k \<notin> set active \<and> map_of fresh k = map_of want k
      \<and> (map_of want k = None \<or> \<not> key_blocked markers k))"

lemma diff_members:
  assumes "dict_ok want" "dict_ok have"
  shows "t \<in> set (td_missing (diff_tuples want have)) \<longleftrightarrow> map_of want (key_of t) = Some t \<and> map_of have (key_of t) = None"
    "t \<in> set (td_extra (diff_tuples want have)) \<longleftrightarrow> map_of have (key_of t) = Some t \<and> map_of want (key_of t) = None"
    "t \<in> set (td_changed (diff_tuples want have)) \<longleftrightarrow> map_of want (key_of t) = Some t
       \<and> map_of have (key_of t) \<noteq> None \<and> map_of have (key_of t) \<noteq> Some t"
proof -
  have e: "t \<in> snd ` {x \<in> set d. P x} \<longleftrightarrow> map_of d (key_of t) = Some t \<and> P (key_of t, t)"
    if "dict_ok d" for d and P :: "tuple_key \<times> relation_tuple \<Rightarrow> bool"
  proof
    assume "t \<in> snd ` {x \<in> set d. P x}"
    then obtain k where k: "(k, t) \<in> set d" "P (k, t)" by auto
    then have "map_of d k = Some t" using dict_lookup[OF that] by blast
    then show "map_of d (key_of t) = Some t \<and> P (key_of t, t)" using dict_key[OF that] k(2) by metis
  next
    assume "map_of d (key_of t) = Some t \<and> P (key_of t, t)"
    then have "(key_of t, t) \<in> {x \<in> set d. P x}" using dict_lookup[OF that] by simp
    then show "t \<in> snd ` {x \<in> set d. P x}" by force
  qed
  show "t \<in> set (td_missing (diff_tuples want have)) \<longleftrightarrow> map_of want (key_of t) = Some t \<and> map_of have (key_of t) = None"
    using e[OF assms(1), of "\<lambda>(k, _). map_of have k = None"] by (simp add: diff_tuples_def sorted_tuples_def)
  show "t \<in> set (td_extra (diff_tuples want have)) \<longleftrightarrow> map_of have (key_of t) = Some t \<and> map_of want (key_of t) = None"
    using e[OF assms(2), of "\<lambda>(k, _). map_of want k = None"] by (simp add: diff_tuples_def sorted_tuples_def)
  show "t \<in> set (td_changed (diff_tuples want have)) \<longleftrightarrow> map_of want (key_of t) = Some t
       \<and> map_of have (key_of t) \<noteq> None \<and> map_of have (key_of t) \<noteq> Some t"
    using e[OF assms(1), of "\<lambda>(k, t). map_of have k \<noteq> None \<and> map_of have k \<noteq> Some t"]
    by (simp add: diff_tuples_def sorted_tuples_def)
qed

lemma dict_keys: "dict_ok d \<Longrightarrow> map (\<lambda>x. key_of (snd x)) d = map fst d"
proof (rule map_cong[OF refl])
  fix x assume d: "dict_ok d" and x: "x \<in> set d"
  then have "map_of d (fst x) = Some (snd x)" using dict_lookup[OF d, of "fst x" "snd x"] by simp
  then show "key_of (snd x) = fst x" by (rule dict_key[OF d])
qed

lemma diff_keys_distinct:
  assumes "dict_ok d"
  shows "distinct (map key_of (sorted_tuples (map snd (filter P d))))"
proof -
  have "distinct (map (\<lambda>x. key_of (snd x)) d)" unfolding dict_keys[OF assms] using assms by (simp add: dict_ok_def)
  then have "distinct (map (\<lambda>x. key_of (snd x)) (filter P d))" by (rule distinct_map_filter)
  then show ?thesis unfolding sorted_tuples_def distinct_map_sort_key by (simp add: comp_def)
qed

lemma rechecked_members:
  fixes d2 defines "d2 \<equiv> \<lambda>want have active markers fresh. recheck (hold (diff_tuples want have) active markers) fresh"
  assumes w: "dict_ok want" and h: "dict_ok have"
  shows "t \<in> set (td_missing (d2 want have active markers fresh)) \<longleftrightarrow>
      repaired want have fresh active markers (key_of t) \<and> map_of want (key_of t) = Some t \<and> map_of have (key_of t) = None"
    "t \<in> set (td_extra (d2 want have active markers fresh)) \<longleftrightarrow>
      repaired want have fresh active markers (key_of t) \<and> map_of have (key_of t) = Some t \<and> map_of want (key_of t) = None"
    "t \<in> set (td_changed (d2 want have active markers fresh)) \<longleftrightarrow>
      repaired want have fresh active markers (key_of t) \<and> map_of want (key_of t) = Some t \<and> map_of have (key_of t) \<noteq> None"
  using diff_members[OF w h, of t]
  by (auto simp: d2_def recheck_def hold_def Let_def repaired_def marker_blocks_key key_text_line)

lemma rechecked_distinct:
  assumes w: "dict_ok want" and h: "dict_ok have"
  shows "distinct (map (key_of \<circ> to_tuple)
    (repair_ops (recheck (hold (diff_tuples want have) active markers) fresh) Repair))"
proof -
  let ?d = "recheck (hold (diff_tuples want have) active markers) fresh"
  have d: "distinct (map key_of (td_missing ?d))" "distinct (map key_of (td_extra ?d))" "distinct (map key_of (td_changed ?d))"
    using diff_keys_distinct[OF w] diff_keys_distinct[OF h]
    by (simp_all add: recheck_def hold_def Let_def diff_tuples_def distinct_map_filter)
  have x: "key_of ` set (td_extra ?d) \<inter> key_of ` set (td_changed ?d) = {}"
    "key_of ` set (td_extra ?d) \<inter> key_of ` set (td_missing ?d) = {}"
    "key_of ` set (td_changed ?d) \<inter> key_of ` set (td_missing ?d) = {}"
    using rechecked_members[OF w h, of _ active markers fresh] by fastforce+
  have "map (key_of \<circ> to_tuple) (repair_ops ?d Repair)
      = map key_of (td_extra ?d) @ map key_of (td_changed ?d) @ map key_of (td_missing ?d)"
    by (simp add: repair_ops_def delete_op_def repair_op_def comp_def)
  then show ?thesis using d x by auto
qed


lemma reconcile_partition_repairs:
  assumes "reconcile_partition part snap snap2 mode started job fresh now ix db = Inr (p, ix', db')"
    "pr_ids p \<noteq> []"
  obtains want stored want2 where
    "pr_diff p = recheck (hold (diff_tuples want stored)
       (recent_keys (z_outbox db) (diff_keys (diff_tuples want stored)) started job)
       (recent_markers (z_markers db) started)) want2"
proof -
  obtain want refs where e: "expected_of snap part now = Inr (want, refs)"
    using assms(1) by (cases "expected_of snap part now") (auto simp: reconcile_partition_def)
  obtain stored ix1 where c: "claim_stored refs (map fst want) ix = (stored, ix1)" by (cases "claim_stored refs (map fst want) ix") auto
  note r = assms(1)[unfolded reconcile_partition_def e sum.case prod.case c Let_def]
  let ?d = "diff_tuples want stored"
  let ?d1 = "hold ?d (recent_keys (z_outbox db) (diff_keys ?d) started job) (recent_markers (z_markers db) started)"
  have ne: "\<not> diff_empty ?d" using r assms(2) by (auto split: if_splits)
  have go: "\<not> (mode = DryRun \<or> diff_empty ?d1)"
    using r[unfolded if_not_P[OF ne]] assms(2) by (auto split: if_splits)
  note r2 = r[unfolded if_not_P[OF ne] if_not_P[OF go]]
  obtain want2 refs2 where e2: "expected_of snap2 part now = Inr (want2, refs2)"
    using r2 by (cases "expected_of snap2 part now") auto
  have "pr_diff p = recheck ?d1 want2"
    using r2 unfolding e2 sum.case prod.case by (auto split: prod.splits)
  then show thesis by (rule that)
qed

lemma pending_marker_recent:
  "m \<in> set ms \<Longrightarrow> rv_finalized_at m = None \<Longrightarrow> marker_row m \<in> set (recent_markers ms started)"
  by (simp add: recent_markers_def since_def)

lemma pending_row_recent:
  "r \<in> set obs \<Longrightarrow> ob_processed_at r = None \<Longrightarrow> ob_source_table r \<noteq> reconcile_table \<Longrightarrow> ob_key r \<in> set keys
    \<Longrightarrow> ob_key r \<in> set (recent_keys obs keys started job)"
  by (auto simp: recent_keys_def since_def)

lemma unblocked_marker:
  "\<not> marker_blocks t rows \<Longrightarrow> (scope, subject, ob) \<in> set rows
    \<Longrightarrow> \<not> ((subject = rt_user t \<and> (ob = rt_object t \<or> scope \<in> set org_wide_scopes))
        \<or> (ob = rt_object t \<and> \<not> actor_subject subject))"
  unfolding marker_blocks_iff by fastforce


section \<open>Witnesses\<close>

definition demo_platform :: partition_scope where
  "demo_platform = \<lparr>pt_label = ''platform'', pt_tenant = None, pt_org = None\<rparr>"

definition demo_stored :: "relation_tuple list" where
  "demo_stored = [plain_tuple ''user:eve'' ''viewer'' ''tool:x'', plain_tuple ''user:ann'' ''member'' ''organization:o'']"

definition demo_partition :: "rule_error + (partition_result \<times> stored_index \<times> authz_db)" where
  "demo_partition = reconcile_partition demo_platform demo_snapshot demo_snapshot Repair 0 ''job'' (numbered (CHR ''r'')) 10
     (new_index (index_by_key demo_stored)) demo_db2"



end
