(* ===== verification/GuardRules.thy ===== *)
theory GuardRules
  imports Json Complex_Main
begin

text \<open>
  What the guardrails look for and which rule answers (\<open>guardrails/detectors\<close>,
  \<open>guardrails/rules\<close>): findings of the detector packs, merging them, rules, rule sets and the
  built-in templates.

  Text under check is a list of code points, because findings are code point positions. Names
  (rules, packs, entities) are UTF-8 strings as everywhere else. The compiled secret and
  jailbreak patterns and the \<open>ko_pii\<close> library are parameters: their matches in a text.

  The lemmas show that merging leaves one finding per entity and span in text order, that the
  rule for a finding is the strongest that matches, and what the built-in templates cover.
\<close>

type_synonym utext = "int list"

section \<open>Text\<close>

text \<open>Code points of a UTF-8 string.\<close>

fun utf8_decode :: "int list \<Rightarrow> utext" where
  "utf8_decode (a # b # c # d # bs) =
     (if a < 128 then a # utf8_decode (b # c # d # bs)
      else if a < 224 then ((a - 192) * 64 + (b - 128)) # utf8_decode (c # d # bs)
      else if a < 240 then ((a - 224) * 4096 + (b - 128) * 64 + (c - 128)) # utf8_decode (d # bs)
      else ((a - 240) * 262144 + (b - 128) * 4096 + (c - 128) * 64 + (d - 128)) # utf8_decode bs)"
| "utf8_decode [a, b, c] =
     (if a < 128 then a # utf8_decode [b, c]
      else if a < 224 then ((a - 192) * 64 + (b - 128)) # utf8_decode [c]
      else [(a - 224) * 4096 + (b - 128) * 64 + (c - 128)])"
| "utf8_decode [a, b] = (if a < 128 then a # utf8_decode [b] else [(a - 192) * 64 + (b - 128)])"
| "utf8_decode [a] = [a]"
| "utf8_decode [] = []"

definition chars :: "string \<Rightarrow> utext" where
  "chars s = utf8_decode (map of_char s)"

text \<open>\<open>text[a:b]\<close> for positions that are not negative.\<close>

definition slice :: "nat \<Rightarrow> nat \<Rightarrow> 'a list \<Rightarrow> 'a list" where
  "slice a b s = drop a (take b s)"

section \<open>Findings\<close>

text \<open>A float: confidences are compared only.\<close>

datatype score = NaN | NegInf | Fin rat | PosInf

fun score_gt :: "score \<Rightarrow> score \<Rightarrow> bool" where
  "score_gt NaN y = False"
| "score_gt x NaN = False"
| "score_gt NegInf y = False"
| "score_gt (Fin a) NegInf = True"
| "score_gt (Fin a) (Fin b) = (b < a)"
| "score_gt (Fin a) PosInf = False"
| "score_gt PosInf y = (y \<noteq> PosInf)"

record finding =
  fd_entity :: string
  fd_start :: nat
  fd_end :: nat
  fd_score :: score
  fd_pack :: string

definition finding_of :: "string \<Rightarrow> score \<Rightarrow> string \<Rightarrow> nat \<times> nat \<Rightarrow> finding" where
  "finding_of entity sc pack sp =
     \<lparr>fd_entity = entity, fd_start = fst sp, fd_end = snd sp, fd_score = sc, fd_pack = pack\<rparr>"

record detection =
  de_label :: string
  de_start :: nat
  de_end :: nat
  de_confidence :: score

text \<open>
  The libraries the packs call: matches of each compiled pattern (\<open>finditer\<close>), \<open>detect_all\<close> with
  its \<open>include\<close> and \<open>exclude\<close> sets, and the characters \<open>\d\<close> stands for.
\<close>

record detector_libs =
  dl_secrets :: "(utext \<Rightarrow> (nat \<times> nat) list) list"
  dl_jailbreak :: "(utext \<Rightarrow> (nat \<times> nat) list) list"
  dl_detect_all :: "utext \<Rightarrow> string set option \<Rightarrow> string set option \<Rightarrow> detection list"
  dl_decimal :: "int \<Rightarrow> bool"

definition common_labels :: "string set" where
  "common_labels = {''EMAIL'', ''CARD'', ''IP''}"

definition ko_pii :: "detector_libs \<Rightarrow> utext \<Rightarrow> string \<Rightarrow> string set option \<Rightarrow> string set option \<Rightarrow> finding list" where
  "ko_pii libs s pack include exclude =
     map (\<lambda>d. finding_of (de_label d) (de_confidence d) pack (de_start d, de_end d)) (dl_detect_all libs s include exclude)"

definition common_pack :: "detector_libs \<Rightarrow> utext \<Rightarrow> finding list" where
  "common_pack libs s =
     concat (map (\<lambda>finditer. map (finding_of ''SECRET'' (Fin 1) ''common'') (finditer s)) (dl_secrets libs))
       @ ko_pii libs s ''common'' (Some common_labels) None"

text \<open>
  \<open>_RRN_PATTERN\<close> at one position: two digits, a month, a day, an optional hyphen, a gender digit
  and six digits, neither preceded nor followed by a digit. \<open>None\<close>: no match; else its length.
\<close>

definition between :: "int \<Rightarrow> int \<Rightarrow> int \<Rightarrow> bool" where
  "between a b c = (a \<le> c \<and> c \<le> b)"

definition rrn_month :: "int \<Rightarrow> int \<Rightarrow> bool" where
  "rrn_month a b = ((a = 48 \<and> between 49 57 b) \<or> (a = 49 \<and> between 48 50 b))"

definition rrn_day :: "(int \<Rightarrow> bool) \<Rightarrow> int \<Rightarrow> int \<Rightarrow> bool" where
  "rrn_day decimal a b = ((a = 48 \<and> between 49 57 b) \<or> ((a = 49 \<or> a = 50) \<and> decimal b) \<or> (a = 51 \<and> (b = 48 \<or> b = 49)))"

definition rrn_front :: "(int \<Rightarrow> bool) \<Rightarrow> utext \<Rightarrow> bool" where
  "rrn_front decimal s =
     (case s of [a, b, m, n, d, e] \<Rightarrow> decimal a \<and> decimal b \<and> rrn_month m n \<and> rrn_day decimal d e | _ \<Rightarrow> False)"

definition rrn_back :: "(int \<Rightarrow> bool) \<Rightarrow> utext \<Rightarrow> bool" where
  "rrn_back decimal s = (length s = 7 \<and> between 49 52 (hd s) \<and> list_all decimal (tl s))"

definition rrn_at :: "(int \<Rightarrow> bool) \<Rightarrow> utext \<Rightarrow> nat option" where
  "rrn_at decimal s =
     (let hyphen = (if take 1 (drop 6 s) = [45] then 1 else 0); n = 13 + hyphen
      in if rrn_front decimal (take 6 s) \<and> rrn_back decimal (take 7 (drop (6 + hyphen) s))
            \<and> \<not> list_ex decimal (take 1 (drop n s))
         then Some n else None)"

text \<open>\<open>finditer\<close>: leftmost matches that do not overlap; \<open>prev\<close> says whether a digit comes just before.\<close>

function rrn_spans :: "(int \<Rightarrow> bool) \<Rightarrow> bool \<Rightarrow> nat \<Rightarrow> utext \<Rightarrow> (nat \<times> nat) list" where
  "rrn_spans decimal prev pos s =
     (case s of
        [] \<Rightarrow> []
      | c # cs \<Rightarrow>
          (case if prev then None else rrn_at decimal s of
             Some n \<Rightarrow> (pos, pos + n) # rrn_spans decimal True (pos + max 1 n) (drop (max 1 n) s)
           | None \<Rightarrow> rrn_spans decimal (decimal c) (pos + 1) cs))"
  by pat_completeness auto
termination by (relation "measure (\<lambda>(_, _, _, s). length s)") auto

declare rrn_spans.simps [simp del]

definition rrn_fallback :: "detector_libs \<Rightarrow> utext \<Rightarrow> string \<Rightarrow> finding list" where
  "rrn_fallback libs s pack = map (finding_of ''RRN'' (Fin (1 / 2)) pack) (rrn_spans (dl_decimal libs) False 0 s)"

definition kr_pack :: "detector_libs \<Rightarrow> utext \<Rightarrow> finding list" where
  "kr_pack libs s = ko_pii libs s ''kr'' None (Some common_labels) @ rrn_fallback libs s ''kr''"

definition jailbreak_pack :: "detector_libs \<Rightarrow> utext \<Rightarrow> finding list" where
  "jailbreak_pack libs s =
     concat (map (\<lambda>finditer. map (finding_of ''JAILBREAK'' (Fin 1) ''jailbreak'') (finditer s)) (dl_jailbreak libs))"

definition packs_table :: "(string \<times> (detector_libs \<Rightarrow> utext \<Rightarrow> finding list)) list" where
  "packs_table = [(''common'', common_pack), (''kr'', kr_pack), (''jailbreak'', jailbreak_pack)]"

type_synonym finding_key = "nat \<times> nat \<times> string"

definition span_key :: "finding \<Rightarrow> finding_key" where
  "span_key f = (fd_start f, fd_end f, fd_entity f)"

definition keep_best :: "finding \<Rightarrow> (finding_key \<times> finding) list \<Rightarrow> (finding_key \<times> finding) list" where
  "keep_best f best =
     (case map_of best (span_key f) of
        None \<Rightarrow> AList.update (span_key f) f best
      | Some old \<Rightarrow> if score_gt (fd_score f) (fd_score old) then AList.update (span_key f) f best else best)"

definition merge_findings :: "finding list \<Rightarrow> finding list" where
  "merge_findings fs = sort_key span_key (map snd (fold keep_best fs []))"

text \<open>\<open>detect\<close>; \<open>None\<close>: a name that is not a rule pack (\<open>KeyError\<close>).\<close>

fun pack_findings :: "detector_libs \<Rightarrow> utext \<Rightarrow> string list \<Rightarrow> finding list option" where
  "pack_findings libs s [] = Some []"
| "pack_findings libs s (name # names) =
     (case map_of packs_table name of
        None \<Rightarrow> None
      | Some pack \<Rightarrow> (case pack_findings libs s names of None \<Rightarrow> None | Some fs \<Rightarrow> Some (pack libs s @ fs)))"

definition detect :: "detector_libs \<Rightarrow> utext \<Rightarrow> string list \<Rightarrow> finding list option" where
  "detect libs s names = (case pack_findings libs s names of None \<Rightarrow> None | Some fs \<Rightarrow> Some (merge_findings fs))"

section \<open>Rules\<close>

datatype stage = InputStage | LlmSend | ToolArgs | ToolResult | OutputStage
datatype action = Block | Approval | Redact | Hash | Pseudonymize | Mask | Warn

fun stage_name :: "stage \<Rightarrow> string" where
  "stage_name InputStage = ''input''"
| "stage_name LlmSend = ''llm_send''"
| "stage_name ToolArgs = ''tool_args''"
| "stage_name ToolResult = ''tool_result''"
| "stage_name OutputStage = ''output''"

fun action_name :: "action \<Rightarrow> string" where
  "action_name Block = ''block''"
| "action_name Approval = ''approval''"
| "action_name Redact = ''redact''"
| "action_name Hash = ''hash''"
| "action_name Pseudonymize = ''pseudonymize''"
| "action_name Mask = ''mask''"
| "action_name Warn = ''warn''"

text \<open>\<open>ACTION_STRENGTH\<close>; actions are ordered by it.\<close>

fun strength :: "action \<Rightarrow> nat" where
  "strength Warn = 0"
| "strength Mask = 1"
| "strength Pseudonymize = 2"
| "strength Hash = 3"
| "strength Redact = 4"
| "strength Approval = 5"
| "strength Block = 6"

lemma strength_inj: "strength a = strength b \<longleftrightarrow> a = b"
  by (cases a; cases b) simp_all

lemma stage_name_inj: "stage_name a = stage_name b \<longleftrightarrow> a = b"
  by (cases a; cases b) simp_all

instantiation action :: linorder
begin

definition less_eq_action :: "action \<Rightarrow> action \<Rightarrow> bool" where
  "less_eq_action a b = (strength a \<le> strength b)"

definition less_action :: "action \<Rightarrow> action \<Rightarrow> bool" where
  "less_action a b = (strength a < strength b)"

instance
  by standard (auto simp: less_eq_action_def less_action_def strength_inj)

end

text \<open>Stages are ordered by their names, the order \<open>sorted\<close> gives them.\<close>

instantiation stage :: linorder
begin

definition less_eq_stage :: "stage \<Rightarrow> stage \<Rightarrow> bool" where
  "less_eq_stage a b = (stage_name a \<le> stage_name b)"

definition less_stage :: "stage \<Rightarrow> stage \<Rightarrow> bool" where
  "less_stage a b = (stage_name a < stage_name b)"

instance
  by standard (auto simp: less_eq_stage_def less_stage_def stage_name_inj not_le not_less dest: order_antisym leD)

end

record rule =
  ru_id :: string
  ru_packs :: "string list"
  ru_stages :: "stage set"
  ru_action :: action
  ru_entities :: "string set option"
  ru_restore :: bool
  ru_style :: string

definition pack_family :: "string \<Rightarrow> string set" where
  "pack_family name = (if name = ''kr_model'' then {''kr_model'', ''kr''} else {name})"

definition matches :: "rule \<Rightarrow> string \<Rightarrow> string \<Rightarrow> stage \<Rightarrow> bool" where
  "matches r entity pack st =
     (if st \<notin> ru_stages r then False
      else if (case ru_entities r of None \<Rightarrow> False | Some es \<Rightarrow> entity \<notin> es) then False
      else list_ex (\<lambda>name. pack \<in> pack_family name) (ru_packs r))"

record rule_set =
  rz_template :: string
  rz_version :: int
  rz_rules :: "rule list"

definition packs_for :: "rule_set \<Rightarrow> stage \<Rightarrow> string list" where
  "packs_for rules st = sort (remdups (concat (map ru_packs (filter (\<lambda>r. st \<in> ru_stages r) (rz_rules rules)))))"

definition stronger_rule :: "string \<Rightarrow> string \<Rightarrow> stage \<Rightarrow> rule \<Rightarrow> rule option \<Rightarrow> rule option" where
  "stronger_rule entity pack st r best =
     (if matches r entity pack st
         \<and> (case best of None \<Rightarrow> True | Some b \<Rightarrow> strength (ru_action b) < strength (ru_action r))
      then Some r else best)"

definition rule_for :: "rule_set \<Rightarrow> string \<Rightarrow> string \<Rightarrow> stage \<Rightarrow> rule option" where
  "rule_for rules entity pack st = fold (stronger_rule entity pack st) (rz_rules rules) None"

section \<open>Built-in templates\<close>

definition at_send :: "stage set" where "at_send = {LlmSend}"
definition at_send_out :: "stage set" where "at_send_out = {LlmSend, OutputStage}"
definition at_in :: "stage set" where "at_in = {LlmSend, ToolArgs, ToolResult}"
definition at_out :: "stage set" where "at_out = {OutputStage}"
definition at_all :: "stage set" where "at_all = at_in \<union> at_out"
definition at_input :: "stage set" where "at_input = {InputStage}"

definition identifier_entities :: "string set" where
  "identifier_entities =
     {''RRN'', ''FRN'', ''PASSPORT'', ''DRIVER_LICENSE'', ''CARD'', ''ACCOUNT'', ''MEDICAL_INSURANCE''}"

definition plain_rule :: "string \<Rightarrow> string list \<Rightarrow> stage set \<Rightarrow> action \<Rightarrow> string set option \<Rightarrow> rule" where
  "plain_rule i packs sts a es =
     \<lparr>ru_id = i, ru_packs = packs, ru_stages = sts, ru_action = a, ru_entities = es, ru_restore = False, ru_style = ''tag''\<rparr>"

definition jailbreak_rule :: "action \<Rightarrow> rule" where
  "jailbreak_rule a = plain_rule ''jailbreak'' [''jailbreak''] at_input a None"

definition secret_rules :: "rule list" where
  "secret_rules =
     [plain_rule ''secrets'' [''common''] at_in Block (Some {''SECRET''}),
      plain_rule ''secrets-output'' [''common''] at_out Redact (Some {''SECRET''})]"

definition contact_rule :: "action \<Rightarrow> rule" where
  "contact_rule a = plain_rule ''contacts'' [''common'', ''kr_model''] at_send_out a (Some {''PHONE'', ''EMAIL''})"

definition people_rules :: "string \<Rightarrow> rule list" where
  "people_rules style =
     [(plain_rule ''people'' [''kr_model''] at_send Pseudonymize (Some {''PERSON'', ''ADDRESS''}))
        \<lparr>ru_restore := True, ru_style := style\<rparr>,
      plain_rule ''people-output'' [''kr_model''] at_out Warn (Some {''PERSON'', ''ADDRESS''})]"

definition builtin_rules :: "string \<Rightarrow> (int \<times> rule list) option" where
  "builtin_rules name =
     map_of
       [(''kr-default'', 4 :: int, [jailbreak_rule Warn] @ secret_rules
           @ [plain_rule ''kr-identifiers'' [''kr_model''] at_all Redact (Some identifier_entities), contact_rule Mask]
           @ people_rules ''tag''),
        (''kr-natural'', 2, [jailbreak_rule Warn] @ secret_rules
           @ [plain_rule ''kr-identifiers'' [''kr_model''] at_all Redact (Some identifier_entities), contact_rule Mask]
           @ people_rules ''natural''),
        (''kr-strict'', 1, [jailbreak_rule Block] @ secret_rules
           @ [plain_rule ''kr-identifiers'' [''kr_model''] at_in Block (Some identifier_entities),
              plain_rule ''kr-identifiers-output'' [''kr_model''] at_out Redact (Some identifier_entities),
              contact_rule Redact] @ people_rules ''tag''),
        (''common-basic'', 1, [jailbreak_rule Warn] @ secret_rules
           @ [plain_rule ''cards'' [''common''] at_all Redact (Some {''CARD''}),
              plain_rule ''contacts'' [''common''] at_send_out Mask (Some {''EMAIL'', ''IP''})]),
        (''kr-observe'', 3, [plain_rule ''observe'' [''common'', ''kr_model''] at_all Warn None, jailbreak_rule Warn])]
       name"

definition builtin :: "string \<Rightarrow> rule_set option" where
  "builtin name =
     (case builtin_rules name of
        None \<Rightarrow> None
      | Some (v, rs) \<Rightarrow> Some \<lparr>rz_template = name, rz_version = v, rz_rules = rs\<rparr>)"

section \<open>Merging and choosing\<close>

lemma keep_best_keys:
  "fst ` set (keep_best f best) = insert (span_key f) (fst ` set best)"
proof (cases "map_of best (span_key f)")
  case None
  then show ?thesis by (simp add: keep_best_def dom_update)
next
  case (Some old)
  then have "span_key f \<in> fst ` set best" by (metis domI dom_map_of_conv_image_fst)
  then show ?thesis using Some by (simp add: keep_best_def dom_update insert_absorb)
qed

lemma set_update_subset: "set (AList.update k v al) \<subseteq> insert (k, v) (set al)"
  by (induction al) auto

definition best_ok :: "(finding_key \<times> finding) list \<Rightarrow> bool" where
  "best_ok best = (distinct (map fst best) \<and> (\<forall>x\<in>set best. span_key (snd x) = fst x))"

lemma best_ok_step: "best_ok best \<Longrightarrow> best_ok (keep_best f best)"
  unfolding best_ok_def keep_best_def using set_update_subset[of "span_key f" f best]
  by (auto simp: distinct_update split: option.splits)

lemma best_ok_fold: "best_ok best \<Longrightarrow> best_ok (fold keep_best fs best)"
  by (induction fs arbitrary: best) (simp_all add: best_ok_step)

lemma best_keys_fold: "fst ` set (fold keep_best fs best) = span_key ` set fs \<union> fst ` set best"
  by (induction fs arbitrary: best) (auto simp: keep_best_keys)

lemma best_ok_keys: "best_ok best \<Longrightarrow> map span_key (map snd best) = map fst best"
  unfolding best_ok_def map_map comp_def by (rule map_cong[OF refl]) blast

lemma keep_best_set: "set (keep_best f best) \<subseteq> insert (span_key f, f) (set best)"
proof (cases "keep_best f best = AList.update (span_key f) f best")
  case True
  then show ?thesis using set_update_subset by (simp only:)
next
  case False
  then have "keep_best f best = best"
    by (cases "map_of best (span_key f)") (simp_all add: keep_best_def split: if_splits)
  then show ?thesis by (simp only: subset_insertI)
qed

lemma merged_from: "snd ` set (fold keep_best fs best) \<subseteq> set fs \<union> snd ` set best"
proof (induction fs arbitrary: best)
  case (Cons f fs)
  have "snd ` set (keep_best f best) \<subseteq> insert f (snd ` set best)"
    using image_mono[OF keep_best_set[of f best], of snd] by (simp only: image_insert snd_conv)
  then show ?case using Cons.IH[of "keep_best f best"] unfolding fold_Cons comp_apply list.set by blast
qed simp

lemma merge_findings_props:
  "distinct (map span_key (merge_findings fs))" "sorted (map span_key (merge_findings fs))"
  "span_key ` set (merge_findings fs) = span_key ` set fs" "set (merge_findings fs) \<subseteq> set fs"
proof -
  let ?best = "fold keep_best fs []"
  have ok: "best_ok ?best" by (rule best_ok_fold) (simp add: best_ok_def)
  have keys: "map span_key (map snd ?best) = map fst ?best" by (rule best_ok_keys[OF ok])
  show "distinct (map span_key (merge_findings fs))"
    unfolding merge_findings_def distinct_map_sort_key keys using ok by (simp add: best_ok_def)
  show "sorted (map span_key (merge_findings fs))" unfolding merge_findings_def by (rule sorted_sort_key)
  have "span_key ` set (merge_findings fs) = fst ` set ?best"
    unfolding merge_findings_def set_sort using keys by (metis list.set_map)
  then show "span_key ` set (merge_findings fs) = span_key ` set fs" by (simp add: best_keys_fold)
  show "set (merge_findings fs) \<subseteq> set fs"
    unfolding merge_findings_def set_sort using merged_from[of fs "[]"] by simp
qed

lemma stronger_rule_cases:
  "stronger_rule entity pack st r best = best \<or> stronger_rule entity pack st r best = Some r \<and> matches r entity pack st"
  by (auto simp: stronger_rule_def)

text \<open>The rule that answers a finding is in the set, matches it, and no matching rule is stronger.\<close>

lemma rule_for_fold:
  assumes "fold (stronger_rule entity pack st) rs best = res"
    "\<And>b. best = Some b \<Longrightarrow> b \<in> S \<and> matches b entity pack st" "set rs \<subseteq> S"
  shows "\<And>b. res = Some b \<Longrightarrow> b \<in> S \<and> matches b entity pack st"
    "\<And>r. r \<in> set rs \<Longrightarrow> matches r entity pack st \<Longrightarrow> \<exists>b. res = Some b \<and> ru_action r \<le> ru_action b"
    "\<And>b. best = Some b \<Longrightarrow> \<exists>b'. res = Some b' \<and> ru_action b \<le> ru_action b'"
proof -
  have "(\<forall>b. res = Some b \<longrightarrow> b \<in> S \<and> matches b entity pack st)
    \<and> (\<forall>r\<in>set rs. matches r entity pack st \<longrightarrow> (\<exists>b. res = Some b \<and> ru_action r \<le> ru_action b))
    \<and> (\<forall>b. best = Some b \<longrightarrow> (\<exists>b'. res = Some b' \<and> ru_action b \<le> ru_action b'))"
    using assms
  proof (induction rs arbitrary: best)
    case (Cons r rs)
    let ?next = "stronger_rule entity pack st r best"
    have f: "fold (stronger_rule entity pack st) rs ?next = res" using Cons.prems(1) by simp
    have n: "b \<in> S \<and> matches b entity pack st" if "?next = Some b" for b
      using that Cons.prems(2,3) by (auto simp: stronger_rule_def split: if_splits)
    have up: "\<exists>b'. ?next = Some b' \<and> ru_action b \<le> ru_action b'" if "best = Some b" for b
      using that by (auto simp: stronger_rule_def less_eq_action_def)
    have r: "\<exists>b'. ?next = Some b' \<and> ru_action r \<le> ru_action b'" if "matches r entity pack st"
      using that by (auto simp: stronger_rule_def less_eq_action_def split: option.splits)
    have sub: "set rs \<subseteq> S" using Cons.prems(3) by simp
    note ih = Cons.IH[OF f n sub]
    have last: "\<exists>b'. res = Some b' \<and> ru_action b \<le> ru_action b'" if "?next = Some b" for b
      using ih that by blast
    show ?case
    proof (intro conjI ballI allI impI)
      show "b \<in> S" if "res = Some b" for b using ih that by blast
      show "matches b entity pack st" if "res = Some b" for b using ih that by blast
    next
      fix x assume "x \<in> set (r # rs)" "matches x entity pack st"
      then show "\<exists>b. res = Some b \<and> ru_action x \<le> ru_action b"
        using ih r last by (metis order_trans set_ConsD)
    next
      fix b assume "best = Some b"
      then show "\<exists>b'. res = Some b' \<and> ru_action b \<le> ru_action b'" using up[of b] last order_trans by blast
    qed
  qed simp
  then show "\<And>b. res = Some b \<Longrightarrow> b \<in> S \<and> matches b entity pack st"
    "\<And>r. r \<in> set rs \<Longrightarrow> matches r entity pack st \<Longrightarrow> \<exists>b. res = Some b \<and> ru_action r \<le> ru_action b"
    "\<And>b. best = Some b \<Longrightarrow> \<exists>b'. res = Some b' \<and> ru_action b \<le> ru_action b'" by blast+
qed

lemma rule_for_strongest:
  shows "rule_for rules entity pack st = Some b \<Longrightarrow> b \<in> set (rz_rules rules) \<and> matches b entity pack st"
    "r \<in> set (rz_rules rules) \<Longrightarrow> matches r entity pack st
      \<Longrightarrow> \<exists>b. rule_for rules entity pack st = Some b \<and> ru_action r \<le> ru_action b"
proof -
  note f = rule_for_fold[OF rule_for_def[symmetric], of "set (rz_rules rules)", OF _ order_refl]
  show "rule_for rules entity pack st = Some b \<Longrightarrow> b \<in> set (rz_rules rules) \<and> matches b entity pack st"
    using f(1) by blast
  show "r \<in> set (rz_rules rules) \<Longrightarrow> matches r entity pack st
      \<Longrightarrow> \<exists>b. rule_for rules entity pack st = Some b \<and> ru_action r \<le> ru_action b"
    using f(2) by blast
qed

section \<open>Card numbers under the default template\<close>

text \<open>
  The identifier rule of \<open>kr-default\<close> names only \<open>kr_model\<close>, while card numbers are labels of the
  \<open>common\<close> pack; what that pack reports is answered by no rule, at any stage.
\<close>

theorem kr_default_leaves_common_cards:
  assumes "builtin ''kr-default'' = Some rules"
  shows "rule_for rules ''CARD'' ''common'' st = None \<and> rule_for rules ''CARD'' ''kr'' LlmSend \<noteq> None"
proof -
  have r: "rz_rules rules = [jailbreak_rule Warn] @ secret_rules
      @ [plain_rule ''kr-identifiers'' [''kr_model''] at_all Redact (Some identifier_entities), contact_rule Mask]
      @ people_rules ''tag''"
    using assms by (auto simp: builtin_def builtin_rules_def)
  have "list_all (\<lambda>r. \<not> matches r ''CARD'' ''common'' st) (rz_rules rules)" unfolding r
    by (simp add: matches_def plain_rule_def jailbreak_rule_def secret_rules_def contact_rule_def people_rules_def
        pack_family_def identifier_entities_def)
  then have "rule_for rules ''CARD'' ''common'' st = None"
    using rule_for_strongest(1)[of rules "''CARD''" "''common''" st]
    by (cases "rule_for rules ''CARD'' ''common'' st") (auto simp: list_all_iff)
  moreover have "matches (plain_rule ''kr-identifiers'' [''kr_model''] at_all Redact (Some identifier_entities)) ''CARD'' ''kr'' LlmSend"
    by (simp add: matches_def plain_rule_def pack_family_def identifier_entities_def at_all_def at_in_def)
  then have "rule_for rules ''CARD'' ''kr'' LlmSend \<noteq> None"
    using rule_for_strongest(2)[of _ rules "''CARD''" "''kr''" LlmSend] r by fastforce
  ultimately show ?thesis by blast
qed

end
