(* ===== verification/GuardTemplates.thy ===== *)
theory GuardTemplates
  imports GuardRules
begin

text \<open>
  Rule sets as data (\<open>guardrails/templates\<close>): rules as JSON, their validation on the way in, and
  references to templates. A JSON object is its list of members; \<open>get\<close> of an absent member is
  \<open>None\<close> like a \<open>null\<close> one. Membership of a list or an object in a set is a \<open>TypeError\<close>, as in
  Python. The canonical text of a UUID string is a parameter.

  The lemmas show that whatever the validation accepts is within the documented limits and is read
  back unchanged from its JSON form, and that the built-in templates are accepted.
\<close>

section \<open>Rules as JSON\<close>

datatype rules_error = NotObject nat | BadId nat | BadPacks string | BadStages string | BadAction string
  | BadEntities string | BadStyle string | InputAction string | ApprovalUse string | BadRestore string
  | BadList | DuplicateIds | Unhashable

definition max_rules :: nat where "max_rules = 40"

definition pack_names :: "string set" where
  "pack_names = set (map fst packs_table) \<union> {''kr_model''}"

definition approval_packs :: "string set" where
  "approval_packs = {''common'', ''kr''}"

definition stages_list :: "stage list" where
  "stages_list = [InputStage, LlmSend, ToolArgs, ToolResult, OutputStage]"

definition actions_list :: "action list" where
  "actions_list = [Block, Approval, Redact, Hash, Pseudonymize, Mask, Warn]"

definition stage_of :: "json \<Rightarrow> stage option" where
  "stage_of j = (case j of JStr s \<Rightarrow> find (\<lambda>x. stage_name x = s) stages_list | _ \<Rightarrow> None)"

definition action_of :: "json \<Rightarrow> action option" where
  "action_of j = (case j of JStr s \<Rightarrow> find (\<lambda>x. action_name x = s) actions_list | _ \<Rightarrow> None)"

definition styles :: "string set" where
  "styles = {''tag'', ''natural''}"

definition input_actions :: "action set" where
  "input_actions = {Block, Warn}"

definition rule_to_json :: "rule \<Rightarrow> json" where
  "rule_to_json r =
     JObj [(''id'', JStr (ru_id r)), (''packs'', JList (map JStr (ru_packs r))),
       (''stages'', JList (map (JStr \<circ> stage_name) (sorted_list_of_set (ru_stages r)))),
       (''action'', JStr (action_name (ru_action r))),
       (''entities'', case ru_entities r of None \<Rightarrow> JNull | Some es \<Rightarrow> JList (map JStr (sorted_list_of_set es))),
       (''restore_for_tools'', JBool (ru_restore r)), (''pseudonym_style'', JStr (ru_style r))]"

definition short_string :: "nat \<Rightarrow> json \<Rightarrow> bool" where
  "short_string n j = (case j of JStr s \<Rightarrow> 0 < length (chars s) \<and> length (chars s) \<le> n | _ \<Rightarrow> False)"

fun str_of :: "json \<Rightarrow> string" where
  "str_of (JStr s) = s"
| "str_of _ = []"

text \<open>A non-empty list of hashable values, all of them names that \<open>ok\<close> accepts.\<close>

definition name_list :: "(json \<Rightarrow> bool) \<Rightarrow> json \<Rightarrow> rules_error \<Rightarrow> rules_error + json list" where
  "name_list ok j err =
     (case j of
        JList xs \<Rightarrow>
          if xs = [] then Inl err
          else if \<not> list_all hashable xs then Inl Unhashable
          else if list_all ok xs then Inr xs
          else Inl err
      | _ \<Rightarrow> Inl err)"

definition known_pack :: "json \<Rightarrow> bool" where
  "known_pack j = (case j of JStr s \<Rightarrow> s \<in> pack_names | _ \<Rightarrow> False)"

definition entities_of :: "json \<Rightarrow> rules_error \<Rightarrow> rules_error + string set option" where
  "entities_of j err =
     (case j of
        JNull \<Rightarrow> Inr None
      | JList xs \<Rightarrow> if list_all (short_string 40) xs then Inr (Some (set (map str_of xs))) else Inl err
      | _ \<Rightarrow> Inl err)"

definition style_of :: "json option \<Rightarrow> rules_error \<Rightarrow> rules_error + string" where
  "style_of j err =
     (case j of
        None \<Rightarrow> Inr ''tag''
      | Some v \<Rightarrow>
          if \<not> hashable v then Inl Unhashable
          else (case v of JStr s \<Rightarrow> if s \<in> styles then Inr s else Inl err | _ \<Rightarrow> Inl err))"

definition restore_of :: "json option \<Rightarrow> rules_error \<Rightarrow> rules_error + bool" where
  "restore_of j err = (case j of None \<Rightarrow> Inr False | Some (JBool b) \<Rightarrow> Inr b | Some _ \<Rightarrow> Inl err)"

definition rule_from_json :: "json \<Rightarrow> nat \<Rightarrow> rules_error + rule" where
  "rule_from_json data index =
     (case data of
        JObj ms \<Rightarrow>
          if \<not> short_string 64 (jget ms ''id'') then Inl (BadId index)
          else let i = str_of (jget ms ''id'') in
          case name_list known_pack (jget ms ''packs'') (BadPacks i) of Inl e \<Rightarrow> Inl e | Inr packs \<Rightarrow>
          case name_list (\<lambda>x. stage_of x \<noteq> None) (jget ms ''stages'') (BadStages i) of Inl e \<Rightarrow> Inl e | Inr sts \<Rightarrow>
          if \<not> hashable (jget ms ''action'') then Inl Unhashable else
          case action_of (jget ms ''action'') of None \<Rightarrow> Inl (BadAction i) | Some a \<Rightarrow>
          case entities_of (jget ms ''entities'') (BadEntities i) of Inl e \<Rightarrow> Inl e | Inr es \<Rightarrow>
          case style_of (map_of ms ''pseudonym_style'') (BadStyle i) of Inl e \<Rightarrow> Inl e | Inr style \<Rightarrow>
          let stages = set (map (the \<circ> stage_of) sts); names = map str_of packs in
          if InputStage \<in> stages \<and> a \<notin> input_actions then Inl (InputAction i)
          else if a = Approval \<and> (stages \<noteq> {ToolArgs} \<or> \<not> set names \<subseteq> approval_packs) then Inl (ApprovalUse i)
          else case restore_of (map_of ms ''restore_for_tools'') (BadRestore i) of Inl e \<Rightarrow> Inl e | Inr restore \<Rightarrow>
          Inr \<lparr>ru_id = i, ru_packs = names, ru_stages = stages, ru_action = a, ru_entities = es,
             ru_restore = restore, ru_style = style\<rparr>
      | _ \<Rightarrow> Inl (NotObject index))"

fun parse_rules :: "json list \<Rightarrow> nat \<Rightarrow> rules_error + rule list" where
  "parse_rules [] i = Inr []"
| "parse_rules (x # xs) i =
     (case rule_from_json x i of
        Inl e \<Rightarrow> Inl e
      | Inr r \<Rightarrow> (case parse_rules xs (Suc i) of Inl e \<Rightarrow> Inl e | Inr rs \<Rightarrow> Inr (r # rs)))"

definition rules_from_json :: "json \<Rightarrow> rules_error + rule list" where
  "rules_from_json items =
     (case items of
        JList xs \<Rightarrow>
          if xs = [] \<or> max_rules < length xs then Inl BadList
          else (case parse_rules xs 0 of
                  Inl e \<Rightarrow> Inl e
                | Inr rs \<Rightarrow> if distinct (map ru_id rs) then Inr rs else Inl DuplicateIds)
      | _ \<Rightarrow> Inl BadList)"

definition rules_json :: "rule list \<Rightarrow> json" where
  "rules_json rs = JList (map rule_to_json rs)"

text \<open>A pinned rule set: its template's name and version, and its rules.\<close>

definition rules_to_json :: "rule_set \<Rightarrow> json" where
  "rules_to_json z =
     JObj [(''template'', JStr (rz_template z)), (''version'', JInt (rz_version z)), (''rules'', rules_json (rz_rules z))]"

datatype snapshot_error = MissingField string | NotText | BadRules rules_error

text \<open>\<open>snapshot_from_json\<close> on a record whose template is a text and whose version is a number, as
  \<open>rules_to_json\<close> writes them.\<close>

definition snapshot_from_json :: "(string \<times> json) list \<Rightarrow> snapshot_error + rule_set" where
  "snapshot_from_json ms =
     (case (map_of ms ''template'', map_of ms ''version'', map_of ms ''rules'') of
        (None, _, _) \<Rightarrow> Inl (MissingField ''template'')
      | (_, None, _) \<Rightarrow> Inl (MissingField ''version'')
      | (_, _, None) \<Rightarrow> Inl (MissingField ''rules'')
      | (Some (JStr t), Some (JInt v), Some rs) \<Rightarrow>
          (case rules_from_json rs of
             Inl e \<Rightarrow> Inl (BadRules e)
           | Inr rules \<Rightarrow> Inr \<lparr>rz_template = t, rz_version = v, rz_rules = rules\<rparr>)
      | _ \<Rightarrow> Inl NotText)"

section \<open>References\<close>

datatype template_ref = BuiltinRef string | CompanyRef uuid

definition builtin_prefix :: string where "builtin_prefix = ''builtin:''"
definition company_prefix :: string where "company_prefix = ''company:''"

definition company_ref :: "uuid \<Rightarrow> string" where
  "company_ref i = company_prefix @ i"

text \<open>\<open>canonical\<close>: \<open>str(uuid.UUID(text))\<close>, \<open>None\<close> for \<open>ValueError\<close>.\<close>

definition parse_ref :: "(string \<Rightarrow> uuid option) \<Rightarrow> string \<Rightarrow> template_ref option" where
  "parse_ref canonical r =
     (if starts_with r builtin_prefix \<and> drop (length builtin_prefix) r \<noteq> []
      then Some (BuiltinRef (drop (length builtin_prefix) r))
      else if starts_with r company_prefix
      then map_option CompanyRef (canonical (drop (length company_prefix) r))
      else None)"

section \<open>What validation accepts\<close>

definition finite_names :: "string set \<Rightarrow> bool" where
  "finite_names es = finite es"

lemma finite_names_set [simp, code]: "finite_names (set xs) = True"
  by (simp add: finite_names_def)

definition valid_rule :: "rule \<Rightarrow> bool" where
  "valid_rule r =
     (short_string 64 (JStr (ru_id r))
      \<and> ru_packs r \<noteq> [] \<and> set (ru_packs r) \<subseteq> pack_names
      \<and> ru_stages r \<noteq> {}
      \<and> (case ru_entities r of None \<Rightarrow> True | Some es \<Rightarrow> finite_names es \<and> (\<forall>e\<in>es. short_string 40 (JStr e)))
      \<and> ru_style r \<in> styles
      \<and> (InputStage \<in> ru_stages r \<longrightarrow> ru_action r \<in> input_actions)
      \<and> (ru_action r = Approval \<longrightarrow> ru_stages r = {ToolArgs} \<and> set (ru_packs r) \<subseteq> approval_packs))"

definition valid_rules :: "rule list \<Rightarrow> bool" where
  "valid_rules rs = (list_all valid_rule rs \<and> rs \<noteq> [] \<and> length rs \<le> max_rules \<and> distinct (map ru_id rs))"

lemma finite_stages [simp]: "finite (S :: stage set)"
  by (rule finite_subset[of _ "set stages_list"])
    (auto simp: stages_list_def intro: stage.exhaust)

lemma stage_of_name [simp]: "stage_of (JStr (stage_name s)) = Some s"
  by (cases s) (simp_all add: stage_of_def stages_list_def)

lemma action_of_name [simp]: "action_of (JStr (action_name a)) = Some a"
  by (cases a) (simp_all add: action_of_def actions_list_def)

lemma short_string_str: "short_string n j \<Longrightarrow> short_string n (JStr (str_of j))"
  by (cases j) (simp_all add: short_string_def)

lemma known_pack_str: "known_pack j \<Longrightarrow> str_of j \<in> pack_names"
  by (cases j) (simp_all add: known_pack_def)

lemma name_list_Inr:
  "name_list ok j err = Inr xs \<longleftrightarrow> j = JList xs \<and> xs \<noteq> [] \<and> list_all hashable xs \<and> list_all ok xs"
  by (cases j) (auto simp: name_list_def)

lemma entities_of_Inr:
  "entities_of j err = Inr es \<Longrightarrow>
    (case es of None \<Rightarrow> True | Some s \<Rightarrow> finite_names s \<and> (\<forall>e\<in>s. short_string 40 (JStr e)))"
  by (cases j) (auto simp: entities_of_def list_all_iff short_string_str finite_names_def split: if_splits)

lemma style_of_Inr: "style_of j err = Inr s \<Longrightarrow> s \<in> styles"
  by (auto simp: style_of_def styles_def split: option.splits if_splits json.splits)

lemma rule_from_json_valid:
  assumes "rule_from_json j i = Inr r"
  shows "valid_rule r"
proof -
  obtain ms where j: "j = JObj ms" using assms by (cases j) (simp_all add: rule_from_json_def)
  note p = assms[unfolded j rule_from_json_def json.case Let_def]
  have i: "short_string 64 (jget ms ''id'')" using p by (auto split: if_splits)
  then have "\<not> \<not> short_string 64 (jget ms ''id'')" by simp
  note p = p[unfolded if_not_P[OF this]]
  obtain packs where packs: "name_list known_pack (jget ms ''packs'') (BadPacks (str_of (jget ms ''id''))) = Inr packs"
    using p by (auto split: sum.splits)
  note p = p[unfolded packs sum.case]
  obtain sts where sts: "name_list (\<lambda>x. stage_of x \<noteq> None) (jget ms ''stages'') (BadStages (str_of (jget ms ''id''))) = Inr sts"
    using p by (auto split: sum.splits)
  note p = p[unfolded sts sum.case]
  have h: "\<not> \<not> hashable (jget ms ''action'')" using p by (auto split: if_splits)
  note p = p[unfolded if_not_P[OF h]]
  obtain a where a: "action_of (jget ms ''action'') = Some a" using p by (auto split: option.splits)
  note p = p[unfolded a option.case]
  obtain es where es: "entities_of (jget ms ''entities'') (BadEntities (str_of (jget ms ''id''))) = Inr es"
    using p by (auto split: sum.splits)
  note p = p[unfolded es sum.case]
  obtain style where style: "style_of (map_of ms ''pseudonym_style'') (BadStyle (str_of (jget ms ''id''))) = Inr style"
    using p by (auto split: sum.splits)
  note p = p[unfolded style sum.case]
  let ?st = "set (map (the \<circ> stage_of) sts)" and ?nm = "map str_of packs"
  have inp: "\<not> (InputStage \<in> ?st \<and> a \<notin> input_actions)" using p by (auto split: if_splits)
  note p = p[unfolded if_not_P[OF inp]]
  have app: "\<not> (a = Approval \<and> (?st \<noteq> {ToolArgs} \<or> \<not> set ?nm \<subseteq> approval_packs))"
  proof
    assume "a = Approval \<and> (?st \<noteq> {ToolArgs} \<or> \<not> set ?nm \<subseteq> approval_packs)"
    from p[unfolded if_P[OF this]] show False by simp
  qed
  note p = p[unfolded if_not_P[OF app]]
  obtain re where r: "r = \<lparr>ru_id = str_of (jget ms ''id''), ru_packs = ?nm, ru_stages = ?st, ru_action = a,
      ru_entities = es, ru_restore = re, ru_style = style\<rparr>"
    using p by (auto split: sum.splits)
  have pk: "packs \<noteq> []" "list_all known_pack packs" using packs by (simp_all add: name_list_Inr)
  have "set ?nm \<subseteq> pack_names"
    using pk(2) by (auto simp: list_all_iff dest: known_pack_str)
  moreover have "?st \<noteq> {}" using sts by (simp add: name_list_Inr)
  moreover have "short_string 64 (JStr (str_of (jget ms ''id'')))"
    by (rule short_string_str[OF i])
  ultimately show ?thesis
    unfolding valid_rule_def r rule.simps
    using pk(1) inp app entities_of_Inr[OF es] style_of_Inr[OF style] by blast
qed

lemma rule_json_roundtrip:
  assumes "valid_rule r"
  shows "rule_from_json (rule_to_json r) i = Inr r"
proof -
  let ?ms = "[(''id'', JStr (ru_id r)), (''packs'', JList (map JStr (ru_packs r))),
       (''stages'', JList (map (JStr \<circ> stage_name) (sorted_list_of_set (ru_stages r)))),
       (''action'', JStr (action_name (ru_action r))),
       (''entities'', case ru_entities r of None \<Rightarrow> JNull | Some es \<Rightarrow> JList (map JStr (sorted_list_of_set es))),
       (''restore_for_tools'', JBool (ru_restore r)), (''pseudonym_style'', JStr (ru_style r))]"
  note v = assms[unfolded valid_rule_def]
  have g: "jget ?ms ''id'' = JStr (ru_id r)" "jget ?ms ''packs'' = JList (map JStr (ru_packs r))"
    "jget ?ms ''stages'' = JList (map (JStr \<circ> stage_name) (sorted_list_of_set (ru_stages r)))"
    "jget ?ms ''action'' = JStr (action_name (ru_action r))"
    "jget ?ms ''entities'' = (case ru_entities r of None \<Rightarrow> JNull | Some es \<Rightarrow> JList (map JStr (sorted_list_of_set es)))"
    "map_of ?ms ''pseudonym_style'' = Some (JStr (ru_style r))"
    "map_of ?ms ''restore_for_tools'' = Some (JBool (ru_restore r))"
    by (simp_all add: jget_def)
  have packs: "name_list known_pack (JList (map JStr (ru_packs r))) e = Inr (map JStr (ru_packs r))" for e
    using v by (auto simp: name_list_Inr list_all_iff known_pack_def)
  have sts: "name_list (\<lambda>x. stage_of x \<noteq> None) (JList (map (JStr \<circ> stage_name) (sorted_list_of_set (ru_stages r)))) e
      = Inr (map (JStr \<circ> stage_name) (sorted_list_of_set (ru_stages r)))" for e
    using v by (auto simp: name_list_Inr list_all_iff)
  have st: "set (map (the \<circ> stage_of) (map (JStr \<circ> stage_name) (sorted_list_of_set (ru_stages r)))) = ru_stages r"
    by (simp add: comp_def)
  have nm: "map str_of (map JStr (ru_packs r)) = ru_packs r" by (simp add: comp_def)
  have es: "entities_of (case ru_entities r of None \<Rightarrow> JNull | Some es \<Rightarrow> JList (map JStr (sorted_list_of_set es))) e
      = Inr (ru_entities r)" for e
    using v by (auto simp: entities_of_def list_all_iff comp_def finite_names_def split: option.splits)
  have style: "style_of (Some (JStr (ru_style r))) e = Inr (ru_style r)" for e
    using v by (simp add: style_of_def)
  have i: "short_string 64 (JStr (ru_id r))" using v by blast
  have inp: "\<not> (InputStage \<in> ru_stages r \<and> ru_action r \<notin> input_actions)" using v by blast
  have app: "\<not> (ru_action r = Approval \<and> (ru_stages r \<noteq> {ToolArgs} \<or> \<not> set (ru_packs r) \<subseteq> approval_packs))"
    using v by blast
  show ?thesis
    unfolding rule_from_json_def rule_to_json_def json.case g Let_def packs sts sum.case action_of_name option.case
      es style st nm if_not_P[OF inp] if_not_P[OF app]
    using i by (simp add: restore_of_def)
qed

lemma parse_rules_valid: "parse_rules xs i = Inr rs \<Longrightarrow> list_all valid_rule rs \<and> length rs = length xs"
  by (induction xs arbitrary: i rs) (auto dest: rule_from_json_valid split: sum.splits)

lemma parse_rules_json: "list_all valid_rule rs \<Longrightarrow> parse_rules (map rule_to_json rs) i = Inr rs"
  by (induction rs arbitrary: i) (simp_all add: rule_json_roundtrip)

lemma rules_from_json_valid:
  assumes "rules_from_json j = Inr rs"
  shows "valid_rules rs"
proof -
  obtain xs where j: "j = JList xs" using assms by (cases j) (simp_all add: rules_from_json_def)
  have l: "xs \<noteq> []" "length xs \<le> max_rules" using assms unfolding j
    by (auto simp: rules_from_json_def split: if_splits)
  have "parse_rules xs 0 = Inr rs \<and> distinct (map ru_id rs)"
    using assms l unfolding j by (auto simp: rules_from_json_def split: sum.splits if_splits)
  then show ?thesis using parse_rules_valid l by (fastforce simp: valid_rules_def)
qed

lemma valid_rules_json: "valid_rules rs \<Longrightarrow> rules_from_json (rules_json rs) = Inr rs"
  by (simp add: rules_from_json_def rules_json_def valid_rules_def parse_rules_json)

text \<open>
  What validation accepts is within every documented limit (1 to 40 rules with distinct ids, known
  packs and stages, an input rule that only blocks or warns, an approval rule on tool arguments with
  the rule packs only) and is read back unchanged from the JSON that is stored for it.
\<close>
theorem accepted_rules_round_trip:
  assumes "rules_from_json j = Inr rs"
  shows "valid_rules rs \<and> rules_from_json (rules_json rs) = Inr rs"
  using rules_from_json_valid[OF assms] valid_rules_json by blast

lemma accepted_rules_round_trip_witness:
  "\<exists>rs. rules_from_json (JList [rule_to_json (jailbreak_rule Warn)]) = Inr rs \<and> rules_from_json (rules_json rs) = Inr rs"
proof -
  have "valid_rules [jailbreak_rule Warn]" by code_simp
  then have "rules_from_json (JList [rule_to_json (jailbreak_rule Warn)]) = Inr [jailbreak_rule Warn]"
    using valid_rules_json[of "[jailbreak_rule Warn]"] by (simp add: rules_json_def)
  then show ?thesis using accepted_rules_round_trip by blast
qed

lemma builtin_valid:
  assumes "builtin name = Some z"
  shows "valid_rules (rz_rules z)"
proof -
  have "list_all (\<lambda>n. case builtin_rules n of None \<Rightarrow> True | Some (_, rs) \<Rightarrow> valid_rules rs)
    [''kr-default'', ''kr-natural'', ''kr-strict'', ''common-basic'', ''kr-observe'']" by code_simp
  moreover have "name \<in> set [''kr-default'', ''kr-natural'', ''kr-strict'', ''common-basic'', ''kr-observe'']"
    using assms by (auto simp: builtin_def builtin_rules_def split: option.splits if_splits)
  moreover obtain v rs where "builtin_rules name = Some (v, rs)" "rz_rules z = rs"
    using assms by (auto simp: builtin_def split: option.splits)
  ultimately show ?thesis unfolding list_all_iff by fastforce
qed

end
