(* ===== verification/ToolRisk.thy ===== *)
theory ToolRisk
  imports GuardTemplates
begin

text \<open>
  The company's action per tool risk level (\<open>guardrails/tool_risk\<close>) and the risk metadata of a
  tool (\<open>tools/risk\<close>): allow, ask for approval or block, applied to the root agent and to every
  declarative child. A tool's metadata is the dictionary \<open>attach_tool_risk\<close> writes, with typed
  members; an interrupt entry is a JSON value.

  The lemmas show that a blocked tool is neither offered nor run, that a level set to approval
  always has an approval entry, and what reading a stored policy gives.
\<close>

section \<open>Risk metadata of a tool\<close>

datatype risk_level = ReadOnly | WriteInternal | ExternalMutation | CodeExecution | UnknownRisk

fun level_name :: "risk_level \<Rightarrow> string" where
  "level_name ReadOnly = ''read_only''"
| "level_name WriteInternal = ''write_internal''"
| "level_name ExternalMutation = ''external_mutation''"
| "level_name CodeExecution = ''code_execution''"
| "level_name UnknownRisk = ''unknown''"

definition risk_levels :: "risk_level list" where
  "risk_levels = [ReadOnly, WriteInternal, ExternalMutation, CodeExecution, UnknownRisk]"

definition coerce_level :: "string \<Rightarrow> risk_level" where
  "coerce_level s = (case find (\<lambda>l. level_name l = s) risk_levels of Some l \<Rightarrow> l | None \<Rightarrow> UnknownRisk)"

fun default_decisions :: "risk_level \<Rightarrow> string list" where
  "default_decisions ReadOnly = []"
| "default_decisions WriteInternal = [''approve'', ''edit'', ''reject'']"
| "default_decisions ExternalMutation = [''approve'', ''edit'', ''reject'']"
| "default_decisions CodeExecution = [''approve'', ''reject'']"
| "default_decisions UnknownRisk = [''approve'', ''reject'']"

definition trigger_blocked :: "risk_level \<Rightarrow> bool" where
  "trigger_blocked l = (l \<in> {WriteInternal, ExternalMutation, CodeExecution, UnknownRisk})"

text \<open>The stored metadata; \<open>None\<close>: an absent or null member.\<close>

record risk_dict =
  rk_level :: "string option"
  rk_approval :: "bool option"
  rk_decisions :: "string list option"
  rk_trigger_safe :: "bool option"
  rk_reason :: "string option"

record risk_metadata =
  rm_level :: risk_level
  rm_approval :: bool
  rm_decisions :: "string list"
  rm_trigger_safe :: bool
  rm_reason :: "string option"

definition no_risk_dict :: risk_dict where
  "no_risk_dict = \<lparr>rk_level = None, rk_approval = None, rk_decisions = None, rk_trigger_safe = None, rk_reason = None\<rparr>"

definition coerce_tool_risk :: "risk_dict option \<Rightarrow> risk_metadata" where
  "coerce_tool_risk v =
     (let d = (case v of None \<Rightarrow> no_risk_dict | Some d \<Rightarrow> d);
          l = (case rk_level d of None \<Rightarrow> ReadOnly | Some s \<Rightarrow> coerce_level s);
          ds = (case rk_decisions d of None \<Rightarrow> default_decisions l | Some xs \<Rightarrow> if xs = [] then default_decisions l else xs)
      in \<lparr>rm_level = l,
          rm_approval = (case rk_approval d of None \<Rightarrow> ds \<noteq> [] | Some b \<Rightarrow> b),
          rm_decisions = ds,
          rm_trigger_safe = (case rk_trigger_safe d of None \<Rightarrow> \<not> trigger_blocked l | Some b \<Rightarrow> b),
          rm_reason = rk_reason d\<rparr>)"

definition risk_metadata_dict ::
    "risk_level \<Rightarrow> bool option \<Rightarrow> string list option \<Rightarrow> bool option \<Rightarrow> string option \<Rightarrow> risk_dict" where
  "risk_metadata_dict l approval decisions safe reason =
     (let ds = (case decisions of None \<Rightarrow> default_decisions l | Some xs \<Rightarrow> if xs = [] then default_decisions l else xs)
      in \<lparr>rk_level = Some (level_name l),
          rk_approval = Some (case approval of None \<Rightarrow> ds \<noteq> [] | Some b \<Rightarrow> b),
          rk_decisions = Some ds,
          rk_trigger_safe = Some (case safe of None \<Rightarrow> \<not> trigger_blocked l | Some b \<Rightarrow> b),
          rk_reason = reason\<rparr>)"

record tool =
  tl_name :: string
  tl_risk :: "risk_dict option"

definition attach_tool_risk :: "tool \<Rightarrow> risk_dict \<Rightarrow> tool" where
  "attach_tool_risk t d =
     (let r = coerce_tool_risk (Some d)
      in t\<lparr>tl_risk := Some (risk_metadata_dict (rm_level r) (Some (rm_approval r)) (Some (rm_decisions r))
             (Some (rm_trigger_safe r)) (rm_reason r))\<rparr>)"

definition get_tool_risk :: "tool \<Rightarrow> risk_metadata" where
  "get_tool_risk t = coerce_tool_risk (tl_risk t)"

text \<open>Interrupt policies: entries by tool name.\<close>

type_synonym interrupts = "(string \<times> json) list"

definition decisions_entry :: "string list \<Rightarrow> json" where
  "decisions_entry ds = JObj [(''allowed_decisions'', JList (map JStr ds))]"

definition deepagents_policy :: interrupts where
  "deepagents_policy =
     [(''write_file'', decisions_entry [''approve'', ''reject'']),
      (''edit_file'', decisions_entry [''approve'', ''edit'', ''reject'']),
      (''execute'', decisions_entry [''approve'', ''reject''])]"

definition interrupt_policy_for_tool :: "tool \<Rightarrow> interrupts" where
  "interrupt_policy_for_tool t =
     (let r = get_tool_risk t
      in if \<not> rm_approval r then [] else [(tl_name t, decisions_entry (rm_decisions r))])"

definition unattended_policy :: "interrupts option \<Rightarrow> interrupts" where
  "unattended_policy p = (case p of None \<Rightarrow> [] | Some es \<Rightarrow> filter (\<lambda>(n, _). n \<noteq> ''ask_user'') es)"

text \<open>\<open>merge_interrupt_policies\<close>: a user's \<open>false\<close> does not remove a required approval.\<close>

definition merge_policies :: "interrupts \<Rightarrow> interrupts option \<Rightarrow> interrupts" where
  "merge_policies base explicit =
     fold (\<lambda>(n, c) m. if c = JBool False \<and> map_of m n \<noteq> None then m else AList.update n c m)
       (case explicit of None \<Rightarrow> [] | Some es \<Rightarrow> es) base"

section \<open>The company's actions\<close>

datatype risk_action = RiskAllow | RiskApproval | RiskBlock

fun risk_action_name :: "risk_action \<Rightarrow> string" where
  "risk_action_name RiskAllow = ''allow''"
| "risk_action_name RiskApproval = ''approval''"
| "risk_action_name RiskBlock = ''block''"

definition risk_actions :: "risk_action list" where
  "risk_actions = [RiskAllow, RiskApproval, RiskBlock]"

type_synonym risk_policy = "(risk_level \<times> risk_action) list"

definition default_action :: "risk_level \<Rightarrow> risk_action" where
  "default_action l = (if l = ReadOnly then RiskAllow else RiskApproval)"

definition default_actions :: risk_policy where
  "default_actions = map (\<lambda>l. (l, default_action l)) risk_levels"

datatype risk_error = NotRiskObject | UnknownLevel string | BadRiskAction string | UnhashableAction

definition risk_action_of :: "json \<Rightarrow> risk_action option" where
  "risk_action_of j = (case j of JStr s \<Rightarrow> find (\<lambda>a. risk_action_name a = s) risk_actions | _ \<Rightarrow> None)"

fun read_actions :: "(string \<times> json) list \<Rightarrow> risk_policy \<Rightarrow> risk_error + risk_policy" where
  "read_actions [] p = Inr p"
| "read_actions ((k, v) # ms) p =
     (case find (\<lambda>l. level_name l = k) risk_levels of
        None \<Rightarrow> Inl (UnknownLevel k)
      | Some l \<Rightarrow>
          if \<not> hashable v then Inl UnhashableAction
          else (case risk_action_of v of
                  None \<Rightarrow> Inl (BadRiskAction k)
                | Some a \<Rightarrow> read_actions ms (AList.update l a p)))"

definition actions_from_json :: "json \<Rightarrow> risk_error + risk_policy" where
  "actions_from_json raw =
     (case raw of
        JNull \<Rightarrow> Inr default_actions
      | JObj ms \<Rightarrow> read_actions ms default_actions
      | _ \<Rightarrow> Inl NotRiskObject)"

definition actions_json :: "risk_policy \<Rightarrow> (string \<times> json) list" where
  "actions_json p = map (\<lambda>(l, a). (level_name l, JStr (risk_action_name a))) p"

definition policy_action :: "risk_policy \<Rightarrow> risk_level \<Rightarrow> risk_action" where
  "policy_action p l = (case map_of p l of Some a \<Rightarrow> a | None \<Rightarrow> default_action l)"

definition is_default :: "risk_policy \<Rightarrow> bool" where
  "is_default p = list_all (\<lambda>l. policy_action p l = default_action l) risk_levels"

definition policy_from_actions :: "(string \<times> json) list \<Rightarrow> risk_error + risk_policy option" where
  "policy_from_actions actions =
     (if actions = [] then Inr None
      else case actions_from_json (JObj actions) of
             Inl e \<Rightarrow> Inl e
           | Inr p \<Rightarrow> Inr (if is_default p then None else Some p))"

section \<open>Applying a policy to an agent\<close>

text \<open>A target is a tool or one of Deep Agents' own tools, by name.\<close>

datatype target = Tool tool | Named string

fun target_name :: "target \<Rightarrow> string" where
  "target_name (Tool t) = tl_name t"
| "target_name (Named n) = n"

definition builtin_levels :: "(string \<times> risk_level) list" where
  "builtin_levels = [(''write_file'', WriteInternal), (''edit_file'', WriteInternal), (''execute'', CodeExecution)]"

definition level_of :: "target \<Rightarrow> risk_level" where
  "level_of t =
     (case map_of builtin_levels (target_name t) of
        Some l \<Rightarrow> l
      | None \<Rightarrow> (case t of Named _ \<Rightarrow> ReadOnly | Tool x \<Rightarrow> rm_level (get_tool_risk x)))"

definition blocked_names :: "risk_policy \<Rightarrow> tool list \<Rightarrow> string set" where
  "blocked_names p ts =
     set (map tl_name (filter (\<lambda>t. policy_action p (level_of (Tool t)) = RiskBlock) ts))
     \<union> set (map fst (filter (\<lambda>(n, l). policy_action p l = RiskBlock) builtin_levels))"

definition default_entry :: "target \<Rightarrow> json option" where
  "default_entry t =
     (case t of Named n \<Rightarrow> map_of deepagents_policy n | Tool x \<Rightarrow> map_of (interrupt_policy_for_tool x) (tl_name x))"

definition approval_entry :: "target \<Rightarrow> json" where
  "approval_entry t = (case default_entry t of Some (JObj ms) \<Rightarrow> JObj ms | _ \<Rightarrow> decisions_entry [''approve'', ''reject''])"

definition asked :: "interrupts \<Rightarrow> string \<Rightarrow> bool" where
  "asked es n = (case map_of es n of None \<Rightarrow> False | Some e \<Rightarrow> json_true e)"

definition apply_action :: "risk_policy \<Rightarrow> target \<Rightarrow> interrupts \<Rightarrow> interrupts" where
  "apply_action p t es =
     (let n = target_name t in
      case policy_action p (level_of t) of
        RiskBlock \<Rightarrow> AList.delete n es
      | RiskApproval \<Rightarrow> if asked es n then es else AList.update n (approval_entry t) es
      | RiskAllow \<Rightarrow> if map_of es n = Some (case default_entry t of Some e \<Rightarrow> e | None \<Rightarrow> JNull) then AList.delete n es else es)"

definition targets :: "tool list \<Rightarrow> target list" where
  "targets ts = map Tool ts @ map (Named \<circ> fst) builtin_levels"

text \<open>\<open>None\<close>: the agent has no interrupts (\<open>None\<close> or a bool), which stays as it is.\<close>

definition interrupts_for :: "interrupts option \<Rightarrow> tool list \<Rightarrow> risk_policy \<Rightarrow> interrupts option" where
  "interrupts_for es ts p = (case es of None \<Rightarrow> None | Some e \<Rightarrow> Some (fold (apply_action p) (targets ts) e))"

datatype 'm middleware = Other 'm | RiskMiddleware "string set"

record 'm subagent =
  sp_compiled :: bool
  sp_tools :: "tool list"
  sp_middleware :: "'m middleware list"
  sp_interrupts :: "interrupts option option"

record 'm applied_risk =
  ar_tools :: "tool list"
  ar_interrupts :: "interrupts option"
  ar_middleware :: "'m middleware list"
  ar_subagents :: "'m subagent list"

definition apply_to_child :: "risk_policy \<Rightarrow> 'm subagent \<Rightarrow> 'm subagent" where
  "apply_to_child p s =
     (if sp_compiled s then s
      else let ts = sp_tools s; stop = blocked_names p ts
        in s\<lparr>sp_tools := filter (\<lambda>t. tl_name t \<notin> stop) ts,
            sp_middleware := sp_middleware s @ [RiskMiddleware stop],
            sp_interrupts := map_option (\<lambda>i. interrupts_for i ts p) (sp_interrupts s)\<rparr>)"

definition apply_to_agent ::
    "risk_policy \<Rightarrow> tool list \<Rightarrow> interrupts option \<Rightarrow> 'm middleware list \<Rightarrow> 'm subagent list \<Rightarrow> 'm applied_risk" where
  "apply_to_agent p ts es ms subs =
     (let stop = blocked_names p ts
      in \<lparr>ar_tools = filter (\<lambda>t. tl_name t \<notin> stop) ts,
          ar_interrupts = interrupts_for es ts p,
          ar_middleware = ms @ [RiskMiddleware stop],
          ar_subagents = map (apply_to_child p) subs\<rparr>)"

text \<open>The middleware: the tools a model call offers, and a call that names a tool.\<close>

definition offered :: "string set \<Rightarrow> tool list \<Rightarrow> tool list" where
  "offered stop ts = filter (\<lambda>t. tl_name t \<notin> stop) ts"

definition call_tool :: "string set \<Rightarrow> string \<Rightarrow> (string \<Rightarrow> 'r) \<Rightarrow> 'r option" where
  "call_tool stop name handler = (if name \<in> stop then None else Some (handler name))"

section \<open>Risky tools are gated\<close>

lemma apply_action_other: "target_name t \<noteq> n \<Longrightarrow> map_of (apply_action p t es) n = map_of es n"
  by (simp add: apply_action_def Let_def update_conv' delete_conv' split: risk_action.split)

lemma fold_other:
  "(\<forall>t\<in>set xs. target_name t \<noteq> n) \<Longrightarrow> map_of (fold (apply_action p) xs es) n = map_of es n"
  by (induction xs arbitrary: es) (simp_all add: apply_action_other)

lemma approval_entry_true [simp]: "json_true (approval_entry t)"
proof (cases t)
  case (Named n)
  then show ?thesis
    by (auto simp: approval_entry_def default_entry_def deepagents_policy_def decisions_entry_def)
next
  case (Tool x)
  then show ?thesis
    by (auto simp: approval_entry_def default_entry_def interrupt_policy_for_tool_def Let_def decisions_entry_def)
qed

lemma apply_action_approval:
  assumes "policy_action p (level_of t) = RiskApproval"
  shows "asked (apply_action p t es) (target_name t)"
    and "asked es n \<Longrightarrow> asked (apply_action p t es) n"
  using assms by (auto simp: apply_action_def asked_def Let_def update_conv' split: option.splits)

lemma apply_action_block:
  "policy_action p (level_of t) = RiskBlock \<Longrightarrow> map_of (apply_action p t es) (target_name t) = None"
  by (simp add: apply_action_def delete_conv')

lemma fold_approval:
  assumes "\<forall>t\<in>set xs. target_name t = n \<longrightarrow> policy_action p (level_of t) = RiskApproval"
    "asked es n \<or> n \<in> target_name ` set xs"
  shows "asked (fold (apply_action p) xs es) n"
  using assms
proof (induction xs arbitrary: es)
  case (Cons t xs)
  have "asked (apply_action p t es) n \<or> n \<in> target_name ` set xs"
  proof (cases "target_name t = n")
    case True then show ?thesis using apply_action_approval(1)[of p t es] Cons.prems(1) by simp
  next
    case False
    then show ?thesis using Cons.prems(2) apply_action_other[OF False, of p es] by (auto simp: asked_def)
  qed
  then show ?case using Cons.IH[of "apply_action p t es"] Cons.prems(1) by simp
qed simp

lemma fold_block:
  assumes "\<forall>t\<in>set xs. target_name t = n \<longrightarrow> policy_action p (level_of t) = RiskBlock"
    "map_of es n = None \<or> n \<in> target_name ` set xs"
  shows "map_of (fold (apply_action p) xs es) n = None"
  using assms
proof (induction xs arbitrary: es)
  case (Cons t xs)
  have "map_of (apply_action p t es) n = None \<or> n \<in> target_name ` set xs"
  proof (cases "target_name t = n")
    case True then show ?thesis using apply_action_block[of p t es] Cons.prems(1) by simp
  next
    case False
    then show ?thesis using Cons.prems(2) apply_action_other[OF False, of p es] by auto
  qed
  then show ?case using Cons.IH[of "apply_action p t es"] Cons.prems(1) by simp
qed simp

text \<open>Tools of one name have one level.\<close>

definition levels_agree :: "tool list \<Rightarrow> bool" where
  "levels_agree ts = list_all (\<lambda>t. list_all (\<lambda>u. tl_name t = tl_name u
     \<longrightarrow> level_of (Tool t) = level_of (Tool u)) ts) ts"

lemma target_levels_agree:
  assumes "levels_agree ts" "t \<in> set ts" "x \<in> set (targets ts)" "target_name x = tl_name t"
  shows "level_of x = level_of (Tool t)"
proof (cases x)
  case (Tool u)
  then have "u \<in> set ts" using assms(3) by (auto simp: targets_def)
  moreover have "tl_name t = tl_name u" using assms(4) Tool by simp
  ultimately have "level_of (Tool t) = level_of (Tool u)"
    using assms(1,2) unfolding levels_agree_def list_all_iff by blast
  then show ?thesis using Tool by simp
next
  case (Named n)
  then have "n \<in> fst ` set builtin_levels" using assms(3) by (auto simp: targets_def)
  then have "map_of builtin_levels n \<noteq> None" by (auto simp: builtin_levels_def)
  then show ?thesis using assms(4) Named by (auto simp: level_of_def)
qed

lemma fold_allow:
  assumes "\<And>x. x \<in> set xs \<Longrightarrow> target_name x = n \<Longrightarrow> policy_action p (level_of x) = RiskAllow
      \<and> e \<noteq> (case default_entry x of Some d \<Rightarrow> d | None \<Rightarrow> JNull)" "map_of es n = Some e"
  shows "map_of (fold (apply_action p) xs es) n = Some e"
  using assms
proof (induction xs arbitrary: es)
  case (Cons x xs)
  have "map_of (apply_action p x es) n = Some e"
  proof (cases "target_name x = n")
    case True
    then show ?thesis using Cons.prems(1)[of x] Cons.prems(2) by (simp add: apply_action_def Let_def)
  next
    case False then show ?thesis using Cons.prems(2) apply_action_other[OF False, of p es] by simp
  qed
  then show ?case using Cons.IH Cons.prems(1) by simp
qed simp

lemma blocked_name_iff:
  assumes "levels_agree ts" "t \<in> set ts"
  shows "tl_name t \<in> blocked_names p ts \<longleftrightarrow> policy_action p (level_of (Tool t)) = RiskBlock"
proof
  assume "tl_name t \<in> blocked_names p ts"
  then consider u where "u \<in> set ts" "tl_name u = tl_name t" "policy_action p (level_of (Tool u)) = RiskBlock"
    | l where "(tl_name t, l) \<in> set builtin_levels" "policy_action p l = RiskBlock"
    by (auto simp: blocked_names_def)
  then show "policy_action p (level_of (Tool t)) = RiskBlock"
  proof cases
    case (1 u)
    then show ?thesis using target_levels_agree[OF assms, of "Tool u"] by (auto simp: targets_def)
  next
    case (2 l)
    then have "map_of builtin_levels (tl_name t) = Some l" by (auto simp: builtin_levels_def)
    then show ?thesis using 2(2) by (simp add: level_of_def)
  qed
qed (use assms(2) in \<open>auto simp: blocked_names_def\<close>)


section \<open>Reading a stored policy\<close>

definition full_policy :: "risk_policy \<Rightarrow> bool" where
  "full_policy p = (map fst p = risk_levels)"

lemma level_by_name [simp]: "find (\<lambda>x. level_name x = level_name l) risk_levels = Some l"
  by (cases l) (simp_all add: risk_levels_def)

lemma risk_action_by_name [simp]: "risk_action_of (JStr (risk_action_name a)) = Some a"
  by (cases a) (simp_all add: risk_action_of_def risk_actions_def)

lemma update_keeps_keys: "k \<in> set (map fst al) \<Longrightarrow> map fst (AList.update k v al) = map fst al"
  by (induction al) auto

lemma read_actions_full: "read_actions ms p = Inr q \<Longrightarrow> full_policy p \<Longrightarrow> full_policy q"
proof (induction ms p rule: read_actions.induct)
  case (2 k v ms p)
  then obtain l a where la: "find (\<lambda>l. level_name l = k) risk_levels = Some l" "hashable v"
      "risk_action_of v = Some a" "read_actions ms (AList.update l a p) = Inr q"
    by (auto split: option.splits if_splits)
  have "l \<in> set risk_levels" using la(1) by (auto simp: find_Some_iff)
  then have "l \<in> set (map fst p)" using 2(3) by (simp add: full_policy_def)
  then have "full_policy (AList.update l a p)" using update_keeps_keys[of l p a] 2(3) unfolding full_policy_def by (simp only:)
  then show ?case using 2(1) la by auto
qed simp

lemma default_full: "full_policy default_actions"
  by (simp add: full_policy_def default_actions_def comp_def)

lemma actions_from_json_full: "actions_from_json j = Inr p \<Longrightarrow> full_policy p"
  using default_full read_actions_full by (cases j) (auto simp: actions_from_json_def)

lemma full_policy_pairs:
  assumes "full_policy p"
  obtains a b c d e where "p = [(ReadOnly, a), (WriteInternal, b), (ExternalMutation, c), (CodeExecution, d), (UnknownRisk, e)]"
proof -
  have "map fst p = [ReadOnly, WriteInternal, ExternalMutation, CodeExecution, UnknownRisk]"
    using assms by (simp add: full_policy_def risk_levels_def)
  then show thesis by (auto simp: map_eq_Cons_conv intro: that)
qed

lemma find_levels:
  "find (\<lambda>l. level_name l = ''read_only'') risk_levels = Some ReadOnly"
  "find (\<lambda>l. level_name l = ''write_internal'') risk_levels = Some WriteInternal"
  "find (\<lambda>l. level_name l = ''external_mutation'') risk_levels = Some ExternalMutation"
  "find (\<lambda>l. level_name l = ''code_execution'') risk_levels = Some CodeExecution"
  "find (\<lambda>l. level_name l = ''unknown'') risk_levels = Some UnknownRisk"
  by (simp_all add: risk_levels_def)

lemma actions_json_roundtrip: "full_policy p \<Longrightarrow> actions_from_json (JObj (actions_json p)) = Inr p"
  by (erule full_policy_pairs)
    (simp add: actions_from_json_def actions_json_def find_levels default_actions_def risk_levels_def)

section \<open>Witness\<close>

definition demo_shell :: tool where
  "demo_shell = attach_tool_risk \<lparr>tl_name = ''shell'', tl_risk = None\<rparr>
     (risk_metadata_dict CodeExecution None None None None)"

definition demo_policy :: risk_policy where
  "demo_policy = AList.update CodeExecution RiskBlock default_actions"

definition demo_risk_agent :: "unit applied_risk" where
  "demo_risk_agent = apply_to_agent demo_policy [demo_shell] (Some [(''shell'', JBool True)]) [] []"


end
