(* ===== verification/GuardActions.thy ===== *)
theory GuardActions
  imports GuardRules
begin

text \<open>
  Applying a rule set to a text (\<open>guardrails/actions\<close>): the spans of the findings that some rule
  answers, merged where they overlap, the replacement of each span by its strongest action, and
  the notices. The keyed hash (\<open>hmac\<close>) and \<open>str.isdigit\<close> are parameters. Positions are never
  negative: the packs take them from match objects, the model pack checks them.

  The lemmas show that merged spans are disjoint and in order, that every answered finding lies in
  one span whose action is at least as strong, that the text between spans is untouched and in
  order, and that sorting the findings never has to compare two rules.
\<close>

section \<open>Labels and replacements\<close>

definition labels :: "(string \<times> utext) list" where
  "labels =
     [(''PERSON'', [51060, 47492]),
      (''ADDRESS'', [51452, 49548]),
      (''PHONE'', [51204, 54868, 48264, 54840]),
      (''EMAIL'', [51060, 47700, 51068]),
      (''RRN'', [51452, 48124, 46321, 47197, 48264, 54840]),
      (''FRN'', [50808, 44397, 51064, 46321, 47197, 48264, 54840]),
      (''PASSPORT'', [50668, 44428, 48264, 54840]),
      (''DRIVER_LICENSE'', [50868, 51204, 47732, 54728, 48264, 54840]),
      (''CARD'', [52852, 46300, 48264, 54840]),
      (''ACCOUNT'', [44228, 51340, 48264, 54840]),
      (''MEDICAL_INSURANCE'', [44148, 44053, 48372, 54744, 48264, 54840]),
      (''IP'', [73, 80, 32, 51452, 49548]),
      (''URL'', [85, 82, 76]),
      (''SECRET'', [48708, 48128, 44050]),
      (''JAILBREAK'', [51648, 49884, 32, 47924, 49884, 183, 53448, 50725, 32, 49884, 46020])]"

definition generic_label :: utext where
  "generic_label = [44060, 51064, 51221, 48372]"

definition label :: "string \<Rightarrow> utext" where
  "label entity = (case map_of labels entity of Some l \<Rightarrow> l | None \<Rightarrow> generic_label)"

text \<open>Characters used below: \<open>*\<close> 42, \<open>@\<close> 64, \<open>[\<close> 91, \<open>]\<close> 93, \<open>:\<close> 58, \<open>,\<close> 44.\<close>

definition mask :: "(int \<Rightarrow> bool) \<Rightarrow> utext \<Rightarrow> string \<Rightarrow> utext" where
  "mask isdigit v entity =
     (if entity = ''EMAIL'' \<and> 64 \<in> set v then
        let local = takeWhile (\<lambda>c. c \<noteq> 64) v; domain = tl (dropWhile (\<lambda>c. c \<noteq> 64) v)
        in take 1 local @ replicate (max (length local - 1) 1) 42 @ [64] @ domain
      else
        let digs = filter (\<lambda>i. isdigit (v ! i)) [0..<length v]
        in if 4 < length digs then
             let hidden = take (length digs - 4) digs
             in map (\<lambda>(i, c). if i \<in> set hidden then 42 else c) (zip [0..<length v] v)
           else take 1 v @ replicate (max (length v - 1) 1) 42)"

text \<open>\<open>hmac key entity value\<close>: the hexadecimal digest.\<close>

definition hash_text :: "(string \<Rightarrow> utext \<Rightarrow> utext) \<Rightarrow> utext \<Rightarrow> string \<Rightarrow> utext" where
  "hash_text hmac v entity = [91] @ label entity @ [58] @ take 10 (hmac entity v) @ [93]"

definition redacted :: "string \<Rightarrow> utext" where
  "redacted entity = [91] @ label entity @ [93]"

record guard_libs =
  gl_isdigit :: "int \<Rightarrow> bool"
  gl_hmac :: "string \<Rightarrow> utext \<Rightarrow> utext"

definition replacement :: "guard_libs \<Rightarrow> utext \<Rightarrow> string \<Rightarrow> action \<Rightarrow> utext" where
  "replacement libs v entity a =
     (if a = Mask then mask (gl_isdigit libs) v entity
      else if a = Hash then hash_text (gl_hmac libs) v entity
      else redacted entity)"

section \<open>Spans\<close>

type_synonym match = "nat \<times> nat \<times> string \<times> rule"

definition matched :: "finding list \<Rightarrow> rule_set \<Rightarrow> stage \<Rightarrow> match list" where
  "matched fs rules st =
     concat (map (\<lambda>f. case rule_for rules (fd_entity f) (fd_pack f) st of
         None \<Rightarrow> []
       | Some r \<Rightarrow> [(fd_start f, fd_end f, fd_entity f, r)]) fs)"

definition match_key :: "match \<Rightarrow> finding_key" where
  "match_key m = (fst m, fst (snd m), fst (snd (snd m)))"

text \<open>\<open>sorted\<close> of the tuples: two that agree on the first three fields compare their rules, which
  have no order (\<open>None\<close>: \<open>TypeError\<close>) unless they are equal.\<close>

definition comparable :: "match list \<Rightarrow> bool" where
  "comparable ms = list_all (\<lambda>a. list_all (\<lambda>b. match_key a = match_key b \<longrightarrow> a = b) ms) ms"

definition sort_matches :: "match list \<Rightarrow> match list option" where
  "sort_matches ms = (if comparable ms then Some (sort_key match_key ms) else None)"

text \<open>The merge loop, with the last merged span held back.\<close>

fun merge_spans :: "match \<Rightarrow> match list \<Rightarrow> match list" where
  "merge_spans p [] = [p]"
| "merge_spans (ps, pe, pent, pr) ((s, e, ent, r) # ms) =
     (if s < pe then
        let stronger = strength (ru_action pr) < strength (ru_action r)
        in merge_spans (ps, max pe e, if stronger then ent else pent, if stronger then r else pr) ms
      else (ps, pe, pent, pr) # merge_spans (s, e, ent, r) ms)"

definition spans :: "finding list \<Rightarrow> rule_set \<Rightarrow> stage \<Rightarrow> match list option" where
  "spans fs rules st =
     (case sort_matches (matched fs rules st) of
        None \<Rightarrow> None
      | Some [] \<Rightarrow> Some []
      | Some (m # ms) \<Rightarrow> Some (merge_spans m ms))"

section \<open>Applying\<close>

record decision_row =
  dc_rule :: string
  dc_entity :: string
  dc_action :: action
  dc_start :: nat
  dc_end :: nat

record applied =
  ap_text :: utext
  ap_decisions :: "decision_row list"

definition blocked :: "applied \<Rightarrow> bool" where
  "blocked a = list_ex (\<lambda>d. dc_action d = Block) (ap_decisions a)"

definition decision_of :: "match \<Rightarrow> decision_row" where
  "decision_of m = (case m of (s, e, ent, r) \<Rightarrow>
     \<lparr>dc_rule = ru_id r, dc_entity = ent, dc_action = ru_action r, dc_start = s, dc_end = e\<rparr>)"

text \<open>
  The pieces from a cursor on. \<open>pseudonym\<close> is the callback, which may change the conversation's
  pseudonyms; without one a \<open>pseudonymize\<close> rule redacts.
\<close>

type_synonym 'p pseudonymizer = "(string \<Rightarrow> utext \<Rightarrow> rule \<Rightarrow> 'p \<Rightarrow> utext \<times> 'p) option"

definition piece :: "guard_libs \<Rightarrow> 'p pseudonymizer \<Rightarrow> utext \<Rightarrow> match \<Rightarrow> 'p \<Rightarrow> utext \<times> 'p" where
  "piece libs pseudonym v m p =
     (case m of (s, e, ent, r) \<Rightarrow>
        if ru_action r = Warn \<or> ru_action r = Block \<or> ru_action r = Approval then (v, p)
        else if ru_action r = Pseudonymize then
          (case pseudonym of Some f \<Rightarrow> f ent v r p | None \<Rightarrow> (redacted ent, p))
        else (replacement libs v ent (ru_action r), p))"

fun pieces :: "guard_libs \<Rightarrow> 'p pseudonymizer \<Rightarrow> utext \<Rightarrow> nat \<Rightarrow> match list \<Rightarrow> 'p \<Rightarrow> utext \<times> 'p" where
  "pieces libs pseudonym s cursor [] p = (drop cursor s, p)"
| "pieces libs pseudonym s cursor ((a, b, ent, r) # ms) p =
     (let (v, p1) = piece libs pseudonym (slice a b s) (a, b, ent, r) p;
          (rest, p2) = pieces libs pseudonym s b ms p1
      in (slice cursor a s @ v @ rest, p2))"

definition apply_rules ::
    "guard_libs \<Rightarrow> 'p pseudonymizer \<Rightarrow> utext \<Rightarrow> finding list \<Rightarrow> rule_set \<Rightarrow> stage \<Rightarrow> 'p \<Rightarrow> (applied \<times> 'p) option" where
  "apply_rules libs pseudonym s fs rules st p =
     (case spans fs rules st of
        None \<Rightarrow> None
      | Some ms \<Rightarrow>
          (let (t, p1) = pieces libs pseudonym s 0 ms p
           in Some (\<lparr>ap_text = t, ap_decisions = map decision_of ms\<rparr>, p1)))"

text \<open>The two notices: the rules' ids and the entities' labels, sorted, without duplicates.\<close>

definition listed :: "utext list \<Rightarrow> utext" where
  "listed xs = concat (case xs of [] \<Rightarrow> [] | y # ys \<Rightarrow> y # map (\<lambda>z. [44, 32] @ z) ys)"

definition notice_parts :: "action \<Rightarrow> decision_row list \<Rightarrow> utext \<times> utext" where
  "notice_parts a ds =
     (let hits = filter (\<lambda>d. dc_action d = a) ds
      in (listed (sort (remdups (map (chars \<circ> dc_rule) hits))),
          listed (sort (remdups (map (label \<circ> dc_entity) hits)))))"

definition block_notice :: "decision_row list \<Rightarrow> utext" where
  "block_notice ds =
     (let (rules, entities) = notice_parts Block ds
      in [44032, 46300, 47112, 51068, 32, 51221, 52293, 40]
         @ rules
         @ [41, 50640, 32, 46384, 46972, 32, 50836, 52397, 51012, 32, 48372, 45236, 51648, 32, 50506, 50520, 49845,
     45768, 45796, 46, 32]
         @ entities
         @ [51060, 40, 44032, 41, 32, 54252, 54632, 46104, 50612, 32, 51080, 49845, 45768, 45796, 46, 32, 54644, 45817,
     32, 45236, 50857, 51012, 32, 48764, 44256, 32, 45796, 49884, 32, 49884, 46020, 54644, 32, 51452, 49464,
     50836, 46])"

definition approval_refusal :: "decision_row list \<Rightarrow> utext" where
  "approval_refusal ds =
     (let (rules, entities) = notice_parts Approval ds
      in [44032, 46300, 47112, 51068, 32, 51221, 52293, 40]
         @ rules
         @ [41, 50640, 32, 46384, 46972, 32, 49324, 50857, 51088, 32, 49849, 51064, 51060, 32, 54596, 50836, 54616,
     51648, 47564, 32, 49849, 51064, 54624, 32, 49688, 32, 50630, 45716, 32, 49892, 54665, 51060, 46972, 32,
     46020, 44396, 47484, 32, 49892, 54665, 54616, 51648, 32, 50506, 50520, 49845, 45768, 45796, 46, 32,
     51064, 51088, 50640, 32]
         @ entities
         @ [51060, 40, 44032, 41, 32, 54252, 54632, 46104, 50612, 32, 51080, 49845, 45768, 45796, 46])"

section \<open>Merged spans\<close>

definition m_start :: "match \<Rightarrow> nat" where "m_start m = fst m"
definition m_end :: "match \<Rightarrow> nat" where "m_end m = fst (snd m)"
definition m_rule :: "match \<Rightarrow> rule" where "m_rule m = snd (snd (snd m))"

lemma match_parts [simp]:
  "m_start (s, e, ent, r) = s" "m_end (s, e, ent, r) = e" "m_rule (s, e, ent, r) = r"
  "match_key (s, e, ent, r) = (s, e, ent)"
  by (simp_all add: m_start_def m_end_def m_rule_def match_key_def)

text \<open>Spans from a position on, in order and disjoint.\<close>

fun ordered_spans :: "nat \<Rightarrow> match list \<Rightarrow> bool" where
  "ordered_spans c [] = True"
| "ordered_spans c (m # ms) = (c \<le> m_start m \<and> m_start m \<le> m_end m \<and> ordered_spans (m_end m) ms)"

text \<open>\<open>p\<close> covers \<open>m\<close> with an action at least as strong.\<close>

definition covers_match :: "match \<Rightarrow> match \<Rightarrow> bool" where
  "covers_match p m =
     (m_start p \<le> m_start m \<and> m_end m \<le> m_end p \<and> ru_action (m_rule m) \<le> ru_action (m_rule p))"

lemma covers_trans: "covers_match a b \<Longrightarrow> covers_match b c \<Longrightarrow> covers_match a c"
  unfolding covers_match_def by (metis order_trans)

lemma covers_refl [simp]: "covers_match m m"
  by (simp add: covers_match_def)

lemma merge_spans_ordered:
  "c \<le> m_start p \<Longrightarrow> list_all (\<lambda>m. m_start m \<le> m_end m) (p # ms) \<Longrightarrow> sorted (map m_start (p # ms))
    \<Longrightarrow> ordered_spans c (merge_spans p ms)"
proof (induction p ms arbitrary: c rule: merge_spans.induct)
  case (2 ps pe pent pr s e ent r ms)
  then show ?case by (cases "s < pe") (auto simp: Let_def)
qed simp

lemma merge_spans_cover:
  assumes "sorted (map m_start (p # ms))" "m \<in> set (p # ms)"
  shows "\<exists>q\<in>set (merge_spans p ms). covers_match q m"
  using assms
proof (induction p ms arbitrary: m rule: merge_spans.induct)
  case (2 ps pe pent pr s e ent r ms)
  show ?case
  proof (cases "s < pe")
    case True
    let ?p = "(ps, max pe e, if strength (ru_action pr) < strength (ru_action r) then ent else pent,
      if strength (ru_action pr) < strength (ru_action r) then r else pr)"
    have c: "covers_match ?p (ps, pe, pent, pr)" "covers_match ?p (s, e, ent, r)"
      using 2(3) by (auto simp: covers_match_def less_eq_action_def)
    have "\<exists>x\<in>set (?p # ms). covers_match x m"
    proof (cases "m \<in> set ms")
      case True then show ?thesis using covers_refl[of m] by (meson list.set_intros(2))
    next
      case False
      then have "m = (ps, pe, pent, pr) \<or> m = (s, e, ent, r)" using 2(4) by simp
      then show ?thesis using c by (meson list.set_intros(1))
    qed
    then obtain x where x: "x \<in> set (?p # ms)" "covers_match x m" by blast
    have "sorted (map m_start (?p # ms))" using 2(3) by auto
    then obtain q where "q \<in> set (merge_spans ?p ms)" "covers_match q x"
      using 2(1)[OF True refl _ x(1)] by blast
    then have "covers_match q m" using x(2) by (blast intro: covers_trans)
    moreover have "merge_spans (ps, pe, pent, pr) ((s, e, ent, r) # ms) = merge_spans ?p ms"
      using True by (simp add: Let_def)
    ultimately show ?thesis using \<open>q \<in> set (merge_spans ?p ms)\<close> by auto
  next
    case False
    show ?thesis
    proof (cases "m = (ps, pe, pent, pr)")
      case True then show ?thesis using False by simp
    next
      case m: False
      then have "m \<in> set ((s, e, ent, r) # ms)" using 2(4) by simp
      moreover have "sorted (map m_start ((s, e, ent, r) # ms))" using 2(3) by simp
      ultimately show ?thesis using 2(2)[OF False] False by auto
    qed
  qed
qed simp

lemma matched_from:
  "m \<in> set (matched fs rules st) \<longleftrightarrow> (\<exists>f\<in>set fs. rule_for rules (fd_entity f) (fd_pack f) st = Some (m_rule m)
     \<and> match_key m = span_key f)"
proof
  assume "m \<in> set (matched fs rules st)"
  then obtain f where "f \<in> set fs" "m \<in> set (case rule_for rules (fd_entity f) (fd_pack f) st of
      None \<Rightarrow> [] | Some r \<Rightarrow> [(fd_start f, fd_end f, fd_entity f, r)])"
    by (auto simp: matched_def)
  then show "\<exists>f\<in>set fs. rule_for rules (fd_entity f) (fd_pack f) st = Some (m_rule m) \<and> match_key m = span_key f"
    by (intro bexI[of _ f]) (auto simp: span_key_def split: option.splits)
next
  assume "\<exists>f\<in>set fs. rule_for rules (fd_entity f) (fd_pack f) st = Some (m_rule m) \<and> match_key m = span_key f"
  then show "m \<in> set (matched fs rules st)"
    by (cases m) (force simp: matched_def span_key_def)
qed

lemma sorted_key_start: "sorted (map match_key ms) \<Longrightarrow> sorted (map m_start ms)"
  by (induction ms) (auto simp: match_key_def m_start_def less_eq_prod_def)

lemma spans_cases:
  assumes "spans fs rules st = Some ms"
  obtains "ms = []" "matched fs rules st = []"
  | p rest where "ms = merge_spans p rest" "set (p # rest) = set (matched fs rules st)"
      "sorted (map m_start (p # rest))"
proof -
  obtain xs where xs: "sort_matches (matched fs rules st) = Some xs"
    using assms by (auto simp: spans_def split: option.splits)
  then have s: "xs = sort_key match_key (matched fs rules st)" by (auto simp: sort_matches_def split: if_splits)
  show thesis
  proof (cases xs)
    case Nil
    then have "matched fs rules st = []" using s sort_key_empty[of match_key] by metis
    moreover have "ms = []" using assms xs Nil by (simp add: spans_def)
    ultimately show ?thesis using that(1) by blast
  next
    case (Cons p rest)
    have "set (p # rest) = set (matched fs rules st)" using s Cons by (metis set_sort)
    moreover have "sorted (map m_start (p # rest))"
      using sorted_sort_key[of match_key "matched fs rules st"] s Cons by (metis sorted_key_start)
    moreover have "ms = merge_spans p rest" using assms xs Cons by (simp add: spans_def)
    ultimately show ?thesis using that(2) by blast
  qed
qed

lemma spans_ordered:
  assumes "spans fs rules st = Some ms" "\<forall>f\<in>set fs. fd_start f \<le> fd_end f"
  shows "ordered_spans 0 ms"
  using assms(1)
proof (cases rule: spans_cases)
  case (2 p rest)
  have "m_start m \<le> m_end m" if "m \<in> set (p # rest)" for m
  proof -
    have "m \<in> set (matched fs rules st)" using that unfolding 2(2) .
    then obtain f where "f \<in> set fs" "match_key m = span_key f" unfolding matched_from by blast
    then show ?thesis using assms(2) by (cases m) (auto simp: span_key_def)
  qed
  then have "list_all (\<lambda>m. m_start m \<le> m_end m) (p # rest)" unfolding list_all_iff by blast
  then show ?thesis unfolding 2(1) by (rule merge_spans_ordered[OF le0 _ 2(3)])
qed simp

lemma spans_cover:
  assumes "spans fs rules st = Some ms" "f \<in> set fs" "rule_for rules (fd_entity f) (fd_pack f) st = Some r"
  shows "\<exists>m\<in>set ms. m_start m \<le> fd_start f \<and> fd_end f \<le> m_end m \<and> ru_action r \<le> ru_action (m_rule m)"
proof -
  let ?m = "(fd_start f, fd_end f, fd_entity f, r)"
  have in_m: "?m \<in> set (matched fs rules st)"
    unfolding matched_from using assms(2,3) by (auto simp: span_key_def)
  show ?thesis using assms(1)
  proof (cases rule: spans_cases)
    case 1 then show ?thesis using in_m by simp
  next
    case (2 p rest)
    then obtain q where "q \<in> set ms" "covers_match q ?m" using merge_spans_cover[OF 2(3), of ?m] in_m by auto
    then show ?thesis by (auto simp: covers_match_def)
  qed
qed

lemma merge_spans_answer: "q \<in> set (merge_spans p ms) \<Longrightarrow> snd (snd q) \<in> (\<lambda>x. snd (snd x)) ` set (p # ms)"
proof (induction p ms rule: merge_spans.induct)
  case (2 ps pe pent pr s e ent r ms)
  show ?case
  proof (cases "s < pe")
    case True
    then have "snd (snd q) \<in> (\<lambda>x. snd (snd x)) ` set ((ps, max pe e,
        if strength (ru_action pr) < strength (ru_action r) then ent else pent,
        if strength (ru_action pr) < strength (ru_action r) then r else pr) # ms)"
      using 2(1)[OF True refl] 2(3) by (simp add: Let_def)
    then show ?thesis by (auto split: if_splits)
  next
    case False
    then show ?thesis using 2(2)[OF False] 2(3) by auto
  qed
qed simp

lemma spans_answer:
  assumes "spans fs rules st = Some ms" "m \<in> set ms"
  obtains f where "f \<in> set fs" "fst (snd (snd m)) = fd_entity f"
    "rule_for rules (fd_entity f) (fd_pack f) st = Some (m_rule m)"
  using assms(1)
proof (cases rule: spans_cases)
  case (2 p rest)
  have "m \<in> set (merge_spans p rest)" using assms(2) unfolding 2(1) .
  from merge_spans_answer[OF this] have "snd (snd m) \<in> (\<lambda>x. snd (snd x)) ` set (matched fs rules st)"
    unfolding 2(2) .
  then obtain x where x: "x \<in> set (matched fs rules st)" "snd (snd m) = snd (snd x)" by blast
  then obtain f where "f \<in> set fs" "rule_for rules (fd_entity f) (fd_pack f) st = Some (m_rule x)" "match_key x = span_key f"
    unfolding matched_from by blast
  moreover have "fst (snd (snd x)) = fd_entity f" using calculation(3) by (simp add: match_key_def span_key_def)
  ultimately show ?thesis using that[of f] x(2) by (simp add: m_rule_def)
qed (use assms(2) in simp)

lemma spans_rule:
  assumes "spans fs rules st = Some ms" "m \<in> set ms"
  shows "m_rule m \<in> set (rz_rules rules)"
  using spans_answer[OF assms] rule_for_strongest(1) by metis

lemma merge_spans_length: "length (merge_spans p ms) \<le> Suc (length ms)"
proof (induction p ms rule: merge_spans.induct)
  case (2 ps pe pent pr s e ent r ms)
  then show ?case by (cases "s < pe") (simp_all add: Let_def le_SucI)
qed simp

lemma matched_length: "length (matched fs rules st) \<le> length fs"
  by (induction fs) (auto simp: matched_def split: option.split)

lemma spans_length:
  assumes "spans fs rules st = Some ms" shows "length ms \<le> length fs"
proof -
  let ?xs = "sort_key match_key (matched fs rules st)"
  have ms: "ms = (case ?xs of [] \<Rightarrow> [] | m # ms \<Rightarrow> merge_spans m ms)"
    using assms by (auto simp: spans_def sort_matches_def split: if_splits list.splits)
  have "length ms \<le> length ?xs"
    unfolding ms using merge_spans_length by (cases ?xs) (simp_all del: length_sort)
  then show ?thesis using matched_length[of fs rules st] by simp
qed

lemma merged_comparable:
  assumes "distinct (map span_key fs)"
  shows "comparable (matched fs rules st)"
proof -
  have "a = b" if a: "a \<in> set (matched fs rules st)" and b: "b \<in> set (matched fs rules st)"
    and k: "match_key a = match_key b" for a b
  proof -
    obtain f g where f: "f \<in> set fs" "rule_for rules (fd_entity f) (fd_pack f) st = Some (m_rule a)"
        "match_key a = span_key f"
      and g: "g \<in> set fs" "rule_for rules (fd_entity g) (fd_pack g) st = Some (m_rule b)"
        "match_key b = span_key g"
      using a b unfolding matched_from by blast
    have "inj_on span_key (set fs)" using assms by (simp add: distinct_map)
    then have "f = g" using f g k by (metis inj_on_def)
    then have "m_rule a = m_rule b" using f g by simp
    then show ?thesis using k by (cases a; cases b) simp
  qed
  then show ?thesis unfolding comparable_def list_all_iff by blast
qed

section \<open>What a redaction hides\<close>

lemma slice_cong:
  assumes "length s = length s'" "\<And>i. a \<le> i \<Longrightarrow> i < b \<Longrightarrow> i < length s \<Longrightarrow> s ! i = s' ! i"
  shows "slice a b s = slice a b s'"
proof (rule nth_equalityI)
  show "length (slice a b s) = length (slice a b s')" using assms(1) by (simp add: slice_def)
  fix i assume "i < length (slice a b s)"
  then have "a + i < b" "a + i < length s" "a + i < length s'" using assms(1) by (simp_all add: slice_def)
  then show "slice a b s ! i = slice a b s' ! i" using assms(2)[of "a + i"] by (simp add: slice_def)
qed

lemma drop_slice: "drop a s = slice a (length s) s"
  by (simp add: slice_def)

lemma pieces_hide:
  assumes "length s = length s'" "ordered_spans c ms"
    "\<And>i. c \<le> i \<Longrightarrow> i < length s \<Longrightarrow> s ! i = s' ! i
      \<or> (\<exists>m\<in>set ms. ru_action (m_rule m) = Redact \<and> m_start m \<le> i \<and> i < m_end m)"
  shows "pieces libs ps s c ms p = pieces libs ps s' c ms p"
  using assms(2,3)
proof (induction ms arbitrary: c p)
  case Nil
  have "slice c (length s) s = slice c (length s) s'" by (rule slice_cong[OF assms(1)]) (use Nil(2) in simp)
  then show ?case using assms(1) by (simp add: drop_slice[of c s] drop_slice[of c s'])
next
  case (Cons m ms)
  obtain a b ent r where m: "m = (a, b, ent, r)" by (cases m)
  have o: "c \<le> a" "a \<le> b" "ordered_spans b ms" using Cons.prems(1) m by simp_all
  have later: "b \<le> m_start x" if "x \<in> set ms" for x
    using o(3) that
  proof (induction ms arbitrary: b)
    case (Cons y ys)
    then show ?case by (cases "x = y") (auto intro: order_trans)
  qed simp
  have gap: "slice c a s = slice c a s'"
  proof (rule slice_cong[OF assms(1)])
    fix i assume i: "c \<le> i" "i < a" "i < length s"
    have "\<not> m_start x \<le> i" if "x \<in> set (m # ms)" for x
      using that later i(2) o(2) m by fastforce
    then show "s ! i = s' ! i" using Cons.prems(2)[OF i(1,3)] by blast
  qed
  have val: "ru_action r = Redact \<or> slice a b s = slice a b s'"
  proof (rule disjCI)
    assume "slice a b s \<noteq> slice a b s'"
    then obtain i where i: "a \<le> i" "i < b" "i < length s" "s ! i \<noteq> s' ! i"
      using slice_cong[OF assms(1)] by metis
    then obtain x where x: "x \<in> set (m # ms)" "ru_action (m_rule x) = Redact" "m_start x \<le> i"
      using Cons.prems(2)[of i] o(1) by (meson order_trans)
    then have "x = m" using later i(2) by fastforce
    then show "ru_action r = Redact" using x(2) m by simp
  qed
  have p: "piece libs ps (slice a b s) (a, b, ent, r) p = piece libs ps (slice a b s') (a, b, ent, r) p" for p
    using val by (elim disjE) (simp_all add: piece_def replacement_def)
  have rest: "pieces libs ps s b ms p = pieces libs ps s' b ms p" for p
  proof (rule Cons.IH[OF o(3)])
    fix i assume "b \<le> i" "i < length s"
    then show "s ! i = s' ! i \<or> (\<exists>m\<in>set ms. ru_action (m_rule m) = Redact \<and> m_start m \<le> i \<and> i < m_end m)"
      using Cons.prems(2)[of i] o(1,2) m by auto
  qed
  show ?case unfolding m pieces.simps p rest gap ..
qed

lemma apply_rules_spans:
  "apply_rules libs ps s fs rules st p = Some (a, p1) \<longleftrightarrow>
     (\<exists>ms. spans fs rules st = Some ms \<and> pieces libs ps s 0 ms p = (ap_text a, p1)
        \<and> ap_decisions a = map decision_of ms)"
  by (cases a) (auto simp: apply_rules_def split: option.splits prod.splits)

lemma decision_parts [simp]:
  "dc_start (decision_of m) = m_start m" "dc_end (decision_of m) = m_end m"
  "dc_action (decision_of m) = ru_action (m_rule m)"
  by (cases m; simp add: decision_of_def)+

definition well_placed :: "finding list \<Rightarrow> bool" where
  "well_placed fs = list_all (\<lambda>f. fd_start f \<le> fd_end f) fs"

text \<open>
  C26: a redacted value never reaches what leaves: two texts of one length that differ only in
  positions that redacted spans cover give the same text, the same decisions and the same
  pseudonyms, whatever the values were.
\<close>
theorem redaction_hides_values:
  assumes "length s = length s'" "well_placed fs"
    "apply_rules libs ps s fs rules st p = Some (a, p1)"
    "\<And>i. i < length s \<Longrightarrow> s ! i \<noteq> s' ! i
      \<Longrightarrow> \<exists>d\<in>set (ap_decisions a). dc_action d = Redact \<and> dc_start d \<le> i \<and> i < dc_end d"
  shows "apply_rules libs ps s' fs rules st p = Some (a, p1)"
proof -
  obtain ms where ms: "spans fs rules st = Some ms" "pieces libs ps s 0 ms p = (ap_text a, p1)"
    "ap_decisions a = map decision_of ms" using assms(3) unfolding apply_rules_spans by blast
  have "\<forall>f\<in>set fs. fd_start f \<le> fd_end f" using assms(2) by (simp add: well_placed_def list_all_iff)
  then have "ordered_spans 0 ms" by (rule spans_ordered[OF ms(1)])
  moreover have "s ! i = s' ! i \<or> (\<exists>m\<in>set ms. ru_action (m_rule m) = Redact \<and> m_start m \<le> i \<and> i < m_end m)"
    if "i < length s" for i
    using assms(4)[OF that] unfolding ms(3) by auto
  ultimately have "pieces libs ps s 0 ms p = pieces libs ps s' 0 ms p"
    by (intro pieces_hide[OF assms(1)]) auto
  then show ?thesis unfolding apply_rules_spans using ms by metis
qed

text \<open>
  C27: every finding that a rule answers is decided: among merged findings applying never fails, the
  decisions are disjoint and in text order, and each answered finding lies inside one of them,
  whose action is at least as strong as that of the strongest rule matching the finding.
\<close>
theorem every_answered_finding_is_decided:
  assumes "fs = merge_findings found" "well_placed found" "f \<in> set fs" "r \<in> set (rz_rules rules)"
    "matches r (fd_entity f) (fd_pack f) st"
  shows "\<exists>a p1 ms. apply_rules libs ps s fs rules st p = Some (a, p1)
    \<and> ap_decisions a = map decision_of ms \<and> ordered_spans 0 ms
    \<and> (\<exists>d\<in>set (ap_decisions a). dc_start d \<le> fd_start f \<and> fd_end f \<le> dc_end d \<and> ru_action r \<le> dc_action d)"
proof -
  have "comparable (matched fs rules st)"
    using merged_comparable merge_findings_props(1) unfolding assms(1) by blast
  then have "spans fs rules st \<noteq> None"
    by (simp add: spans_def sort_matches_def split: list.split)
  then obtain ms where ms: "spans fs rules st = Some ms" by blast
  obtain t p1 where t: "pieces libs ps s 0 ms p = (t, p1)" by fastforce
  have a: "apply_rules libs ps s fs rules st p = Some (\<lparr>ap_text = t, ap_decisions = map decision_of ms\<rparr>, p1)"
    by (simp add: apply_rules_def ms t)
  have "\<forall>f\<in>set fs. fd_start f \<le> fd_end f"
    using assms(2) merge_findings_props(4)[of found] unfolding assms(1) well_placed_def list_all_iff by blast
  then have o: "ordered_spans 0 ms" by (rule spans_ordered[OF ms])
  obtain b where b: "rule_for rules (fd_entity f) (fd_pack f) st = Some b" "ru_action r \<le> ru_action b"
    using rule_for_strongest(2)[OF assms(4,5)] by blast
  obtain m where m: "m \<in> set ms" "m_start m \<le> fd_start f" "fd_end f \<le> m_end m" "ru_action b \<le> ru_action (m_rule m)"
    using spans_cover[OF ms assms(3) b(1)] by blast
  have "\<exists>d\<in>set (map decision_of ms). dc_start d \<le> fd_start f \<and> fd_end f \<le> dc_end d \<and> ru_action r \<le> dc_action d"
    using m order_trans[OF b(2) m(4)] by (intro bexI[of _ "decision_of m"]) simp_all
  then show ?thesis using a o by fastforce
qed

section \<open>Witnesses\<close>

definition demo_libs :: guard_libs where
  "demo_libs = \<lparr>gl_isdigit = (\<lambda>c. 48 \<le> c \<and> c \<le> 57), gl_hmac = (\<lambda>_ v. v)\<rparr>"

definition demo_rules :: rule_set where
  "demo_rules = \<lparr>rz_template = ''demo'', rz_version = 1,
     rz_rules = [plain_rule ''ids'' [''kr''] {ToolArgs} Redact (Some {''RRN''}),
                 plain_rule ''ask'' [''common''] {ToolArgs} Approval (Some {''CARD''})]\<rparr>"

definition demo_finding :: "string \<Rightarrow> string \<Rightarrow> nat \<Rightarrow> nat \<Rightarrow> finding" where
  "demo_finding entity pack a b =
     \<lparr>fd_entity = entity, fd_start = a, fd_end = b, fd_score = Fin 1, fd_pack = pack\<rparr>"

definition demo_applied :: "utext \<Rightarrow> (applied \<times> unit) option" where
  "demo_applied s = apply_rules demo_libs None s [demo_finding ''RRN'' ''kr'' 1 3] demo_rules ToolArgs ()"

lemma demo_applied_value:
  "\<exists>a. demo_applied [1, 5, 6, 2] = Some (a, ())
    \<and> ap_decisions a = [\<lparr>dc_rule = ''ids'', dc_entity = ''RRN'', dc_action = Redact, dc_start = 1, dc_end = 3\<rparr>]"
proof -
  have "case demo_applied [1, 5, 6, 2] of None \<Rightarrow> False | Some (a, _) \<Rightarrow>
    ap_decisions a = [\<lparr>dc_rule = ''ids'', dc_entity = ''RRN'', dc_action = Redact, dc_start = 1, dc_end = 3\<rparr>]"
    by code_simp
  then show ?thesis by (auto split: option.splits)
qed

lemma redaction_hides_values_witness:
  "demo_applied [1, 7, 8, 2] = demo_applied [1, 5, 6, 2] \<and> demo_applied [1, 5, 6, 2] \<noteq> None"
proof -
  obtain a where a: "demo_applied [1, 5, 6, 2] = Some (a, ())"
    "ap_decisions a = [\<lparr>dc_rule = ''ids'', dc_entity = ''RRN'', dc_action = Redact, dc_start = 1, dc_end = 3\<rparr>]"
    using demo_applied_value by blast
  have "demo_applied [1, 7, 8, 2] = Some (a, ())"
    unfolding demo_applied_def
    by (rule redaction_hides_values[OF _ _ a(1)[unfolded demo_applied_def]])
      (auto simp: a(2) well_placed_def demo_finding_def nth_Cons' less_Suc_eq)
  then show ?thesis using a(1) by simp
qed

definition demo_overlap :: "finding list" where
  "demo_overlap = [demo_finding ''CARD'' ''common'' 2 5, demo_finding ''RRN'' ''kr'' 0 3]"

lemma every_answered_finding_is_decided_witness:
  "\<exists>a p1. apply_rules demo_libs None [1, 2, 3, 4, 5] (merge_findings demo_overlap) demo_rules ToolArgs () = Some (a, p1)
     \<and> (\<exists>d\<in>set (ap_decisions a). dc_start d = 0 \<and> 3 \<le> dc_end d \<and> Redact \<le> dc_action d)"
proof -
  have "demo_finding ''RRN'' ''kr'' 0 3 \<in> set (merge_findings demo_overlap)"
    by (simp add: merge_findings_def demo_overlap_def keep_best_def span_key_def demo_finding_def)
  moreover have "well_placed demo_overlap" by code_simp
  moreover have "matches (hd (rz_rules demo_rules)) ''RRN'' ''kr'' ToolArgs" by code_simp
  moreover have "hd (rz_rules demo_rules) \<in> set (rz_rules demo_rules)" by (simp add: demo_rules_def)
  ultimately have "\<exists>a p1 ms. apply_rules demo_libs None [1, 2, 3, 4, 5] (merge_findings demo_overlap) demo_rules ToolArgs ()
      = Some (a, p1) \<and> ap_decisions a = map decision_of ms \<and> ordered_spans 0 ms
    \<and> (\<exists>d\<in>set (ap_decisions a). dc_start d \<le> fd_start (demo_finding ''RRN'' ''kr'' 0 3)
        \<and> fd_end (demo_finding ''RRN'' ''kr'' 0 3) \<le> dc_end d \<and> ru_action (hd (rz_rules demo_rules)) \<le> dc_action d)"
    by (intro every_answered_finding_is_decided[OF refl]) (simp_all add: demo_finding_def)
  then show ?thesis by (fastforce simp: demo_finding_def demo_rules_def plain_rule_def)
qed

text \<open>
  Where a redacted finding overlaps one whose rule asks for approval, approval is the stronger
  action and the whole span stays in clear.
\<close>
theorem approval_leaves_redacted_overlap_clear:
  "map_option (\<lambda>(a, _). (ap_text a, map dc_action (ap_decisions a)))
     (apply_rules demo_libs None [1, 2, 3, 4, 5] (merge_findings demo_overlap) demo_rules ToolArgs ())
   = Some ([1, 2, 3, 4, 5], [Approval])
   \<and> map_option ru_action (rule_for demo_rules ''RRN'' ''kr'' ToolArgs) = Some Redact"
  by code_simp

end
