(* ===== verification/GuardPolicy.thy ===== *)
theory GuardPolicy
  imports ToolRisk GuardActions
begin

text \<open>
  Which rule set a run gets (\<open>guardrails/policy\<close>): the company policy in the tenant's settings, the
  templates and their published versions, the agent's binding and its per-rule changes.

  The installation default is an argument (its stripped name). Rows are read by their keys; a
  tenant's settings are a JSON object.

  The lemmas show that a rule the company locked is always answered by the resolved set, in which
  cases the company's own rule is kept and in which the agent's template may replace it, and when a
  run is unguarded.
\<close>

section \<open>The company policy\<close>

datatype policy_mode = PolicyOff | PolicyOpen | PolicyDefault | PolicyEnforced

fun mode_name :: "policy_mode \<Rightarrow> string" where
  "mode_name PolicyOff = ''off''"
| "mode_name PolicyOpen = ''open''"
| "mode_name PolicyDefault = ''default''"
| "mode_name PolicyEnforced = ''enforced''"

definition policy_modes :: "policy_mode list" where
  "policy_modes = [PolicyOff, PolicyOpen, PolicyDefault, PolicyEnforced]"

record company_policy =
  cp_mode :: policy_mode
  cp_default :: "json option"
  cp_locked :: "string set"
  cp_tool_risk :: risk_policy

datatype policy_error = UnreadableToolRisk | NeedsDefault | DefaultUnusable json | UnknownBuiltin string
  | StoredRules rules_error | PyTypeError

definition mode_of :: "json \<Rightarrow> policy_mode option" where
  "mode_of j = (case j of JStr s \<Rightarrow> find (\<lambda>m. mode_name m = s) policy_modes | _ \<Rightarrow> None)"

text \<open>The one-character strings of a UTF-8 string, and what iterating a JSON value yields.\<close>

fun utf8_units :: "string \<Rightarrow> string list" where
  "utf8_units [] = []"
| "utf8_units (c # cs) =
     (case utf8_units cs of
        (d # ds) # us \<Rightarrow> if 128 \<le> code_of d \<and> code_of d < 192 then (c # d # ds) # us else [c] # (d # ds) # us
      | us \<Rightarrow> [c] # us)"

definition iterated :: "json \<Rightarrow> json list option" where
  "iterated j =
     (if \<not> json_true j then Some []
      else case j of
             JList xs \<Rightarrow> Some xs
           | JObj ms \<Rightarrow> Some (map (JStr \<circ> fst) ms)
           | JStr s \<Rightarrow> Some (map JStr (utf8_units s))
           | _ \<Rightarrow> None)"

definition is_str :: "json \<Rightarrow> bool" where
  "is_str j = (case j of JStr _ \<Rightarrow> True | _ \<Rightarrow> False)"

type_synonym settings = "(string \<times> json) list"

definition settings_key :: string where "settings_key = ''guardrails''"

definition policy_from_settings :: "settings option \<Rightarrow> policy_error + company_policy option" where
  "policy_from_settings vs =
     (case jget (case vs of None \<Rightarrow> [] | Some ms \<Rightarrow> ms) settings_key of
        JObj raw \<Rightarrow>
          (case mode_of (jget raw ''mode'') of
             None \<Rightarrow> Inr None
           | Some m \<Rightarrow>
               (case actions_from_json (jget raw ''tool_risk'') of
                  Inl UnhashableAction \<Rightarrow> Inl PyTypeError
                | Inl _ \<Rightarrow> Inl UnreadableToolRisk
                | Inr risk \<Rightarrow>
                    (case iterated (jget raw ''locked_rules'') of
                       None \<Rightarrow> Inl PyTypeError
                     | Some locked \<Rightarrow>
                         let d = jget raw ''default_template'' in
                         Inr (Some \<lparr>cp_mode = m, cp_default = (if json_true d then Some d else None),
                           cp_locked = set (map str_of (filter is_str locked)), cp_tool_risk = risk\<rparr>))))
      | _ \<Rightarrow> Inr None)"

definition policy_to_settings :: "company_policy \<Rightarrow> json" where
  "policy_to_settings p =
     JObj [(''mode'', JStr (mode_name (cp_mode p))),
       (''default_template'', case cp_default p of None \<Rightarrow> JNull | Some d \<Rightarrow> d),
       (''locked_rules'', JList (map JStr (sorted_list_of_set (cp_locked p)))),
       (''tool_risk'', JObj (actions_json (cp_tool_risk p)))]"

definition installation_policy :: "string \<Rightarrow> policy_error + company_policy" where
  "installation_policy name =
     (if name = [] then
        Inr \<lparr>cp_mode = PolicyOpen, cp_default = None, cp_locked = {}, cp_tool_risk = default_actions\<rparr>
      else if builtin name = None then Inl (UnknownBuiltin name)
      else Inr \<lparr>cp_mode = PolicyDefault, cp_default = Some (JStr (builtin_prefix @ name)), cp_locked = {},
             cp_tool_risk = default_actions\<rparr>)"

section \<open>Rows\<close>

record tenant_settings_row =
  tn_id :: uuid
  tn_settings :: "settings option"
  tn_updated :: micros

record template_row =
  gt_id :: uuid
  gt_tenant :: uuid
  gt_name :: string
  gt_description :: string
  gt_status :: string
  gt_draft :: json
  gt_published :: "nat option"
  gt_updated :: micros

record version_row =
  gv_template :: uuid
  gv_version :: nat
  gv_rules :: json

record binding_row =
  ab_agent :: uuid
  ab_mode :: string
  ab_ref :: "string option"
  ab_overrides :: "(string \<times> json) list"

record guard_db =
  gd_tenants :: "tenant_settings_row list"
  gd_templates :: "template_row list"
  gd_versions :: "version_row list"
  gd_bindings :: "binding_row list"

section \<open>Templates\<close>

definition find_version :: "guard_db \<Rightarrow> uuid \<Rightarrow> nat \<Rightarrow> version_row option" where
  "find_version db t v = find (\<lambda>r. gv_template r = t \<and> gv_version r = v) (gd_versions db)"

definition template_rules ::
    "(string \<Rightarrow> uuid option) \<Rightarrow> guard_db \<Rightarrow> uuid \<Rightarrow> string \<Rightarrow> policy_error + rule_set option" where
  "template_rules canonical db tenant r =
     (case parse_ref canonical r of
        None \<Rightarrow> Inr None
      | Some (BuiltinRef key) \<Rightarrow> Inr (map_option (\<lambda>z. z\<lparr>rz_template := r\<rparr>) (builtin key))
      | Some (CompanyRef key) \<Rightarrow>
          (case row_get gt_id key (gd_templates db) of
             None \<Rightarrow> Inr None
           | Some t \<Rightarrow>
               if gt_tenant t \<noteq> tenant \<or> gt_status t \<noteq> ''published'' then Inr None
               else (case gt_published t of
                       None \<Rightarrow> Inr None
                     | Some v \<Rightarrow>
                         (case find_version db (gt_id t) v of
                            None \<Rightarrow> Inr None
                          | Some w \<Rightarrow>
                              (case rules_from_json (gv_rules w) of
                                 Inl e \<Rightarrow> Inl (StoredRules e)
                               | Inr rs \<Rightarrow> Inr (Some \<lparr>rz_template = r, rz_version = int (gv_version w), rz_rules = rs\<rparr>))))))"

section \<open>Resolving\<close>

definition override_allowed :: "rule \<Rightarrow> action \<Rightarrow> bool" where
  "override_allowed r a =
     ((InputStage \<notin> ru_stages r \<or> a = Block \<or> a = Warn)
      \<and> (a \<noteq> Approval \<or> (ru_stages r = {ToolArgs} \<and> set (ru_packs r) \<subseteq> approval_packs)))"

text \<open>One rule after the agent's changes: \<open>[]\<close> when it is switched off.\<close>

definition override_rule :: "(string \<times> json) list \<Rightarrow> string set \<Rightarrow> rule \<Rightarrow> policy_error + rule list" where
  "override_rule overrides locked r =
     (case jget overrides (ru_id r) of
        JObj change \<Rightarrow>
          if ru_id r \<in> locked then Inr [r]
          else if jget change ''enabled'' = JBool False then Inr []
          else if \<not> hashable (jget change ''action'') then Inl PyTypeError
          else (case action_of (jget change ''action'') of
                  None \<Rightarrow> Inr [r]
                | Some a \<Rightarrow> Inr [if override_allowed r a then r\<lparr>ru_action := a\<rparr> else r])
      | _ \<Rightarrow> Inr [r])"

fun override_rules :: "(string \<times> json) list \<Rightarrow> string set \<Rightarrow> rule list \<Rightarrow> policy_error + rule list" where
  "override_rules overrides locked [] = Inr []"
| "override_rules overrides locked (r # rs) =
     (case override_rule overrides locked r of
        Inl e \<Rightarrow> Inl e
      | Inr kept \<Rightarrow> (case override_rules overrides locked rs of Inl e \<Rightarrow> Inl e | Inr rest \<Rightarrow> Inr (kept @ rest)))"

definition apply_overrides :: "rule_set \<Rightarrow> (string \<times> json) list \<Rightarrow> string set \<Rightarrow> policy_error + rule_set" where
  "apply_overrides z overrides locked =
     (case override_rules overrides locked (rz_rules z) of
        Inl e \<Rightarrow> Inl e
      | Inr rs \<Rightarrow> Inr (z\<lparr>rz_rules := rs\<rparr>))"

definition locked_only :: "rule_set \<Rightarrow> string set \<Rightarrow> rule_set option" where
  "locked_only z locked =
     (let kept = filter (\<lambda>r. ru_id r \<in> locked) (rz_rules z)
      in if kept \<noteq> [] then Some (z\<lparr>rz_rules := kept\<rparr>) else None)"

definition default_rules ::
    "(string \<Rightarrow> uuid option) \<Rightarrow> guard_db \<Rightarrow> uuid \<Rightarrow> company_policy \<Rightarrow> policy_error + rule_set option" where
  "default_rules canonical db tenant p =
     (case cp_default p of
        None \<Rightarrow> if cp_mode p = PolicyEnforced then Inl NeedsDefault else Inr None
      | Some (JStr r) \<Rightarrow>
          (case template_rules canonical db tenant r of
             Inl e \<Rightarrow> Inl e
           | Inr None \<Rightarrow> Inl (DefaultUnusable (JStr r))
           | Inr (Some z) \<Rightarrow> Inr (Some z))
      | Some _ \<Rightarrow> Inl PyTypeError)"

definition tenant_settings :: "guard_db \<Rightarrow> uuid \<Rightarrow> settings option" where
  "tenant_settings db tenant = (case row_get tn_id tenant (gd_tenants db) of None \<Rightarrow> None | Some t \<Rightarrow> tn_settings t)"

definition company_policy_of :: "string \<Rightarrow> guard_db \<Rightarrow> uuid \<Rightarrow> policy_error + company_policy" where
  "company_policy_of install db tenant =
     (case policy_from_settings (tenant_settings db tenant) of
        Inl e \<Rightarrow> Inl e
      | Inr (Some p) \<Rightarrow> Inr p
      | Inr None \<Rightarrow> installation_policy install)"

text \<open>The template an agent chose, with the company's locked rules added by id.\<close>

definition with_locked :: "rule_set \<Rightarrow> rule_set \<Rightarrow> string set \<Rightarrow> rule_set" where
  "with_locked chosen dflt locked =
     (let extra = filter (\<lambda>r. ru_id r \<in> locked) (rz_rules dflt);
          names = map ru_id (rz_rules chosen)
      in chosen\<lparr>rz_rules := rz_rules chosen @ filter (\<lambda>r. ru_id r \<notin> set names) extra\<rparr>)"

definition chosen_rules ::
    "(string \<Rightarrow> uuid option) \<Rightarrow> guard_db \<Rightarrow> uuid \<Rightarrow> company_policy \<Rightarrow> rule_set option \<Rightarrow> binding_row \<Rightarrow> policy_error + rule_set option" where
  "chosen_rules canonical db tenant p dflt b =
     (case template_rules canonical db tenant (case ab_ref b of None \<Rightarrow> [] | Some r \<Rightarrow> r) of
        Inl e \<Rightarrow> Inl e
      | Inr None \<Rightarrow> Inr dflt
      | Inr (Some z) \<Rightarrow> Inr (Some (case dflt of None \<Rightarrow> z | Some d \<Rightarrow> with_locked z d (cp_locked p))))"

definition resolve ::
    "(string \<Rightarrow> uuid option) \<Rightarrow> string \<Rightarrow> guard_db \<Rightarrow> uuid \<Rightarrow> uuid option \<Rightarrow> string \<Rightarrow> policy_error + rule_set option" where
  "resolve canonical install db tenant agent profile =
     (if profile \<noteq> ''standard'' then Inr None
      else case company_policy_of install db tenant of Inl e \<Rightarrow> Inl e | Inr p \<Rightarrow>
      if cp_mode p = PolicyOff then Inr None
      else
        let binding = (case agent of None \<Rightarrow> None | Some a \<Rightarrow> row_get ab_agent a (gd_bindings db));
            finish = (\<lambda>z. case z of
               None \<Rightarrow> Inr None
             | Some z \<Rightarrow>
                 (case apply_overrides z (case binding of None \<Rightarrow> [] | Some b \<Rightarrow> ab_overrides b) (cp_locked p) of
                    Inl e \<Rightarrow> Inl e
                  | Inr z \<Rightarrow> Inr (Some z)))
        in case default_rules canonical db tenant p of Inl e \<Rightarrow> Inl e | Inr dflt \<Rightarrow>
        if cp_mode p = PolicyEnforced \<or> (case binding of None \<Rightarrow> True | Some b \<Rightarrow> ab_mode b = ''inherit'')
        then finish (if cp_mode p \<noteq> PolicyOpen then dflt else None)
        else if ab_mode (the binding) = ''off''
        then Inr (case dflt of None \<Rightarrow> None | Some d \<Rightarrow> locked_only d (cp_locked p))
        else case chosen_rules canonical db tenant p dflt (the binding) of
               Inl e \<Rightarrow> Inl e
             | Inr z \<Rightarrow> finish z)"

definition resolve_tool_risk :: "guard_db \<Rightarrow> uuid \<Rightarrow> string \<Rightarrow> policy_error + risk_policy option" where
  "resolve_tool_risk db tenant profile =
     (if profile \<noteq> ''standard'' then Inr None
      else case policy_from_settings (tenant_settings db tenant) of
             Inl e \<Rightarrow> Inl e
           | Inr None \<Rightarrow> Inr None
           | Inr (Some p) \<Rightarrow>
               (case policy_from_actions (actions_json (cp_tool_risk p)) of
                  Inl UnhashableAction \<Rightarrow> Inl PyTypeError
                | Inl _ \<Rightarrow> Inl UnreadableToolRisk
                | Inr q \<Rightarrow> Inr q))"

section \<open>Locked rules\<close>

lemma override_locked: "ru_id r \<in> locked \<Longrightarrow> override_rule ov locked r = Inr [r]"
  by (cases "jget ov (ru_id r)") (simp_all add: override_rule_def)

lemma override_rules_locked:
  "override_rules ov locked rs = Inr rs' \<Longrightarrow> r \<in> set rs \<Longrightarrow> ru_id r \<in> locked \<Longrightarrow> r \<in> set rs'"
proof (induction rs arbitrary: rs')
  case (Cons x rs)
  then obtain kept rest where k: "override_rule ov locked x = Inr kept" "override_rules ov locked rs = Inr rest"
    "rs' = kept @ rest" by (auto split: sum.splits)
  show ?case
  proof (cases "r = x")
    case True
    then show ?thesis using k override_locked[OF Cons.prems(3)] by auto
  next
    case False
    then show ?thesis using Cons.IH[OF k(2)] Cons.prems(2,3) k(3) by auto
  qed
qed simp

lemma apply_overrides_locked:
  "apply_overrides z ov locked = Inr z' \<Longrightarrow> r \<in> set (rz_rules z) \<Longrightarrow> ru_id r \<in> locked \<Longrightarrow> r \<in> set (rz_rules z')"
  using override_rules_locked by (auto simp: apply_overrides_def split: sum.splits)

text \<open>The binding a run reads, and whether its agent chose a usable template of its own.\<close>

definition run_binding :: "guard_db \<Rightarrow> uuid option \<Rightarrow> binding_row option" where
  "run_binding db agent = (case agent of None \<Rightarrow> None | Some a \<Rightarrow> row_get ab_agent a (gd_bindings db))"

definition inherits :: "company_policy \<Rightarrow> binding_row option \<Rightarrow> bool" where
  "inherits p b = (cp_mode p = PolicyEnforced \<or> (case b of None \<Rightarrow> True | Some b \<Rightarrow> ab_mode b = ''inherit''))"

definition own_template ::
    "(string \<Rightarrow> uuid option) \<Rightarrow> guard_db \<Rightarrow> uuid \<Rightarrow> company_policy \<Rightarrow> binding_row option \<Rightarrow> rule_set option" where
  "own_template canonical db tenant p b =
     (case b of
        None \<Rightarrow> None
      | Some b \<Rightarrow>
          if cp_mode p = PolicyEnforced \<or> ab_mode b = ''inherit'' \<or> ab_mode b = ''off'' then None
          else (case template_rules canonical db tenant (case ab_ref b of None \<Rightarrow> [] | Some r \<Rightarrow> r) of
                  Inr (Some z) \<Rightarrow> Some z
                | _ \<Rightarrow> None))"

definition finish_rules :: "company_policy \<Rightarrow> binding_row option \<Rightarrow> rule_set option \<Rightarrow> policy_error + rule_set option" where
  "finish_rules p b z =
     (case z of
        None \<Rightarrow> Inr None
      | Some z \<Rightarrow>
          (case apply_overrides z (case b of None \<Rightarrow> [] | Some b \<Rightarrow> ab_overrides b) (cp_locked p) of
             Inl e \<Rightarrow> Inl e
           | Inr z \<Rightarrow> Inr (Some z)))"

text \<open>The four ways a guarded profile gets its rules.\<close>

lemma resolve_cases:
  assumes "resolve canonical install db tenant agent ''standard'' = res"
    "company_policy_of install db tenant = Inr p" "default_rules canonical db tenant p = Inr dflt"
  obtains (off) "cp_mode p = PolicyOff" "res = Inr None"
  | (inherit) "cp_mode p \<noteq> PolicyOff" "inherits p (run_binding db agent)"
      "res = finish_rules p (run_binding db agent) (if cp_mode p \<noteq> PolicyOpen then dflt else None)"
  | (switched_off) b where "cp_mode p \<noteq> PolicyOff" "run_binding db agent = Some b" "ab_mode b = ''off''"
      "\<not> inherits p (Some b)" "res = Inr (case dflt of None \<Rightarrow> None | Some d \<Rightarrow> locked_only d (cp_locked p))"
  | (own) b where "cp_mode p \<noteq> PolicyOff" "run_binding db agent = Some b" "ab_mode b \<noteq> ''off''" "\<not> inherits p (Some b)"
      "res = (case chosen_rules canonical db tenant p dflt b of Inl e \<Rightarrow> Inl e | Inr z \<Rightarrow> finish_rules p (Some b) z)"
proof -
  note r = assms(1)[unfolded resolve_def assms(2,3) sum.case Let_def]
  show thesis
  proof (cases "cp_mode p = PolicyOff")
    case True
    then show ?thesis using off r by simp
  next
    case mode: False
    note r = r[unfolded if_not_P[OF mode]]
    show ?thesis
    proof (cases "inherits p (run_binding db agent)")
      case True
      then show ?thesis using inherit[OF mode True] r
        unfolding inherits_def run_binding_def finish_rules_def by simp
    next
      case False
      then obtain b where b: "run_binding db agent = Some b" by (auto simp: inherits_def split: option.splits)
      have i: "\<not> inherits p (Some b)" using False b by simp
      note n = i[unfolded inherits_def option.case]
      note r = r[folded run_binding_def, unfolded b option.case option.sel if_not_P[OF n]]
      show ?thesis
      proof (cases "ab_mode b = ''off''")
        case True
        then show ?thesis using switched_off[OF mode b True i] r by simp
      next
        case noff: False
        show ?thesis
          by (rule own[OF mode b noff i]) (use r noff in \<open>auto simp: finish_rules_def split: sum.splits option.splits\<close>)
      qed
    qed
  qed
qed

lemma finish_locked:
  assumes "finish_rules p b (Some z) = Inr (Some z')" "r \<in> set (rz_rules z)" "ru_id r \<in> cp_locked p"
  shows "r \<in> set (rz_rules z')"
  using assms apply_overrides_locked by (auto simp: finish_rules_def split: sum.splits)

text \<open>
  C25: a rule the company locked is never lost: in every mode, whatever the agent's binding switches
  off or changes, a guarded run's rule set answers the locked rule's id, with the company's own rule
  unless the agent chose a template of its own that has a rule of that id.
\<close>
theorem locked_rules_hold:
  assumes "resolve canonical install db tenant agent ''standard'' = Inr (Some z)"
    "company_policy_of install db tenant = Inr p" "default_rules canonical db tenant p = Inr (Some d)"
    "r \<in> set (rz_rules d)" "ru_id r \<in> cp_locked p"
  shows "r \<in> set (rz_rules z)
    \<or> (\<exists>c r'. own_template canonical db tenant p (run_binding db agent) = Some c
          \<and> r' \<in> set (rz_rules c) \<and> r' \<in> set (rz_rules z) \<and> ru_id r' = ru_id r)"
proof (cases rule: resolve_cases[OF assms(1-3)])
  case inherit: 2
  then have "finish_rules p (run_binding db agent) (Some d) = Inr (Some z)"
    by (auto simp: finish_rules_def split: if_splits)
  then show ?thesis using finish_locked[OF _ assms(4,5)] by blast
next
  case switched_off: (3 b)
  then show ?thesis using assms(4,5) by (auto simp: locked_only_def Let_def split: if_splits)
next
  case own: (4 b)
  obtain t where t: "template_rules canonical db tenant (case ab_ref b of None \<Rightarrow> [] | Some r \<Rightarrow> r) = Inr t"
    using own(5) by (cases "template_rules canonical db tenant (case ab_ref b of None \<Rightarrow> [] | Some r \<Rightarrow> r)")
      (auto simp: chosen_rules_def)
  show ?thesis
  proof (cases t)
    case None
    then have "finish_rules p (Some b) (Some d) = Inr (Some z)" using own(5) t by (simp add: chosen_rules_def)
    then show ?thesis using finish_locked[OF _ assms(4,5)] by blast
  next
    case (Some c)
    then have f: "finish_rules p (Some b) (Some (with_locked c d (cp_locked p))) = Inr (Some z)"
      using own(5) t by (simp add: chosen_rules_def)
    have o: "own_template canonical db tenant p (run_binding db agent) = Some c"
      using own(2-4) t Some by (auto simp: own_template_def inherits_def)
    show ?thesis
    proof (cases "ru_id r \<in> set (map ru_id (rz_rules c))")
      case True
      then obtain r' where r': "r' \<in> set (rz_rules c)" "ru_id r' = ru_id r" by auto
      then have "r' \<in> set (rz_rules (with_locked c d (cp_locked p)))" "ru_id r' \<in> cp_locked p"
        using assms(5) by (simp_all add: with_locked_def)
      then show ?thesis using finish_locked[OF f] r' o by blast
    next
      case False
      then have "r \<in> set (rz_rules (with_locked c d (cp_locked p)))"
        using assms(4,5) by (auto simp: with_locked_def)
      then show ?thesis using finish_locked[OF f _ assms(5)] by blast
    qed
  qed
qed simp

section \<open>A locked rule an agent replaced\<close>

definition demo_settings :: settings where
  "demo_settings = [(settings_key, policy_to_settings
     \<lparr>cp_mode = PolicyDefault, cp_default = Some (JStr ''builtin:kr-strict''), cp_locked = {''kr-identifiers''},
      cp_tool_risk = default_actions\<rparr>)]"

definition demo_guard_db :: "string \<Rightarrow> string option \<Rightarrow> guard_db" where
  "demo_guard_db mode r =
     \<lparr>gd_tenants = [\<lparr>tn_id = ''t'', tn_settings = Some demo_settings, tn_updated = 0\<rparr>], gd_templates = [],
      gd_versions = [], gd_bindings = [\<lparr>ab_agent = ''a'', ab_mode = mode, ab_ref = r,
        ab_overrides = [(''kr-identifiers'', JObj [(''enabled'', JBool False)])]\<rparr>]\<rparr>"

definition rule_actions :: "policy_error + rule_set option \<Rightarrow> string \<Rightarrow> action list" where
  "rule_actions res i =
     (case res of Inr (Some z) \<Rightarrow> map ru_action (filter (\<lambda>r. ru_id r = i) (rz_rules z)) | _ \<Rightarrow> [])"

lemma demo_policy_read:
  "company_policy_of [] (demo_guard_db mode r) ''t'' = Inr
     \<lparr>cp_mode = PolicyDefault, cp_default = Some (JStr ''builtin:kr-strict''), cp_locked = {''kr-identifiers''},
      cp_tool_risk = default_actions\<rparr>"
proof -
  have "tenant_settings (demo_guard_db mode r) ''t'' = Some demo_settings"
    by (simp add: tenant_settings_def demo_guard_db_def row_get_def)
  moreover have "case policy_from_settings (Some demo_settings) of Inr (Some p) \<Rightarrow>
      cp_mode p = PolicyDefault \<and> cp_default p = Some (JStr ''builtin:kr-strict'')
      \<and> cp_locked p = {''kr-identifiers''} \<and> cp_tool_risk p = default_actions | _ \<Rightarrow> False"
    by code_simp
  ultimately show ?thesis by (auto simp: company_policy_of_def split: sum.splits option.splits)
qed

text \<open>
  The agent of a company that locked the blocking identifier rule of \<open>kr-strict\<close> picks \<open>kr-default\<close>:
  its own rule of that id, which redacts, takes the place of the company's.
\<close>
theorem locked_rule_replaced_by_own_template:
  "rule_actions (resolve Some [] (demo_guard_db ''template'' (Some ''builtin:kr-default'')) ''t'' (Some ''a'') ''standard'')
     ''kr-identifiers'' = [Redact]
   \<and> rule_actions (resolve Some [] (demo_guard_db ''inherit'' None) ''t'' (Some ''a'') ''standard'') ''kr-identifiers'' = [Block]"
  by code_simp

lemma locked_rules_hold_witness:
  "\<exists>z. resolve Some [] (demo_guard_db ''off'' None) ''t'' (Some ''a'') ''standard'' = Inr (Some z)
     \<and> Block \<in> ru_action ` set (rz_rules z)"
proof -
  let ?db = "demo_guard_db ''off'' None"
  let ?p = "\<lparr>cp_mode = PolicyDefault, cp_default = Some (JStr ''builtin:kr-strict''), cp_locked = {''kr-identifiers''},
      cp_tool_risk = default_actions\<rparr>"
  have "case resolve Some [] ?db ''t'' (Some ''a'') ''standard'' of Inr (Some _) \<Rightarrow> True | _ \<Rightarrow> False" by code_simp
  then obtain z where z: "resolve Some [] ?db ''t'' (Some ''a'') ''standard'' = Inr (Some z)"
    by (auto split: sum.splits option.splits)
  obtain d where d: "builtin ''kr-strict'' = Some d" by (simp add: builtin_def builtin_rules_def)
  have dr: "default_rules Some ?db ''t'' ?p = Inr (Some (d\<lparr>rz_template := ''builtin:kr-strict''\<rparr>))"
    by (simp add: default_rules_def template_rules_def parse_ref_def builtin_prefix_def starts_with_def d)
  let ?r = "plain_rule ''kr-identifiers'' [''kr_model''] at_in Block (Some identifier_entities)"
  have r: "?r \<in> set (rz_rules (d\<lparr>rz_template := ''builtin:kr-strict''\<rparr>))"
    using d by (auto simp: builtin_def builtin_rules_def)
  have o: "own_template Some ?db ''t'' ?p (run_binding ?db (Some ''a'')) = None"
    by (simp add: own_template_def run_binding_def demo_guard_db_def row_get_def)
  have "?r \<in> set (rz_rules z)"
    using locked_rules_hold[OF z demo_policy_read dr r] o by (simp add: plain_rule_def)
  moreover have "ru_action ?r = Block" by (simp add: plain_rule_def)
  ultimately show ?thesis using z by (metis imageI)
qed

end
