(* ===== verification/GuardAdmin.thy ===== *)
theory GuardAdmin
  imports GuardPolicy
begin

text \<open>
  Changing the company policy, templates and agent bindings (\<open>services/guardrails_admin\<close>): every
  operation with its checks in order, as a step on the guardrail tables.

  The permission check and the \<open>If-Match\<close> header (parsed to an instant, or nothing when it is
  malformed) are arguments, like the database clock and new identifiers. Audit records and the
  response bodies are left out; listing the templates, which an update of the policy or a binding does before it
  commits, is kept because it can fail.

  The lemmas show that in every reachable state stored rules are valid, published versions are
  numbered without gaps and never change, the company default stays usable, and so resolving a
  run's rules never fails.
\<close>

section \<open>Operations\<close>

datatype admin_error = NotAllowed | StaleVersion | TemplateUnusable | DefaultRequired | LockedUnknown
  | TemplateMissing | TemplateArchived | TemplateInUse | NameTaken | RulesInvalid rules_error
  | VersionMissing | VersionCurrent | PolicyFixed | RuleLocked "string list" | PolicyProblem policy_error | RiskInvalid risk_error | Duplicate

definition bump :: "micros \<Rightarrow> micros \<Rightarrow> micros" where
  "bump now current = max now (current + 1)"

record guard_env =
  ge_canonical :: "string \<Rightarrow> uuid option"
  ge_install :: string

definition builtin_names :: "string list" where
  "builtin_names = [''kr-default'', ''kr-natural'', ''kr-strict'', ''common-basic'', ''kr-observe'']"

fun usable_choices :: "(string \<Rightarrow> uuid option) \<Rightarrow> guard_db \<Rightarrow> uuid \<Rightarrow> template_row list \<Rightarrow> policy_error + (string \<times> rule_set) list" where
  "usable_choices canonical db tenant [] = Inr []"
| "usable_choices canonical db tenant (t # ts) =
     (case template_rules canonical db tenant (company_ref (gt_id t)) of
        Inl e \<Rightarrow> Inl e
      | Inr z \<Rightarrow>
          (case usable_choices canonical db tenant ts of
             Inl e \<Rightarrow> Inl e
           | Inr cs \<Rightarrow> Inr ((case z of None \<Rightarrow> [] | Some x \<Rightarrow> [(gt_name t, x)]) @ cs)))"

definition template_choices :: "(string \<Rightarrow> uuid option) \<Rightarrow> guard_db \<Rightarrow> uuid \<Rightarrow> policy_error + (string \<times> rule_set) list" where
  "template_choices canonical db tenant =
     (case usable_choices canonical db tenant
         (sort_key gt_name (filter (\<lambda>t. gt_tenant t = tenant \<and> gt_status t = ''published'') (gd_templates db))) of
        Inl e \<Rightarrow> Inl e
      | Inr cs \<Rightarrow> Inr (map (\<lambda>n. (n, (the (builtin n))\<lparr>rz_template := builtin_prefix @ n\<rparr>)) builtin_names @ cs))"

record policy_update =
  pu_mode :: policy_mode
  pu_default :: "string option"
  pu_locked :: "string list"
  pu_risk :: "(string \<times> json) list option"

definition update_policy ::
    "guard_env \<Rightarrow> bool \<Rightarrow> uuid \<Rightarrow> micros option \<Rightarrow> micros \<Rightarrow> policy_update \<Rightarrow> guard_db \<Rightarrow> admin_error + guard_db" where
  "update_policy e admin tenant version now q db =
     (case if admin then row_get tn_id tenant (gd_tenants db) else None of None \<Rightarrow> Inl NotAllowed | Some t \<Rightarrow>
      if version \<noteq> Some (tn_updated t) then Inl StaleVersion else
      case (case pu_default q of None \<Rightarrow> Inr None | Some r \<Rightarrow>
              (case template_rules (ge_canonical e) db tenant r of
                 Inl x \<Rightarrow> Inl (PolicyProblem x) | Inr None \<Rightarrow> Inl TemplateUnusable | Inr (Some z) \<Rightarrow> Inr (Some z))) of
        Inl x \<Rightarrow> Inl x | Inr dflt \<Rightarrow>
      if (pu_mode q = PolicyDefault \<or> pu_mode q = PolicyEnforced) \<and> dflt = None then Inl DefaultRequired else
      if \<not> set (pu_locked q) \<subseteq> set (case dflt of None \<Rightarrow> [] | Some z \<Rightarrow> map ru_id (rz_rules z)) then Inl LockedUnknown else
      case policy_from_settings (tn_settings t) of Inl x \<Rightarrow> Inl (PolicyProblem x) | Inr previous \<Rightarrow>
      case (case pu_risk q of
              None \<Rightarrow> Inr (case previous of None \<Rightarrow> default_actions | Some p \<Rightarrow> cp_tool_risk p)
            | Some ms \<Rightarrow> (case actions_from_json (JObj ms) of Inl x \<Rightarrow> Inl (RiskInvalid x) | Inr a \<Rightarrow> Inr a)) of
        Inl x \<Rightarrow> Inl x | Inr risk \<Rightarrow>
      let p = \<lparr>cp_mode = pu_mode q, cp_default = map_option JStr (pu_default q), cp_locked = set (pu_locked q),
               cp_tool_risk = risk\<rparr>;
          t1 = t\<lparr>tn_settings := Some (AList.update settings_key (policy_to_settings p)
                   (case tn_settings t of None \<Rightarrow> [] | Some ms \<Rightarrow> ms)),
                 tn_updated := bump now (tn_updated t)\<rparr>;
          db1 = db\<lparr>gd_tenants := row_put tn_id t1 (gd_tenants db)\<rparr>
      in case template_choices (ge_canonical e) db1 tenant of Inl x \<Rightarrow> Inl (PolicyProblem x) | Inr _ \<Rightarrow> Inr db1)"

definition validated :: "json \<Rightarrow> admin_error + json" where
  "validated j =
     (case rules_from_json j of
        Inl Unhashable \<Rightarrow> Inl (PolicyProblem PyTypeError)
      | Inl x \<Rightarrow> Inl (RulesInvalid x)
      | Inr rs \<Rightarrow> Inr (rules_json rs))"

definition company_admin :: "bool \<Rightarrow> uuid \<Rightarrow> guard_db \<Rightarrow> admin_error + tenant_settings_row" where
  "company_admin admin tenant db =
     (case if admin then row_get tn_id tenant (gd_tenants db) else None of None \<Rightarrow> Inl NotAllowed | Some t \<Rightarrow> Inr t)"

definition template_of :: "guard_db \<Rightarrow> uuid \<Rightarrow> uuid \<Rightarrow> admin_error + template_row" where
  "template_of db tenant i =
     (case row_get gt_id i (gd_templates db) of
        None \<Rightarrow> Inl TemplateMissing
      | Some t \<Rightarrow> if gt_tenant t \<noteq> tenant then Inl TemplateMissing else Inr t)"

definition claim_version :: "template_row \<Rightarrow> micros option \<Rightarrow> micros \<Rightarrow> admin_error + template_row" where
  "claim_version t version now =
     (if version \<noteq> Some (gt_updated t) then Inl StaleVersion else Inr (t\<lparr>gt_updated := bump now (gt_updated t)\<rparr>))"

text \<open>The unique constraint on a company's template names.\<close>

definition name_taken :: "guard_db \<Rightarrow> template_row \<Rightarrow> bool" where
  "name_taken db t =
     list_ex (\<lambda>x. gt_id x \<noteq> gt_id t \<and> gt_tenant x = gt_tenant t \<and> gt_name x = gt_name t) (gd_templates db)"

record template_create =
  tc_name :: string
  tc_description :: string
  tc_copy_from :: "string option"
  tc_rules :: "json option"

definition create_template ::
    "guard_env \<Rightarrow> bool \<Rightarrow> uuid \<Rightarrow> uuid \<Rightarrow> micros \<Rightarrow> template_create \<Rightarrow> guard_db \<Rightarrow> admin_error + guard_db" where
  "create_template e admin tenant new now q db =
     (case company_admin admin tenant db of Inl x \<Rightarrow> Inl x | Inr _ \<Rightarrow>
      case (case tc_copy_from q of
              Some r \<Rightarrow>
                (case template_rules (ge_canonical e) db tenant r of
                   Inl x \<Rightarrow> Inl (PolicyProblem x) | Inr None \<Rightarrow> Inl TemplateUnusable
                 | Inr (Some z) \<Rightarrow> Inr (rules_json (rz_rules z)))
            | None \<Rightarrow> validated (case tc_rules q of None \<Rightarrow> JNull | Some j \<Rightarrow> j)) of
        Inl x \<Rightarrow> Inl x | Inr rules \<Rightarrow>
      let t = \<lparr>gt_id = new, gt_tenant = tenant, gt_name = tc_name q, gt_description = tc_description q,
               gt_status = ''draft'', gt_draft = rules, gt_published = None, gt_updated = now\<rparr>
      in if name_taken db t then Inl NameTaken
         else Inr (db\<lparr>gd_templates := gd_templates db @ [t]\<rparr>))"

record template_update =
  tu_name :: "string option"
  tu_description :: "string option"
  tu_rules :: "json option"

definition update_template ::
    "bool \<Rightarrow> uuid \<Rightarrow> micros option \<Rightarrow> micros \<Rightarrow> uuid \<Rightarrow> template_update \<Rightarrow> guard_db \<Rightarrow> admin_error + guard_db" where
  "update_template admin tenant version now i q db =
     (case company_admin admin tenant db of Inl x \<Rightarrow> Inl x | Inr _ \<Rightarrow>
      case template_of db tenant i of Inl x \<Rightarrow> Inl x | Inr t \<Rightarrow>
      if gt_status t = ''archived'' then Inl TemplateArchived else
      case claim_version t version now of Inl x \<Rightarrow> Inl x | Inr t1 \<Rightarrow>
      case (case tu_rules q of None \<Rightarrow> Inr (gt_draft t1) | Some j \<Rightarrow> validated j) of Inl x \<Rightarrow> Inl x | Inr rules \<Rightarrow>
      let t2 = t1\<lparr>gt_name := (case tu_name q of None \<Rightarrow> gt_name t1 | Some n \<Rightarrow> n),
                  gt_description := (case tu_description q of None \<Rightarrow> gt_description t1 | Some d \<Rightarrow> d),
                  gt_draft := rules\<rparr>
      in if name_taken db t2 then Inl NameTaken
         else Inr (db\<lparr>gd_templates := row_put gt_id t2 (gd_templates db)\<rparr>))"

text \<open>\<open>_publish\<close>; the pair of template and version is unique in the table.\<close>

definition publish :: "template_row \<Rightarrow> json \<Rightarrow> guard_db \<Rightarrow> admin_error + guard_db" where
  "publish t rules db =
     (let v = (case gt_published t of None \<Rightarrow> 0 | Some n \<Rightarrow> n) + 1
      in if find_version db (gt_id t) v \<noteq> None then Inl Duplicate
         else Inr (db\<lparr>gd_templates := row_put gt_id (t\<lparr>gt_published := Some v, gt_status := ''published''\<rparr>) (gd_templates db),
                gd_versions := gd_versions db @ [\<lparr>gv_template = gt_id t, gv_version = v, gv_rules = rules\<rparr>]\<rparr>))"

definition publish_template ::
    "bool \<Rightarrow> uuid \<Rightarrow> micros option \<Rightarrow> micros \<Rightarrow> uuid \<Rightarrow> guard_db \<Rightarrow> admin_error + guard_db" where
  "publish_template admin tenant version now i db =
     (case company_admin admin tenant db of Inl x \<Rightarrow> Inl x | Inr _ \<Rightarrow>
      case template_of db tenant i of Inl x \<Rightarrow> Inl x | Inr t \<Rightarrow>
      if gt_status t = ''archived'' then Inl TemplateArchived else
      case claim_version t version now of Inl x \<Rightarrow> Inl x | Inr t1 \<Rightarrow>
      case validated (gt_draft t1) of Inl x \<Rightarrow> Inl x | Inr rules \<Rightarrow> publish t1 rules db)"

definition archive_template ::
    "bool \<Rightarrow> uuid \<Rightarrow> micros option \<Rightarrow> micros \<Rightarrow> uuid \<Rightarrow> guard_db \<Rightarrow> admin_error + guard_db" where
  "archive_template admin tenant version now i db =
     (case company_admin admin tenant db of Inl x \<Rightarrow> Inl x | Inr tn \<Rightarrow>
      case template_of db tenant i of Inl x \<Rightarrow> Inl x | Inr t \<Rightarrow>
      case claim_version t version now of Inl x \<Rightarrow> Inl x | Inr t1 \<Rightarrow>
      case policy_from_settings (tn_settings tn) of Inl x \<Rightarrow> Inl (PolicyProblem x) | Inr p \<Rightarrow>
      if (case p of None \<Rightarrow> False | Some p \<Rightarrow> cp_default p = Some (JStr (company_ref (gt_id t)))) then Inl TemplateInUse
      else Inr (db\<lparr>gd_templates := row_put gt_id (t1\<lparr>gt_status := ''archived''\<rparr>) (gd_templates db)\<rparr>))"

definition revert_template ::
    "bool \<Rightarrow> uuid \<Rightarrow> micros option \<Rightarrow> micros \<Rightarrow> uuid \<Rightarrow> nat \<Rightarrow> guard_db \<Rightarrow> admin_error + guard_db" where
  "revert_template admin tenant version now i v db =
     (case company_admin admin tenant db of Inl x \<Rightarrow> Inl x | Inr _ \<Rightarrow>
      case template_of db tenant i of Inl x \<Rightarrow> Inl x | Inr t \<Rightarrow>
      case claim_version t version now of Inl x \<Rightarrow> Inl x | Inr t1 \<Rightarrow>
      if gt_status t = ''archived'' then Inl TemplateArchived else
      case find_version db (gt_id t) v of None \<Rightarrow> Inl VersionMissing | Some source \<Rightarrow>
      if gt_published t = Some v then Inl VersionCurrent
      else publish (t1\<lparr>gt_draft := gv_rules source\<rparr>) (gv_rules source) db)"

record binding_update =
  bu_mode :: string
  bu_ref :: "string option"
  bu_overrides :: "(string \<times> (bool \<times> action option)) list"

definition override_json :: "bool \<times> action option \<Rightarrow> json" where
  "override_json c =
     JObj [(''enabled'', JBool (fst c)), (''action'', case snd c of None \<Rightarrow> JNull | Some a \<Rightarrow> JStr (action_name a))]"

text \<open>The agent is loaded within the caller's scope: its tenant and runtime profile, if it is found.\<close>

definition update_binding ::
    "guard_env \<Rightarrow> (uuid \<times> string) option \<Rightarrow> uuid \<Rightarrow> binding_update \<Rightarrow> guard_db \<Rightarrow> admin_error + guard_db" where
  "update_binding e found agent q db =
     (case found of None \<Rightarrow> Inl TemplateMissing | Some (tenant, profile) \<Rightarrow>
      case company_policy_of (ge_install e) db tenant of Inl x \<Rightarrow> Inl (PolicyProblem x) | Inr p \<Rightarrow>
      if cp_mode p = PolicyEnforced \<and> bu_mode q \<noteq> ''inherit'' then Inl PolicyFixed else
      case (if bu_mode q = ''template'' then
              (case bu_ref q of
                 None \<Rightarrow> Inl TemplateUnusable
               | Some r \<Rightarrow> if r = [] then Inl TemplateUnusable else
                   (case template_rules (ge_canonical e) db tenant r of
                      Inl x \<Rightarrow> Inl (PolicyProblem x) | Inr None \<Rightarrow> Inl TemplateUnusable | Inr (Some _) \<Rightarrow> Inr ()))
            else Inr ()) of
        Inl x \<Rightarrow> Inl x | Inr _ \<Rightarrow>
      let locked = filter (\<lambda>i. i \<in> cp_locked p) (map fst (bu_overrides q)) in
      if locked \<noteq> [] then Inl (RuleLocked (sort (remdups locked))) else
      let b = \<lparr>ab_agent = agent, ab_mode = bu_mode q,
               ab_ref = (if bu_mode q = ''template'' then bu_ref q else None),
               ab_overrides = map (\<lambda>(k, c). (k, override_json c)) (bu_overrides q)\<rparr>;
          db1 = db\<lparr>gd_bindings := (if row_get ab_agent agent (gd_bindings db) = None then gd_bindings db @ [b]
                   else row_put ab_agent b (gd_bindings db))\<rparr>
      in case resolve (ge_canonical e) (ge_install e) db1 tenant (Some agent) profile of
           Inl x \<Rightarrow> Inl (PolicyProblem x)
         | Inr _ \<Rightarrow>
             (case template_choices (ge_canonical e) db1 tenant of Inl x \<Rightarrow> Inl (PolicyProblem x) | Inr _ \<Rightarrow> Inr db1))"

section \<open>Histories\<close>

text \<open>New templates get an identifier of their own.\<close>

inductive guard_step :: "guard_env \<Rightarrow> guard_db \<Rightarrow> guard_db \<Rightarrow> bool" for e where
  policy: "update_policy e admin tenant version now q db = Inr db' \<Longrightarrow> guard_step e db db'"
| create: "create_template e admin tenant new now q db = Inr db' \<Longrightarrow> new \<notin> gt_id ` set (gd_templates db)
    \<Longrightarrow> guard_step e db db'"
| update: "update_template admin tenant version now i q' db = Inr db' \<Longrightarrow> guard_step e db db'"
| publish: "publish_template admin tenant version now i db = Inr db' \<Longrightarrow> guard_step e db db'"
| archive: "archive_template admin tenant version now i db = Inr db' \<Longrightarrow> guard_step e db db'"
| revert: "revert_template admin tenant version now i v db = Inr db' \<Longrightarrow> guard_step e db db'"
| bind: "update_binding e found agent b db = Inr db' \<Longrightarrow> guard_step e db db'"

inductive_cases guard_stepE: "guard_step e db db'"

text \<open>Companies before anything is configured.\<close>

definition fresh_guard_db :: "guard_db \<Rightarrow> bool" where
  "fresh_guard_db db =
     (gd_templates db = [] \<and> gd_versions db = [] \<and> gd_bindings db = []
      \<and> list_all (\<lambda>t. jget (case tn_settings t of None \<Rightarrow> [] | Some ms \<Rightarrow> ms) settings_key = JNull) (gd_tenants db))"

definition guard_reachable :: "guard_env \<Rightarrow> guard_db \<Rightarrow> bool" where
  "guard_reachable e db = (\<exists>start. fresh_guard_db start \<and> rtranclp (guard_step e) start db)"

section \<open>Invariants\<close>

definition rules_stored :: "json \<Rightarrow> bool" where
  "rules_stored j = (\<exists>rs. valid_rules rs \<and> j = rules_json rs)"

definition latest :: "template_row \<Rightarrow> nat" where
  "latest t = (case gt_published t of None \<Rightarrow> 0 | Some n \<Rightarrow> n)"

definition template_ok :: "guard_db \<Rightarrow> template_row \<Rightarrow> bool" where
  "template_ok db t =
     (rules_stored (gt_draft t) \<and> gt_published t \<noteq> Some 0
      \<and> (gt_status t = ''published'' \<longrightarrow> gt_published t \<noteq> None)
      \<and> (\<forall>v. find_version db (gt_id t) v \<noteq> None \<longleftrightarrow> 1 \<le> v \<and> v \<le> latest t))"

definition templates_ok :: "guard_db \<Rightarrow> bool" where
  "templates_ok db =
     (distinct (map gt_id (gd_templates db)) \<and> (\<forall>t\<in>set (gd_templates db). template_ok db t)
      \<and> (\<forall>w\<in>set (gd_versions db). rules_stored (gv_rules w) \<and> gv_template w \<in> gt_id ` set (gd_templates db)))"

text \<open>A reference that a policy may hold: a built-in, or a published template of the company.\<close>

definition ref_live :: "(string \<Rightarrow> uuid option) \<Rightarrow> guard_db \<Rightarrow> uuid \<Rightarrow> string \<Rightarrow> bool" where
  "ref_live canonical db tenant r =
     (case parse_ref canonical r of
        None \<Rightarrow> False
      | Some (BuiltinRef k) \<Rightarrow> builtin k \<noteq> None
      | Some (CompanyRef k) \<Rightarrow>
          (case row_get gt_id k (gd_templates db) of
             None \<Rightarrow> False | Some t \<Rightarrow> gt_tenant t = tenant \<and> gt_status t = ''published''))"

definition saved_policy_ok :: "(string \<Rightarrow> uuid option) \<Rightarrow> guard_db \<Rightarrow> uuid \<Rightarrow> company_policy \<Rightarrow> bool" where
  "saved_policy_ok canonical db tenant p =
     (full_policy (cp_tool_risk p) \<and> finite_names (cp_locked p)
      \<and> (case cp_default p of
           None \<Rightarrow> cp_mode p \<noteq> PolicyDefault \<and> cp_mode p \<noteq> PolicyEnforced
         | Some (JStr r) \<Rightarrow> ref_live canonical db tenant r
         | Some _ \<Rightarrow> False))"

definition settings_of :: "tenant_settings_row \<Rightarrow> json" where
  "settings_of t = jget (case tn_settings t of None \<Rightarrow> [] | Some ms \<Rightarrow> ms) settings_key"

definition tenant_ok :: "(string \<Rightarrow> uuid option) \<Rightarrow> guard_db \<Rightarrow> tenant_settings_row \<Rightarrow> bool" where
  "tenant_ok canonical db t =
     (settings_of t = JNull \<or> (\<exists>p. settings_of t = policy_to_settings p \<and> saved_policy_ok canonical db (tn_id t) p))"

definition binding_ok :: "binding_row \<Rightarrow> bool" where
  "binding_ok b = (\<forall>k j. map_of (ab_overrides b) k = Some j \<longrightarrow> (\<exists>c. j = override_json c))"

definition guard_ok :: "guard_env \<Rightarrow> guard_db \<Rightarrow> bool" where
  "guard_ok e db =
     (templates_ok db \<and> (\<forall>t\<in>set (gd_tenants db). tenant_ok (ge_canonical e) db t)
      \<and> (\<forall>b\<in>set (gd_bindings db). binding_ok b))"

text \<open>References are stored the way the identifier prints.\<close>

definition canonical_refs :: "guard_env \<Rightarrow> bool" where
  "canonical_refs e = (\<forall>s k. ge_canonical e s = Some k \<longrightarrow> s = k)"

section \<open>Reading what was stored\<close>

lemma mode_by_name [simp]: "mode_of (JStr (mode_name m)) = Some m"
  by (cases m) (simp_all add: mode_of_def policy_modes_def)

lemma iterated_strings: "iterated (JList (map JStr xs)) = Some (map JStr xs)"
  by (simp add: iterated_def)

lemma saved_policy_reads:
  assumes "settings_of t = policy_to_settings p" "full_policy (cp_tool_risk p)" "finite_names (cp_locked p)"
    "\<And>d. cp_default p = Some d \<Longrightarrow> json_true d"
  shows "policy_from_settings (tn_settings t) = Inr (Some p)"
proof -
  let ?raw = "[(''mode'', JStr (mode_name (cp_mode p))),
       (''default_template'', case cp_default p of None \<Rightarrow> JNull | Some d \<Rightarrow> d),
       (''locked_rules'', JList (map JStr (sorted_list_of_set (cp_locked p)))),
       (''tool_risk'', JObj (actions_json (cp_tool_risk p)))]"
  have g: "jget ?raw ''mode'' = JStr (mode_name (cp_mode p))"
    "jget ?raw ''default_template'' = (case cp_default p of None \<Rightarrow> JNull | Some d \<Rightarrow> d)"
    "jget ?raw ''locked_rules'' = JList (map JStr (sorted_list_of_set (cp_locked p)))"
    "jget ?raw ''tool_risk'' = JObj (actions_json (cp_tool_risk p))"
    by (simp_all add: jget_def)
  have l: "set (map str_of (filter is_str (map JStr (sorted_list_of_set (cp_locked p))))) = cp_locked p"
    using assms(3) by (simp add: filter_map comp_def is_str_def finite_names_def)
  have d: "(if json_true (case cp_default p of None \<Rightarrow> JNull | Some d \<Rightarrow> d)
      then Some (case cp_default p of None \<Rightarrow> JNull | Some d \<Rightarrow> d) else None) = cp_default p"
    using assms(4) by (cases "cp_default p") simp_all
  show ?thesis
    unfolding policy_from_settings_def settings_of_def[symmetric] assms(1) policy_to_settings_def json.case g
      mode_by_name option.case actions_json_roundtrip[OF assms(2)] sum.case iterated_strings Let_def l d
    by simp
qed

lemma no_policy_reads: "settings_of t = JNull \<Longrightarrow> policy_from_settings (tn_settings t) = Inr None"
  by (simp add: policy_from_settings_def settings_of_def)

lemma stored_rules_read: "rules_stored j \<Longrightarrow> \<exists>rs. rules_from_json j = Inr rs \<and> j = rules_json rs"
  unfolding rules_stored_def using valid_rules_json by blast

lemma find_version_Some: "find_version db t v = Some w \<Longrightarrow> w \<in> set (gd_versions db)"
  by (auto simp: find_version_def find_Some_iff)

lemma template_rules_ok:
  assumes "templates_ok db"
  shows "\<exists>z. template_rules canonical db tenant r = Inr z \<and> (z \<noteq> None \<longleftrightarrow> ref_live canonical db tenant r)"
proof (cases "parse_ref canonical r")
  case None
  then show ?thesis by (simp add: template_rules_def ref_live_def)
next
  case (Some x)
  show ?thesis
  proof (cases x)
    case (BuiltinRef k)
    then show ?thesis using Some by (simp add: template_rules_def ref_live_def)
  next
    case (CompanyRef k)
    show ?thesis
    proof (cases "row_get gt_id k (gd_templates db)")
      case None
      then show ?thesis using Some CompanyRef by (simp add: template_rules_def ref_live_def)
    next
      case t: (Some t)
      show ?thesis
      proof (cases "gt_tenant t = tenant \<and> gt_status t = ''published''")
        case False
        then show ?thesis using Some CompanyRef t by (auto simp: template_rules_def ref_live_def)
      next
        case True
        have ok: "template_ok db t" using assms row_get_Some[OF t] by (simp add: templates_ok_def)
        then obtain v where v: "gt_published t = Some v" "v \<noteq> 0" using True by (auto simp: template_ok_def)
        then have "1 \<le> v \<and> v \<le> latest t" by (simp add: latest_def)
        then obtain w where w: "find_version db (gt_id t) v = Some w" using ok unfolding template_ok_def by blast
        then have "rules_stored (gv_rules w)" using assms find_version_Some[OF w] by (simp add: templates_ok_def)
        then obtain rs where "rules_from_json (gv_rules w) = Inr rs" using stored_rules_read by blast
        then show ?thesis using Some CompanyRef t True v(1) w by (simp add: template_rules_def ref_live_def)
      qed
    qed
  qed
qed

lemma ref_live_nonempty: "ref_live canonical db tenant r \<Longrightarrow> r \<noteq> []"
  by (auto simp: ref_live_def parse_ref_def starts_with_def builtin_prefix_def company_prefix_def)

lemma override_never_fails:
  assumes "\<forall>k j. map_of ov k = Some j \<longrightarrow> (\<exists>c. j = override_json c)"
  shows "\<exists>rs'. override_rules ov locked rs = Inr rs'"
proof (induction rs)
  case (Cons r rs)
  have "\<exists>kept. override_rule ov locked r = Inr kept"
  proof (cases "map_of ov (ru_id r)")
    case None
    then show ?thesis by (simp add: override_rule_def jget_def)
  next
    case (Some j)
    then obtain en a where j: "j = override_json (en, a)" using assms by (metis surj_pair)
    have "hashable (jget [(''enabled'', JBool en), (''action'', case a of None \<Rightarrow> JNull | Some a \<Rightarrow> JStr (action_name a))] ''action'')"
      by (cases a) (simp_all add: jget_def)
    then show ?thesis
      using Some by (auto simp: override_rule_def jget_def[of ov] j override_json_def split: option.split)
  qed
  then show ?case using Cons by auto
qed simp

lemma finish_never_fails:
  assumes "\<And>x. b = Some x \<Longrightarrow> binding_ok x"
  shows "\<exists>z'. finish_rules p b z = Inr z'"
proof (cases z)
  case None
  then show ?thesis by (simp add: finish_rules_def)
next
  case (Some y)
  let ?ov = "case b of None \<Rightarrow> [] | Some x \<Rightarrow> ab_overrides x"
  have "\<forall>k j. map_of ?ov k = Some j \<longrightarrow> (\<exists>c. j = override_json c)"
    using assms by (cases b) (simp_all add: binding_ok_def)
  then obtain rs' where "override_rules ?ov (cp_locked p) (rz_rules y) = Inr rs'"
    using override_never_fails by blast
  then have "apply_overrides y ?ov (cp_locked p) = Inr (y\<lparr>rz_rules := rs'\<rparr>)" by (simp add: apply_overrides_def)
  then show ?thesis unfolding finish_rules_def Some option.case by simp
qed

section \<open>Resolving never fails\<close>

definition install_ok :: "guard_env \<Rightarrow> bool" where
  "install_ok e = (ge_install e = [] \<or> builtin (ge_install e) \<noteq> None)"

lemma saved_policy_default:
  assumes "templates_ok db" "saved_policy_ok canonical db tenant p"
  shows "\<exists>z. default_rules canonical db tenant p = Inr z"
proof (cases "cp_default p")
  case None
  then show ?thesis using assms(2) by (simp add: default_rules_def saved_policy_ok_def)
next
  case (Some d)
  then obtain r where d: "d = JStr r" "ref_live canonical db tenant r"
    using assms(2) by (cases d) (simp_all add: saved_policy_ok_def)
  then obtain z where "template_rules canonical db tenant r = Inr (Some z)"
    using template_rules_ok[OF assms(1), of canonical tenant r] by auto
  then show ?thesis using Some d by (simp add: default_rules_def)
qed

lemma saved_policy_json_true:
  "saved_policy_ok canonical db tenant p \<Longrightarrow> cp_default p = Some d \<Longrightarrow> json_true d"
  by (cases d) (auto simp: saved_policy_ok_def dest: ref_live_nonempty)

lemma tenant_policy_reads:
  assumes "tenant_ok canonical db t"
  obtains "policy_from_settings (tn_settings t) = Inr None"
  | p where "policy_from_settings (tn_settings t) = Inr (Some p)" "saved_policy_ok canonical db (tn_id t) p"
proof (cases "settings_of t = JNull")
  case True then show ?thesis using that(1) no_policy_reads by blast
next
  case False
  then obtain p where p: "settings_of t = policy_to_settings p" "saved_policy_ok canonical db (tn_id t) p"
    using assms by (auto simp: tenant_ok_def)
  have "policy_from_settings (tn_settings t) = Inr (Some p)"
    by (rule saved_policy_reads[OF p(1)])
      (use p(2) saved_policy_json_true[OF p(2)] in \<open>auto simp: saved_policy_ok_def\<close>)
  then show ?thesis using that(2) p(2) by blast
qed

lemma installation_reads:
  assumes "install_ok e"
  shows "\<exists>p z. installation_policy (ge_install e) = Inr p \<and> default_rules canonical db tenant p = Inr z"
proof (cases "ge_install e = []")
  case True
  then show ?thesis by (simp add: installation_policy_def default_rules_def)
next
  case False
  then obtain z where z: "builtin (ge_install e) = Some z" using assms by (auto simp: install_ok_def)
  have "template_rules canonical db tenant (builtin_prefix @ ge_install e)
      = Inr (Some (z\<lparr>rz_template := builtin_prefix @ ge_install e\<rparr>))"
    using False z by (simp add: template_rules_def parse_ref_def)
  then show ?thesis using False z by (simp add: installation_policy_def default_rules_def)
qed

lemma company_policy_total:
  assumes "guard_ok e db" "install_ok e"
  shows "\<exists>p z. company_policy_of (ge_install e) db tenant = Inr p
    \<and> default_rules (ge_canonical e) db tenant p = Inr z"
proof (cases "row_get tn_id tenant (gd_tenants db)")
  case None
  then have "company_policy_of (ge_install e) db tenant = installation_policy (ge_install e)"
    by (simp add: company_policy_of_def tenant_settings_def policy_from_settings_def jget_def)
  then show ?thesis using installation_reads[OF assms(2)] by simp
next
  case (Some t)
  then have t: "tenant_ok (ge_canonical e) db t" "tn_id t = tenant"
    using assms(1) row_get_Some[OF Some] by (auto simp: guard_ok_def)
  have s: "tenant_settings db tenant = tn_settings t" using Some by (simp add: tenant_settings_def)
  show ?thesis using t(1)
  proof (cases rule: tenant_policy_reads)
    case 1
    then have "company_policy_of (ge_install e) db tenant = installation_policy (ge_install e)"
      by (simp add: company_policy_of_def s)
    then show ?thesis using installation_reads[OF assms(2)] by simp
  next
    case (2 p)
    then have "company_policy_of (ge_install e) db tenant = Inr p" by (simp add: company_policy_of_def s)
    moreover have "templates_ok db" using assms(1) by (simp add: guard_ok_def)
    ultimately show ?thesis using saved_policy_default 2(2) t(2) by fastforce
  qed
qed

lemma run_binding_ok:
  "guard_ok e db \<Longrightarrow> run_binding db agent = Some b \<Longrightarrow> binding_ok b"
  by (auto simp: run_binding_def guard_ok_def dest: row_get_Some split: option.splits)

lemma resolve_total:
  assumes "guard_ok e db" "install_ok e"
  shows "\<exists>z. resolve (ge_canonical e) (ge_install e) db tenant agent profile = Inr z"
proof (cases "profile = ''standard''")
  case False
  then show ?thesis by (simp add: resolve_def)
next
  case True
  obtain p dflt where p: "company_policy_of (ge_install e) db tenant = Inr p"
    "default_rules (ge_canonical e) db tenant p = Inr dflt"
    using company_policy_total[OF assms] by blast
  have fin: "\<exists>z'. finish_rules p (run_binding db agent) z = Inr z'" for z
    by (rule finish_never_fails) (rule run_binding_ok[OF assms(1)])
  have "\<exists>z. resolve (ge_canonical e) (ge_install e) db tenant agent ''standard'' = Inr z" (is ?goal)
  proof (cases rule: resolve_cases[OF refl p, of agent])
    case 1 then show ?goal by blast
  next
    case 2 then show ?goal using fin by auto
  next
    case (3 b) then show ?goal by blast
  next
    case (4 b)
    have "templates_ok db" using assms(1) by (simp add: guard_ok_def)
    then obtain z where "template_rules (ge_canonical e) db tenant (case ab_ref b of None \<Rightarrow> [] | Some r \<Rightarrow> r) = Inr z"
      using template_rules_ok by blast
    then obtain c where "chosen_rules (ge_canonical e) db tenant p dflt b = Inr c"
      by (cases z) (simp_all add: chosen_rules_def)
    then show ?goal using 4(2,5) fin[of c] by auto
  qed
  then show ?thesis unfolding True .
qed

section \<open>Every step keeps the invariant\<close>

lemma find_append: "find P (xs @ ys) = (case find P xs of None \<Rightarrow> find P ys | Some x \<Rightarrow> Some x)"
  by (induction xs) simp_all

text \<open>Rows of templates other than the one written are read as before.\<close>

lemma ref_live_put:
  assumes "row_get gt_id (gt_id t) (gd_templates db) = Some t0"
    "gt_tenant t = gt_tenant t0" "gt_status t0 = ''published'' \<Longrightarrow> gt_status t = ''published''"
    "ref_live canonical db tenant r" "gd_templates db' = row_put gt_id t (gd_templates db)"
  shows "ref_live canonical db' tenant r"
proof -
  consider k where "parse_ref canonical r = Some (BuiltinRef k)" "builtin k \<noteq> None"
    | k x where "parse_ref canonical r = Some (CompanyRef k)" "row_get gt_id k (gd_templates db) = Some x"
        "gt_tenant x = tenant" "gt_status x = ''published''"
    using assms(4) by (auto simp: ref_live_def split: option.splits template_ref.splits)
  then show ?thesis
  proof cases
    case 1 then show ?thesis by (simp add: ref_live_def)
  next
    case (2 k x)
    show ?thesis
    proof (cases "k = gt_id t")
      case True
      then have "x = t0" using assms(1) 2(2) by simp
      then show ?thesis using assms(1-3,5) 2 True by (simp add: ref_live_def row_get_put_same)
    next
      case False
      then show ?thesis using assms(5) 2 by (simp add: ref_live_def row_get_put_other)
    qed
  qed
qed

lemma ref_live_same:
  "gd_templates db' = gd_templates db \<Longrightarrow> ref_live canonical db' i r = ref_live canonical db i r"
  unfolding ref_live_def by (erule ssubst) (rule refl)

lemma tenant_ok_mono:
  assumes "tenant_ok canonical db t" "\<And>r. ref_live canonical db (tn_id t) r \<Longrightarrow> ref_live canonical db' (tn_id t) r"
  shows "tenant_ok canonical db' t"
proof -
  have "saved_policy_ok canonical db' (tn_id t) p" if "saved_policy_ok canonical db (tn_id t) p" for p
    using that assms(2) by (auto simp: saved_policy_ok_def split: option.splits json.splits)
  then show ?thesis using assms(1) unfolding tenant_ok_def by blast
qed

lemma guard_ok_templates:
  assumes "guard_ok e db" "templates_ok db'" "gd_tenants db' = gd_tenants db" "gd_bindings db' = gd_bindings db"
    "\<And>t r. t \<in> set (gd_tenants db) \<Longrightarrow> tenant_ok (ge_canonical e) db t \<Longrightarrow> ref_live (ge_canonical e) db (tn_id t) r
      \<Longrightarrow> (\<exists>p. settings_of t = policy_to_settings p \<and> saved_policy_ok (ge_canonical e) db (tn_id t) p
            \<and> cp_default p = Some (JStr r))
      \<Longrightarrow> ref_live (ge_canonical e) db' (tn_id t) r"
  shows "guard_ok e db'"
proof -
  have "tenant_ok (ge_canonical e) db' t" if t: "t \<in> set (gd_tenants db)" for t
  proof -
    have ok: "tenant_ok (ge_canonical e) db t" using assms(1) t by (simp add: guard_ok_def)
    show ?thesis
    proof (cases "settings_of t = JNull")
      case True then show ?thesis by (simp add: tenant_ok_def)
    next
      case False
      then obtain p where p: "settings_of t = policy_to_settings p" "saved_policy_ok (ge_canonical e) db (tn_id t) p"
        using ok by (auto simp: tenant_ok_def)
      have "saved_policy_ok (ge_canonical e) db' (tn_id t) p"
      proof (cases "cp_default p")
        case None then show ?thesis using p(2) by (simp add: saved_policy_ok_def)
      next
        case (Some d)
        then obtain r where d: "d = JStr r" "ref_live (ge_canonical e) db (tn_id t) r"
          using p(2) by (cases d) (simp_all add: saved_policy_ok_def)
        then have "ref_live (ge_canonical e) db' (tn_id t) r" using assms(5)[OF t ok] p Some by blast
        then show ?thesis using p(2) Some d by (simp add: saved_policy_ok_def)
      qed
      then show ?thesis using p(1) by (auto simp: tenant_ok_def)
    qed
  qed
  then show ?thesis using assms(1-4) by (simp add: guard_ok_def)
qed

lemma validated_stored: "validated j = Inr j' \<Longrightarrow> rules_stored j'"
proof -
  assume a: "validated j = Inr j'"
  obtain rs where r: "rules_from_json j = Inr rs"
    using a by (cases "rules_from_json j") (auto simp: validated_def split: rules_error.splits)
  then have "j' = rules_json rs" using a by (simp add: validated_def)
  then show ?thesis using rules_from_json_valid[OF r] by (auto simp: rules_stored_def)
qed

lemma template_of_row:
  "template_of db tenant i = Inr t \<Longrightarrow>
    row_get gt_id i (gd_templates db) = Some t \<and> gt_tenant t = tenant \<and> gt_id t = i \<and> t \<in> set (gd_templates db)"
  by (auto simp: template_of_def dest: row_get_Some split: option.splits if_splits)

lemma claim_version_row: "claim_version t version now = Inr t1 \<Longrightarrow> t1 = t\<lparr>gt_updated := bump now (gt_updated t)\<rparr>"
  by (simp add: claim_version_def split: if_splits)

lemma template_ok_versions: "gd_versions db' = gd_versions db \<Longrightarrow> template_ok db' t = template_ok db t"
  by (simp add: template_ok_def find_version_def)

lemma row_put_image: "key ` set (row_put key r rs) = key ` set rs"
  by (metis list.set_map row_keys_put)

lemma templates_ok_put:
  assumes "templates_ok db" "template_ok db t2" "row_get gt_id (gt_id t2) (gd_templates db) = Some t"
    "db' = db\<lparr>gd_templates := row_put gt_id t2 (gd_templates db)\<rparr>"
  shows "templates_ok db'"
proof -
  have v: "template_ok db' x = template_ok db x" for x by (rule template_ok_versions) (simp add: assms(4))
  show ?thesis
    using assms(1,2) unfolding templates_ok_def v
    by (auto simp: assms(4) row_put_image dest!: row_put_member)
qed

lemma update_template_ok:
  assumes "guard_ok e db" "update_template admin tenant version now i q db = Inr db'"
  shows "guard_ok e db'"
proof -
  obtain t t1 rules where t: "template_of db tenant i = Inr t" "claim_version t version now = Inr t1"
      "(case tu_rules q of None \<Rightarrow> Inr (gt_draft t1) | Some j \<Rightarrow> validated j) = Inr rules"
      "db' = db\<lparr>gd_templates := row_put gt_id (t1\<lparr>gt_name := (case tu_name q of None \<Rightarrow> gt_name t1 | Some n \<Rightarrow> n),
         gt_description := (case tu_description q of None \<Rightarrow> gt_description t1 | Some d \<Rightarrow> d),
         gt_draft := rules\<rparr>) (gd_templates db)\<rparr>"
    using assms(2) unfolding update_template_def Let_def by (auto split: sum.splits if_splits)
  let ?t2 = "t1\<lparr>gt_name := (case tu_name q of None \<Rightarrow> gt_name t1 | Some n \<Rightarrow> n),
         gt_description := (case tu_description q of None \<Rightarrow> gt_description t1 | Some d \<Rightarrow> d), gt_draft := rules\<rparr>"
  note row = template_of_row[OF t(1)] and t1 = claim_version_row[OF t(2)]
  have ok: "template_ok db t" "templates_ok db" using assms(1) row by (simp_all add: guard_ok_def templates_ok_def)
  have "rules_stored rules"
    using t(3) ok(1) t1 by (cases "tu_rules q") (auto simp: template_ok_def dest: validated_stored)
  then have t2: "template_ok db ?t2" using ok(1) t1 by (simp add: template_ok_def latest_def)
  have same: "gt_id ?t2 = gt_id t" "gt_tenant ?t2 = gt_tenant t" "gt_status ?t2 = gt_status t" using t1 by simp_all
  have get: "row_get gt_id (gt_id ?t2) (gd_templates db) = Some t" using row same(1) by simp
  show ?thesis
  proof (rule guard_ok_templates[OF assms(1)])
    show "templates_ok db'" by (rule templates_ok_put[OF ok(2) t2 get t(4)])
    fix x r assume l: "ref_live (ge_canonical e) db (tn_id x) r"
    show "ref_live (ge_canonical e) db' (tn_id x) r"
      by (rule ref_live_put[OF get same(2) _ l]) (simp_all add: same t(4))
  qed (simp_all add: t(4))
qed

lemma publish_keeps_ok:
  assumes "guard_ok e db" "publish t rules db = Inr db'" "row_get gt_id (gt_id t) (gd_templates db) = Some t0"
    "gt_tenant t = gt_tenant t0" "gt_published t = gt_published t0" "rules_stored (gt_draft t)" "rules_stored rules"
  shows "guard_ok e db'"
proof -
  let ?v = "latest t + 1"
  let ?t2 = "t\<lparr>gt_published := Some ?v, gt_status := ''published''\<rparr>"
  let ?w = "\<lparr>gv_template = gt_id t, gv_version = ?v, gv_rules = rules\<rparr>"
  have db': "db' = db\<lparr>gd_templates := row_put gt_id ?t2 (gd_templates db), gd_versions := gd_versions db @ [?w]\<rparr>"
    using assms(2) by (simp add: publish_def latest_def Let_def split: if_splits)
  have tok: "templates_ok db" using assms(1) by (simp add: guard_ok_def)
  have row0: "t0 \<in> set (gd_templates db)" "gt_id t0 = gt_id t" using row_get_Some[OF assms(3)] by simp_all
  have fv: "find_version db' x v \<noteq> None \<longleftrightarrow> find_version db x v \<noteq> None \<or> (x = gt_id t \<and> v = ?v)" for x v
    by (auto simp: find_version_def db' find_append split: option.splits)
  have ok0: "template_ok db t0" using tok row0 by (simp add: templates_ok_def)
  have l0: "latest t = latest t0" using assms(5) by (simp add: latest_def)
  have l2: "latest ?t2 = Suc (latest t)" by (simp add: latest_def)
  have ok2: "template_ok db' ?t2"
    unfolding template_ok_def
  proof (intro conjI allI impI)
    show "rules_stored (gt_draft ?t2)" using assms(6) by simp
    show "gt_published ?t2 \<noteq> Some 0" "gt_published ?t2 \<noteq> None" by simp_all
    fix v
    have "find_version db (gt_id t) v \<noteq> None \<longleftrightarrow> 1 \<le> v \<and> v \<le> latest t"
      using ok0 row0(2) l0 by (simp add: template_ok_def)
    then show "find_version db' (gt_id ?t2) v \<noteq> None \<longleftrightarrow> 1 \<le> v \<and> v \<le> latest ?t2"
      using fv[of "gt_id t" v] l2 by auto
  qed
  have other: "template_ok db' x" if "x \<in> set (gd_templates db)" "gt_id x \<noteq> gt_id t" for x
    using tok that fv[of "gt_id x"] by (simp add: templates_ok_def template_ok_def)
  have mem: "x = ?t2 \<or> (x \<in> set (gd_templates db) \<and> gt_id x \<noteq> gt_id t)"
    if "x \<in> set (row_put gt_id ?t2 (gd_templates db))" for x
    using that by (auto simp: row_put_def split: if_splits)
  have ids: "map gt_id (row_put gt_id ?t2 (gd_templates db)) = map gt_id (gd_templates db)" by simp
  have tok': "templates_ok db'"
    unfolding templates_ok_def
  proof (intro conjI ballI)
    show "distinct (map gt_id (gd_templates db'))" using tok ids by (simp add: db' templates_ok_def)
    fix x assume "x \<in> set (gd_templates db')"
    then show "template_ok db' x" using mem[of x] ok2 other by (auto simp: db')
  next
    fix w assume "w \<in> set (gd_versions db')"
    then have w: "w = ?w \<or> w \<in> set (gd_versions db)" by (auto simp: db')
    then show "rules_stored (gv_rules w)" using tok assms(7) by (auto simp: templates_ok_def)
    have "gt_id ` set (gd_templates db') = gt_id ` set (gd_templates db)"
      by (simp add: db' row_put_image)
    then show "gv_template w \<in> gt_id ` set (gd_templates db')"
      using w tok imageI[OF row0(1), of gt_id] row0(2) by (auto simp: templates_ok_def)
  qed
  have get: "row_get gt_id (gt_id ?t2) (gd_templates db) = Some t0" using assms(3) by simp
  show ?thesis
  proof (rule guard_ok_templates[OF assms(1) tok'])
    fix x r assume l: "ref_live (ge_canonical e) db (tn_id x) r"
    show "ref_live (ge_canonical e) db' (tn_id x) r"
      by (rule ref_live_put[OF get _ _ l]) (simp_all add: assms(4) db')
  qed (simp_all add: db')
qed

lemma publish_template_ok:
  assumes "guard_ok e db" "publish_template admin tenant version now i db = Inr db'"
  shows "guard_ok e db'"
proof -
  obtain t t1 rules where t: "template_of db tenant i = Inr t" "claim_version t version now = Inr t1"
      "validated (gt_draft t1) = Inr rules" "publish t1 rules db = Inr db'"
    using assms(2) unfolding publish_template_def by (auto split: sum.splits if_splits)
  note row = template_of_row[OF t(1)] and t1 = claim_version_row[OF t(2)]
  have "template_ok db t" using assms(1) row by (simp add: guard_ok_def templates_ok_def)
  then have "rules_stored (gt_draft t1)" using t1 by (simp add: template_ok_def)
  then show ?thesis
    using publish_keeps_ok[OF assms(1) t(4), of t] row t1 validated_stored[OF t(3)] by simp
qed

lemma revert_template_ok:
  assumes "guard_ok e db" "revert_template admin tenant version now i v db = Inr db'"
  shows "guard_ok e db'"
proof -
  obtain t t1 w where t: "template_of db tenant i = Inr t" "claim_version t version now = Inr t1"
      "find_version db (gt_id t) v = Some w" "publish (t1\<lparr>gt_draft := gv_rules w\<rparr>) (gv_rules w) db = Inr db'"
    using assms(2) unfolding revert_template_def by (auto split: sum.splits option.splits if_splits)
  note row = template_of_row[OF t(1)] and t1 = claim_version_row[OF t(2)]
  have "rules_stored (gv_rules w)"
    using assms(1) find_version_Some[OF t(3)] by (simp add: guard_ok_def templates_ok_def)
  then show ?thesis using publish_keeps_ok[OF assms(1) t(4), of t] row t1 by simp
qed

lemma company_ref_parse:
  assumes "canonical_refs e" "parse_ref (ge_canonical e) r = Some (CompanyRef k)"
  shows "r = company_ref k"
proof -
  have s: "starts_with r company_prefix" and k: "ge_canonical e (drop (length company_prefix) r) = Some k"
    using assms(2) by (auto simp: parse_ref_def split: if_splits)
  have "drop (length company_prefix) r = k" using assms(1) k by (simp add: canonical_refs_def)
  moreover have "take (length company_prefix) r = company_prefix" using s by (simp add: starts_with_def)
  ultimately show ?thesis unfolding company_ref_def by (metis append_take_drop_id)
qed

text \<open>Distinct companies have distinct rows.\<close>

definition tenants_distinct :: "guard_db \<Rightarrow> bool" where
  "tenants_distinct db = distinct (map tn_id (gd_tenants db))"

lemma archive_template_ok:
  assumes "guard_ok e db" "canonical_refs e" "tenants_distinct db"
    "archive_template admin tenant version now i db = Inr db'"
  shows "guard_ok e db'"
proof -
  obtain tn t t1 p where t: "company_admin admin tenant db = Inr tn" "template_of db tenant i = Inr t"
      "claim_version t version now = Inr t1" "policy_from_settings (tn_settings tn) = Inr p"
      "\<not> (case p of None \<Rightarrow> False | Some p \<Rightarrow> cp_default p = Some (JStr (company_ref (gt_id t))))"
      "db' = db\<lparr>gd_templates := row_put gt_id (t1\<lparr>gt_status := ''archived''\<rparr>) (gd_templates db)\<rparr>"
    using assms(4) unfolding archive_template_def by (auto split: sum.splits if_splits)
  note row = template_of_row[OF t(2)] and t1 = claim_version_row[OF t(3)]
  have tn: "row_get tn_id tenant (gd_tenants db) = Some tn"
    using t(1) by (auto simp: company_admin_def split: option.splits if_splits)
  have ok: "template_ok db t" "templates_ok db" using assms(1) row by (simp_all add: guard_ok_def templates_ok_def)
  let ?t2 = "t1\<lparr>gt_status := ''archived''\<rparr>"
  have t2: "template_ok db ?t2" using ok(1) t1 by (simp add: template_ok_def latest_def)
  have get: "row_get gt_id (gt_id ?t2) (gd_templates db) = Some t" using row t1 by simp
  show ?thesis
  proof (rule guard_ok_templates[OF assms(1)])
    show "templates_ok db'" by (rule templates_ok_put[OF ok(2) t2 get t(6)])
    fix x r assume x: "x \<in> set (gd_tenants db)" and xok: "tenant_ok (ge_canonical e) db x"
      and l: "ref_live (ge_canonical e) db (tn_id x) r"
      and p: "\<exists>p. settings_of x = policy_to_settings p \<and> saved_policy_ok (ge_canonical e) db (tn_id x) p
        \<and> cp_default p = Some (JStr r)"
    obtain q where q: "settings_of x = policy_to_settings q" "saved_policy_ok (ge_canonical e) db (tn_id x) q"
      "cp_default q = Some (JStr r)" using p by blast
    show "ref_live (ge_canonical e) db' (tn_id x) r"
    proof (cases "parse_ref (ge_canonical e) r = Some (CompanyRef (gt_id t))")
      case True
      then have "gt_tenant t = tn_id x" using l row by (simp add: ref_live_def)
      then have "tn_id x = tenant" using row by simp
      then have "x = tn" using row_get_distinct[of tn_id "gd_tenants db" x] x tn assms(3)
        by (simp add: tenants_distinct_def)
      have "policy_from_settings (tn_settings x) = Inr (Some q)"
        by (rule saved_policy_reads[OF q(1)])
          (use q(2) saved_policy_json_true[OF q(2)] in \<open>auto simp: saved_policy_ok_def\<close>)
      then have "cp_default q \<noteq> Some (JStr (company_ref (gt_id t)))" using t(4,5) \<open>x = tn\<close> by auto
      then show ?thesis using q(3) company_ref_parse[OF assms(2) True] by simp
    next
      case False
      then show ?thesis using l row t1
        by (auto simp: ref_live_def t(6) row_get_put_other split: option.splits template_ref.splits)
    qed
  qed (simp_all add: t(6))
qed

lemma find_version_new:
  assumes "templates_ok db" "new \<notin> gt_id ` set (gd_templates db)"
  shows "find_version db new v = None"
proof (cases "find_version db new v")
  case (Some w)
  then have "w \<in> set (gd_versions db)" "gv_template w = new" by (auto simp: find_version_def find_Some_iff)
  then show ?thesis using assms by (auto simp: templates_ok_def)
qed simp

lemma create_template_ok:
  assumes "guard_ok e db" "create_template e admin tenant new now q db = Inr db'" "new \<notin> gt_id ` set (gd_templates db)"
  shows "guard_ok e db'"
proof -
  obtain rules where r: "(case tc_copy_from q of
              Some r \<Rightarrow>
                (case template_rules (ge_canonical e) db tenant r of
                   Inl x \<Rightarrow> Inl (PolicyProblem x) | Inr None \<Rightarrow> Inl TemplateUnusable
                 | Inr (Some z) \<Rightarrow> Inr (rules_json (rz_rules z)))
            | None \<Rightarrow> validated (case tc_rules q of None \<Rightarrow> JNull | Some j \<Rightarrow> j)) = Inr rules"
    "db' = db\<lparr>gd_templates := gd_templates db @ [\<lparr>gt_id = new, gt_tenant = tenant, gt_name = tc_name q,
       gt_description = tc_description q, gt_status = ''draft'', gt_draft = rules, gt_published = None, gt_updated = now\<rparr>]\<rparr>"
    using assms(2) unfolding create_template_def Let_def by (auto split: sum.splits if_splits)
  let ?t = "\<lparr>gt_id = new, gt_tenant = tenant, gt_name = tc_name q,
       gt_description = tc_description q, gt_status = ''draft'', gt_draft = rules, gt_published = None, gt_updated = now\<rparr>"
  have tok: "templates_ok db" using assms(1) by (simp add: guard_ok_def)
  have "rules_stored rules"
  proof (cases "tc_copy_from q")
    case None then show ?thesis using r(1) validated_stored by auto
  next
    case (Some ref)
    then obtain z where z: "template_rules (ge_canonical e) db tenant ref = Inr (Some z)" "rules = rules_json (rz_rules z)"
      using r(1) by (auto split: sum.splits option.splits)
    have "valid_rules (rz_rules z)"
      using z(1) builtin_valid rules_from_json_valid
      by (fastforce simp: template_rules_def split: option.splits template_ref.splits if_splits sum.splits)
    then show ?thesis using z(2) by (auto simp: rules_stored_def)
  qed
  then have new: "template_ok db ?t"
    using find_version_new[OF tok assms(3)] by (simp add: template_ok_def latest_def)
  have v: "template_ok db' x = template_ok db x" for x by (rule template_ok_versions) (simp add: r(2))
  have tok': "templates_ok db'"
    using tok new assms(3) unfolding templates_ok_def v by (auto simp: r(2))
  show ?thesis
  proof (rule guard_ok_templates[OF assms(1) tok'])
    fix x rf assume "ref_live (ge_canonical e) db (tn_id x) rf"
    then show "ref_live (ge_canonical e) db' (tn_id x) rf"
      by (auto simp: ref_live_def r(2) row_get_def find_append split: option.splits template_ref.splits)
  qed (simp_all add: r(2))
qed

lemma update_policy_ok:
  assumes "guard_ok e db" "update_policy e admin tenant version now q db = Inr db'"
  shows "guard_ok e db'"
proof -
  obtain t dflt previous risk where t: "row_get tn_id tenant (gd_tenants db) = Some t"
      "(case pu_default q of None \<Rightarrow> Inr None | Some r \<Rightarrow>
              (case template_rules (ge_canonical e) db tenant r of
                 Inl x \<Rightarrow> Inl (PolicyProblem x) | Inr None \<Rightarrow> Inl TemplateUnusable | Inr (Some z) \<Rightarrow> Inr (Some z))) = Inr dflt"
      "\<not> ((pu_mode q = PolicyDefault \<or> pu_mode q = PolicyEnforced) \<and> dflt = None)"
      "policy_from_settings (tn_settings t) = Inr previous"
      "(case pu_risk q of
              None \<Rightarrow> Inr (case previous of None \<Rightarrow> default_actions | Some p \<Rightarrow> cp_tool_risk p)
            | Some ms \<Rightarrow> (case actions_from_json (JObj ms) of Inl x \<Rightarrow> Inl (RiskInvalid x) | Inr a \<Rightarrow> Inr a)) = Inr risk"
      "db' = db\<lparr>gd_tenants := row_put tn_id (t\<lparr>tn_settings := Some (AList.update settings_key (policy_to_settings
          \<lparr>cp_mode = pu_mode q, cp_default = map_option JStr (pu_default q), cp_locked = set (pu_locked q), cp_tool_risk = risk\<rparr>)
                   (case tn_settings t of None \<Rightarrow> [] | Some ms \<Rightarrow> ms)),
                 tn_updated := bump now (tn_updated t)\<rparr>) (gd_tenants db)\<rparr>"
    using assms(2) unfolding update_policy_def Let_def
    by (auto split: sum.splits option.splits if_splits)
  let ?p = "\<lparr>cp_mode = pu_mode q, cp_default = map_option JStr (pu_default q), cp_locked = set (pu_locked q), cp_tool_risk = risk\<rparr>"
  let ?t = "t\<lparr>tn_settings := Some (AList.update settings_key (policy_to_settings ?p)
                   (case tn_settings t of None \<Rightarrow> [] | Some ms \<Rightarrow> ms)), tn_updated := bump now (tn_updated t)\<rparr>"
  have ok: "templates_ok db" "tenant_ok (ge_canonical e) db t" "tn_id t = tenant"
    using assms(1) row_get_Some[OF t(1)] by (auto simp: guard_ok_def)
  have prev: "full_policy (cp_tool_risk p)" if "previous = Some p" for p
    using ok(2) that t(4) by (cases rule: tenant_policy_reads) (auto simp: saved_policy_ok_def)
  have full: "full_policy risk"
  proof (cases "pu_risk q")
    case None
    then show ?thesis using t(5) prev default_full by (cases previous) auto
  next
    case (Some ms)
    then show ?thesis using t(5) actions_from_json_full by (auto split: sum.splits)
  qed
  have live: "ref_live (ge_canonical e) db tenant r" if dr: "pu_default q = Some r" for r
  proof -
    obtain z where "template_rules (ge_canonical e) db tenant r = Inr (Some z)"
      using t(2)[unfolded dr option.case] by (auto split: sum.splits option.splits)
    then show ?thesis using template_rules_ok[OF ok(1), of "ge_canonical e" tenant r] by auto
  qed
  have none: "pu_mode q \<noteq> PolicyDefault \<and> pu_mode q \<noteq> PolicyEnforced" if "pu_default q = None"
    using t(2,3) that by auto
  have r: "ref_live (ge_canonical e) db' i r = ref_live (ge_canonical e) db i r" for i r
    by (rule ref_live_same) (simp add: t(6))
  have p: "saved_policy_ok (ge_canonical e) db' tenant ?p"
    using full live none by (cases "pu_default q") (auto simp: saved_policy_ok_def r)
  have "settings_of ?t = policy_to_settings ?p" by (simp add: settings_of_def jget_def update_conv')
  then have new: "tenant_ok (ge_canonical e) db' ?t"
    using p ok(3) unfolding tenant_ok_def by (intro disjI2 exI[of _ ?p]) simp
  have "tenant_ok (ge_canonical e) db' x" if "x \<in> set (gd_tenants db')" for x
  proof -
    have "x = ?t \<or> x \<in> set (gd_tenants db)" using that row_put_member[of x tn_id ?t "gd_tenants db"] by (simp add: t(6))
    then show ?thesis
    proof
      assume "x = ?t" then show ?thesis using new by (simp only:)
    next
      assume "x \<in> set (gd_tenants db)"
      then have "tenant_ok (ge_canonical e) db x" using assms(1) by (simp add: guard_ok_def)
      then show ?thesis by (rule tenant_ok_mono) (simp add: r)
    qed
  qed
  moreover have "templates_ok db'"
    using ok(1) by (simp add: templates_ok_def template_ok_def find_version_def t(6))
  moreover have "gd_bindings db' = gd_bindings db" by (simp add: t(6))
  ultimately show ?thesis using assms(1) by (simp add: guard_ok_def)
qed

lemma update_binding_ok:
  assumes "guard_ok e db" "update_binding e found agent q db = Inr db'"
  shows "guard_ok e db'"
proof -
  let ?b = "\<lparr>ab_agent = agent, ab_mode = bu_mode q,
               ab_ref = (if bu_mode q = ''template'' then bu_ref q else None),
               ab_overrides = map (\<lambda>(k, c). (k, override_json c)) (bu_overrides q)\<rparr>"
  have db': "db' = db\<lparr>gd_bindings := (if row_get ab_agent agent (gd_bindings db) = None then gd_bindings db @ [?b]
                   else row_put ab_agent ?b (gd_bindings db))\<rparr>"
    using assms(2) unfolding update_binding_def Let_def
    by (auto split: sum.splits option.splits if_splits prod.splits)
  have "map_of (map (\<lambda>(k, c). (k, override_json c)) xs) k = Some j \<Longrightarrow> \<exists>c. j = override_json c"
    for xs :: "(string \<times> bool \<times> action option) list" and k j
    by (drule map_of_SomeD) auto
  then have b: "binding_ok ?b" unfolding binding_ok_def by simp
  have "binding_ok x" if "x \<in> set (gd_bindings db')" for x
  proof -
    have "x = ?b \<or> x \<in> set (gd_bindings db)"
      using that row_put_member[of x ab_agent ?b "gd_bindings db"] by (auto simp: db' split: if_splits)
    then show ?thesis using b assms(1) unfolding guard_ok_def by blast
  qed
  moreover have "templates_ok db'"
    using assms(1) by (simp add: guard_ok_def templates_ok_def template_ok_def find_version_def db')
  moreover have "tenant_ok (ge_canonical e) db' t" if "t \<in> set (gd_tenants db')" for t
  proof (rule tenant_ok_mono)
    show "tenant_ok (ge_canonical e) db t" using that assms(1) by (simp add: guard_ok_def db')
    have "gd_templates db' = gd_templates db" by (simp add: db')
    then show "ref_live (ge_canonical e) db' (tn_id t) r" if "ref_live (ge_canonical e) db (tn_id t) r" for r
      using that ref_live_same by blast
  qed
  ultimately show ?thesis by (simp add: guard_ok_def)
qed

section \<open>Reachable states\<close>

lemma step_tenants: "guard_step e db db' \<Longrightarrow> map tn_id (gd_tenants db') = map tn_id (gd_tenants db)"
proof (erule guard_stepE)
  fix admin tenant version now q assume "update_policy e admin tenant version now q db = Inr db'"
  then show ?thesis unfolding update_policy_def Let_def
    by (auto split: sum.splits option.splits if_splits)
next
  fix admin tenant new now q assume "create_template e admin tenant new now q db = Inr db'"
  then show ?thesis unfolding create_template_def Let_def by (auto split: sum.splits if_splits)
next
  fix admin tenant version now i q' assume "update_template admin tenant version now i q' db = Inr db'"
  then show ?thesis unfolding update_template_def Let_def by (auto split: sum.splits if_splits)
next
  fix admin tenant version now i assume "publish_template admin tenant version now i db = Inr db'"
  then show ?thesis unfolding publish_template_def publish_def Let_def by (auto split: sum.splits if_splits)
next
  fix admin tenant version now i assume "archive_template admin tenant version now i db = Inr db'"
  then show ?thesis unfolding archive_template_def by (auto split: sum.splits if_splits)
next
  fix admin tenant version now i v assume "revert_template admin tenant version now i v db = Inr db'"
  then show ?thesis unfolding revert_template_def publish_def Let_def by (auto split: sum.splits option.splits if_splits)
next
  fix found agent b assume "update_binding e found agent b db = Inr db'"
  then show ?thesis unfolding update_binding_def Let_def by (auto split: sum.splits option.splits if_splits prod.splits)
qed

definition guard_inv :: "guard_env \<Rightarrow> guard_db \<Rightarrow> bool" where
  "guard_inv e db = (guard_ok e db \<and> tenants_distinct db)"

lemma step_ok:
  assumes "canonical_refs e" "guard_step e db db'" "guard_inv e db"
  shows "guard_inv e db'"
proof -
  have ok: "guard_ok e db" "tenants_distinct db" using assms(3) by (simp_all add: guard_inv_def)
  have "guard_ok e db'"
    using assms(2) by (rule guard_stepE)
      (blast intro: update_policy_ok[OF ok(1)] create_template_ok[OF ok(1)] update_template_ok[OF ok(1)]
        publish_template_ok[OF ok(1)] archive_template_ok[OF ok(1) assms(1) ok(2)] revert_template_ok[OF ok(1)]
        update_binding_ok[OF ok(1)])+
  then show ?thesis using ok(2) step_tenants[OF assms(2)] by (simp add: guard_inv_def tenants_distinct_def)
qed

interpretation guard: invariant_system "\<lambda>db db'. canonical_refs e \<and> guard_step e db db'" "guard_inv e"
  for e
  by unfold_locales (blast intro: step_ok)

lemma fresh_inv: "fresh_guard_db db \<Longrightarrow> tenants_distinct db \<Longrightarrow> guard_inv e db"
  by (auto simp: fresh_guard_db_def guard_inv_def guard_ok_def templates_ok_def tenant_ok_def settings_of_def list_all_iff)

lemma reachable_inv:
  assumes "canonical_refs e" "guard_reachable e db" "tenants_distinct db"
  shows "guard_inv e db"
proof -
  obtain start where s: "fresh_guard_db start" "rtranclp (guard_step e) start db"
    using assms(2) by (auto simp: guard_reachable_def)
  have "map tn_id (gd_tenants db) = map tn_id (gd_tenants start)"
    using s(2) by (induction rule: rtranclp_induct) (simp_all add: step_tenants)
  then have "tenants_distinct start" using assms(3) by (simp add: tenants_distinct_def)
  moreover have "rtranclp (\<lambda>db db'. canonical_refs e \<and> guard_step e db db') start db"
    using s(2) by (rule rtranclp_mono[THEN predicate2D, rotated]) (use assms(1) in blast)
  ultimately show ?thesis using guard.reach_inv[of e start db] fresh_inv[OF s(1)] by blast
qed


lemma step_versions:
  assumes "guard_step e db db'"
  shows "prefix (gd_versions db) (gd_versions db')"
proof -
  have "prefix (gd_versions db) (gd_versions db')"
    using assms
  proof (rule guard_stepE)
    fix admin tenant version now q assume "update_policy e admin tenant version now q db = Inr db'"
    then show ?thesis unfolding update_policy_def Let_def by (auto split: sum.splits option.splits if_splits)
  next
    fix admin tenant new now q assume "create_template e admin tenant new now q db = Inr db'"
    then show ?thesis unfolding create_template_def Let_def by (auto split: sum.splits if_splits)
  next
    fix admin tenant version now j q' assume "update_template admin tenant version now j q' db = Inr db'"
    then show ?thesis unfolding update_template_def Let_def by (auto split: sum.splits if_splits)
  next
    fix admin tenant version now j assume "publish_template admin tenant version now j db = Inr db'"
    then show ?thesis unfolding publish_template_def publish_def Let_def by (auto split: sum.splits if_splits)
  next
    fix admin tenant version now j assume "archive_template admin tenant version now j db = Inr db'"
    then show ?thesis unfolding archive_template_def by (auto split: sum.splits if_splits)
  next
    fix admin tenant version now j u assume "revert_template admin tenant version now j u db = Inr db'"
    then show ?thesis unfolding revert_template_def publish_def Let_def by (auto split: sum.splits option.splits if_splits)
  next
    fix found agent b assume "update_binding e found agent b db = Inr db'"
    then show ?thesis unfolding update_binding_def Let_def by (auto split: sum.splits option.splits if_splits prod.splits)
  qed
  then show ?thesis .
qed

lemma find_version_prefix:
  assumes "find_version db i v = Some w" "prefix (gd_versions db) (gd_versions db')"
  shows "find_version db' i v = Some w"
proof -
  obtain ys where "gd_versions db' = gd_versions db @ ys" using assms(2) by (auto simp: prefix_def)
  then show ?thesis using assms(1) by (simp add: find_version_def find_append)
qed

lemma steps_versions: "rtranclp (guard_step e) db db' \<Longrightarrow> prefix (gd_versions db) (gd_versions db')"
  by (induction rule: rtranclp_induct) (blast intro: step_versions prefix_order.trans)+

text \<open>
  What was published stays published: the versions of a template are numbered from 1 without a gap
  up to the published one, and no later change, publishing or reverting included, alters the rules
  stored for a version.
\<close>
theorem published_versions_are_frozen:
  assumes "canonical_refs e" "guard_reachable e db" "tenants_distinct db" "t \<in> set (gd_templates db)"
    "rtranclp (guard_step e) db db'"
  shows "(find_version db (gt_id t) v \<noteq> None \<longleftrightarrow> 1 \<le> v \<and> v \<le> latest t)
    \<and> (find_version db (gt_id t) v = Some w \<longrightarrow> find_version db' (gt_id t) v = Some w)"
proof -
  have "template_ok db t"
    using reachable_inv[OF assms(1-3)] assms(4) by (simp add: guard_inv_def guard_ok_def templates_ok_def)
  then show ?thesis using find_version_prefix steps_versions[OF assms(5)] unfolding template_ok_def by blast
qed

section \<open>Histories of one template\<close>

definition demo_start :: guard_db where
  "demo_start = \<lparr>gd_tenants = [\<lparr>tn_id = ''t'', tn_settings = None, tn_updated = 0\<rparr>], gd_templates = [],
     gd_versions = [], gd_bindings = []\<rparr>"

text \<open>Identifiers are accepted in either case, or only as they print.\<close>

definition demo_env :: "bool \<Rightarrow> guard_env" where
  "demo_env strict = \<lparr>ge_canonical = (\<lambda>s. if s = ''x'' then Some ''x'' else if s = ''X'' \<and> \<not> strict then Some ''x'' else None),
     ge_install = []\<rparr>"

definition result_db :: "admin_error + guard_db \<Rightarrow> guard_db" where
  "result_db r = (case r of Inl _ \<Rightarrow> demo_start | Inr db \<Rightarrow> db)"

definition demo_created :: "bool \<Rightarrow> admin_error + guard_db" where
  "demo_created strict = create_template (demo_env strict) True ''t'' ''x'' 1
     \<lparr>tc_name = ''own'', tc_description = [], tc_copy_from = Some ''builtin:kr-default'', tc_rules = None\<rparr> demo_start"

definition demo_published :: "bool \<Rightarrow> admin_error + guard_db" where
  "demo_published strict = publish_template True ''t'' (Some 1) 2 ''x'' (result_db (demo_created strict))"

definition demo_enforced :: "bool \<Rightarrow> string \<Rightarrow> admin_error + guard_db" where
  "demo_enforced strict r = update_policy (demo_env strict) True ''t'' (Some 0) 3
     \<lparr>pu_mode = PolicyEnforced, pu_default = Some r, pu_locked = [], pu_risk = None\<rparr> (result_db (demo_published strict))"

definition demo_archived :: "admin_error + guard_db" where
  "demo_archived = archive_template True ''t'' (Some 2) 4 ''x'' (result_db (demo_enforced False ''company:X''))"

lemma result_dbI: "(case r of Inl _ \<Rightarrow> False | Inr _ \<Rightarrow> True) \<Longrightarrow> r = Inr (result_db r)"
  by (cases r) (simp_all add: result_db_def)

lemma demo_runs:
  "demo_created strict = Inr (result_db (demo_created strict))"
  "demo_published strict = Inr (result_db (demo_published strict))"
  "demo_enforced True ''company:x'' = Inr (result_db (demo_enforced True ''company:x''))"
  "demo_enforced False ''company:X'' = Inr (result_db (demo_enforced False ''company:X''))"
  "demo_archived = Inr (result_db demo_archived)"
  by (rule result_dbI, cases strict, (hypsubst, code_simp)+ | rule result_dbI, code_simp)+

lemma demo_published_reachable: "rtranclp (guard_step (demo_env strict)) demo_start (result_db (demo_published strict))"
proof -
  have "''x'' \<notin> gt_id ` set (gd_templates demo_start)" by (simp add: demo_start_def)
  then have "guard_step (demo_env strict) demo_start (result_db (demo_created strict))"
    using demo_runs(1)[of strict] guard_step.create unfolding demo_created_def by blast
  moreover have "guard_step (demo_env strict) (result_db (demo_created strict)) (result_db (demo_published strict))"
    using demo_runs(2)[of strict] unfolding demo_published_def by (rule guard_step.publish)
  ultimately show ?thesis by (meson r_into_rtranclp rtranclp.rtrancl_into_rtrancl)
qed

lemma demo_fresh: "fresh_guard_db demo_start" "tenants_distinct demo_start"
  by (simp_all add: fresh_guard_db_def demo_start_def tenants_distinct_def jget_def)

lemma demo_enforced_step: "guard_step (demo_env strict) (result_db (demo_published strict)) (result_db (demo_enforced strict r))"
  if "demo_enforced strict r = Inr (result_db (demo_enforced strict r))"
  using that unfolding demo_enforced_def by (rule guard_step.policy)

lemma demo_strict: "canonical_refs (demo_env True)" "install_ok (demo_env b)"
  by (simp_all add: canonical_refs_def demo_env_def install_ok_def)


lemma published_versions_are_frozen_witness:
  "find_version (result_db (demo_enforced True ''company:x'')) ''x'' 1 = find_version (result_db (demo_published True)) ''x'' 1
   \<and> find_version (result_db (demo_published True)) ''x'' 1 \<noteq> None"
proof -
  let ?db = "result_db (demo_published True)"
  have r: "guard_reachable (demo_env True) ?db"
    using demo_published_reachable demo_fresh(1) by (auto simp: guard_reachable_def)
  have d: "tenants_distinct ?db" by code_simp
  have s: "rtranclp (guard_step (demo_env True)) ?db (result_db (demo_enforced True ''company:x''))"
    using demo_enforced_step[OF demo_runs(3)] by blast
  have "map gt_id (gd_templates ?db) = [''x''] \<and> map latest (gd_templates ?db) = [1]" by code_simp
  then obtain t where t: "t \<in> set (gd_templates ?db)" "gt_id t = ''x''" "latest t = 1" by (auto simp: map_eq_Cons_conv)
  note f = published_versions_are_frozen[OF demo_strict(1) r d t(1) s, of 1, unfolded t(2,3)]
  then obtain w where "find_version ?db ''x'' 1 = Some w" by auto
  then show ?thesis using f[of w] by simp
qed

text \<open>
  A policy may name its default template with another spelling of the identifier. Archiving compares
  the stored text, so the template in use can be archived and every run of the company fails.
\<close>
theorem default_archived_under_another_spelling:
  "guard_reachable (demo_env False) (result_db demo_archived)
   \<and> resolve (ge_canonical (demo_env False)) [] (result_db demo_archived) ''t'' None ''standard''
       = Inl (DefaultUnusable (JStr ''company:X''))"
proof -
  have "guard_step (demo_env False) (result_db (demo_enforced False ''company:X'')) (result_db demo_archived)"
    using demo_runs(5) unfolding demo_archived_def by (rule guard_step.archive)
  then have "rtranclp (guard_step (demo_env False)) demo_start (result_db demo_archived)"
    using demo_published_reachable demo_enforced_step[OF demo_runs(4)]
    by (meson rtranclp.rtrancl_into_rtrancl)
  moreover have "resolve (ge_canonical (demo_env False)) [] (result_db demo_archived) ''t'' None ''standard''
       = Inl (DefaultUnusable (JStr ''company:X''))" by code_simp
  ultimately show ?thesis using demo_fresh(1) unfolding guard_reachable_def by blast
qed

end
