(* ===== verification/GuardModel.thy ===== *)
theory GuardModel
  imports GuardActions GuardTemplates
begin

text \<open>
  The \<open>kr_model\<close> pack (\<open>guardrails/model_pack\<close>): texts grouped into requests, the service's replies
  and their checks, and the rules pack for every text the service did not answer.

  The service is a parameter: what the \<open>n\<close>-th request of a call gets, \<open>None\<close> standing for any of the
  errors the code catches (transport, status, a reply that is not the expected JSON). Texts have no
  lone surrogates, which cannot be encoded.

  The lemmas show that the requests hold every text that fits once, in order and within the limits
  of the service, and that every text is checked whatever the service does: a resident
  registration number is found in all cases and, under the default template, redacted or blocked at
  every stage.
\<close>

section \<open>Requests\<close>

definition max_texts_per_request :: nat where "max_texts_per_request = 64"
definition max_request_bytes :: nat where "max_request_bytes = 2 ^ 20 - 1024"

text \<open>Bytes of a character in the JSON encoder's output with \<open>ensure_ascii=False\<close>.\<close>

definition json_char_bytes :: "int \<Rightarrow> nat" where
  "json_char_bytes c =
     (if c = 34 \<or> c = 92 \<or> c = 8 \<or> c = 9 \<or> c = 10 \<or> c = 12 \<or> c = 13 then 2
      else if c < 32 then 6
      else if c < 128 then 1
      else if c < 2048 then 2
      else if c < 65536 then 3
      else 4)"

definition encoded_size :: "utext \<Rightarrow> nat" where
  "encoded_size s = sum_list (map json_char_bytes s) + 2 + 1"

record batching =
  bt_done :: "nat list list"
  bt_current :: "nat list"
  bt_size :: nat

definition batch_step :: "nat \<times> utext \<Rightarrow> batching \<Rightarrow> batching" where
  "batch_step it b =
     (let index = fst it; encoded = encoded_size (snd it) in
      if max_request_bytes < encoded then b
      else
        let b1 = (if bt_current b \<noteq> [] \<and> (length (bt_current b) = max_texts_per_request
                    \<or> max_request_bytes < bt_size b + encoded)
                  then \<lparr>bt_done = bt_done b @ [bt_current b], bt_current = [], bt_size = 0\<rparr> else b)
        in b1\<lparr>bt_current := bt_current b1 @ [index], bt_size := bt_size b1 + encoded\<rparr>)"

definition batches :: "utext list \<Rightarrow> nat list list" where
  "batches texts =
     (let b = fold batch_step (enumerate 0 texts) \<lparr>bt_done = [], bt_current = [], bt_size = 0\<rparr>
      in if bt_current b \<noteq> [] then bt_done b @ [bt_current b] else bt_done b)"

section \<open>Replies\<close>

record reply_item =
  ri_entity :: string
  ri_start :: int
  ri_end :: int
  ri_score :: score

definition model_pack :: string where "model_pack = ''kr_model''"

fun parse_items :: "nat \<Rightarrow> reply_item list \<Rightarrow> finding list option" where
  "parse_items n [] = Some []"
| "parse_items n (i # is) =
     (if \<not> (0 \<le> ri_start i \<and> ri_start i < ri_end i \<and> ri_end i \<le> int n) then None
      else (case parse_items n is of
              None \<Rightarrow> None
            | Some fs \<Rightarrow> Some (finding_of (ri_entity i) (ri_score i) model_pack (nat (ri_start i), nat (ri_end i)) # fs)))"

fun parse_results :: "utext list \<Rightarrow> reply_item list list \<Rightarrow> finding list list option" where
  "parse_results (s # ss) (is # iss) =
     (case parse_items (length s) is of
        None \<Rightarrow> None
      | Some fs \<Rightarrow> (case parse_results ss iss of None \<Rightarrow> None | Some fss \<Rightarrow> Some (fs # fss)))"
| "parse_results _ _ = Some []"

definition parse_reply :: "reply_item list list option \<Rightarrow> utext list \<Rightarrow> finding list list option" where
  "parse_reply results texts =
     (case results of
        None \<Rightarrow> None
      | Some iss \<Rightarrow> if length iss \<noteq> length texts then None else parse_results texts iss)"

record model_service =
  ms_enabled :: bool
  ms_url :: string
  ms_ask :: "nat \<Rightarrow> utext list \<Rightarrow> reply_item list list option"

text \<open>
  The requests in order until one fails; the answered texts with their findings, and whether the
  service is down (the flag that keeps the log quiet).
\<close>

fun ask_batches ::
    "model_service \<Rightarrow> utext list \<Rightarrow> nat \<Rightarrow> nat list list \<Rightarrow> bool \<Rightarrow> (nat \<times> finding list) list \<times> bool" where
  "ask_batches sv texts n [] down = ([], down)"
| "ask_batches sv texts n (b # bs) down =
     (let asked = map (\<lambda>i. texts ! i) b in
      case parse_reply (ms_ask sv n asked) asked of
        None \<Rightarrow> ([], True)
      | Some fss \<Rightarrow> (let (rest, down') = ask_batches sv texts (Suc n) bs False in (zip b fss @ rest, down')))"

definition model_findings :: "model_service \<Rightarrow> utext list \<Rightarrow> bool \<Rightarrow> (nat \<times> finding list) list \<times> bool" where
  "model_findings sv texts down =
     (if \<not> ms_enabled sv \<or> ms_url sv = [] then ([], down) else ask_batches sv texts 0 (batches texts) down)"

section \<open>Detection\<close>

fun detect_each :: "detector_libs \<Rightarrow> string list \<Rightarrow> utext list \<Rightarrow> finding list list option" where
  "detect_each libs packs [] = Some []"
| "detect_each libs packs (s # ss) =
     (case detect libs s packs of
        None \<Rightarrow> None
      | Some fs \<Rightarrow> (case detect_each libs packs ss of None \<Rightarrow> None | Some fss \<Rightarrow> Some (fs # fss)))"

text \<open>The rules fallback of a text the service did not answer.\<close>

definition kr_rules :: "detector_libs \<Rightarrow> utext \<Rightarrow> finding list" where
  "kr_rules libs s = merge_findings (kr_pack libs s)"

definition model_extra :: "detector_libs \<Rightarrow> (nat \<times> finding list) list \<Rightarrow> nat \<Rightarrow> utext \<Rightarrow> finding list" where
  "model_extra libs model i s =
     (case map_of model i of Some fs \<Rightarrow> fs @ rrn_fallback libs s model_pack | None \<Rightarrow> kr_rules libs s)"

definition detect_texts ::
    "detector_libs \<Rightarrow> model_service \<Rightarrow> utext list \<Rightarrow> string list \<Rightarrow> bool \<Rightarrow> (finding list list \<times> bool) option" where
  "detect_texts libs sv texts packs down =
     (case detect_each libs (filter (\<lambda>n. n \<noteq> model_pack) packs) texts of
        None \<Rightarrow> None
      | Some found \<Rightarrow>
          if model_pack \<notin> set packs then Some (found, down)
          else let (model, down') = model_findings sv texts down
            in Some (map (\<lambda>(i, s, fs). merge_findings (fs @ model_extra libs model i s)) (enumerate 0 (zip texts found)), down'))"

section \<open>Requests within the limits\<close>

definition fits :: "utext list \<Rightarrow> nat \<Rightarrow> bool" where
  "fits texts i = (encoded_size (texts ! i) \<le> max_request_bytes)"

definition batch_ok :: "utext list \<Rightarrow> nat list \<Rightarrow> bool" where
  "batch_ok texts b =
     (b \<noteq> [] \<and> length b \<le> max_texts_per_request \<and> sum_list (map (\<lambda>i. encoded_size (texts ! i)) b) \<le> max_request_bytes)"

definition batching_ok :: "utext list \<Rightarrow> batching \<Rightarrow> bool" where
  "batching_ok texts b =
     ((\<forall>x\<in>set (bt_done b). batch_ok texts x) \<and> (bt_current b = [] \<or> batch_ok texts (bt_current b))
      \<and> bt_size b = sum_list (map (\<lambda>i. encoded_size (texts ! i)) (bt_current b)))"

definition batched :: "batching \<Rightarrow> nat list" where
  "batched b = concat (bt_done b) @ bt_current b"

lemma batch_step_ok:
  assumes "batching_ok texts b" "snd it = texts ! fst it"
  shows "batching_ok texts (batch_step it b)"
    "batched (batch_step it b) = batched b @ (if fits texts (fst it) then [fst it] else [])"
proof -
  have one: "batch_ok texts [fst it]" if "fits texts (fst it)"
    using that by (simp add: batch_ok_def fits_def max_texts_per_request_def)
  show "batching_ok texts (batch_step it b)"
  proof (cases "fits texts (fst it)")
    case False
    then show ?thesis using assms by (simp add: batch_step_def fits_def Let_def)
  next
    case fits: True
    show ?thesis
    proof (cases "bt_current b \<noteq> [] \<and> (length (bt_current b) = max_texts_per_request
        \<or> max_request_bytes < bt_size b + encoded_size (snd it))")
      case True
      then show ?thesis using fits assms one[OF fits]
        by (simp add: batch_step_def fits_def batching_ok_def Let_def)
    next
      case False
      then have "bt_current b = [] \<or> batch_ok texts (bt_current b @ [fst it])"
        using assms by (auto simp: batching_ok_def batch_ok_def)
      then show ?thesis using False fits assms one[OF fits]
        by (auto simp: batch_step_def fits_def batching_ok_def Let_def)
    qed
  qed
  show "batched (batch_step it b) = batched b @ (if fits texts (fst it) then [fst it] else [])"
    using assms(2) by (simp add: batched_def batch_step_def fits_def Let_def)
qed

lemma fold_batches_ok:
  assumes "batching_ok texts b" "\<forall>it\<in>set its. snd it = texts ! fst it"
  shows "batching_ok texts (fold batch_step its b)
    \<and> batched (fold batch_step its b) = batched b @ filter (fits texts) (map fst its)"
  using assms
proof (induction its arbitrary: b)
  case (Cons it its)
  then show ?case using batch_step_ok[OF Cons.prems(1), of it] Cons.IH[of "batch_step it b"] by simp
qed simp

text \<open>
  The requests to the model service hold every text that fits one exactly once and in order, and
  each stays within the service's limits of 64 texts and 1 MiB less the envelope.
\<close>
theorem requests_within_limits:
  "concat (batches texts) = filter (fits texts) [0..<length texts]
   \<and> list_all (\<lambda>b. b \<noteq> [] \<and> length b \<le> 64
        \<and> sum_list (map (\<lambda>i. encoded_size (texts ! i)) b) \<le> 2 ^ 20 - 1024) (batches texts)"
proof -
  let ?b = "fold batch_step (enumerate 0 texts) \<lparr>bt_done = [], bt_current = [], bt_size = 0\<rparr>"
  have "\<forall>it\<in>set (enumerate 0 texts). snd it = texts ! fst it" by (auto simp: in_set_enumerate_eq)
  moreover have "batching_ok texts \<lparr>bt_done = [], bt_current = [], bt_size = 0\<rparr>" by (simp add: batching_ok_def)
  ultimately have b: "batching_ok texts ?b" "batched ?b = filter (fits texts) (map fst (enumerate 0 texts))"
    using fold_batches_ok by (force simp: batched_def)+
  have "concat (batches texts) = batched ?b" by (simp add: batches_def batched_def Let_def)
  moreover have "\<forall>x\<in>set (batches texts). batch_ok texts x" using b(1) by (auto simp: batches_def batching_ok_def Let_def)
  ultimately show ?thesis
    using b(2) by (auto simp: batch_ok_def max_texts_per_request_def max_request_bytes_def list_all_iff)
qed

section \<open>Every text is checked\<close>

lemma detect_keys:
  "detect libs s packs = Some fs \<Longrightarrow> name \<in> set packs \<Longrightarrow> map_of packs_table name = Some pack
    \<Longrightarrow> span_key ` set (pack libs s) \<subseteq> span_key ` set fs"
proof -
  have "pack_findings libs s ps = Some gs \<Longrightarrow> name \<in> set ps \<Longrightarrow> map_of packs_table name = Some pack
      \<Longrightarrow> set (pack libs s) \<subseteq> set gs" for ps gs
    by (induction ps arbitrary: gs) (auto split: option.splits)
  then show "detect libs s packs = Some fs \<Longrightarrow> name \<in> set packs \<Longrightarrow> map_of packs_table name = Some pack
    \<Longrightarrow> span_key ` set (pack libs s) \<subseteq> span_key ` set fs"
    by (fastforce simp: detect_def merge_findings_props(3) split: option.splits)
qed

lemma detect_from:
  assumes "detect libs s packs = Some fs" "f \<in> set fs"
  shows "\<exists>name pack. name \<in> set packs \<and> map_of packs_table name = Some pack \<and> f \<in> set (pack libs s)"
proof -
  have "pack_findings libs s ps = Some gs \<Longrightarrow> f \<in> set gs
      \<Longrightarrow> \<exists>name pack. name \<in> set ps \<and> map_of packs_table name = Some pack \<and> f \<in> set (pack libs s)" for ps gs
  proof (induction ps arbitrary: gs)
    case (Cons n ps)
    obtain pack rest where p: "map_of packs_table n = Some pack" "pack_findings libs s ps = Some rest"
      "gs = pack libs s @ rest" using Cons.prems(1) by (auto split: option.splits)
    show ?case
    proof (cases "f \<in> set (pack libs s)")
      case True then show ?thesis using p(1) by (intro exI[of _ n] exI[of _ pack]) simp
    next
      case False
      then show ?thesis using Cons.IH[OF p(2)] Cons.prems(2) p(3) by auto
    qed
  qed simp
  then show ?thesis using assms merge_findings_props(4)
    by (fastforce simp: detect_def split: option.splits)
qed

lemma detect_total: "set packs \<subseteq> set (map fst packs_table) \<Longrightarrow> \<exists>fs. detect libs s packs = Some fs"
proof -
  have "set packs \<subseteq> set (map fst packs_table) \<Longrightarrow> \<exists>fs. pack_findings libs s packs = Some fs"
  proof (induction packs)
    case (Cons n ps)
    then have "map_of packs_table n \<noteq> None" unfolding map_of_eq_None_iff by simp
    then show ?case using Cons by auto
  qed simp
  then show "set packs \<subseteq> set (map fst packs_table) \<Longrightarrow> \<exists>fs. detect libs s packs = Some fs"
    by (auto simp: detect_def)
qed

lemma detect_each_nth:
  "detect_each libs packs ss = Some fss \<Longrightarrow> length fss = length ss \<and> (\<forall>i<length ss. detect libs (ss ! i) packs = Some (fss ! i))"
  by (induction ss arbitrary: fss) (auto simp: nth_Cons less_Suc_eq_0_disj split: option.splits nat.splits)

lemma detect_each_total: "set packs \<subseteq> set (map fst packs_table) \<Longrightarrow> \<exists>fss. detect_each libs packs ss = Some fss"
  by (induction ss) (use detect_total in \<open>fastforce split: option.splits\<close>)+

lemma detect_texts_nth:
  assumes "detect_texts libs sv texts packs down = Some (fss, down')" "model_pack \<in> set packs" "i < length texts"
  obtains found where "detect libs (texts ! i) (filter (\<lambda>n. n \<noteq> model_pack) packs) = Some found"
    "fss ! i = merge_findings (found @ model_extra libs (fst (model_findings sv texts down)) i (texts ! i))"
    "length fss = length texts"
proof -
  obtain fs where f: "detect_each libs (filter (\<lambda>n. n \<noteq> model_pack) packs) texts = Some fs"
    using assms(1) by (auto simp: detect_texts_def split: option.splits)
  obtain model d where m: "model_findings sv texts down = (model, d)" by fastforce
  have r: "fss = map (\<lambda>(i, s, fs). merge_findings (fs @ model_extra libs model i s)) (enumerate 0 (zip texts fs))"
    using assms(1,2) by (simp add: detect_texts_def f m)
  note n = detect_each_nth[OF f]
  show thesis
    by (rule that[of "fs ! i"]) (use r n assms(3) m in \<open>simp_all add: nth_enumerate_eq\<close>)
qed

lemma extra_rrn:
  "(\<lambda>(a, b). (a, b, ''RRN'')) ` set (rrn_spans (dl_decimal libs) False 0 s) \<subseteq> span_key ` set (model_extra libs model i s)"
proof -
  have k: "span_key (finding_of ''RRN'' (Fin (1 / 2)) pack (a, b)) = (a, b, ''RRN'')" for a b pack
    by (simp add: span_key_def finding_of_def)
  have "(a, b, ''RRN'') \<in> span_key ` set (rrn_fallback libs s pack)"
    if "(a, b) \<in> set (rrn_spans (dl_decimal libs) False 0 s)" for a b pack
    using that k[of pack a b] unfolding rrn_fallback_def set_map by (metis imageI)
  then show ?thesis
    by (auto simp: model_extra_def kr_rules_def merge_findings_props(3) kr_pack_def image_Un split: option.split)
qed

text \<open>
  Detection is weakened but never skipped: whatever the model service answers, with known packs
  every text gets its findings, those of each named rule pack among them, every resident number among them, and
  either the service's own findings or those of the Korean rules pack.
\<close>
theorem detection_never_skipped:
  assumes "set packs \<subseteq> pack_names" "model_pack \<in> set packs" "i < length texts"
  shows "\<exists>fss down'. detect_texts libs sv texts packs down = Some (fss, down') \<and> length fss = length texts
    \<and> (\<lambda>(a, b). (a, b, ''RRN'')) ` set (rrn_spans (dl_decimal libs) False 0 (texts ! i)) \<subseteq> span_key ` set (fss ! i)
    \<and> (\<forall>name\<in>set packs. \<forall>pack. map_of packs_table name = Some pack
         \<longrightarrow> span_key ` set (pack libs (texts ! i)) \<subseteq> span_key ` set (fss ! i))
    \<and> (case map_of (fst (model_findings sv texts down)) i of
         Some fs \<Rightarrow> span_key ` set fs \<subseteq> span_key ` set (fss ! i)
       | None \<Rightarrow> span_key ` set (kr_pack libs (texts ! i)) \<subseteq> span_key ` set (fss ! i))"
proof -
  have "set (filter (\<lambda>n. n \<noteq> model_pack) packs) \<subseteq> set (map fst packs_table)"
    using assms(1) by (auto simp: pack_names_def model_pack_def)
  then obtain fs where "detect_each libs (filter (\<lambda>n. n \<noteq> model_pack) packs) texts = Some fs"
    using detect_each_total by blast
  then obtain fss down' where r: "detect_texts libs sv texts packs down = Some (fss, down')"
    by (cases "model_findings sv texts down") (simp add: detect_texts_def assms(2))
  obtain found where f: "detect libs (texts ! i) (filter (\<lambda>n. n \<noteq> model_pack) packs) = Some found"
    "fss ! i = merge_findings (found @ model_extra libs (fst (model_findings sv texts down)) i (texts ! i))"
    "length fss = length texts" by (rule detect_texts_nth[OF r assms(2,3)])
  have keys: "span_key ` set (fss ! i) = span_key ` set found
      \<union> span_key ` set (model_extra libs (fst (model_findings sv texts down)) i (texts ! i))"
    unfolding f(2) merge_findings_props(3) by (simp add: image_Un)
  have packs: "span_key ` set (pack libs (texts ! i)) \<subseteq> span_key ` set (fss ! i)"
    if n: "name \<in> set packs" "map_of packs_table name = Some pack" for name pack
  proof -
    have "name \<noteq> model_pack" using n(2) by (auto simp: packs_table_def model_pack_def)
    then show ?thesis using detect_keys[OF f(1) _ n(2)] n(1) keys by auto
  qed
  have extra: "case map_of (fst (model_findings sv texts down)) i of
         Some fs \<Rightarrow> span_key ` set fs \<subseteq> span_key ` set (fss ! i)
       | None \<Rightarrow> span_key ` set (kr_pack libs (texts ! i)) \<subseteq> span_key ` set (fss ! i)"
    by (cases "map_of (fst (model_findings sv texts down)) i")
      (auto simp: keys model_extra_def kr_rules_def merge_findings_props(3))
  have rrn: "(\<lambda>(a, b). (a, b, ''RRN'')) ` set (rrn_spans (dl_decimal libs) False 0 (texts ! i)) \<subseteq> span_key ` set (fss ! i)"
    unfolding keys by (rule subset_trans[OF extra_rrn Un_upper2])
  show ?thesis
    by (intro exI[of _ fss] exI[of _ down'] conjI r f(3) rrn extra ballI allI impI packs)
qed

section \<open>Resident numbers\<close>

text \<open>\<open>detect_all\<close> reports only labels of its \<open>include\<close> set.\<close>

definition include_respected :: "detector_libs \<Rightarrow> bool" where
  "include_respected libs = (\<forall>s I E. \<forall>d\<in>set (dl_detect_all libs s (Some I) E). de_label d \<in> I)"

lemma common_pack_labels:
  assumes "include_respected libs" "f \<in> set (common_pack libs s)"
  shows "fd_entity f \<noteq> ''RRN''"
proof -
  have "de_label d \<in> common_labels" if "d \<in> set (dl_detect_all libs s (Some common_labels) None)" for d
    using assms(1) that unfolding include_respected_def by blast
  then have l: "de_label d \<noteq> ''RRN''" if "d \<in> set (dl_detect_all libs s (Some common_labels) None)" for d
    using that by (force simp: common_labels_def)
  then show ?thesis
    using assms(2) by (auto simp: common_pack_def ko_pii_def finding_of_def)
qed

lemma jailbreak_pack_labels: "f \<in> set (jailbreak_pack libs s) \<Longrightarrow> fd_entity f \<noteq> ''RRN''"
  by (auto simp: jailbreak_pack_def finding_of_def)

lemma parse_items_pack: "parse_items n is = Some fs \<Longrightarrow> f \<in> set fs \<Longrightarrow> fd_pack f = model_pack"
  by (induction "is" arbitrary: fs) (auto simp: finding_of_def split: option.splits if_splits)

lemma parse_results_pack:
  "parse_results ss iss = Some fss \<Longrightarrow> fs \<in> set fss \<Longrightarrow> f \<in> set fs \<Longrightarrow> fd_pack f = model_pack"
proof (induction ss iss arbitrary: fss rule: parse_results.induct)
  case (1 s ss "is" iss)
  then show ?case using parse_items_pack by (auto split: option.splits)
qed auto

lemma ask_batches_pack:
  "(i, fs) \<in> set (fst (ask_batches sv texts n bs down)) \<Longrightarrow> f \<in> set fs \<Longrightarrow> fd_pack f = model_pack"
proof (induction sv texts n bs down rule: ask_batches.induct)
  case (2 sv texts n b bs down)
  let ?asked = "map (\<lambda>i. texts ! i) b"
  show ?case
  proof (cases "parse_reply (ms_ask sv n ?asked) ?asked")
    case None then show ?thesis using 2 by simp
  next
    case (Some fss)
    then have "parse_results ?asked (the (ms_ask sv n ?asked)) = Some fss"
      by (auto simp: parse_reply_def split: option.splits if_splits)
    then have p: "fd_pack f = model_pack" if "fs \<in> set fss" "f \<in> set fs" for fs f
      using parse_results_pack that by blast
    have "(i, fs) \<in> set (zip b fss) \<or> (i, fs) \<in> set (fst (ask_batches sv texts (Suc n) bs False))"
      using 2(2) Some by (auto simp: Let_def split: prod.splits)
    then show ?thesis using 2(1)[OF refl Some] 2(3) p set_zip_rightD by metis
  qed
qed simp

lemma model_findings_pack:
  "map_of (fst (model_findings sv texts down)) i = Some fs \<Longrightarrow> f \<in> set fs \<Longrightarrow> fd_pack f = model_pack"
  unfolding model_findings_def by (auto split: if_splits dest!: map_of_SomeD ask_batches_pack)

lemma extra_pack:
  assumes "f \<in> set (model_extra libs (fst (model_findings sv texts down)) i s)"
  shows "fd_pack f \<in> {''kr'', ''kr_model''}"
proof (cases "map_of (fst (model_findings sv texts down)) i")
  case None
  then have "f \<in> set (kr_pack libs s)"
    using assms merge_findings_props(4) by (auto simp: model_extra_def kr_rules_def)
  then show ?thesis by (auto simp: kr_pack_def ko_pii_def rrn_fallback_def finding_of_def)
next
  case (Some fs)
  then show ?thesis
    using assms model_findings_pack[OF Some] by (auto simp: model_extra_def rrn_fallback_def finding_of_def model_pack_def)
qed

lemma kr_default_rules:
  assumes "builtin ''kr-default'' = Some rules"
  shows "rz_rules rules = [jailbreak_rule Warn] @ secret_rules
      @ [plain_rule ''kr-identifiers'' [''kr_model''] at_all Redact (Some identifier_entities), contact_rule Mask]
      @ people_rules ''tag''"
  using assms by (auto simp: builtin_def builtin_rules_def)

lemma kr_default_packs:
  assumes "builtin ''kr-default'' = Some rules" "st \<in> at_all"
  shows "packs_for rules st = [''common'', ''kr_model'']"
proof -
  let ?z = "\<lparr>rz_template = [], rz_version = 0, rz_rules = [jailbreak_rule Warn] @ secret_rules
      @ [plain_rule ''kr-identifiers'' [''kr_model''] at_all Redact (Some identifier_entities), contact_rule Mask]
      @ people_rules ''tag''\<rparr>"
  have "packs_for rules st = packs_for ?z st"
    by (simp only: packs_for_def kr_default_rules[OF assms(1)] rule_set.select_convs)
  moreover have "list_all (\<lambda>st. packs_for ?z st = [''common'', ''kr_model'']) [LlmSend, ToolArgs, ToolResult, OutputStage]"
    by code_simp
  moreover have "st \<in> set [LlmSend, ToolArgs, ToolResult, OutputStage]"
    using assms(2) by (auto simp: at_all_def at_in_def at_out_def)
  ultimately show ?thesis unfolding list_all_iff by metis
qed

lemma kr_default_actions:
  assumes "builtin ''kr-default'' = Some rules" "r \<in> set (rz_rules rules)" "Redact \<le> ru_action r"
  shows "ru_action r = Redact \<or> ru_action r = Block"
proof -
  have "list_all (\<lambda>r. Redact \<le> ru_action r \<longrightarrow> ru_action r = Redact \<or> ru_action r = Block)
     ([jailbreak_rule Warn] @ secret_rules
      @ [plain_rule ''kr-identifiers'' [''kr_model''] at_all Redact (Some identifier_entities), contact_rule Mask]
      @ people_rules ''tag'')" by code_simp
  then show ?thesis using assms(2,3) unfolding kr_default_rules[OF assms(1)] list_all_iff by blast
qed

text \<open>
  A resident registration number never leaves in clear: under the default template, at every stage
  between the user and a model or tool, whatever the model service answers, each number the pattern
  matches lies in a span that is redacted, or the whole text is blocked.
\<close>
theorem resident_numbers_never_leave:
  assumes "builtin ''kr-default'' = Some rules" "st \<in> at_all" "include_respected libs" "i < length texts"
    "(a, b) \<in> set (rrn_spans (dl_decimal libs) False 0 (texts ! i))"
    "detect_texts libs sv texts (packs_for rules st) down = Some (fss, down')"
  shows "\<exists>res p1. apply_rules glibs ps (texts ! i) (fss ! i) rules st p = Some (res, p1)
    \<and> (\<exists>d\<in>set (ap_decisions res). dc_start d \<le> a \<and> b \<le> dc_end d \<and> (dc_action d = Redact \<or> blocked res))"
proof -
  note packs = kr_default_packs[OF assms(1,2)]
  have m: "model_pack \<in> set (packs_for rules st)" by (simp add: packs model_pack_def)
  obtain found where f: "detect libs (texts ! i) (filter (\<lambda>n. n \<noteq> model_pack) (packs_for rules st)) = Some found"
    "fss ! i = merge_findings (found @ model_extra libs (fst (model_findings sv texts down)) i (texts ! i))"
    by (rule detect_texts_nth[OF assms(6) m assms(4)])
  have "(a, b, ''RRN'') \<in> span_key ` set (fss ! i)"
    unfolding f(2) merge_findings_props(3) using extra_rrn assms(5) by fastforce
  then obtain g where g: "g \<in> set (fss ! i)" "fd_start g = a" "fd_end g = b" "fd_entity g = ''RRN''"
    by (auto simp: span_key_def)
  have "g \<notin> set found"
  proof
    assume "g \<in> set found"
    then have "g \<in> set (common_pack libs (texts ! i))"
      using detect_from[OF f(1)] by (auto simp: packs packs_table_def model_pack_def split: if_splits)
    then show False using common_pack_labels[OF assms(3)] g(4) by blast
  qed
  then have "g \<in> set (model_extra libs (fst (model_findings sv texts down)) i (texts ! i))"
    using g(1) merge_findings_props(4) unfolding f(2) by fastforce
  then have pk: "fd_pack g \<in> {''kr'', ''kr_model''}" by (rule extra_pack)
  let ?r = "plain_rule ''kr-identifiers'' [''kr_model''] at_all Redact (Some identifier_entities)"
  have "?r \<in> set (rz_rules rules)" by (simp add: kr_default_rules[OF assms(1)])
  moreover have "matches ?r (fd_entity g) (fd_pack g) st"
    using assms(2) pk g(4) by (auto simp: matches_def plain_rule_def pack_family_def identifier_entities_def)
  moreover have "ru_action ?r = Redact" by (simp add: plain_rule_def)
  ultimately obtain r where r: "rule_for rules (fd_entity g) (fd_pack g) st = Some r" "Redact \<le> ru_action r"
    using rule_for_strongest(2)[of ?r rules "fd_entity g" "fd_pack g" st] by auto
  have "comparable (matched (fss ! i) rules st)"
    using merged_comparable merge_findings_props(1) unfolding f(2) by blast
  then have "spans (fss ! i) rules st \<noteq> None" by (simp add: spans_def sort_matches_def split: list.split)
  then obtain ms where ms: "spans (fss ! i) rules st = Some ms" by blast
  obtain t p1 where t: "pieces glibs ps (texts ! i) 0 ms p = (t, p1)" by fastforce
  let ?res = "\<lparr>ap_text = t, ap_decisions = map decision_of ms\<rparr>"
  obtain x where x: "x \<in> set ms" "m_start x \<le> a" "b \<le> m_end x" "ru_action r \<le> ru_action (m_rule x)"
    using spans_cover[OF ms g(1) r(1)] g(2,3) by blast
  have "ru_action (m_rule x) = Redact \<or> ru_action (m_rule x) = Block"
    by (rule kr_default_actions[OF assms(1) spans_rule[OF ms x(1)] order_trans[OF r(2) x(4)]])
  then have "dc_action (decision_of x) = Redact \<or> blocked ?res"
    using x(1) by (auto simp: blocked_def list_ex_iff)
  then have "\<exists>d\<in>set (ap_decisions ?res). dc_start d \<le> a \<and> b \<le> dc_end d \<and> (dc_action d = Redact \<or> blocked ?res)"
    using x by (intro bexI[of _ "decision_of x"]) simp_all
  moreover have "apply_rules glibs ps (texts ! i) (fss ! i) rules st p = Some (?res, p1)"
    by (simp add: apply_rules_def ms t)
  ultimately show ?thesis by blast
qed

section \<open>Witnesses\<close>

definition demo_detectors :: detector_libs where
  "demo_detectors = \<lparr>dl_secrets = [], dl_jailbreak = [], dl_detect_all = (\<lambda>_ _ _. []), dl_decimal = between 48 57\<rparr>"

definition silent_service :: model_service where
  "silent_service = \<lparr>ms_enabled = True, ms_url = ''http://pii'', ms_ask = (\<lambda>_ _. None)\<rparr>"

definition demo_number :: utext where
  "demo_number = map of_char ''9001011234567''"

lemma demo_number_matches: "(0, 13) \<in> set (rrn_spans (dl_decimal demo_detectors) False 0 demo_number)"
  by code_simp

lemma silent_findings: "model_findings silent_service [demo_number] False = ([], True)"
  by (simp add: model_findings_def silent_service_def batches_def batch_step_def encoded_size_def json_char_bytes_def
      demo_number_def max_request_bytes_def parse_reply_def)

lemma detection_never_skipped_witness:
  "\<exists>fss down'. detect_texts demo_detectors silent_service [demo_number] [''common'', ''kr_model''] False = Some (fss, down')
     \<and> (0, 13, ''RRN'') \<in> span_key ` set (fss ! 0)"
proof -
  have "set [''common'', ''kr_model''] \<subseteq> pack_names" "model_pack \<in> set [''common'', ''kr_model'']" by code_simp+
  from detection_never_skipped[OF this, of 0 "[demo_number]" demo_detectors silent_service False]
  obtain fss down' where r: "detect_texts demo_detectors silent_service [demo_number] [''common'', ''kr_model''] False = Some (fss, down')"
    "(\<lambda>(a, b). (a, b, ''RRN'')) ` set (rrn_spans (dl_decimal demo_detectors) False 0 demo_number) \<subseteq> span_key ` set (fss ! 0)"
    by auto
  have "(0, 13, ''RRN'') \<in> (\<lambda>(a, b). (a, b, ''RRN'')) ` set (rrn_spans (dl_decimal demo_detectors) False 0 demo_number)"
    using demo_number_matches by force
  then show ?thesis using r by blast
qed

lemma resident_numbers_never_leave_witness:
  "\<exists>fss rules res. builtin ''kr-default'' = Some rules
     \<and> detect_texts demo_detectors silent_service [demo_number] [''common'', ''kr_model''] False = Some (fss, True)
     \<and> apply_rules demo_libs None demo_number (fss ! 0) rules LlmSend () = Some (res, ())
     \<and> (\<exists>d\<in>set (ap_decisions res). dc_start d = 0 \<and> 13 \<le> dc_end d \<and> (dc_action d = Redact \<or> blocked res))"
proof -
  obtain rules where b: "builtin ''kr-default'' = Some rules" by (simp add: builtin_def builtin_rules_def)
  have st: "LlmSend \<in> at_all" by (simp add: at_all_def at_in_def)
  obtain found where "detect_each demo_detectors [''common''] [demo_number] = Some found"
    using detect_each_total[of "[''common'']" demo_detectors "[demo_number]"] by (auto simp: packs_table_def)
  then obtain fss where d: "detect_texts demo_detectors silent_service [demo_number] [''common'', ''kr_model''] False = Some (fss, True)"
    by (simp add: detect_texts_def silent_findings model_pack_def)
  have "include_respected demo_detectors" by (simp add: include_respected_def demo_detectors_def)
  then have "\<exists>res p1. apply_rules demo_libs None ([demo_number] ! 0) (fss ! 0) rules LlmSend () = Some (res, p1)
    \<and> (\<exists>d\<in>set (ap_decisions res). dc_start d \<le> 0 \<and> 13 \<le> dc_end d \<and> (dc_action d = Redact \<or> blocked res))"
    by (rule resident_numbers_never_leave[OF b st, where libs = demo_detectors and sv = silent_service and down = False])
      (simp_all add: demo_number_matches d kr_default_packs[OF b st])
  then obtain res where "apply_rules demo_libs None demo_number (fss ! 0) rules LlmSend () = Some (res, ())"
    "\<exists>d\<in>set (ap_decisions res). dc_start d \<le> 0 \<and> 13 \<le> dc_end d \<and> (dc_action d = Redact \<or> blocked res)"
    by auto
  then show ?thesis using b d by (intro exI[of _ fss] exI[of _ rules] exI[of _ res]) simp
qed

end
