(* ===== verification/Pseudonyms.thy ===== *)
theory Pseudonyms
  imports GuardActions
begin

text \<open>
  A conversation's pseudonyms (\<open>guardrails/pseudonyms\<close>): issuing a token or a made-up name for a
  value, and putting the values back.

  Tokens and values are code points. The digest that recognises a value is a parameter; so is
  what the conversation's rows hold (decrypted). Writing the rows is the list of new entries.

  The lemmas show that issued tokens are distinct and remembered, that a text whose values were
  replaced by tokens comes back unchanged, and that a made-up name has the length and the final
  consonant of the original and occurs neither in the text nor in the map.
\<close>

section \<open>Tokens\<close>

definition number_text :: "nat \<Rightarrow> utext" where
  "number_text n = map of_char (digits n)"

text \<open>\<open><<ENTITY_n>>\<close>.\<close>

definition token_text :: "string \<Rightarrow> nat \<Rightarrow> utext" where
  "token_text entity n = [60, 60] @ chars entity @ [95] @ number_text n @ [62, 62]"

definition upper :: "int \<Rightarrow> bool" where "upper c = (65 \<le> c \<and> c \<le> 90)"
definition digit :: "int \<Rightarrow> bool" where "digit c = (48 \<le> c \<and> c \<le> 57)"

definition text_number :: "utext \<Rightarrow> nat" where
  "text_number s = fold (\<lambda>c n. 10 * n + nat (c - 48)) s 0"

text \<open>
  The \<open>TOKEN\<close> pattern at the start of a text: the number and the length of the match. The letters
  and the underscore before the number are the longest run of such characters, since a digit must follow.
\<close>

definition token_at :: "utext \<Rightarrow> (nat \<times> nat) option" where
  "token_at s =
     (let run = takeWhile (\<lambda>c. upper c \<or> c = 95) (drop 2 s);
          ent = butlast run;
          after = drop (2 + length run) s;
          num = takeWhile digit after
      in if take 2 s = [60, 60] \<and> run \<noteq> [] \<and> last run = 95
            \<and> 2 \<le> length ent \<and> length ent \<le> 40 \<and> upper (hd ent) \<and> upper (last ent)
            \<and> num \<noteq> [] \<and> length num \<le> 6 \<and> hd num \<noteq> 48
            \<and> take 2 (drop (length num) after) = [62, 62]
         then Some (text_number num, 4 + length run + length num) else None)"

definition token_number :: "utext \<Rightarrow> nat option" where
  "token_number tok = (case token_at tok of Some (n, k) \<Rightarrow> if k = length tok then Some n else None | None \<Rightarrow> None)"

section \<open>Made-up names\<close>

definition surnames :: "int list" where
  "surnames =
     [44608, 51060, 48149, 52572, 51221, 44053, 51312, 50980, 51109, 51076, 54620, 50724, 49436, 49888, 44428,
      54889, 50504, 49569, 47448, 54861]"

definition given_open :: "utext list" where
  "given_open =
     [[51456, 54840], [49436, 50500], [50696, 51452], [51648, 54840], [46020, 50864], [49884, 50500],
      [53468, 50724], [50980, 49436], [49436, 54980], [50500, 46972]]"

definition given_closed :: "utext list" where
  "given_closed =
     [[51648, 54984], [54788, 51456], [49436, 51652], [48124, 51456], [54616, 47536], [50696, 47536],
      [46020, 54788], [50976, 51652], [53468, 50980], [44032, 50728]]"

definition followers :: "utext list" where
  "followers =
     [[50640, 44172, 49436], [54620, 53580, 49436], [51060, 46972, 44256], [51060, 46972, 45716],
      [51060, 50640, 50836], [51077, 45768, 45796], [50640, 44172], [50640, 49436], [54620, 53580],
      [44760, 49436], [51060, 46993], [54616, 44256], [52376, 47100], [44057, 51060], [44620, 51648],
      [48512, 53552], [48372, 45796], [47560, 51200], [51312, 52264], [48150, 50640], [46972, 44256],
      [46972, 45716], [51060, 44256], [51060, 47728], [51060, 45208], [51060, 46304], [51060, 50556],
      [50696, 50836], [51004, 47196], [51060, 50836], [50472], [45784], [44760], [46993], [47196], [50752],
      [44284], [51032], [46020], [47564], [51008], [45716], [51060], [44032], [51012], [47484], [45208],
      [50556], [50500], [50640], [50836]]"

definition has_batchim :: "int \<Rightarrow> bool" where
  "has_batchim c = ((c - 44032) mod 28 \<noteq> 0)"

definition hangul :: "int \<Rightarrow> bool" where "hangul c = (44032 \<le> c \<and> c \<le> 55203)"

definition natural_candidates :: "utext \<Rightarrow> utext list" where
  "natural_candidates v =
     (let given = (if has_batchim (last v) then given_closed else given_open)
      in if length v = 3 then concat (map (\<lambda>g. map (\<lambda>s. s # g) surnames) given)
         else if length v = 2 then concat (map (\<lambda>g. map (\<lambda>s. [s, last g]) surnames) given)
         else [])"

text \<open>\<open>x in text\<close>.\<close>

fun occurs :: "utext \<Rightarrow> utext \<Rightarrow> bool" where
  "occurs x [] = (x = [])"
| "occurs x (c # cs) = (prefix x (c # cs) \<or> occurs x cs)"

section \<open>The map\<close>

record 'd pseudonyms =
  pn_by_digest :: "('d \<times> utext) list"
  pn_by_token :: "(utext \<times> utext) list"
  pn_entities :: "(utext \<times> string) list"
  pn_counters :: "(string \<times> nat) list"
  pn_invented :: nat
  pn_natural :: "(utext \<times> utext) list"
  pn_new :: "(utext \<times> string \<times> 'd \<times> utext) list"

definition no_pseudonyms :: "'d pseudonyms" where
  "no_pseudonyms = \<lparr>pn_by_digest = [], pn_by_token = [], pn_entities = [], pn_counters = [], pn_invented = 0,
     pn_natural = [], pn_new = []\<rparr>"

definition counter :: "'d pseudonyms \<Rightarrow> string \<Rightarrow> nat" where
  "counter p entity = (case map_of (pn_counters p) entity of None \<Rightarrow> 0 | Some n \<Rightarrow> n)"

definition remember :: "utext \<Rightarrow> string \<Rightarrow> 'd \<Rightarrow> utext \<Rightarrow> 'd pseudonyms \<Rightarrow> 'd pseudonyms" where
  "remember tok entity d v p =
     (let p1 = p\<lparr>pn_by_digest := AList.update d tok (pn_by_digest p),
                 pn_by_token := AList.update tok v (pn_by_token p),
                 pn_entities := AList.update tok entity (pn_entities p)\<rparr>
      in case token_number tok of
           Some n \<Rightarrow> p1\<lparr>pn_counters := AList.update entity (max (counter p1 entity) n) (pn_counters p1)\<rparr>
         | None \<Rightarrow> p1\<lparr>pn_natural := AList.update tok v (pn_natural p1)\<rparr>)"

text \<open>\<open>load\<close>: the conversation's rows, once.\<close>

definition load_rows :: "(utext \<times> string \<times> 'd \<times> utext) list \<Rightarrow> 'd pseudonyms \<Rightarrow> 'd pseudonyms" where
  "load_rows rows p = fold (\<lambda>(tok, entity, d, v). remember tok entity d v) rows p"

definition taken :: "'d pseudonyms \<Rightarrow> utext \<Rightarrow> utext list" where
  "taken p v = map fst (pn_by_token p) @ map snd (pn_by_token p) @ [v]"

definition name_free :: "'d pseudonyms \<Rightarrow> utext \<Rightarrow> utext \<Rightarrow> utext \<Rightarrow> bool" where
  "name_free p v context cand =
     (cand \<notin> set (taken p v) \<and> \<not> occurs cand context
      \<and> \<not> (length cand = 3 \<and> (tl cand \<in> set (map tl (filter (\<lambda>n. length n = 3) (taken p v))) \<or> occurs (tl cand) context)))"

definition natural_name :: "'d pseudonyms \<Rightarrow> utext \<Rightarrow> utext \<Rightarrow> utext option" where
  "natural_name p v context =
     (if \<not> (list_all hangul v \<and> 2 \<le> length v \<and> length v \<le> 4) then None
      else find (name_free p v context) (natural_candidates v))"

definition token_for ::
    "(string \<Rightarrow> utext \<Rightarrow> 'd) \<Rightarrow> string \<Rightarrow> utext \<Rightarrow> string \<Rightarrow> utext \<Rightarrow> 'd pseudonyms \<Rightarrow> utext \<times> 'd pseudonyms" where
  "token_for digest entity v style context p =
     (if map_of (pn_natural p) v \<noteq> None then (v, p)
      else case map_of (pn_by_digest p) (digest entity v) of
             Some tok \<Rightarrow> (tok, p)
           | None \<Rightarrow>
               (let name = (if style = ''natural'' \<and> entity = ''PERSON'' then natural_name p v context else None);
                    (tok, p1) = (case name of
                       Some x \<Rightarrow> (x, p)
                     | None \<Rightarrow>
                         let n = counter p entity + 1
                         in (token_text entity n, p\<lparr>pn_counters := AList.update entity n (pn_counters p)\<rparr>));
                    p2 = remember tok entity (digest entity v) v p1
                in (tok, p2\<lparr>pn_new := pn_new p2 @ [(tok, entity, digest entity v, v)]\<rparr>)))"

text \<open>\<open>flush\<close>: what is written and the map after it.\<close>

definition flush :: "'d pseudonyms \<Rightarrow> (utext \<times> string \<times> 'd \<times> utext) list \<times> 'd pseudonyms" where
  "flush p = (pn_new p, p\<lparr>pn_new := []\<rparr>)"

section \<open>Restoring\<close>

text \<open>\<open>TOKEN.sub\<close>: leftmost matches; each issued token becomes its value unless its entity is kept, and
  the ones nobody issued are counted.\<close>

function sub_tokens :: "'d pseudonyms \<Rightarrow> (string \<Rightarrow> bool) \<Rightarrow> utext \<Rightarrow> utext \<times> nat" where
  "sub_tokens p keep s =
     (case s of
        [] \<Rightarrow> ([], 0)
      | c # cs \<Rightarrow>
          (case token_at s of
             None \<Rightarrow> (let (t, k) = sub_tokens p keep cs in (c # t, k))
           | Some (_, n) \<Rightarrow>
               (let tok = take n s; (t, k) = sub_tokens p keep (drop (max 1 n) s)
                in case map_of (pn_by_token p) tok of
                     None \<Rightarrow> (tok @ t, Suc k)
                   | Some v \<Rightarrow> ((if (case map_of (pn_entities p) tok of None \<Rightarrow> False | Some e \<Rightarrow> keep e) then tok else v) @ t, k))))"
  by pat_completeness auto
termination by (relation "measure (\<lambda>(_, _, s). length s)") auto

declare sub_tokens.simps [simp del]

text \<open>\<open>str.replace\<close> for a needle that is not empty.\<close>

function replace_all :: "utext \<Rightarrow> utext \<Rightarrow> utext \<Rightarrow> utext" where
  "replace_all x y s =
     (case s of
        [] \<Rightarrow> []
      | c # cs \<Rightarrow> if prefix x s then y @ replace_all x y (drop (max 1 (length x)) s) else c # replace_all x y cs)"
  by pat_completeness auto
termination by (relation "measure (\<lambda>(_, _, s). length s)") auto

declare replace_all.simps [simp del]

definition space :: "int \<Rightarrow> bool" where
  "space c = ((9 \<le> c \<and> c \<le> 13) \<or> (28 \<le> c \<and> c \<le> 32) \<or> c = 133 \<or> c = 160 \<or> c = 5760 \<or> (8192 \<le> c \<and> c \<le> 8202)
     \<or> c = 8232 \<or> c = 8233 \<or> c = 8239 \<or> c = 8287 \<or> c = 12288)"

definition word_end :: "utext \<Rightarrow> bool" where
  "word_end s =
     (list_ex (\<lambda>f. prefix f s) followers
      \<or> (case s of [] \<Rightarrow> True
         | c # _ \<Rightarrow> space c \<or> c \<in> set [44, 46, 33, 63, 41, 93, 39, 34, 8217, 8221, 58, 59, 126]))"

text \<open>The given name alone, standing as a word; \<open>prev\<close>: a Hangul syllable comes just before.\<close>

function replace_given :: "utext \<Rightarrow> utext \<Rightarrow> bool \<Rightarrow> utext \<Rightarrow> utext" where
  "replace_given x y prev s =
     (case s of
        [] \<Rightarrow> []
      | c # cs \<Rightarrow>
          if \<not> prev \<and> prefix x s \<and> word_end (drop (length x) s)
          then y @ replace_given x y (x \<noteq> [] \<and> hangul (last x)) (drop (max 1 (length x)) s)
          else c # replace_given x y (hangul c) cs)"
  by pat_completeness auto
termination by (relation "measure (\<lambda>(_, _, _, s). length s)") auto

declare replace_given.simps [simp del]

definition restore_name :: "'d pseudonyms \<Rightarrow> (string \<Rightarrow> bool) \<Rightarrow> utext \<times> utext \<Rightarrow> utext \<Rightarrow> utext" where
  "restore_name p keep av s =
     (let (alias, v) = av in
      if (case map_of (pn_entities p) alias of None \<Rightarrow> False | Some e \<Rightarrow> keep e) then s
      else
        let t = replace_all alias v s
        in if length alias = 3 \<and> length v = 3 then replace_given (tl alias) (tl v) False t else t)"

definition restore_natural :: "'d pseudonyms \<Rightarrow> (string \<Rightarrow> bool) \<Rightarrow> utext \<Rightarrow> utext" where
  "restore_natural p keep s =
     (if pn_natural p = [] then s
      else fold (restore_name p keep) (sort_key (\<lambda>(a, _). - int (length a)) (pn_natural p)) s)"

definition restore :: "(string \<Rightarrow> bool) \<Rightarrow> utext \<Rightarrow> 'd pseudonyms \<Rightarrow> utext \<times> 'd pseudonyms" where
  "restore keep s p =
     (let t = restore_natural p keep s
      in if \<not> occurs [60, 60] t then (t, p)
         else let (u, k) = sub_tokens p keep t in (u, p\<lparr>pn_invented := pn_invented p + k\<rparr>))"

section \<open>Made-up names fit\<close>

lemma given_names:
  "list_all (\<lambda>g. length g = 2 \<and> \<not> has_batchim (last g)) given_open"
  "list_all (\<lambda>g. length g = 2 \<and> has_batchim (last g)) given_closed"
  by code_simp+

lemma candidates_fit:
  assumes "name \<in> set (natural_candidates v)"
  shows "length name = length v \<and> has_batchim (last name) = has_batchim (last v)"
proof -
  let ?given = "if has_batchim (last v) then given_closed else given_open"
  have two: "length g = 2 \<and> has_batchim (last g) = has_batchim (last v)" if "g \<in> set ?given" for g
    using that given_names by (cases "has_batchim (last v)") (simp_all add: list_all_iff)
  consider "length v = 3" | "length v = 2" | "natural_candidates v = []"
    by (cases "length v = 3"; cases "length v = 2") (simp_all add: natural_candidates_def)
  then show ?thesis
  proof cases
    case 1
    then obtain g s where g: "g \<in> set ?given" "name = s # g"
      using assms by (auto simp: natural_candidates_def Let_def simp del: set_simps)
    moreover have "g \<noteq> []" using two[OF g(1)] by auto
    ultimately show ?thesis using 1 two[OF g(1)] by simp
  next
    case 2
    then obtain g s where g: "g \<in> set ?given" "name = [s, last g]"
      using assms by (auto simp: natural_candidates_def Let_def)
    then show ?thesis using 2 two[OF g(1)] by simp
  next
    case 3 then show ?thesis using assms by simp
  qed
qed

text \<open>
  A made-up name fits where the real one stood: it has as many syllables, and its last one has a
  final consonant exactly when the original's has, so the particle after it stays right; it is not
  the value itself, occurs nowhere in the text, and was neither issued nor a value before.
\<close>
theorem made_up_name_fits:
  assumes "natural_name p v context = Some name"
  shows "length name = length v \<and> has_batchim (last name) = has_batchim (last v) \<and> name \<noteq> v
    \<and> \<not> occurs name context \<and> name \<notin> fst ` set (pn_by_token p) \<and> name \<notin> snd ` set (pn_by_token p)"
proof -
  have f: "find (name_free p v context) (natural_candidates v) = Some name"
    using assms by (auto simp: natural_name_def split: if_splits)
  then have c: "name \<in> set (natural_candidates v)" "name_free p v context name" by (auto simp: find_Some_iff)
  have l: "length name = length v" "has_batchim (last name) = has_batchim (last v)"
    using candidates_fit[OF c(1)] by simp_all
  have t: "name \<notin> set (taken p v)" "\<not> occurs name context" using c(2) by (simp_all add: name_free_def)
  then have "name \<notin> fst ` set (pn_by_token p)" "name \<notin> snd ` set (pn_by_token p)" "name \<noteq> v"
    by (simp_all add: taken_def)
  then show ?thesis using l t by simp
qed

section \<open>Numbers and tokens\<close>

lemma of_char_digit: "n < 10 \<Longrightarrow> (of_char (char_of (48 + n) :: char) :: int) = 48 + int n"
  by (subst of_nat_of_char[symmetric]) simp

lemma number_text_rec:
  "number_text n = (if n < 10 then [48 + int n] else number_text (n div 10) @ [48 + int (n mod 10)])"
  using of_char_digit[of n] of_char_digit[of "n mod 10"]
  by (simp add: number_text_def digits.simps[of n])

lemma digit_of: "n < 10 \<Longrightarrow> digit (48 + int n)"
  by (simp add: digit_def)

lemma number_text_digits: "list_all digit (number_text n)"
proof (induction n rule: less_induct)
  case (less n)
  show ?case
  proof (cases "n < 10")
    case True then show ?thesis by (simp add: number_text_rec[of n] digit_of)
  next
    case False
    then have "list_all digit (number_text (n div 10))" using less by simp
    then show ?thesis using False by (simp add: number_text_rec[of n] digit_of[simplified])
  qed
qed

lemma number_text_nonempty [simp]: "number_text n \<noteq> []"
  by (simp add: number_text_rec[of n])

lemma number_text_hd: "1 \<le> n \<Longrightarrow> hd (number_text n) \<noteq> 48"
proof (induction n rule: less_induct)
  case (less n)
  show ?case
  proof (cases "n < 10")
    case True then show ?thesis using less.prems by (simp add: number_text_rec[of n])
  next
    case False
    then have "hd (number_text (n div 10)) \<noteq> 48" using less by simp
    then show ?thesis using False by (simp add: number_text_rec[of n])
  qed
qed

lemma number_text_length: "n < 10 ^ Suc k \<Longrightarrow> length (number_text n) \<le> Suc k"
proof (induction k arbitrary: n)
  case 0 then show ?case by (simp add: number_text_rec[of n])
next
  case (Suc k)
  then have "n div 10 < 10 ^ Suc k" by (simp add: less_mult_imp_div_less mult.commute)
  then show ?case using Suc.IH[of "n div 10"] by (simp add: number_text_rec[of n])
qed

lemma text_number_snoc: "text_number (xs @ [c]) = 10 * text_number xs + nat (c - 48)"
  by (simp add: text_number_def)

lemma text_number_text [simp]: "text_number (number_text n) = n"
proof (induction n rule: less_induct)
  case (less n)
  show ?case
  proof (cases "n < 10")
    case True then show ?thesis by (simp add: number_text_rec[of n] text_number_def)
  next
    case False
    then have "text_number (number_text (n div 10)) = n div 10" using less by simp
    then show ?thesis using False by (simp add: number_text_rec[of n] text_number_snoc)
  qed
qed

text \<open>Entities a token can carry.\<close>

definition tag_entity :: "string \<Rightarrow> bool" where
  "tag_entity e = (2 \<le> length e \<and> length e \<le> 40 \<and> list_all (\<lambda>c. upper (of_char c) \<or> (of_char c :: int) = 95) e
     \<and> upper (of_char (hd e)) \<and> upper (of_char (last e)))"

lemma tag_entity_ends:
  assumes "tag_entity e" shows "upper (hd (map of_char e))" "upper (last (map of_char e))"
proof -
  have "e \<noteq> []" using assms by (auto simp: tag_entity_def)
  then show "upper (hd (map of_char e))" "upper (last (map of_char e))"
    using assms unfolding tag_entity_def hd_map[OF \<open>e \<noteq> []\<close>] last_map[OF \<open>e \<noteq> []\<close>] by blast+
qed

lemma utf8_ascii: "list_all (\<lambda>c. c < 128) xs \<Longrightarrow> utf8_decode xs = xs"
  by (induction xs rule: utf8_decode.induct) auto

lemma chars_ascii: "list_all (\<lambda>c. upper (of_char c) \<or> (of_char c :: int) = 95) e \<Longrightarrow> chars e = map of_char e"
  unfolding chars_def by (rule utf8_ascii) (auto simp: list_all_iff upper_def)

lemma takeWhile_stop: "list_all P xs \<Longrightarrow> \<not> P y \<Longrightarrow> takeWhile P (xs @ y # ys) = xs"
  by (induction xs) auto

lemma token_at_token:
  assumes "tag_entity e" "1 \<le> n" "n < 1000000"
  shows "token_at (token_text e n @ rest) = Some (n, length (token_text e n))"
proof -
  let ?e = "map of_char e :: utext"
  let ?num = "number_text n"
  have e: "chars e = ?e" using assms(1) chars_ascii by (simp add: tag_entity_def)
  obtain d ds where d: "?num = d # ds" by (cases ?num) simp_all
  then have dig: "digit d" using number_text_digits[of n] by simp
  have tail: "drop 2 (token_text e n @ rest) = (?e @ [95]) @ d # ds @ 62 # 62 # rest"
    by (simp add: token_text_def e d)
  have run: "takeWhile (\<lambda>c. upper c \<or> c = 95) (drop 2 (token_text e n @ rest)) = ?e @ [95]"
    unfolding tail using assms(1) dig
    by (intro takeWhile_stop) (auto simp: tag_entity_def list_all_iff digit_def upper_def)
  have after: "drop (2 + length (?e @ [95])) (token_text e n @ rest) = ?num @ 62 # 62 # rest"
    by (simp add: token_text_def e)
  have num: "takeWhile digit (?num @ 62 # 62 # rest) = ?num"
    by (rule takeWhile_stop[OF number_text_digits]) (simp add: digit_def)
  have len: "length ?num \<le> 6" using number_text_length[of n 5] assms(3) by simp
  have ends: "upper (hd ?e)" "upper (last ?e)" "2 \<le> length ?e" "length ?e \<le> 40"
    using assms(1) tag_entity_ends[of e] by (simp_all add: tag_entity_def)
  show ?thesis
    unfolding token_at_def Let_def run after num
    using len ends number_text_hd[OF assms(2)]
    by (simp add: token_text_def e)
qed

lemma token_number_token: "tag_entity e \<Longrightarrow> 1 \<le> n \<Longrightarrow> n < 1000000 \<Longrightarrow> token_number (token_text e n) = Some n"
  using token_at_token[of e n "[]"] by (simp add: token_number_def)

lemma token_text_inj:
  assumes "tag_entity e" "tag_entity e'" "1 \<le> n" "n < 1000000" "1 \<le> n'" "n' < 1000000" "token_text e n = token_text e' n'"
  shows "e = e' \<and> n = n'"
proof -
  have n: "n = n'" using token_number_token assms by (metis option.inject)
  then have "chars e = chars e'" using assms(7) by (simp add: token_text_def)
  then have "map (of_char :: char \<Rightarrow> int) e = map of_char e'"
    using assms(1,2) chars_ascii by (simp add: tag_entity_def)
  then show ?thesis using n by (simp add: map_injective inj_def)
qed

lemma token_text_start: "\<exists>r. token_text e n = 60 # 60 # r"
  by (simp add: token_text_def)

section \<open>Issued tokens\<close>

text \<open>What the map holds after tokens alone were issued: every row's token carries its entity and a
  number up to the counter, stands for its value, and its digest is the value's.\<close>

definition issued :: "'d pseudonyms \<Rightarrow> utext \<Rightarrow> bool" where
  "issued p tok \<longleftrightarrow> (\<exists>e n. tag_entity e \<and> 1 \<le> n \<and> n \<le> counter p e \<and> tok = token_text e n)"

definition tokens_only :: "(string \<Rightarrow> utext \<Rightarrow> 'd) \<Rightarrow> 'd pseudonyms \<Rightarrow> bool" where
  "tokens_only digest p \<longleftrightarrow> pn_natural p = []
     \<and> (\<forall>tok. map_of (pn_by_token p) tok \<noteq> None \<longrightarrow> issued p tok)
     \<and> (\<forall>e v tok. map_of (pn_by_digest p) (digest e v) = Some tok \<longrightarrow> map_of (pn_by_token p) tok = Some v)"

lemma tokens_only_empty [simp]: "tokens_only digest no_pseudonyms"
  by (simp add: tokens_only_def no_pseudonyms_def)

definition room :: "nat \<Rightarrow> 'd pseudonyms \<Rightarrow> bool" where
  "room k p \<longleftrightarrow> (\<forall>e. counter p e + k < 1000000)"

definition extends :: "'d pseudonyms \<Rightarrow> 'd pseudonyms \<Rightarrow> bool" where
  "extends p q \<longleftrightarrow> (\<forall>tok v. map_of (pn_by_token p) tok = Some v \<longrightarrow> map_of (pn_by_token q) tok = Some v)"

lemma extends_refl [simp]: "extends p p"
  by (simp add: extends_def)

lemma extends_trans: "extends p q \<Longrightarrow> extends q r \<Longrightarrow> extends p r"
  by (simp add: extends_def)

text \<open>The map after a new token.\<close>

definition with_token :: "(string \<Rightarrow> utext \<Rightarrow> 'd) \<Rightarrow> string \<Rightarrow> utext \<Rightarrow> 'd pseudonyms \<Rightarrow> 'd pseudonyms" where
  "with_token digest e v p =
     (let n = counter p e + 1; tok = token_text e n
      in p\<lparr>pn_by_digest := AList.update (digest e v) tok (pn_by_digest p),
           pn_by_token := AList.update tok v (pn_by_token p),
           pn_entities := AList.update tok e (pn_entities p),
           pn_counters := AList.update e n (AList.update e n (pn_counters p)),
           pn_new := pn_new p @ [(tok, e, digest e v, v)]\<rparr>)"

lemma map_of_update [simp]: "map_of (AList.update k v al) x = (if x = k then Some v else map_of al x)"
  by (simp add: update_conv')

lemma token_for_new:
  assumes "pn_natural p = []" "map_of (pn_by_digest p) (digest e v) = None" "style \<noteq> ''natural''"
    "tag_entity e" "counter p e + 1 < 1000000"
  shows "token_for digest e v style context p = (token_text e (counter p e + 1), with_token digest e v p)"
proof -
  have n: "token_number (token_text e (Suc (counter p e))) = Some (Suc (counter p e))"
    using token_number_token[OF assms(4), of "Suc (counter p e)"] assms(5) by simp
  show ?thesis
    using assms(1,2,3) n by (simp add: token_for_def remember_def with_token_def counter_def Let_def)
qed

lemma counter_with_token: "counter (with_token digest e v p) x = (if x = e then counter p e + 1 else counter p x)"
  by (simp add: counter_def with_token_def Let_def)

lemma with_token_fields [simp]:
  "pn_natural (with_token digest e v p) = pn_natural p"
  "map_of (pn_by_token (with_token digest e v p)) tok
     = (if tok = token_text e (counter p e + 1) then Some v else map_of (pn_by_token p) tok)"
  "map_of (pn_by_digest (with_token digest e v p)) d
     = (if d = digest e v then Some (token_text e (counter p e + 1)) else map_of (pn_by_digest p) d)"
  by (simp_all add: with_token_def Let_def)

lemma new_token_fresh:
  assumes "tokens_only digest p" "room 1 p" "tag_entity e"
  shows "map_of (pn_by_token p) (token_text e (counter p e + 1)) = None"
proof (rule ccontr)
  assume "map_of (pn_by_token p) (token_text e (counter p e + 1)) \<noteq> None"
  then obtain e' n where n: "tag_entity e'" "1 \<le> n" "n \<le> counter p e'" "token_text e (counter p e + 1) = token_text e' n"
    using assms(1) unfolding tokens_only_def issued_def by blast
  have "counter p e + 1 < 1000000" "n < 1000000"
    using assms(2) n(3) by (auto simp: room_def dest: spec[of _ e] spec[of _ e'])
  then have "e = e' \<and> counter p e + 1 = n"
    by (intro token_text_inj[OF assms(3) n(1) _ _ n(2) _ n(4)]) simp_all
  then have "counter p e + 1 \<le> counter p e" using n(3) by metis
  then show False by simp
qed

lemma token_for_tag:
  fixes digest :: "string \<Rightarrow> utext \<Rightarrow> 'd"
  assumes ok: "tokens_only digest p" "room (Suc k) p" "tag_entity e" "style \<noteq> ''natural''"
    and inj: "\<forall>e v e' v'. digest e v = digest e' v' \<longrightarrow> v = v'"
    and tf: "token_for digest e v style context p = (tok, q)"
  shows "tokens_only digest q \<and> room k q \<and> extends p q \<and> map_of (pn_by_token q) tok = Some v \<and> issued q tok"
proof (cases "map_of (pn_by_digest p) (digest e v)")
  case (Some t)
  have q: "t = tok" "q = p" using tf ok(1) Some by (simp_all add: token_for_def tokens_only_def)
  then have v: "map_of (pn_by_token p) tok = Some v" using ok(1) Some by (simp add: tokens_only_def)
  then have "issued p tok" using ok(1) by (simp add: tokens_only_def)
  moreover have "room k p" using ok(2) by (simp add: room_def Suc_lessD)
  ultimately show ?thesis using q v ok(1) by simp
next
  case None
  let ?n = "counter p e + 1"
  have r: "counter p x + Suc k < 1000000" for x using ok(2) unfolding room_def by blast
  have lt: "?n < 1000000" using r[of e] by simp
  have nat: "pn_natural p = []" using ok(1) by (simp add: tokens_only_def)
  have q: "tok = token_text e ?n" "q = with_token digest e v p"
    using tf unfolding token_for_new[of p digest e v style, OF nat None ok(4) ok(3) lt] by simp_all
  have one: "room 1 p" unfolding room_def
  proof
    show "counter p x + 1 < 1000000" for x using r[of x] by simp
  qed
  have fresh: "map_of (pn_by_token p) tok = None" using new_token_fresh[OF ok(1) one ok(3)] q(1) by simp
  have mono: "issued p t \<Longrightarrow> issued q t" for t
    unfolding issued_def q(2) counter_with_token by (metis le_SucI Suc_eq_plus1)
  have tok: "issued q tok" unfolding issued_def q counter_with_token using ok(3) by (intro exI[of _ e] exI[of _ ?n]) simp
  have "extends p q" using fresh by (auto simp: extends_def q)
  moreover have "room k q"
    unfolding room_def
  proof
    show "counter q x + k < 1000000" for x
      unfolding q(2) counter_with_token using r[of x] by (cases "x = e") simp_all
  qed
  moreover have "tokens_only digest q"
    unfolding tokens_only_def
  proof (intro conjI allI impI)
    show "pn_natural q = []" using nat q(2) by simp
    show "issued q t" if "map_of (pn_by_token q) t \<noteq> None" for t
      using that mono[of t] tok ok(1) by (cases "t = tok") (simp_all add: q tokens_only_def)
    show "map_of (pn_by_token q) t = Some v'" if d: "map_of (pn_by_digest q) (digest e' v') = Some t" for e' v' t
    proof (cases "digest e' v' = digest e v")
      case True
      then have "v' = v" using inj by blast
      then show ?thesis using d True by (simp add: q)
    next
      case False
      then have old: "map_of (pn_by_token p) t = Some v'" using d ok(1) by (simp add: q(2) tokens_only_def)
      then show ?thesis using fresh by (auto simp: q)
    qed
  qed
  ultimately show ?thesis using tok by (simp add: q)
qed

section \<open>Values come back\<close>

text \<open>The callback \<open>Guard._apply\<close> gives to \<open>apply\<close> for a text.\<close>

definition token_callback :: "(string \<Rightarrow> utext \<Rightarrow> 'd) \<Rightarrow> utext \<Rightarrow> 'd pseudonyms pseudonymizer" where
  "token_callback digest s = Some (\<lambda>entity v r p. token_for digest entity v (ru_style r) s p)"

lemma occurs_sublist: "occurs x s \<longleftrightarrow> sublist x s"
  by (induction s) (auto simp: sublist_Cons_right)

lemma no_pair_drop: "\<not> occurs x s \<Longrightarrow> \<not> occurs x (drop n s)"
  unfolding occurs_sublist by (meson sublist_drop sublist_order.order_trans)

lemma no_pair_slice: "\<not> occurs x s \<Longrightarrow> \<not> occurs x (slice a b s)"
  unfolding slice_def occurs_sublist by (meson sublist_drop sublist_take sublist_order.order_trans)

lemma token_at_not_pair: "take 2 s \<noteq> [60, 60] \<Longrightarrow> token_at s = None"
  by (simp add: token_at_def Let_def)

lemma token_at_triple: "token_at (60 # 60 # 60 # r) = None"
  by (simp add: token_at_def Let_def upper_def)

lemma sub_tokens_gap:
  assumes "\<not> occurs [60, 60] xs" "rest = [] \<or> (\<exists>r. rest = 60 # 60 # r)"
  shows "sub_tokens p keep (xs @ rest) = (let (t, k) = sub_tokens p keep rest in (xs @ t, k))"
  using assms(1)
proof (induction xs)
  case (Cons c cs)
  have none: "token_at ((c # cs) @ rest) = None"
  proof (cases "c = 60 \<and> cs = []")
    case True
    then show ?thesis using assms(2) by (auto simp: token_at_triple token_at_not_pair)
  next
    case False
    then have "take 2 ((c # cs) @ rest) \<noteq> [60, 60]" using Cons.prems by (cases cs) auto
    then show ?thesis by (rule token_at_not_pair)
  qed
  have "sub_tokens p keep (cs @ rest) = (let (t, k) = sub_tokens p keep rest in (cs @ t, k))"
    using Cons.prems by (intro Cons.IH) simp
  then show ?case
    using none by (subst sub_tokens.simps) (simp split: prod.splits)
qed simp

lemma sub_tokens_at:
  assumes "token_at s = Some (n, m)" "s \<noteq> []" "map_of (pn_by_token p) (take m s) = Some v"
  shows "sub_tokens p (\<lambda>_. False) s = (let (t, k) = sub_tokens p (\<lambda>_. False) (drop (max 1 m) s) in (v @ t, k))"
proof -
  obtain c cs where s: "s = c # cs" using assms(2) by (cases s) auto
  have keep: "(case x of None \<Rightarrow> False | Some e \<Rightarrow> False) = False" for x :: "string option" by (cases x) simp_all
  show ?thesis
    using assms(1,3) unfolding s by (subst sub_tokens.simps) (simp add: Let_def keep del: take_Suc_Cons)
qed

lemma sub_tokens_token:
  assumes "tag_entity e" "1 \<le> n" "n < 1000000" "map_of (pn_by_token p) (token_text e n) = Some v"
  shows "sub_tokens p (\<lambda>_. False) (token_text e n @ rest)
    = (let (t, k) = sub_tokens p (\<lambda>_. False) rest in (v @ t, k))"
proof -
  obtain r where r: "token_text e n = 60 # 60 # r" by (auto simp: token_text_def)
  have d: "drop (max 1 (length (token_text e n))) (token_text e n @ rest) = rest" by (simp add: r max_def)
  have t: "take (length (token_text e n)) (token_text e n @ rest) = token_text e n" by simp
  have ne: "token_text e n @ rest \<noteq> []" by (simp add: r)
  show ?thesis
    using sub_tokens_at[of "token_text e n @ rest" n "length (token_text e n)" p v,
        OF token_at_token[OF assms(1,2,3)] ne] assms(4)
    unfolding t d by blast
qed

text \<open>A span that a token replaces.\<close>

definition token_span :: "match \<Rightarrow> bool" where
  "token_span m = (ru_action (m_rule m) = Pseudonymize \<and> ru_style (m_rule m) \<noteq> ''natural'' \<and> tag_entity (fst (snd (snd m))))"

lemma slice_glue: "c \<le> a \<Longrightarrow> a \<le> b \<Longrightarrow> slice c a s @ slice a b s @ drop b s = drop c s"
proof -
  have glue: "slice i j s @ drop j s = drop i s" if "i \<le> j" for i j
    using append_take_drop_id[of j s] that
    by (metis (no_types, lifting) drop_append drop_drop drop_take le_add_diff_inverse2 slice_def append_take_drop_id)
  assume "c \<le> a" "a \<le> b"
  then show ?thesis using glue[of a b] glue[of c a] by simp
qed

lemma pieces_come_back:
  fixes digest :: "string \<Rightarrow> utext \<Rightarrow> 'd" and p q :: "'d pseudonyms"
  assumes inj: "\<forall>e v e' v'. digest e v = digest e' v' \<longrightarrow> v = v'"
    and no: "\<not> occurs [60, 60] s"
    and "ordered_spans c ms" "list_all token_span ms" "tokens_only digest p" "room (length ms) p"
    and "pieces libs (token_callback digest s) s c ms p = (t, q)"
  shows "tokens_only digest q \<and> extends p q
    \<and> (\<forall>r. extends q r \<longrightarrow> sub_tokens r (\<lambda>_. False) t = (drop c s, 0))"
  using assms(3-7)
proof (induction ms arbitrary: c p t)
  case Nil
  have "sub_tokens r (\<lambda>_. False) (drop c s @ []) = (drop c s, 0)" for r :: "'d pseudonyms"
    unfolding sub_tokens_gap[OF no_pair_drop[OF no], of "[]", OF disjI1[OF refl]]
    by (subst sub_tokens.simps) simp
  then show ?case using Nil by simp
next
  case (Cons m ms)
  obtain a b ent r where m: "m = (a, b, ent, r)" by (cases m)
  have o: "c \<le> a" "a \<le> b" "ordered_spans b ms" using Cons.prems(1) by (simp_all add: m)
  have sp: "ru_action r = Pseudonymize" "ru_style r \<noteq> ''natural''" "tag_entity ent"
    using Cons.prems(2) by (simp_all add: m token_span_def)
  obtain tok p1 where tok: "token_for digest ent (slice a b s) (ru_style r) s p = (tok, p1)" by fastforce
  obtain t' where t': "pieces libs (token_callback digest s) s b ms p1 = (t', q)" "t = slice c a s @ tok @ t'"
    using Cons.prems(5) by (auto simp: m piece_def token_callback_def sp(1) tok split: prod.splits)
  have room: "room (Suc (length ms)) p" using Cons.prems(4) by simp
  note step = token_for_tag[of digest, OF Cons.prems(3) room sp(3) sp(2) inj tok]
  have ih: "tokens_only digest q \<and> extends p1 q \<and> (\<forall>r. extends q r \<longrightarrow> sub_tokens r (\<lambda>_. False) t' = (drop b s, 0))"
    using step by (intro Cons.IH[OF o(3) _ _ _ t'(1)]) (use Cons.prems(2) in simp_all)
  obtain e n where n: "tag_entity e" "1 \<le> n" "n \<le> counter p1 e" "tok = token_text e n"
    using step unfolding issued_def by blast
  have "counter p1 e + length ms < 1000000" using step unfolding room_def by blast
  then have lt: "n < 1000000" using n(3) by simp
  have "sub_tokens x (\<lambda>_. False) t = (drop c s, 0)" if x: "extends q x" for x
  proof -
    have v: "map_of (pn_by_token x) (token_text e n) = Some (slice a b s)"
      using step ih x unfolding extends_def n(4) by blast
    have start: "token_text e n @ t' = [] \<or> (\<exists>r. token_text e n @ t' = 60 # 60 # r)"
      by (simp add: token_text_def)
    have "sub_tokens x (\<lambda>_. False) t' = (drop b s, 0)" using ih x by blast
    then have "sub_tokens x (\<lambda>_. False) (token_text e n @ t') = (slice a b s @ drop b s, 0)"
      unfolding sub_tokens_token[OF n(1,2) lt v] by simp
    then have "sub_tokens x (\<lambda>_. False) (slice c a s @ token_text e n @ t') = (slice c a s @ slice a b s @ drop b s, 0)"
      unfolding sub_tokens_gap[OF no_pair_slice[OF no] start] by simp
    then show ?thesis unfolding t'(2) n(4) slice_glue[OF o(1,2)] .
  qed
  then show ?case using ih step extends_trans by blast
qed

lemma spans_are_tokens:
  assumes "spans fs rules st = Some ms" "list_all (\<lambda>f. tag_entity (fd_entity f)) fs"
    "list_all (\<lambda>r. ru_action r = Pseudonymize \<and> ru_style r \<noteq> ''natural'') (rz_rules rules)"
  shows "list_all token_span ms"
  unfolding list_all_iff
proof
  fix m assume m: "m \<in> set ms"
  obtain f where "f \<in> set fs" "fst (snd (snd m)) = fd_entity f" using spans_answer[OF assms(1) m] by blast
  then have "tag_entity (fst (snd (snd m)))" using assms(2) by (simp add: list_all_iff)
  then show "token_span m" using spans_rule[OF assms(1) m] assms(3) by (simp add: token_span_def list_all_iff)
qed


section \<open>Witnesses\<close>

definition demo_tagging :: rule_set where
  "demo_tagging = \<lparr>rz_template = ''demo'', rz_version = 1,
     rz_rules = [plain_rule ''names'' [''kr''] {LlmSend} Pseudonymize None]\<rparr>"

definition demo_people :: "finding list" where
  "demo_people = [demo_finding ''PERSON'' ''kr'' 0 2, demo_finding ''PERSON'' ''kr'' 3 5, demo_finding ''PERSON'' ''kr'' 6 8]"

definition demo_names :: utext where "demo_names = [71, 72, 60, 73, 74, 62, 71, 72]"


lemma made_up_name_fits_witness:
  "case natural_name (no_pseudonyms :: nat pseudonyms) [44608, 51648, 54984] [44608, 51648, 54984, 51060] of
     None \<Rightarrow> False | Some name \<Rightarrow> length name = 3 \<and> has_batchim (last name)"
proof -
  have "natural_name (no_pseudonyms :: nat pseudonyms) [44608, 51648, 54984] [44608, 51648, 54984, 51060] \<noteq> None"
    by code_simp
  then obtain name where n: "natural_name (no_pseudonyms :: nat pseudonyms) [44608, 51648, 54984] [44608, 51648, 54984, 51060] = Some name"
    by blast
  have "has_batchim 54984" by code_simp
  then show ?thesis using made_up_name_fits[OF n] by (simp add: n)
qed

end
