(* ===== verification/Messages.thy ===== *)
theory Messages
  imports Pseudonyms
begin

text \<open>
  Texts in chat messages (\<open>guardrails/middleware\<close>): finding every text a message carries (its content,
  its blocks, the arguments of its tool calls) with the slot it sits in, and putting changed texts back.

  A value is a string, a dict, a list, a tuple or something without text. Keys are strings. Raising
  (\<open>KeyError\<close>, \<open>IndexError\<close>, \<open>TypeError\<close>) is \<open>None\<close>, and so is a path that goes on below a string,
  which no caller passes.

  The lemmas show that putting a text into a slot changes exactly that slot, so that rebuilding a message
  never raises and gives a message whose texts are the changed ones, in the same slots.
\<close>

section \<open>Values\<close>

datatype val = VStr utext | VDict "(string \<times> val) list" | VList "val list" | VTuple "val list" | VOther nat

datatype step = Key string | Index nat

type_synonym path = "step list"

definition under :: "step \<Rightarrow> (path \<times> utext) list \<Rightarrow> (path \<times> utext) list" where
  "under x ls = map (\<lambda>(p, t). (x # p, t)) ls"

fun leaves :: "val \<Rightarrow> (path \<times> utext) list"
  and leaves_dict :: "(string \<times> val) list \<Rightarrow> (path \<times> utext) list"
  and leaves_from :: "nat \<Rightarrow> val list \<Rightarrow> (path \<times> utext) list" where
  "leaves (VStr t) = [([], t)]"
| "leaves (VDict kvs) = leaves_dict kvs"
| "leaves (VList vs) = leaves_from 0 vs"
| "leaves (VTuple vs) = leaves_from 0 vs"
| "leaves (VOther n) = []"
| "leaves_dict [] = []"
| "leaves_dict ((k, v) # kvs) = under (Key k) (leaves v) @ leaves_dict kvs"
| "leaves_from n [] = []"
| "leaves_from n (v # vs) = under (Index n) (leaves v) @ leaves_from (Suc n) vs"

fun replace_leaf :: "path \<Rightarrow> utext \<Rightarrow> val \<Rightarrow> val option" where
  "replace_leaf [] t v = Some (VStr t)"
| "replace_leaf (Key k # p) t (VDict kvs) =
     (case map_of kvs k of
        None \<Rightarrow> None
      | Some v \<Rightarrow> (case replace_leaf p t v of None \<Rightarrow> None | Some w \<Rightarrow> Some (VDict (AList.update k w kvs))))"
| "replace_leaf (Index i # p) t (VList vs) =
     (if i < length vs
      then (case replace_leaf p t (vs ! i) of None \<Rightarrow> None | Some w \<Rightarrow> Some (VList (vs[i := w])))
      else None)"
| "replace_leaf (Index i # p) t (VTuple vs) =
     (if i < length vs
      then (case replace_leaf p t (vs ! i) of None \<Rightarrow> None | Some w \<Rightarrow> Some (VTuple (vs[i := w])))
      else None)"
| "replace_leaf _ _ _ = None"

section \<open>Messages\<close>

datatype role = Human | Ai | ToolAnswer | OtherRole

datatype content = CText utext | CBlocks "val list" | COther

record tool_call =
  tc_id :: string
  tc_name :: string
  tc_args :: val

record message =
  mg_role :: role
  mg_content :: content
  mg_calls :: "tool_call list"

datatype slot = Content | Block nat path | Arg nat path

definition skipped_blocks :: "utext set" where
  "skipped_blocks = {chars ''thinking'', chars ''redacted_thinking'', chars ''reasoning''}"

definition block_texts :: "nat \<Rightarrow> val \<Rightarrow> (slot \<times> utext) list" where
  "block_texts i b =
     (case b of
        VStr t \<Rightarrow> [(Block i [], t)]
      | VDict kvs \<Rightarrow>
          if (case map_of kvs ''type'' of Some (VStr t) \<Rightarrow> t \<in> skipped_blocks | _ \<Rightarrow> False) then []
          else (case map_of kvs ''text'' of Some (VStr t) \<Rightarrow> [(Block i [Key ''text''], t)] | _ \<Rightarrow> [])
            @ (case map_of kvs ''input'' of
                 Some (VDict d) \<Rightarrow> map (\<lambda>(p, t). (Block i (Key ''input'' # p), t)) (leaves (VDict d))
               | _ \<Rightarrow> [])
      | _ \<Rightarrow> [])"

definition content_texts :: "content \<Rightarrow> (slot \<times> utext) list" where
  "content_texts c =
     (case c of
        CText t \<Rightarrow> [(Content, t)]
      | CBlocks bs \<Rightarrow> concat (map (\<lambda>(i, b). block_texts i b) (enumerate 0 bs))
      | COther \<Rightarrow> [])"

definition call_texts :: "tool_call list \<Rightarrow> (slot \<times> utext) list" where
  "call_texts cs = concat (map (\<lambda>(i, c). map (\<lambda>(p, t). (Arg i p, t)) (leaves (tc_args c))) (enumerate 0 cs))"

definition message_texts :: "message \<Rightarrow> (slot \<times> utext) list" where
  "message_texts m = content_texts (mg_content m) @ (if mg_role m = Ai then call_texts (mg_calls m) else [])"

section \<open>Putting texts back\<close>

definition set_content :: "slot \<Rightarrow> utext \<Rightarrow> content \<Rightarrow> content option" where
  "set_content s t c =
     (case s of
        Content \<Rightarrow> Some (CText t)
      | Block i p \<Rightarrow>
          (let bs = (case c of CBlocks bs \<Rightarrow> bs | _ \<Rightarrow> []) in
           if i < length bs
           then (case (if p = [] then Some (VStr t) else replace_leaf p t (bs ! i)) of
                   None \<Rightarrow> None | Some w \<Rightarrow> Some (CBlocks (bs[i := w])))
           else None)
      | Arg _ _ \<Rightarrow> Some c)"

definition set_arg :: "slot \<Rightarrow> utext \<Rightarrow> tool_call list \<Rightarrow> tool_call list option" where
  "set_arg s t cs =
     (case s of
        Arg i p \<Rightarrow>
          if i < length cs
          then (case replace_leaf p t (tc_args (cs ! i)) of
                  None \<Rightarrow> None | Some w \<Rightarrow> Some (cs[i := (cs ! i)\<lparr>tc_args := w\<rparr>]))
          else None
      | _ \<Rightarrow> Some cs)"

fun each_change :: "(slot \<Rightarrow> utext \<Rightarrow> 'c \<Rightarrow> 'c option) \<Rightarrow> (slot \<times> utext) list \<Rightarrow> 'c \<Rightarrow> 'c option" where
  "each_change f [] c = Some c"
| "each_change f ((s, t) # changes) c = (case f s t c of None \<Rightarrow> None | Some c' \<Rightarrow> each_change f changes c')"

definition rebuild :: "message \<Rightarrow> (slot \<times> utext) list \<Rightarrow> message option" where
  "rebuild m changes =
     (case each_change set_content changes (mg_content m) of
        None \<Rightarrow> None
      | Some c \<Rightarrow>
          if mg_role m = Ai then
            (case each_change set_arg changes (mg_calls m) of
               None \<Rightarrow> None
             | Some cs \<Rightarrow> Some (m\<lparr>mg_content := c, mg_calls := cs\<rparr>))
          else Some (m\<lparr>mg_content := c\<rparr>))"

section \<open>One leaf\<close>

text \<open>A dict has each key once.\<close>

fun proper :: "val \<Rightarrow> bool" where
  "proper (VDict kvs) = (distinct (map fst kvs) \<and> list_all (\<lambda>(_, v). proper v) kvs)"
| "proper (VList vs) = list_all proper vs"
| "proper (VTuple vs) = list_all proper vs"
| "proper _ = True"

text \<open>The texts with one of them changed.\<close>

definition put :: "'s \<Rightarrow> utext \<Rightarrow> ('s \<times> utext) list \<Rightarrow> ('s \<times> utext) list" where
  "put s t ls = map (\<lambda>(q, x). (q, if q = s then t else x)) ls"

lemma put_simps [simp]:
  "put s t [] = []" "put s t ((q, x) # ls) = (q, if q = s then t else x) # put s t ls"
  "put s t (xs @ ys) = put s t xs @ put s t ys"
  by (simp_all add: put_def)

text \<open>Where the texts are.\<close>

definition places :: "('s \<times> utext) list \<Rightarrow> 's set" where
  "places ls = fst ` set ls"

lemma places_simps [simp]:
  "places [] = {}" "places ((q, x) # ls) = insert q (places ls)" "places (xs @ ys) = places xs \<union> places ys"
  by (auto simp: places_def)

lemma put_absent: "s \<notin> places ls \<Longrightarrow> put s t ls = ls"
  by (induction ls) auto

lemma put_keys [simp]: "map fst (put s t ls) = map fst ls"
  by (induction ls) auto

lemma put_under: "put (x # p) t (under x ls) = under x (put p t ls)"
  by (induction ls) (auto simp: under_def)

lemma under_places [simp]: "q \<in> places (under x ls) \<longleftrightarrow> (\<exists>p\<in>places ls. q = x # p)"
  by (induction ls) (auto simp: under_def)

lemma ex_Suc_less: "(\<exists>i<Suc n. P i) \<longleftrightarrow> P 0 \<or> (\<exists>i<n. P (Suc i))"
  by (metis less_Suc_eq_0_disj)

lemma all_Suc_less: "(\<forall>i<Suc n. P i) \<longleftrightarrow> P 0 \<and> (\<forall>i<n. P (Suc i))"
  by (metis less_Suc_eq_0_disj)

lemma dict_places: "q \<in> places (leaves_dict kvs) \<longleftrightarrow> (\<exists>(k, v)\<in>set kvs. \<exists>p\<in>places (leaves v). q = Key k # p)"
  by (induction kvs) auto

lemma from_places:
  "q \<in> places (leaves_from n vs) \<longleftrightarrow> (\<exists>i<length vs. \<exists>p\<in>places (leaves (vs ! i)). q = Index (n + i) # p)"
proof (induction vs arbitrary: n)
  case (Cons v vs)
  have "(\<exists>i<length (v # vs). \<exists>p\<in>places (leaves ((v # vs) ! i)). q = Index (n + i) # p)
    \<longleftrightarrow> (\<exists>p\<in>places (leaves v). q = Index n # p) \<or> (\<exists>i<length vs. \<exists>p\<in>places (leaves (vs ! i)). q = Index (n + Suc i) # p)"
    by (simp add: ex_Suc_less)
  then show ?case by (simp add: Cons.IH)
qed simp

lemma put_dict:
  assumes "distinct (map fst kvs)" "(k, v) \<in> set kvs" "leaves w = put p t (leaves v)"
  shows "leaves_dict (AList.update k w kvs) = put (Key k # p) t (leaves_dict kvs)"
  using assms(1,2)
proof (induction kvs)
  case (Cons kv kvs)
  obtain a b where kv: "kv = (a, b)" by (cases kv)
  show ?case
  proof (cases "a = k")
    case True
    then have "k \<notin> fst ` set kvs" using Cons.prems(1) by (simp add: kv)
    then have "Key k # p \<notin> places (leaves_dict kvs)" unfolding dict_places by force
    moreover have "b = v" using Cons.prems True \<open>k \<notin> fst ` set kvs\<close> by (auto simp: kv intro: rev_image_eqI)
    ultimately show ?thesis using True assms(3) by (simp add: kv put_under put_absent)
  next
    case False
    then have "Key k # p \<notin> places (under (Key a) (leaves b))" by simp
    then show ?thesis using Cons False by (simp add: kv put_absent)
  qed
qed simp

lemma put_from:
  assumes "i < length vs" "leaves w = put p t (leaves (vs ! i))"
  shows "leaves_from n (vs[i := w]) = put (Index (n + i) # p) t (leaves_from n vs)"
  using assms
proof (induction vs arbitrary: i n)
  case (Cons v vs)
  show ?case
  proof (cases i)
    case 0
    have "Index n # p \<notin> places (leaves_from (Suc n) vs)" unfolding from_places by simp
    then show ?thesis using Cons.prems 0 by (simp add: put_under put_absent)
  next
    case (Suc j)
    then have "Index (n + i) # p \<notin> places (under (Index n) (leaves v))" by simp
    then show ?thesis using Cons.IH[of j "Suc n"] Cons.prems Suc by (simp add: put_absent)
  qed
qed simp

lemma update_values: "list_all (\<lambda>(_, v). P v) kvs \<Longrightarrow> P w \<Longrightarrow> list_all (\<lambda>(_, v). P v) (AList.update k w kvs)"
  by (induction kvs) auto

lemma list_update_all: "list_all P vs \<Longrightarrow> P w \<Longrightarrow> list_all P (vs[i := w])"
  by (auto simp: list_all_iff dest: set_update_subset_insert[THEN subsetD])

lemma leaves_dict_start: "[] \<notin> places (leaves (VDict kvs))"
  by (simp add: dict_places)

lemma replace_leaf_put:
  "proper v \<Longrightarrow> p \<in> places (leaves v) \<Longrightarrow>
     \<exists>w. replace_leaf p t v = Some w \<and> proper w \<and> leaves w = put p t (leaves v)
       \<and> ((\<exists>d. v = VDict d) \<longrightarrow> (\<exists>d. w = VDict d))"
proof (induction p arbitrary: v)
  case Nil
  then show ?case by (cases v) (simp_all add: dict_places from_places)
next
  case (Cons x p)
  show ?case
  proof (cases v)
    case (VDict kvs)
    obtain k u where k: "x = Key k" "(k, u) \<in> set kvs" "p \<in> places (leaves u)"
      using Cons.prems(2) by (auto simp: VDict dict_places)
    have d: "distinct (map fst kvs)" "proper u" using Cons.prems(1) k(2) by (auto simp: VDict list_all_iff)
    obtain w where w: "replace_leaf p t u = Some w" "proper w" "leaves w = put p t (leaves u)"
      using Cons.IH[OF d(2) k(3)] by blast
    have m: "map_of kvs k = Some u" using d(1) k(2) by simp
    have "list_all (\<lambda>(_, v). proper v) (AList.update k w kvs)"
      using Cons.prems(1) w(2) by (simp add: VDict update_values)
    moreover have "distinct (map fst (AList.update k w kvs))" using d(1) by (rule distinct_update)
    ultimately show ?thesis using put_dict[OF d(1) k(2) w(3)] w(1) m by (simp add: VDict k(1))
  next
    case (VList vs)
    obtain i where i: "x = Index i" "i < length vs" "p \<in> places (leaves (vs ! i))"
      using Cons.prems(2) by (auto simp: VList from_places)
    have "proper (vs ! i)" using Cons.prems(1) i(2) by (simp add: VList list_all_length)
    then obtain w where w: "replace_leaf p t (vs ! i) = Some w" "proper w" "leaves w = put p t (leaves (vs ! i))"
      using Cons.IH i(3) by blast
    have "list_all proper (vs[i := w])"
      using Cons.prems(1) w(2) by (simp add: VList list_update_all)
    then show ?thesis using put_from[OF i(2) w(3), of 0] i w(1) by (simp add: VList)
  next
    case (VTuple vs)
    obtain i where i: "x = Index i" "i < length vs" "p \<in> places (leaves (vs ! i))"
      using Cons.prems(2) by (auto simp: VTuple from_places)
    have "proper (vs ! i)" using Cons.prems(1) i(2) by (simp add: VTuple list_all_length)
    then obtain w where w: "replace_leaf p t (vs ! i) = Some w" "proper w" "leaves w = put p t (leaves (vs ! i))"
      using Cons.IH i(3) by blast
    have "list_all proper (vs[i := w])"
      using Cons.prems(1) w(2) by (simp add: VTuple list_update_all)
    then show ?thesis using put_from[OF i(2) w(3), of 0] i w(1) by (simp add: VTuple)
  qed (use Cons.prems in simp_all)
qed

section \<open>One slot\<close>

definition proper_message :: "message \<Rightarrow> bool" where
  "proper_message m =
     ((case mg_content m of CBlocks bs \<Rightarrow> list_all proper bs | _ \<Rightarrow> True) \<and> list_all (\<lambda>c. proper (tc_args c)) (mg_calls m))"

lemma put_map_slot:
  assumes "\<And>p q. f p = f q \<Longrightarrow> p = q"
  shows "put (f p) t (map (\<lambda>(q, x). (f q, x)) ls) = map (\<lambda>(q, x). (f q, x)) (put p t ls)"
  using assms by (induction ls) auto

lemma map_slot_places [simp]: "s \<in> places (map (\<lambda>(q, x). (f q, x)) ls) \<longleftrightarrow> (\<exists>q\<in>places ls. s = f q)"
  by (induction ls) auto

lemma map_slot_under: "map (\<lambda>(p, t). (f p, t)) (under x ls) = map (\<lambda>(p, t). (f (x # p), t)) ls"
  by (auto simp: under_def)

lemma block_put:
  assumes "proper b" "s \<in> places (block_texts i b)"
  shows "\<exists>p w. s = Block i p \<and> (if p = [] then Some (VStr t) else replace_leaf p t b) = Some w \<and> proper w
    \<and> block_texts i w = put s t (block_texts i b)"
proof (cases b)
  case (VStr x)
  then show ?thesis using assms(2) by (simp add: block_texts_def)
next
  case (VDict kvs)
  let ?skip = "case map_of kvs ''type'' of Some (VStr t) \<Rightarrow> t \<in> skipped_blocks | _ \<Rightarrow> False"
  have open_block: "\<not> ?skip" using assms(2) by (auto simp: VDict block_texts_def split: if_splits)
  let ?T = "case map_of kvs ''text'' of Some (VStr t) \<Rightarrow> [(Block i [Key ''text''], t)] | _ \<Rightarrow> []"
  let ?I = "case map_of kvs ''input'' of
      Some (VDict d) \<Rightarrow> map (\<lambda>(p, t). (Block i (Key ''input'' # p), t)) (leaves (VDict d)) | _ \<Rightarrow> []"
  have texts: "block_texts i b = ?T @ ?I" using open_block by (simp add: VDict block_texts_def)
  have d: "distinct (map fst kvs)" "list_all (\<lambda>(_, v). proper v) kvs" using assms(1) by (simp_all add: VDict)
  have still: "block_texts i (VDict (AList.update k w kvs)) =
      (case map_of (AList.update k w kvs) ''text'' of Some (VStr t) \<Rightarrow> [(Block i [Key ''text''], t)] | _ \<Rightarrow> [])
      @ (case map_of (AList.update k w kvs) ''input'' of
          Some (VDict d) \<Rightarrow> map (\<lambda>(p, t). (Block i (Key ''input'' # p), t)) (leaves (VDict d)) | _ \<Rightarrow> [])"
    if "k \<noteq> ''type''" for k w using that open_block by (simp add: block_texts_def)
  have upd: "proper (VDict (AList.update k w kvs))" if "proper w" for k w
  proof -
    have "list_all (\<lambda>(_, v). proper v) (AList.update k w kvs)" using d(2) that by (rule update_values)
    then show ?thesis using distinct_update[OF d(1)] by simp
  qed
  have "s \<in> places ?T \<or> s \<in> places ?I" using assms(2) unfolding texts by simp
  then show ?thesis
  proof
    assume "s \<in> places ?T"
    then obtain x where x: "map_of kvs ''text'' = Some (VStr x)" "s = Block i [Key ''text'']"
      by (auto split: option.splits val.splits)
    have "s \<notin> places ?I" by (auto simp: x(2) split: option.splits val.splits)
    then have "block_texts i (VDict (AList.update ''text'' (VStr t) kvs)) = put s t (block_texts i b)"
      unfolding texts by (simp add: still x put_absent)
    then show ?thesis using x upd[of "VStr t" "''text''"] by (simp add: VDict)
  next
    assume "s \<in> places ?I"
    then obtain e p where e: "map_of kvs ''input'' = Some (VDict e)" "s = Block i (Key ''input'' # p)" "p \<in> places (leaves (VDict e))"
      by (auto split: option.splits val.splits simp del: leaves.simps)
    have "proper (VDict e)" using d(2) map_of_SomeD[OF e(1)] by (auto simp: list_all_iff simp del: proper.simps)
    then obtain f where f: "replace_leaf p t (VDict e) = Some (VDict f)" "proper (VDict f)"
        "leaves (VDict f) = put p t (leaves (VDict e))"
      using replace_leaf_put[OF _ e(3)] by blast
    have "s \<notin> places ?T" by (auto simp: e(2) split: option.splits val.splits)
    moreover have "put s t (map (\<lambda>(p, t). (Block i (Key ''input'' # p), t)) (leaves (VDict e)))
        = map (\<lambda>(p, t). (Block i (Key ''input'' # p), t)) (leaves (VDict f))"
      unfolding e(2) f(3) by (rule put_map_slot) simp
    ultimately have "block_texts i (VDict (AList.update ''input'' (VDict f) kvs)) = put s t (block_texts i b)"
      unfolding texts by (simp add: still e(1) put_absent del: leaves.simps)
    then show ?thesis using e f upd[of "VDict f" "''input''"] by (simp add: VDict)
  qed
qed (use assms in \<open>simp_all add: block_texts_def\<close>)

definition proper_content :: "content \<Rightarrow> bool" where
  "proper_content c = (case c of CBlocks bs \<Rightarrow> list_all proper bs | _ \<Rightarrow> True)"

definition proper_calls :: "tool_call list \<Rightarrow> bool" where
  "proper_calls cs = list_all (\<lambda>c. proper (tc_args c)) cs"

lemma proper_message_parts: "proper_message m \<longleftrightarrow> proper_content (mg_content m) \<and> proper_calls (mg_calls m)"
  by (simp add: proper_message_def proper_content_def proper_calls_def)

lemma put_enumerate:
  assumes "i < length bs" "g (n + i) w = put s t (g (n + i) (bs ! i))"
    "\<And>j. j < length bs \<Longrightarrow> j \<noteq> i \<Longrightarrow> s \<notin> places (g (n + j) (bs ! j))"
  shows "concat (map (\<lambda>(i, b). g i b) (enumerate n (bs[i := w]))) = put s t (concat (map (\<lambda>(i, b). g i b) (enumerate n bs)))"
  using assms
proof (induction bs arbitrary: i n)
  case (Cons b bs)
  have none: "put s t (concat (map (\<lambda>(i, b). g i b) (enumerate m cs))) = concat (map (\<lambda>(i, b). g i b) (enumerate m cs))"
    if "\<forall>j<length cs. s \<notin> places (g (m + j) (cs ! j))" for m cs
    using that
  proof (induction cs arbitrary: m)
    case (Cons c cs)
    have "s \<notin> places (g m c)" using Cons.prems by (simp add: all_Suc_less)
    moreover have "\<forall>j<length cs. s \<notin> places (g (Suc m + j) (cs ! j))" using Cons.prems by (simp add: all_Suc_less)
    ultimately show ?case using Cons.IH[of "Suc m"] by (simp add: put_absent)
  qed simp
  show ?case
  proof (cases i)
    case 0
    have "\<forall>j<length bs. s \<notin> places (g (Suc n + j) (bs ! j))" using Cons.prems(3)[of "Suc j" for j] 0 by simp
    then show ?thesis using Cons.prems(2) none[of bs "Suc n"] 0 by simp
  next
    case (Suc k)
    have "s \<notin> places (g n b)" using Cons.prems(3)[of 0] Suc by simp
    moreover have "concat (map (\<lambda>(i, b). g i b) (enumerate (Suc n) (bs[k := w])))
        = put s t (concat (map (\<lambda>(i, b). g i b) (enumerate (Suc n) bs)))"
      using Cons.prems(3)[of "Suc j" for j] Cons.prems(1,2) Suc by (intro Cons.IH) simp_all
    ultimately show ?thesis using Suc by (simp add: put_absent)
  qed
qed simp

lemma enumerate_places:
  "s \<in> places (concat (map (\<lambda>(i, b). g i b) (enumerate n bs))) \<longleftrightarrow> (\<exists>i<length bs. s \<in> places (g (n + i) (bs ! i)))"
proof (induction bs arbitrary: n)
  case (Cons b bs)
  then show ?case by (simp add: ex_Suc_less)
qed simp

lemma block_place: "s \<in> places (block_texts i b) \<Longrightarrow> \<exists>p. s = Block i p"
  by (auto simp: block_texts_def simp del: leaves.simps split: val.splits option.splits if_splits)

lemma content_place: "s \<in> places (content_texts c) \<Longrightarrow> s = Content \<or> (\<exists>i p. s = Block i p)"
  by (cases c) (auto simp: content_texts_def enumerate_places dest: block_place)

lemma call_place: "s \<in> places (call_texts cs) \<longleftrightarrow> (\<exists>i<length cs. \<exists>p\<in>places (leaves (tc_args (cs ! i))). s = Arg i p)"
  unfolding call_texts_def using enumerate_places[of s "\<lambda>i c. map (\<lambda>(p, t). (Arg i p, t)) (leaves (tc_args c))" 0 cs]
  by simp

lemma content_put:
  assumes "proper_content c" "s \<in> places (content_texts c)"
  shows "\<exists>c'. set_content s t c = Some c' \<and> proper_content c' \<and> content_texts c' = put s t (content_texts c)"
proof (cases c)
  case (CText x)
  then have "s = Content" using assms(2) by (simp add: content_texts_def)
  then show ?thesis by (simp add: CText set_content_def content_texts_def proper_content_def)
next
  case (CBlocks bs)
  obtain i where i: "i < length bs" "s \<in> places (block_texts i (bs ! i))"
    using assms(2) enumerate_places[of s block_texts 0 bs] by (auto simp: CBlocks content_texts_def)
  have "proper (bs ! i)" using assms(1) i(1) by (simp add: CBlocks proper_content_def list_all_length)
  then obtain p w where w: "s = Block i p" "(if p = [] then Some (VStr t) else replace_leaf p t (bs ! i)) = Some w"
      "proper w" "block_texts i w = put s t (block_texts i (bs ! i))"
    using block_put[OF _ i(2), of t] by blast
  have "s \<notin> places (block_texts (0 + j) (bs ! j))" if "j \<noteq> i" for j
    using block_place[of s j] w(1) that by auto
  then have "content_texts (CBlocks (bs[i := w])) = put s t (content_texts c)"
    unfolding CBlocks content_texts_def content.case using put_enumerate[of i bs block_texts 0 w s t] i(1) w(4) by simp
  moreover have "set_content s t c = Some (CBlocks (bs[i := w]))"
    using i(1) w(2) by (simp add: w(1) CBlocks set_content_def Let_def)
  moreover have "proper_content (CBlocks (bs[i := w]))"
    using assms(1) w(3) by (simp add: CBlocks proper_content_def list_update_all)
  ultimately show ?thesis by blast
qed (use assms in \<open>simp add: content_texts_def\<close>)

lemma arg_put:
  assumes "proper_calls cs" "s \<in> places (call_texts cs)"
  shows "\<exists>cs'. set_arg s t cs = Some cs' \<and> proper_calls cs' \<and> call_texts cs' = put s t (call_texts cs)
    \<and> map tc_id cs' = map tc_id cs \<and> map tc_name cs' = map tc_name cs"
proof -
  let ?g = "\<lambda>i c. map (\<lambda>(p, t). (Arg i p, t)) (leaves (tc_args c))"
  obtain i p where i: "i < length cs" "p \<in> places (leaves (tc_args (cs ! i)))" "s = Arg i p"
    using assms(2) unfolding call_place by blast
  have "proper (tc_args (cs ! i))" using assms(1) i(1) by (simp add: proper_calls_def list_all_length)
  then obtain w where w: "replace_leaf p t (tc_args (cs ! i)) = Some w" "proper w"
      "leaves w = put p t (leaves (tc_args (cs ! i)))"
    using replace_leaf_put[OF _ i(2)] by blast
  let ?c = "(cs ! i)\<lparr>tc_args := w\<rparr>"
  have "?g (0 + i) ?c = put s t (?g (0 + i) (cs ! i))"
    unfolding i(3) by (simp add: w(3)) (rule put_map_slot[symmetric], simp)
  then have "call_texts (cs[i := ?c]) = put s t (call_texts cs)"
    unfolding call_texts_def using i(1) by (intro put_enumerate[of i cs ?g 0]) (auto simp: i(3))
  moreover have "proper_calls (cs[i := ?c])" using assms(1) w(2) by (simp add: proper_calls_def list_update_all)
  moreover have "map f (cs[i := ?c]) = map f cs" if "f ?c = f (cs ! i)" for f :: "tool_call \<Rightarrow> string"
  proof -
    have "map f (cs[i := ?c]) = (map f cs)[i := map f cs ! i]" using that i(1) by (simp only: map_update nth_map)
    then show ?thesis by (simp only: list_update_id)
  qed
  ultimately show ?thesis using i w(1) by (simp add: set_arg_def)
qed

section \<open>Rebuilding\<close>

text \<open>The texts after some were changed.\<close>

definition changed :: "(slot \<times> utext) list \<Rightarrow> (slot \<times> utext) list \<Rightarrow> (slot \<times> utext) list" where
  "changed changes ls = map (\<lambda>(s, x). (s, case map_of changes s of None \<Rightarrow> x | Some t \<Rightarrow> t)) ls"

definition puts :: "(slot \<times> utext) list \<Rightarrow> (slot \<times> utext) list \<Rightarrow> (slot \<times> utext) list" where
  "puts changes ls = fold (\<lambda>(s, t). put s t) changes ls"

lemma puts_simps [simp]: "puts [] ls = ls" "puts ((s, t) # cs) ls = puts cs (put s t ls)"
  by (simp_all add: puts_def)

lemma changed_append: "changed cs (xs @ ys) = changed cs xs @ changed cs ys"
  by (simp add: changed_def)

lemma puts_changed: "distinct (map fst cs) \<Longrightarrow> puts cs ls = changed cs ls"
proof (induction cs arbitrary: ls)
  case (Cons c cs)
  obtain s t where c: "c = (s, t)" by (cases c)
  have "s \<notin> fst ` set cs" using Cons.prems by (simp add: c)
  then have none: "map_of cs s = None" by (simp add: map_of_eq_None_iff)
  have "puts (c # cs) ls = changed cs (put s t ls)" using Cons by (simp add: c)
  also have "\<dots> = changed (c # cs) ls" using none by (auto simp: changed_def put_def c)
  finally show ?case .
qed (simp add: changed_def case_prod_unfold)

lemma put_places [simp]: "places (put s t ls) = places ls"
  by (induction ls) auto

lemma each_content:
  assumes "proper_content c" "list_all (\<lambda>(s, t). s \<in> places (content_texts c) \<or> (\<exists>i p. s = Arg i p)) changes"
  shows "\<exists>c'. each_change set_content changes c = Some c' \<and> proper_content c' \<and> content_texts c' = puts changes (content_texts c)"
  using assms
proof (induction changes arbitrary: c)
  case (Cons x changes)
  obtain s t where x: "x = (s, t)" by (cases x)
  have "\<exists>c'. set_content s t c = Some c' \<and> proper_content c' \<and> content_texts c' = put s t (content_texts c)"
  proof (cases "s \<in> places (content_texts c)")
    case True then show ?thesis using content_put Cons.prems(1) by blast
  next
    case False
    then show ?thesis using Cons.prems by (auto simp: x set_content_def put_absent)
  qed
  then obtain c' where c': "set_content s t c = Some c'" "proper_content c'" "content_texts c' = put s t (content_texts c)"
    by blast
  then show ?case using Cons.IH[OF c'(2)] Cons.prems(2) by (simp add: x)
qed simp

lemma each_args:
  assumes "proper_calls cs" "list_all (\<lambda>(s, t). s \<in> places (call_texts cs) \<or> (\<forall>i p. s \<noteq> Arg i p)) changes"
  shows "\<exists>cs'. each_change set_arg changes cs = Some cs' \<and> proper_calls cs' \<and> call_texts cs' = puts changes (call_texts cs)
    \<and> map tc_id cs' = map tc_id cs \<and> map tc_name cs' = map tc_name cs"
  using assms
proof (induction changes arbitrary: cs)
  case (Cons x changes)
  obtain s t where x: "x = (s, t)" by (cases x)
  have "\<exists>cs'. set_arg s t cs = Some cs' \<and> proper_calls cs' \<and> call_texts cs' = put s t (call_texts cs)
      \<and> map tc_id cs' = map tc_id cs \<and> map tc_name cs' = map tc_name cs"
  proof (cases "s \<in> places (call_texts cs)")
    case True then show ?thesis using arg_put Cons.prems(1) by blast
  next
    case False
    then have "\<forall>i p. s \<noteq> Arg i p" using Cons.prems(2) by (simp add: x)
    then show ?thesis using False Cons.prems(1) by (cases s) (simp_all add: set_arg_def put_absent)
  qed
  then obtain cs' where c: "set_arg s t cs = Some cs'" "proper_calls cs'" "call_texts cs' = put s t (call_texts cs)"
    "map tc_id cs' = map tc_id cs" "map tc_name cs' = map tc_name cs" by blast
  then show ?case using Cons.IH[OF c(2)] Cons.prems(2) by (simp add: x)
qed simp

lemma rebuild_exact:
  assumes "proper_message m" "distinct (map fst changes)" "list_all (\<lambda>(s, _). s \<in> places (message_texts m)) changes"
  shows "\<exists>m'. rebuild m changes = Some m' \<and> message_texts m' = changed changes (message_texts m)
    \<and> mg_role m' = mg_role m \<and> map tc_id (mg_calls m') = map tc_id (mg_calls m)
    \<and> map tc_name (mg_calls m') = map tc_name (mg_calls m) \<and> proper_message m'"
proof -
  have p: "proper_content (mg_content m)" "proper_calls (mg_calls m)" using assms(1) by (simp_all add: proper_message_parts)
  have arg: "\<exists>i p. s = Arg i p" if "s \<in> places (call_texts (mg_calls m))" for s using that unfolding call_place by blast
  have no_arg: "\<forall>i p. s \<noteq> Arg i p" if "s \<in> places (content_texts (mg_content m))" for s
    using content_place[OF that] by auto
  have "list_all (\<lambda>(s, t). s \<in> places (content_texts (mg_content m)) \<or> (\<exists>i p. s = Arg i p)) changes"
    using assms(3) arg by (auto simp: list_all_iff message_texts_def split: if_splits)
  then obtain c where c: "each_change set_content changes (mg_content m) = Some c" "proper_content c"
      "content_texts c = puts changes (content_texts (mg_content m))"
    using each_content[OF p(1)] by blast
  show ?thesis
  proof (cases "mg_role m = Ai")
    case True
    have "list_all (\<lambda>(s, t). s \<in> places (call_texts (mg_calls m)) \<or> (\<forall>i p. s \<noteq> Arg i p)) changes"
      using assms(3) no_arg True by (auto simp: list_all_iff message_texts_def) fastforce
    then obtain cs where cs: "each_change set_arg changes (mg_calls m) = Some cs" "proper_calls cs"
        "call_texts cs = puts changes (call_texts (mg_calls m))"
        "map tc_id cs = map tc_id (mg_calls m)" "map tc_name cs = map tc_name (mg_calls m)"
      using each_args[OF p(2)] by blast
    then show ?thesis
      using True c by (simp add: rebuild_def message_texts_def proper_message_parts puts_changed[OF assms(2)] changed_append)
  next
    case False
    then show ?thesis
      using c p by (simp add: rebuild_def message_texts_def proper_message_parts puts_changed[OF assms(2)])
  qed
qed

text \<open>
  C30: a message is rebuilt with exactly the changed texts: putting texts into distinct slots of a message
  never raises, the new message has every changed text in its slot and every other text as before,
  in the same order, and keeps its role and the ids and names of its calls.
\<close>
theorem rebuild_changes_exactly:
  assumes "proper_message m" "distinct (map fst changes)" "list_all (\<lambda>(s, _). s \<in> places (message_texts m)) changes"
  shows "\<exists>m'. rebuild m changes = Some m' \<and> message_texts m' = changed changes (message_texts m)
    \<and> mg_role m' = mg_role m \<and> map tc_id (mg_calls m') = map tc_id (mg_calls m)
    \<and> map tc_name (mg_calls m') = map tc_name (mg_calls m) \<and> proper_message m'"
  using rebuild_exact[OF assms] .

section \<open>Slots are distinct\<close>

lemma distinct_places_append:
  "distinct (map fst (xs @ ys)) \<longleftrightarrow> distinct (map fst xs) \<and> distinct (map fst ys) \<and> places xs \<inter> places ys = {}"
  by (simp add: places_def)

lemma distinct_under: "distinct (map fst (under x ls)) = distinct (map fst ls)"
  by (induction ls) (auto simp: under_def image_iff)

lemma distinct_map_slot:
  fixes ls :: "('p \<times> utext) list"
  assumes "\<And>p q. f p = f q \<Longrightarrow> p = q" "distinct (map fst ls)"
  shows "distinct (map fst (map (\<lambda>(p, t). (f p, t)) ls))"
  using assms(2)
proof (induction ls)
  case (Cons l ls)
  obtain p t where l: "l = (p, t)" by (cases l)
  have "p \<notin> places ls" using Cons.prems by (simp add: l places_def)
  then have "f p \<notin> places (map (\<lambda>(p, t). (f p, t)) ls)" using assms(1) by auto
  then show ?case using Cons by (simp add: l places_def image_image)
qed simp

lemma distinct_from:
  "\<forall>v\<in>set vs. distinct (map fst (leaves v)) \<Longrightarrow> distinct (map fst (leaves_from n vs))"
proof (induction vs arbitrary: n)
  case (Cons v vs)
  have "places (under (Index n) (leaves v)) \<inter> places (leaves_from (Suc n) vs) = {}"
    by (auto simp: from_places)
  then show ?case using Cons by (simp add: distinct_places_append distinct_under del: map_append)
qed simp

lemma distinct_dict:
  "distinct (map fst kvs) \<Longrightarrow> \<forall>(k, v)\<in>set kvs. distinct (map fst (leaves v)) \<Longrightarrow> distinct (map fst (leaves_dict kvs))"
proof (induction kvs)
  case (Cons kv kvs)
  obtain k v where kv: "kv = (k, v)" by (cases kv)
  have "k \<notin> fst ` set kvs" using Cons.prems(1) by (simp add: kv)
  then have "places (under (Key k) (leaves v)) \<inter> places (leaves_dict kvs) = {}"
    by (force simp: dict_places)
  then show ?case using Cons by (simp add: kv distinct_places_append distinct_under del: map_append)
qed simp

lemma distinct_leaves: "proper v \<Longrightarrow> distinct (map fst (leaves v))"
proof (induction v)
  case (VDict kvs)
  have "distinct (map fst (leaves v))" if "(k, v) \<in> set kvs" for k v
    using VDict.IH[OF that, of v] VDict.prems that by (fastforce simp: list_all_iff)
  then show ?case using VDict.prems by (simp only: leaves.simps proper.simps) (auto intro: distinct_dict)
qed (auto simp: list_all_iff intro: distinct_from)

lemma distinct_concat_enumerate:
  assumes "\<And>i. i < length bs \<Longrightarrow> distinct (map fst (g (n + i) (bs ! i)))"
    "\<And>i j s. i \<noteq> j \<Longrightarrow> s \<in> places (g (n + i) (bs ! i)) \<Longrightarrow> s \<in> places (g (n + j) (bs ! j)) \<Longrightarrow> False"
  shows "distinct (map fst (concat (map (\<lambda>(i, b). g i b) (enumerate n bs))))"
  using assms
proof (induction bs arbitrary: n)
  case (Cons b bs)
  have d: "distinct (map fst (g n b))" using Cons.prems(1)[of 0] by simp
  have "distinct (map fst (concat (map (\<lambda>(i, b). g i b) (enumerate (Suc n) bs))))"
    using Cons.prems(1)[of "Suc i" for i] Cons.prems(2)[of "Suc i" "Suc j" for i j] by (intro Cons.IH) auto
  moreover have "places (g n b) \<inter> places (concat (map (\<lambda>(i, b). g i b) (enumerate (Suc n) bs))) = {}"
    using Cons.prems(2)[of 0 "Suc j" for j] by (auto simp: enumerate_places)
  ultimately show ?case using d by (simp add: distinct_places_append del: map_append)
qed simp

lemma distinct_block: "proper b \<Longrightarrow> distinct (map fst (block_texts i b))"
proof (cases b)
  case (VDict kvs)
  assume p: "proper b"
  have "distinct (map fst (map (\<lambda>(p, t). (Block i (Key ''input'' # p), t)) (leaves (VDict d))))"
    if "map_of kvs ''input'' = Some (VDict d)" for d
  proof (rule distinct_map_slot)
    have "list_all (\<lambda>(_, v). proper v) kvs" using p by (simp add: VDict)
    then have "proper (VDict d)" using map_of_SomeD[OF that] unfolding list_all_iff by blast
    then show "distinct (map fst (leaves (VDict d)))" by (rule distinct_leaves)
  qed simp
  moreover have "Block i [Key ''text''] \<notin> places (map (\<lambda>(p, t). (Block i (Key ''input'' # p), t)) ls)" for ls by simp
  ultimately show ?thesis
    unfolding VDict block_texts_def
    by (auto simp: places_def simp del: leaves.simps split: option.splits val.splits)
qed (simp_all add: block_texts_def)

theorem message_slots_distinct: "proper_message m \<Longrightarrow> distinct (map fst (message_texts m))"
proof -
  assume p: "proper_message m"
  have calls: "distinct (map fst (call_texts (mg_calls m)))"
    unfolding call_texts_def
  proof (rule distinct_concat_enumerate)
    show "distinct (map fst (map (\<lambda>(p, t). (Arg (0 + i) p, t)) (leaves (tc_args (mg_calls m ! i)))))"
      if "i < length (mg_calls m)" for i
      using p that by (intro distinct_map_slot distinct_leaves) (simp_all add: proper_message_def list_all_length)
  qed auto
  have content: "distinct (map fst (content_texts (mg_content m)))"
  proof (cases "mg_content m")
    case (CBlocks bs)
    have "distinct (map fst (concat (map (\<lambda>(i, b). block_texts i b) (enumerate 0 bs))))"
    proof (rule distinct_concat_enumerate)
      show "distinct (map fst (block_texts (0 + i) (bs ! i)))" if "i < length bs" for i
        using p that by (intro distinct_block) (simp add: proper_message_def CBlocks list_all_length)
      show False if "i \<noteq> j" "s \<in> places (block_texts (0 + i) (bs ! i))" "s \<in> places (block_texts (0 + j) (bs ! j))" for i j s
        using block_place[OF that(2)] block_place[OF that(3)] that(1) by auto
    qed
    then show ?thesis by (simp add: CBlocks content_texts_def)
  qed (simp_all add: content_texts_def)
  have "places (content_texts (mg_content m)) \<inter> places (call_texts (mg_calls m)) = {}"
    using content_place call_place by fastforce
  then show ?thesis using calls content by (simp add: message_texts_def distinct_places_append del: map_append)
qed

section \<open>Witness\<close>

definition demo_message :: message where
  "demo_message = \<lparr>mg_role = Ai,
     mg_content = CBlocks [VStr [1], VDict [(''type'', VStr [9]), (''text'', VStr [2]), (''input'', VDict [(''q'', VList [VStr [3], VOther 0])])]],
     mg_calls = [\<lparr>tc_id = ''c1'', tc_name = ''search'', tc_args = VDict [(''q'', VStr [4])]\<rparr>,
                 \<lparr>tc_id = ''c2'', tc_name = ''send'', tc_args = VDict [(''to'', VStr [5]), (''body'', VTuple [VStr [6]])]\<rparr>]\<rparr>"

lemma rebuild_changes_exactly_witness:
  "case rebuild demo_message [(Arg 1 [Key ''body'', Index 0], [60]), (Block 1 [Key ''input'', Key ''q'', Index 0], [30])] of
     None \<Rightarrow> False | Some m \<Rightarrow> map snd (message_texts m) = [[1], [2], [30], [4], [5], [60]]"
proof -
  let ?cs = "[(Arg 1 [Key ''body'', Index 0], [60]), (Block 1 [Key ''input'', Key ''q'', Index 0], [30])]"
  have "proper_message demo_message" "distinct (map fst ?cs)" by code_simp+
  moreover have "list_all (\<lambda>(s, _). s \<in> places (message_texts demo_message)) ?cs" by code_simp
  ultimately obtain m where m: "rebuild demo_message ?cs = Some m"
      "message_texts m = changed ?cs (message_texts demo_message)"
    using rebuild_changes_exactly[of demo_message ?cs] by blast
  have "map snd (changed ?cs (message_texts demo_message)) = [[1], [2], [30], [4], [5], [60]]" by code_simp
  then show ?thesis unfolding m option.case m(2) .
qed

end
