(* ===== verification/Guard.thy ===== *)
theory Guard
  imports GuardModel Messages
begin

text \<open>
  One run's guard (\<open>Guard\<close> and the hooks of \<open>guardrails/middleware\<close>, \<open>guardrails/approval\<close>): the
  detection cache, checking texts, what goes to the model, what comes back, and tool calls.

  The state is the guard's fields; the flag of \<open>model_pack\<close> that the service is down is one of them. Each
  operation takes the detection service as it answers during that operation. Hashes are parameters.
  \<open>None\<close> is a raised exception. Audit records, traces and logging are not modelled.

  The lemmas show that a cache that never held more than its size answers every text with a detection
  of that very text, that a request is sent only when nothing blocks it, with every text replaced by its
  applied form, and what an overfull cache does instead.
\<close>

section \<open>The guard\<close>

definition cache_size :: nat where "cache_size = 2048"

record ('k, 'd) run_env =
  ge_rules :: rule_set
  ge_digest :: "stage \<Rightarrow> utext \<Rightarrow> 'k"
  ge_input_digest :: "utext \<Rightarrow> 'k"
  ge_value_digest :: "string \<Rightarrow> utext \<Rightarrow> 'd"
  ge_detectors :: detector_libs
  ge_libs :: guard_libs
  ge_rows :: "(utext \<times> string \<times> 'd \<times> utext) list"
  ge_interactive :: bool

record ('k, 'd) guard_state =
  gs_cache :: "('k \<times> finding list) list"
  gs_down :: bool
  gs_pseudonyms :: "'d pseudonyms"
  gs_loaded :: bool
  gs_decisions :: "decision_row list"
  gs_inputs :: "'k list"

definition new_guard :: "bool \<Rightarrow> ('k, 'd) guard_state" where
  "new_guard down = \<lparr>gs_cache = [], gs_down = down, gs_pseudonyms = no_pseudonyms, gs_loaded = False,
     gs_decisions = [], gs_inputs = []\<rparr>"

text \<open>A new entry goes to the end of the \<open>OrderedDict\<close>; the oldest ones go while there are too many.\<close>

definition keep_found :: "'k \<times> finding list \<Rightarrow> ('k \<times> finding list) list \<Rightarrow> ('k \<times> finding list) list" where
  "keep_found e c = (let c' = AList.update (fst e) (snd e) c in drop (length c' - cache_size) c')"

definition missing :: "('k, 'd) run_env \<Rightarrow> ('k, 'd) guard_state \<Rightarrow> stage \<Rightarrow> utext list \<Rightarrow> utext list" where
  "missing env g st texts = filter (\<lambda>t. map_of (gs_cache g) (ge_digest env st t) = None) texts"

definition detect_missing ::
    "('k, 'd) run_env \<Rightarrow> model_service \<Rightarrow> utext list \<Rightarrow> stage \<Rightarrow> ('k, 'd) guard_state \<Rightarrow> ('k, 'd) guard_state option" where
  "detect_missing env sv texts st g =
     (let packs = packs_for (ge_rules env) st; new = missing env g st texts in
      if new \<noteq> [] \<and> packs \<noteq> [] then
        (case detect_texts (ge_detectors env) sv new packs (gs_down g) of
           None \<Rightarrow> None
         | Some (fresh, down) \<Rightarrow>
             Some (g\<lparr>gs_cache := fold keep_found (zip (map (ge_digest env st) new) fresh) (gs_cache g), gs_down := down\<rparr>))
      else Some g)"

definition cached :: "('k, 'd) run_env \<Rightarrow> ('k, 'd) guard_state \<Rightarrow> stage \<Rightarrow> utext \<Rightarrow> finding list" where
  "cached env g st t = (case map_of (gs_cache g) (ge_digest env st t) of Some fs \<Rightarrow> fs | None \<Rightarrow> [])"

definition findings_for ::
    "('k, 'd) run_env \<Rightarrow> model_service \<Rightarrow> utext list \<Rightarrow> stage \<Rightarrow> ('k, 'd) guard_state
      \<Rightarrow> (finding list list \<times> ('k, 'd) guard_state) option" where
  "findings_for env sv texts st g =
     (case detect_missing env sv texts st g of
        None \<Rightarrow> None
      | Some g' \<Rightarrow> Some (map (cached env g' st) texts, g'))"

definition load :: "('k, 'd) run_env \<Rightarrow> ('k, 'd) guard_state \<Rightarrow> ('k, 'd) guard_state" where
  "load env g =
     (if gs_loaded g then g
      else g\<lparr>gs_pseudonyms := load_rows (ge_rows env) (gs_pseudonyms g), gs_loaded := True\<rparr>)"

text \<open>\<open>zip(texts, findings, strict=True)\<close>: lists of different lengths raise.\<close>

fun apply_all ::
    "('k, 'd) run_env \<Rightarrow> stage \<Rightarrow> utext list \<Rightarrow> finding list list \<Rightarrow> 'd pseudonyms \<Rightarrow> (applied list \<times> 'd pseudonyms) option" where
  "apply_all env st [] [] p = Some ([], p)"
| "apply_all env st (t # ts) (fs # fss) p =
     (case apply_rules (ge_libs env) (token_callback (ge_value_digest env) t) t fs (ge_rules env) st p of
        None \<Rightarrow> None
      | Some (a, p1) \<Rightarrow>
          (case apply_all env st ts fss p1 of None \<Rightarrow> None | Some (as, p2) \<Rightarrow> Some (a # as, p2)))"
| "apply_all env st _ _ p = None"

definition pseudonymizes :: "('k, 'd) run_env \<Rightarrow> stage \<Rightarrow> bool" where
  "pseudonymizes env st = list_ex (\<lambda>r. ru_action r = Pseudonymize \<and> st \<in> ru_stages r) (rz_rules (ge_rules env))"

text \<open>\<open>keep\<close>: the caller records (\<open>record=False\<close> for display copies).\<close>

definition check ::
    "('k, 'd) run_env \<Rightarrow> model_service \<Rightarrow> utext list \<Rightarrow> stage \<Rightarrow> bool \<Rightarrow> ('k, 'd) guard_state
      \<Rightarrow> (applied list \<times> ('k, 'd) guard_state) option" where
  "check env sv texts st keep g =
     (let g0 = (if pseudonymizes env st then load env g else g) in
      case findings_for env sv texts st g0 of
        None \<Rightarrow> None
      | Some (fss, g1) \<Rightarrow>
          (case apply_all env st texts fss (gs_pseudonyms g1) of
             None \<Rightarrow> None
           | Some (as, p) \<Rightarrow>
               (let g2 = g1\<lparr>gs_pseudonyms := p\<rparr>
                in Some (as, if keep then g2\<lparr>gs_decisions := gs_decisions g2 @ concat (map ap_decisions as)\<rparr> else g2))))"

definition restores_for_tools :: "('k, 'd) run_env \<Rightarrow> string \<Rightarrow> bool" where
  "restores_for_tools env entity =
     list_ex (\<lambda>r. ru_action r = Pseudonymize \<and> ru_restore r
       \<and> (case ru_entities r of None \<Rightarrow> True | Some es \<Rightarrow> entity \<in> es)) (rz_rules (ge_rules env))"

definition guard_restore :: "('k, 'd) run_env \<Rightarrow> bool \<Rightarrow> utext \<Rightarrow> ('k, 'd) guard_state \<Rightarrow> utext \<times> ('k, 'd) guard_state" where
  "guard_restore env for_tools t g =
     (let g0 = load env g;
          (u, p) = restore (if for_tools then \<lambda>e. \<not> restores_for_tools env e else (\<lambda>_. False)) t (gs_pseudonyms g0)
      in (u, g0\<lparr>gs_pseudonyms := p\<rparr>))"

fun restore_each :: "('k, 'd) run_env \<Rightarrow> bool \<Rightarrow> utext list \<Rightarrow> ('k, 'd) guard_state \<Rightarrow> utext list \<times> ('k, 'd) guard_state" where
  "restore_each env for_tools [] g = ([], g)"
| "restore_each env for_tools (t # ts) g =
     (let (u, g1) = guard_restore env for_tools t g; (us, g2) = restore_each env for_tools ts g1 in (u # us, g2))"

section \<open>What goes to the model\<close>

definition slotted :: "message list \<Rightarrow> (nat \<times> slot \<times> utext) list" where
  "slotted ms = concat (map (\<lambda>(i, m). map (\<lambda>(s, t). (i, s, t)) (message_texts m)) (enumerate 0 ms))"

definition changes_of :: "nat \<Rightarrow> ((nat \<times> slot \<times> utext) \<times> applied) list \<Rightarrow> (slot \<times> utext) list" where
  "changes_of i zs =
     fold (\<lambda>((j, s, t), a) c. if j = i \<and> ap_text a \<noteq> t then AList.update s (ap_text a) c else c) zs []"

fun rebuild_each :: "((nat \<times> slot \<times> utext) \<times> applied) list \<Rightarrow> (nat \<times> message) list \<Rightarrow> message list option" where
  "rebuild_each zs [] = Some []"
| "rebuild_each zs ((i, m) # ms) =
     (case (if changes_of i zs \<noteq> [] then rebuild m (changes_of i zs) else Some m) of
        None \<Rightarrow> None
      | Some m' \<Rightarrow> (case rebuild_each zs ms of None \<Rightarrow> None | Some ms' \<Rightarrow> Some (m' # ms')))"

definition guard_messages ::
    "('k, 'd) run_env \<Rightarrow> model_service \<Rightarrow> message list \<Rightarrow> ('k, 'd) guard_state
      \<Rightarrow> (message list \<times> decision_row list \<times> ('k, 'd) guard_state) option" where
  "guard_messages env sv ms g =
     (let slots = slotted ms in
      case check env sv (map (snd \<circ> snd) slots) LlmSend True g of
        None \<Rightarrow> None
      | Some (as, g1) \<Rightarrow>
          (case rebuild_each (zip slots as) (enumerate 0 ms) of
             None \<Rightarrow> None
           | Some ms' \<Rightarrow> Some (ms', concat (map ap_decisions as), g1)))"

definition join_lines :: "utext list \<Rightarrow> utext" where
  "join_lines ts = (case ts of [] \<Rightarrow> [] | t # us \<Rightarrow> t @ concat (map (\<lambda>u. 10 # u) us))"

definition check_input ::
    "('k, 'd) run_env \<Rightarrow> model_service \<Rightarrow> message list \<Rightarrow> ('k, 'd) guard_state
      \<Rightarrow> (decision_row list \<times> ('k, 'd) guard_state) option" where
  "check_input env sv ms g =
     (if packs_for (ge_rules env) InputStage = [] then Some ([], g)
      else
        (case find (\<lambda>m. mg_role m = Human) (rev ms) of
           None \<Rightarrow> Some ([], g)
         | Some m \<Rightarrow>
             (let t = join_lines (map snd (message_texts m)); d = ge_input_digest env t in
              if t = [] \<or> d \<in> set (gs_inputs g) then Some ([], g)
              else
                (case check env sv [t] InputStage True (g\<lparr>gs_inputs := d # gs_inputs g\<rparr>) of
                   Some ([a], g1) \<Rightarrow> Some (ap_decisions a, g1)
                 | _ \<Rightarrow> None))))"

datatype request_outcome = Notice utext | Sent "message list"

definition blocks :: "decision_row list \<Rightarrow> bool" where
  "blocks ds = list_ex (\<lambda>d. dc_action d = action.Block) ds"

definition guard_request ::
    "('k, 'd) run_env \<Rightarrow> model_service \<Rightarrow> model_service \<Rightarrow> message list \<Rightarrow> ('k, 'd) guard_state
      \<Rightarrow> (request_outcome \<times> ('k, 'd) guard_state) option" where
  "guard_request env sv1 sv2 ms g =
     (case check_input env sv1 ms g of
        None \<Rightarrow> None
      | Some (attempted, g1) \<Rightarrow>
          if blocks attempted then Some (Notice (block_notice attempted), g1)
          else
            (case guard_messages env sv2 ms g1 of
               None \<Rightarrow> None
             | Some (ms', ds, g2) \<Rightarrow>
                 if blocks ds then Some (Notice (block_notice ds), g2) else Some (Sent ms', g2)))"

section \<open>What comes back\<close>

definition not_arg :: "slot \<Rightarrow> bool" where
  "not_arg s = (case s of Arg _ _ \<Rightarrow> False | _ \<Rightarrow> True)"

text \<open>The texts that came out different, by slot; \<open>ts\<close>: the texts before.\<close>

definition edits :: "(slot \<times> utext) list \<Rightarrow> applied list \<Rightarrow> (slot \<times> utext) list" where
  "edits slots as =
     fold (\<lambda>((s, t), a) c. if ap_text a \<noteq> t then AList.update s (ap_text a) c else c) (zip slots as) []"

text \<open>One message of a model's response.\<close>

definition guard_answer ::
    "('k, 'd) run_env \<Rightarrow> model_service \<Rightarrow> message \<Rightarrow> ('k, 'd) guard_state \<Rightarrow> (message \<times> ('k, 'd) guard_state) option" where
  "guard_answer env sv m g =
     (if mg_role m \<noteq> Ai then Some (m, g)
      else
        (let slots = filter (\<lambda>(s, _). not_arg s) (message_texts m);
             (restored, g1) = restore_each env False (map snd slots) g in
         case check env sv restored OutputStage True g1 of
           None \<Rightarrow> None
         | Some (as, g2) \<Rightarrow>
             if list_ex blocked as then
               Some (m\<lparr>mg_content := CText (block_notice (concat (map ap_decisions as)))\<rparr>, g2)
             else if edits slots as \<noteq> [] then
               (case rebuild m (edits slots as) of None \<Rightarrow> None | Some m' \<Rightarrow> Some (m', g2))
             else Some (m, g2)))"

definition guard_tool_message ::
    "('k, 'd) run_env \<Rightarrow> model_service \<Rightarrow> message \<Rightarrow> ('k, 'd) guard_state \<Rightarrow> (message \<times> ('k, 'd) guard_state) option" where
  "guard_tool_message env sv m g =
     (let slots = message_texts m in
      case check env sv (map snd slots) ToolResult True g of
        None \<Rightarrow> None
      | Some (as, g1) \<Rightarrow>
          if list_ex blocked as then
            Some (m\<lparr>mg_content := CText (block_notice (concat (map ap_decisions as)))\<rparr>, g1)
          else if edits slots as \<noteq> [] then
            (case rebuild m (edits slots as) of None \<Rightarrow> None | Some m' \<Rightarrow> Some (m', g1))
          else Some (m, g1))"

section \<open>Tool calls\<close>

text \<open>\<open>approval_entities\<close>: the rule packs alone, so the answer never depends on the service.\<close>

fun approvals_in :: "rule_set \<Rightarrow> detector_libs \<Rightarrow> utext list \<Rightarrow> string list option" where
  "approvals_in rules libs [] = Some []"
| "approvals_in rules libs (t # ts) =
     (case detect libs t [''common'', ''kr''] of
        None \<Rightarrow> None
      | Some fs \<Rightarrow>
          (case approvals_in rules libs ts of
             None \<Rightarrow> None
           | Some es \<Rightarrow>
               Some (map fd_entity (filter (\<lambda>f. case rule_for rules (fd_entity f) (fd_pack f) ToolArgs of
                   None \<Rightarrow> False | Some r \<Rightarrow> ru_action r = Approval) fs) @ es)))"

definition approval_entities :: "rule_set \<Rightarrow> detector_libs \<Rightarrow> val \<Rightarrow> string list option" where
  "approval_entities rules libs args = approvals_in rules libs (map snd (leaves args))"

definition has_approval_rules :: "rule_set option \<Rightarrow> bool" where
  "has_approval_rules rules = (case rules of None \<Rightarrow> False | Some z \<Rightarrow> list_ex (\<lambda>r. ru_action r = Approval) (rz_rules z))"

definition builtin_tools :: "string list" where
  "builtin_tools = [''write_file'', ''edit_file'', ''execute'']"

text \<open>An entry of \<open>interrupt_on\<close>: what a tool already has (\<open>None\<close>: nothing or a false value) or the guard's.\<close>

datatype 'e interrupt = Own 'e | Guarded

definition with_approvals ::
    "(string \<times> 'e option) list \<Rightarrow> string list \<Rightarrow> (string \<times> 'e interrupt option) list" where
  "with_approvals interrupt_on tools =
     fold (\<lambda>name result. case map_of result name of
             Some (Some _) \<Rightarrow> result
           | _ \<Rightarrow> AList.update name (Some Guarded) result)
       (tools @ builtin_tools) (map (\<lambda>(n, e). (n, map_option Own e)) interrupt_on)"

text \<open>The guard's entry asks exactly when some value of the arguments as the model wrote them needs it.\<close>

definition asks :: "rule_set \<Rightarrow> detector_libs \<Rightarrow> val \<Rightarrow> bool option" where
  "asks rules libs args = map_option (\<lambda>es. es \<noteq> []) (approval_entities rules libs args)"

fun put_args :: "(path \<times> utext) list \<Rightarrow> applied list \<Rightarrow> val \<Rightarrow> val option" where
  "put_args ((p, t) # ls) (a # as) v =
     (if ap_text a \<noteq> t then
        (case replace_leaf p (ap_text a) v of None \<Rightarrow> None | Some w \<Rightarrow> put_args ls as w)
      else put_args ls as v)"
| "put_args [] [] v = Some v"
| "put_args _ _ v = None"

datatype call_outcome = Refused utext | Run val

definition again_notice :: utext where
  "again_notice = [32, 44057, 51008, 32, 51064, 51088, 47196, 32, 45796, 49884, 32, 49884, 46020, 54616, 51648, 32,
     47560, 49464, 50836, 46]"

definition guard_tool_call ::
    "('k, 'd) run_env \<Rightarrow> model_service \<Rightarrow> val \<Rightarrow> ('k, 'd) guard_state \<Rightarrow> (call_outcome \<times> ('k, 'd) guard_state) option" where
  "guard_tool_call env sv args g =
     (let (restored, g1) = restore_each env True (map snd (leaves args)) g in
      case check env sv restored ToolArgs True g1 of
        None \<Rightarrow> None
      | Some (as, g2) \<Rightarrow>
          (let ds = concat (map ap_decisions as) in
           if blocks ds then Some (Refused (block_notice ds @ again_notice), g2)
           else
             (case (if list_ex (\<lambda>d. dc_action d = Approval) ds \<and> ge_interactive env
                    then approval_entities (ge_rules env) (ge_detectors env) args else Some []) of
                None \<Rightarrow> None
              | Some es \<Rightarrow>
                  if list_ex (\<lambda>d. dc_action d = Approval) ds \<and> es = [] then Some (Refused (approval_refusal ds), g2)
                  else (case put_args (leaves args) as args of None \<Rightarrow> None | Some v \<Rightarrow> Some (Run v, g2)))))"

section \<open>Which guard a run has\<close>

text \<open>\<open>rules_for\<close> with the installation default's stripped name: \<open>None\<close> an unknown template.\<close>

definition rules_for :: "string \<Rightarrow> string \<Rightarrow> rule_set option option" where
  "rules_for name profile =
     (if name = [] \<or> profile \<noteq> ''standard'' then Some None
      else (case builtin name of None \<Rightarrow> None | Some r \<Rightarrow> Some (Some r)))"

text \<open>\<open>resolved\<close>: what the entry stored, if it did.\<close>

definition effective_rules :: "rule_set option option \<Rightarrow> string \<Rightarrow> string \<Rightarrow> rule_set option option" where
  "effective_rules resolved name profile =
     (case resolved of Some r \<Rightarrow> Some r | None \<Rightarrow> rules_for name profile)"

text \<open>\<open>guard_stack\<close>: middleware by name; the first summarizer is wrapped, one is added when there is none.\<close>

datatype layer = Layer "string option" nat | GuardedSummarizer layer | GuardLayer

definition layer_name :: "layer \<Rightarrow> string option" where
  "layer_name l = (case l of Layer n _ \<Rightarrow> n | GuardedSummarizer _ \<Rightarrow> Some ''SummarizationMiddleware''
     | GuardLayer \<Rightarrow> Some ''GuardrailMiddleware'')"

fun wrap_summarizer :: "layer list \<Rightarrow> layer list option" where
  "wrap_summarizer [] = None"
| "wrap_summarizer (l # ls) =
     (if layer_name l = Some ''SummarizationMiddleware'' then Some (GuardedSummarizer l # ls)
      else map_option ((#) l) (wrap_summarizer ls))"

definition guard_stack :: "layer list \<Rightarrow> layer \<Rightarrow> layer list" where
  "guard_stack ls created =
     (case wrap_summarizer ls of Some ls' \<Rightarrow> ls' | None \<Rightarrow> ls @ [GuardedSummarizer created]) @ [GuardLayer]"

section \<open>The cache\<close>

text \<open>What a detection of a text found, in whatever batch and however the service answered.\<close>

definition detected :: "('k, 'd) run_env \<Rightarrow> stage \<Rightarrow> utext \<Rightarrow> finding list \<Rightarrow> bool" where
  "detected env st t fs \<longleftrightarrow>
     (\<exists>sv texts down fss down' i. detect_texts (ge_detectors env) sv texts (packs_for (ge_rules env) st) down = Some (fss, down')
        \<and> i < length texts \<and> texts ! i = t \<and> fss ! i = fs)"

definition cache_true :: "('k, 'd) run_env \<Rightarrow> ('k, 'd) guard_state \<Rightarrow> bool" where
  "cache_true env g \<longleftrightarrow> (\<forall>st t fs. map_of (gs_cache g) (ge_digest env st t) = Some fs \<longrightarrow> detected env st t fs)"

definition separates :: "('k, 'd) run_env \<Rightarrow> bool" where
  "separates env \<longleftrightarrow> (\<forall>st t st' t'. ge_digest env st t = ge_digest env st' t' \<longrightarrow> st = st' \<and> t = t')"

lemma cache_true_new [simp]: "cache_true env (new_guard down)"
  by (simp add: cache_true_def new_guard_def)

lemma keep_found_room: "length c < cache_size \<Longrightarrow> keep_found e c = AList.update (fst e) (snd e) c"
proof -
  assume "length c < cache_size"
  moreover have "length (AList.update k v c) \<le> Suc (length c)" for k v by (induction c) auto
  ultimately have "length (AList.update (fst e) (snd e) c) \<le> cache_size" by (meson Suc_leI le_trans)
  then show ?thesis by (simp add: keep_found_def Let_def)
qed

lemma update_length: "length (AList.update k v c) \<le> Suc (length c)"
  by (induction c) auto

lemma fold_keep_found:
  "length c + length zs \<le> cache_size \<Longrightarrow>
     map_of (fold keep_found zs c) d = (case map_of (rev zs) d of Some v \<Rightarrow> Some v | None \<Rightarrow> map_of c d)
     \<and> length (fold keep_found zs c) \<le> length c + length zs"
proof (induction zs arbitrary: c)
  case (Cons z zs)
  let ?c = "AList.update (fst z) (snd z) c"
  have k: "keep_found z c = ?c" using Cons.prems by (intro keep_found_room) simp
  have "length ?c + length zs \<le> cache_size" using Cons.prems update_length[of "fst z" "snd z" c] by simp
  then have "map_of (fold keep_found zs ?c) d = (case map_of (rev zs) d of Some v \<Rightarrow> Some v | None \<Rightarrow> map_of ?c d)
      \<and> length (fold keep_found zs ?c) \<le> length ?c + length zs" by (rule Cons.IH)
  then show ?case using update_length[of "fst z" "snd z" c] k
    by (cases z) (auto simp: map_add_def split: option.splits)
qed simp

lemma detect_texts_length:
  "detect_texts libs sv texts packs down = Some (fss, down') \<Longrightarrow> length fss = length texts"
  by (auto simp: detect_texts_def Let_def dest!: detect_each_nth split: option.splits if_splits prod.splits)

lemma detect_texts_total:
  assumes "set packs \<subseteq> insert model_pack (set (map fst packs_table))"
  shows "\<exists>fss down'. detect_texts libs sv texts packs down = Some (fss, down')"
proof -
  have "set (filter (\<lambda>n. n \<noteq> model_pack) packs) \<subseteq> set (map fst packs_table)" using assms by auto
  then obtain found where "detect_each libs (filter (\<lambda>n. n \<noteq> model_pack) packs) texts = Some found"
    using detect_each_total by blast
  then show ?thesis by (simp add: detect_texts_def split: prod.splits)
qed

lemma zip_entry:
  assumes "map_of (rev (zip (map f xs) ys)) d = Some v" "length ys = length xs"
  obtains i where "i < length xs" "f (xs ! i) = d" "ys ! i = v"
proof -
  have "(d, v) \<in> set (zip (map f xs) ys)" using map_of_SomeD[OF assms(1)] by simp
  then show ?thesis using that assms(2) by (auto simp: set_zip)
qed

lemma zip_entry_exists:
  assumes "x \<in> set xs" "length ys = length xs"
  shows "map_of (rev (zip (map f xs) ys)) (f x) \<noteq> None"
proof -
  have "map fst (zip (map f xs) ys) = map f xs" using assms(2) by simp
  then have "fst ` set (zip (map f xs) ys) = f ` set xs" by (metis list.set_map)
  then have "f x \<in> fst ` set (rev (zip (map f xs) ys))" using assms(1) by simp
  then show ?thesis by (simp add: map_of_eq_None_iff)
qed

lemma detect_missing_true:
  assumes sep: "separates env" and true: "cache_true env g"
    and room: "length (gs_cache g) + length texts \<le> cache_size"
    and d: "detect_missing env sv texts st g = Some g'"
  shows "cache_true env g' \<and> length (gs_cache g') \<le> length (gs_cache g) + length texts
    \<and> (\<forall>t\<in>set texts. detected env st t (cached env g' st t))"
proof -
  let ?new = "missing env g st texts"
  have there: "\<exists>fs. map_of (gs_cache g) (ge_digest env st t) = Some fs" if "t \<in> set texts" "t \<notin> set ?new" for t
    using that by (auto simp: missing_def)
  have none: "detected env st t []" if "packs_for (ge_rules env) st = []" for t
  proof -
    have "detect_texts (ge_detectors env) sv [t] (packs_for (ge_rules env) st) False = Some ([[]], False)"
      by (simp add: that detect_texts_def detect_def merge_findings_def)
    then show ?thesis unfolding detected_def by force
  qed
  show ?thesis
  proof (cases "?new = [] \<or> packs_for (ge_rules env) st = []")
    case True
    then have g': "g' = g" using d by (auto simp: detect_missing_def Let_def)
    have "detected env st t (cached env g st t)" if t: "t \<in> set texts" for t
    proof (cases "map_of (gs_cache g) (ge_digest env st t)")
      case None
      then have "packs_for (ge_rules env) st = []" using there[OF t] True by auto
      then show ?thesis using none None by (simp add: cached_def)
    next
      case (Some fs)
      then show ?thesis using true by (simp add: cached_def cache_true_def)
    qed
    then show ?thesis using true g' by simp
  next
    case False
    then have packs: "packs_for (ge_rules env) st \<noteq> []" by simp
    obtain fresh down where f: "detect_texts (ge_detectors env) sv ?new (packs_for (ge_rules env) st) (gs_down g) = Some (fresh, down)"
      "gs_cache g' = fold keep_found (zip (map (ge_digest env st) ?new) fresh) (gs_cache g)"
      using d False packs by (auto simp: detect_missing_def Let_def split: option.splits)
    have len: "length fresh = length ?new" using detect_texts_length[OF f(1)] .
    let ?zs = "zip (map (ge_digest env st) ?new) fresh"
    have "length ?new \<le> length texts" by (simp add: missing_def)
    then have zs: "length (gs_cache g) + length ?zs \<le> cache_size" "length ?zs \<le> length texts" using room len by simp_all
    have look: "map_of (gs_cache g') x = (case map_of (rev ?zs) x of Some v \<Rightarrow> Some v | None \<Rightarrow> map_of (gs_cache g) x)" for x
      unfolding f(2) using fold_keep_found[OF zs(1), of x] by blast
    have new: "st' = st \<and> detected env st t fs" if m: "map_of (rev ?zs) (ge_digest env st' t) = Some fs" for st' t fs
    proof -
      obtain i where i: "i < length ?new" "ge_digest env st (?new ! i) = ge_digest env st' t" "fresh ! i = fs"
        using zip_entry[OF m len] by blast
      then have "st = st' \<and> ?new ! i = t" using sep unfolding separates_def by blast
      then show ?thesis using f(1) i unfolding detected_def by blast
    qed
    have true': "cache_true env g'"
      unfolding cache_true_def
    proof (intro allI impI)
      fix st' t fs assume m: "map_of (gs_cache g') (ge_digest env st' t) = Some fs"
      show "detected env st' t fs"
      proof (cases "map_of (rev ?zs) (ge_digest env st' t)")
        case None then show ?thesis using m true by (simp add: look cache_true_def)
      next
        case (Some v)
        then have "v = fs" using m by (simp add: look)
        then show ?thesis using new[OF Some] by simp
      qed
    qed
    have "detected env st t (cached env g' st t)" if t: "t \<in> set texts" for t
    proof -
      have "map_of (gs_cache g') (ge_digest env st t) \<noteq> None"
      proof (cases "t \<in> set ?new")
        case True
        then show ?thesis using zip_entry_exists[OF True len, of "ge_digest env st"] by (auto simp: look split: option.splits)
      next
        case False
        then obtain fs where "map_of (gs_cache g) (ge_digest env st t) = Some fs" using there[OF t] by blast
        then show ?thesis by (simp add: look split: option.splits)
      qed
      then show ?thesis using true' by (auto simp: cached_def cache_true_def split: option.splits)
    qed
    then show ?thesis using true' fold_keep_found[OF zs(1)] zs(2) unfolding f(2) by (meson add_left_mono le_trans)
  qed
qed

section \<open>Checked texts\<close>

lemma apply_all_nth:
  "apply_all env st ts fss p = Some (as, q) \<Longrightarrow>
     length as = length ts \<and> length fss = length ts
     \<and> (\<forall>i<length ts. \<exists>p1 p2. apply_rules (ge_libs env) (token_callback (ge_value_digest env) (ts ! i)) (ts ! i) (fss ! i)
          (ge_rules env) st p1 = Some (as ! i, p2))"
proof (induction env st ts fss p arbitrary: as rule: apply_all.induct)
  case (2 env st t ts fs fss p)
  obtain a p1 where a: "apply_rules (ge_libs env) (token_callback (ge_value_digest env) t) t fs (ge_rules env) st p = Some (a, p1)"
    using 2(2) by (auto split: option.splits)
  then obtain as' where as': "apply_all env st ts fss p1 = Some (as', q)" "as = a # as'"
    using 2(2) by (auto split: option.splits)
  then show ?case using 2(1)[OF a refl as'(1)] a by (auto simp: less_Suc_eq_0_disj)
qed simp_all

lemma load_cache [simp]: "gs_cache (load env g) = gs_cache g"
  by (simp add: load_def)

lemma cache_true_cong: "gs_cache g = gs_cache h \<Longrightarrow> cache_true env g = cache_true env h"
  by (simp add: cache_true_def)

text \<open>\<open>a\<close> is what the rules make of \<open>t\<close> with the findings of a detection of \<open>t\<close>.\<close>

definition guarded :: "('k, 'd) run_env \<Rightarrow> stage \<Rightarrow> utext \<Rightarrow> applied \<Rightarrow> bool" where
  "guarded env st t a \<longleftrightarrow>
     (\<exists>fs p p1. detected env st t fs
        \<and> apply_rules (ge_libs env) (token_callback (ge_value_digest env) t) t fs (ge_rules env) st p = Some (a, p1))"

lemma check_guarded:
  assumes "separates env" "cache_true env g" "length (gs_cache g) + length texts \<le> cache_size"
    "check env sv texts st keep g = Some (as, g')"
  shows "list_all2 (guarded env st) texts as \<and> cache_true env g' \<and> length (gs_cache g') \<le> length (gs_cache g) + length texts"
proof -
  let ?g0 = "if pseudonymizes env st then load env g else g"
  have g0: "cache_true env ?g0" "length (gs_cache ?g0) + length texts \<le> cache_size"
    using assms(2,3) cache_true_cong[of "load env g" g env] by simp_all
  obtain g1 where g1: "detect_missing env sv texts st ?g0 = Some g1"
    using assms(4) by (auto simp: check_def findings_for_def Let_def split: option.splits)
  obtain q where q: "apply_all env st texts (map (cached env g1 st) texts) (gs_pseudonyms g1) = Some (as, q)"
      "gs_cache g' = gs_cache g1"
    using assms(4) by (auto simp: check_def findings_for_def Let_def g1 split: option.splits)
  note true = detect_missing_true[OF assms(1) g0 g1]
  have "list_all2 (guarded env st) texts as"
    using apply_all_nth[OF q(1)] true unfolding list_all2_conv_all_nth guarded_def by fastforce
  moreover have "cache_true env g'" using true cache_true_cong[OF q(2)] by blast
  moreover have "gs_cache ?g0 = gs_cache g" by simp
  ultimately show ?thesis using true q(2) by metis
qed

section \<open>Messages are rebuilt with their applied texts\<close>

type_synonym slot_text = "nat \<times> slot \<times> utext"

definition picked :: "nat \<Rightarrow> (slot_text \<times> applied) list \<Rightarrow> (slot \<times> utext) list" where
  "picked i zs = map (\<lambda>((j, s, t), a). (s, ap_text a)) (filter (\<lambda>((j, s, t), a). j = i \<and> ap_text a \<noteq> t) zs)"

lemma update_absent: "k \<notin> fst ` set al \<Longrightarrow> AList.update k v al = al @ [(k, v)]"
  by (induction al) auto

lemma fold_changes:
  "distinct (map (\<lambda>((j, s, t), a). (j, s)) zs) \<Longrightarrow> \<forall>s\<in>fst ` set c. (i, s) \<notin> (\<lambda>((j, s, t), a). (j, s)) ` set zs
    \<Longrightarrow> fold (\<lambda>((j, s, t), a) c. if j = i \<and> ap_text a \<noteq> t then AList.update s (ap_text a) c else c) zs c = c @ picked i zs"
proof (induction zs arbitrary: c)
  case (Cons z zs)
  obtain j s t a where z: "z = ((j, s, t), a)" by (metis prod.exhaust)
  show ?case
  proof (cases "j = i \<and> ap_text a \<noteq> t")
    case True
    then have "s \<notin> fst ` set c" using Cons.prems(2) by (auto simp: z)
    then have u: "AList.update s (ap_text a) c = c @ [(s, ap_text a)]" by (rule update_absent)
    have "\<forall>x\<in>fst ` set (c @ [(s, ap_text a)]). (i, x) \<notin> (\<lambda>((j, s, t), a). (j, s)) ` set zs"
      using Cons.prems True by (auto simp: z)
    then have "fold (\<lambda>((j, s, t), a) c. if j = i \<and> ap_text a \<noteq> t then AList.update s (ap_text a) c else c) zs (c @ [(s, ap_text a)])
        = (c @ [(s, ap_text a)]) @ picked i zs"
      using Cons.prems(1) by (intro Cons.IH) simp_all
    then show ?thesis using True u by (simp add: z picked_def)
  next
    case False
    then show ?thesis using Cons by (auto simp: z picked_def)
  qed
qed (simp add: picked_def)

lemma changes_picked: "distinct (map (\<lambda>((j, s, t), a). (j, s)) zs) \<Longrightarrow> changes_of i zs = picked i zs"
  unfolding changes_of_def by (subst fold_changes) simp_all

lemma picked_distinct:
  assumes "distinct (map (\<lambda>((j, s, t), a). (j, s)) zs)"
  shows "distinct (map fst (picked i zs))"
proof -
  let ?ys = "filter (\<lambda>((j, s, t), a). j = i \<and> ap_text a \<noteq> t) zs"
  have "distinct (map (\<lambda>((j, s, t), a). (j, s)) ?ys)" using assms by (rule distinct_map_filter)
  moreover have "map (\<lambda>((j, s, t), a). (j, s)) ?ys = map (Pair i) (map fst (picked i zs))"
    by (auto simp: picked_def)
  ultimately have "distinct (map (Pair i) (map fst (picked i zs)))" by (simp only:)
  then show ?thesis unfolding distinct_map[of "Pair i"] by blast
qed

lemma picked_lookup:
  assumes "distinct (map (\<lambda>((j, s, t), a). (j, s)) zs)" "((i, s, t), a) \<in> set zs"
  shows "(case map_of (picked i zs) s of None \<Rightarrow> t | Some u \<Rightarrow> u) = ap_text a"
proof (cases "ap_text a = t")
  case False
  then have "(s, ap_text a) \<in> set (picked i zs)" using assms(2) by (force simp: picked_def)
  then have "map_of (picked i zs) s = Some (ap_text a)" using picked_distinct[OF assms(1)] by simp
  then show ?thesis by simp
next
  case True
  have "s \<notin> fst ` set (picked i zs)"
  proof
    assume "s \<in> fst ` set (picked i zs)"
    then obtain t' a' where e: "((i, s, t'), a') \<in> set zs" "ap_text a' \<noteq> t'" by (auto simp: picked_def)
    have "inj_on (\<lambda>((j, s, t), a). (j, s)) (set zs)" using assms(1) by (simp add: distinct_map)
    then have "((i, s, t'), a') = ((i, s, t), a)" by (rule inj_onD) (use e(1) assms(2) in simp_all)
    then show False using e(2) True by simp
  qed
  then have "map_of (picked i zs) s = None" by (simp add: map_of_eq_None_iff)
  then show ?thesis using True by simp
qed

definition slotted_from :: "nat \<Rightarrow> message list \<Rightarrow> slot_text list" where
  "slotted_from n ms = concat (map (\<lambda>(i, m). map (\<lambda>(s, t). (i, s, t)) (message_texts m)) (enumerate n ms))"

lemma slotted_from_Cons [simp]:
  "slotted_from n [] = []"
  "slotted_from n (m # ms) = map (\<lambda>(s, t). (n, s, t)) (message_texts m) @ slotted_from (Suc n) ms"
  by (simp_all add: slotted_from_def)

lemma slotted_from_index: "(i, s, t) \<in> set (slotted_from n ms) \<Longrightarrow> n \<le> i"
  by (induction ms arbitrary: n) (auto dest: Suc_leD)

lemma slotted_distinct:
  "list_all proper_message ms \<Longrightarrow> distinct (map (\<lambda>(i, s, t). (i, s)) (slotted_from n ms))"
proof (induction ms arbitrary: n)
  case (Cons m ms)
  have d: "distinct (map fst (message_texts m))" using message_slots_distinct Cons.prems by simp
  have "map (\<lambda>(i, s, t). (i, s)) (map (\<lambda>(s, t). (n, s, t)) (message_texts m)) = map (Pair n) (map fst (message_texts m))"
    by (simp add: case_prod_unfold)
  then have "distinct (map (\<lambda>(i, s, t). (i, s)) (map (\<lambda>(s, t). (n, s, t)) (message_texts m)))"
    using d by (simp only: distinct_map inj_on_def) simp
  moreover have "distinct (map (\<lambda>(i, s, t). (i, s)) (slotted_from (Suc n) ms))" using Cons by simp
  moreover have "set (map (\<lambda>(i, s, t). (i, s)) (map (\<lambda>(s, t). (n, s, t)) (message_texts m)))
      \<inter> set (map (\<lambda>(i, s, t). (i, s)) (slotted_from (Suc n) ms)) = {}"
    using slotted_from_index[where n = "Suc n" and ms = ms] by fastforce
  ultimately show ?case unfolding slotted_from_Cons map_append distinct_append by blast
qed simp

lemma picked_places:
  assumes "set (map fst zs) \<subseteq> set (slotted_from 0 ms)" "i < length ms"
  shows "list_all (\<lambda>(s, _). s \<in> places (message_texts (ms ! i))) (picked i zs)"
proof -
  have at: "(s, t) \<in> set (message_texts (ms ! (i - n)))" if "(i, s, t) \<in> set (slotted_from n ms)" for n s t and ms :: "message list"
    using that
  proof (induction ms arbitrary: n)
    case (Cons m ms)
    show ?case
    proof (cases "(i, s, t) \<in> set (slotted_from (Suc n) ms)")
      case True
      then have "Suc n \<le> i" by (rule slotted_from_index)
      then show ?thesis using Cons.IH[OF True] by (simp add: nth_Cons' Suc_diff_Suc)
    next
      case False
      then show ?thesis using Cons.prems by auto
    qed
  qed simp
  have "s \<in> places (message_texts (ms ! i))" if "((i, s, t), a) \<in> set zs" for s t a
  proof -
    have "(i, s, t) \<in> set (slotted_from 0 ms)" using assms(1) that by force
    then show ?thesis using at[of s t 0 ms] by (force simp: places_def)
  qed
  then show ?thesis by (auto simp: picked_def list_all_iff)
qed

lemma changed_slots:
  "map (\<lambda>(s, t). (n, s, t)) (changed (picked n zs) ls)
    = map (\<lambda>(i, s, t). (i, s, case map_of (picked i zs) s of None \<Rightarrow> t | Some u \<Rightarrow> u)) (map (\<lambda>(s, t). (n, s, t)) ls)"
  by (induction ls) (auto simp: changed_def)

lemma rebuild_each_exact:
  assumes d: "distinct (map (\<lambda>((j, s, t), a). (j, s)) zs)"
    and "list_all proper_message ms"
    and "\<And>k. k < length ms \<Longrightarrow> list_all (\<lambda>(s, _). s \<in> places (message_texts (ms ! k))) (picked (n + k) zs)"
  shows "\<exists>ms'. rebuild_each zs (enumerate n ms) = Some ms' \<and> length ms' = length ms \<and> list_all proper_message ms'
    \<and> slotted_from n ms' = map (\<lambda>(i, s, t). (i, s, case map_of (picked i zs) s of None \<Rightarrow> t | Some u \<Rightarrow> u)) (slotted_from n ms)"
  using assms(2,3)
proof (induction ms arbitrary: n)
  case (Cons m ms)
  let ?c = "picked n zs"
  have c: "changes_of n zs = ?c" using changes_picked[OF d] .
  have "list_all (\<lambda>(s, _). s \<in> places (message_texts m)) ?c" using Cons.prems(2)[of 0] by simp
  then obtain m' where m': "rebuild m ?c = Some m'" "message_texts m' = changed ?c (message_texts m)" "proper_message m'"
    using rebuild_exact[OF _ picked_distinct[OF d]] Cons.prems(1) by fastforce
  define m1 where "m1 = (if ?c \<noteq> [] then m' else m)"
  have m1: "(if ?c \<noteq> [] then rebuild m ?c else Some m) = Some m1" "message_texts m1 = changed ?c (message_texts m)"
      "proper_message m1"
    using m' Cons.prems(1) by (auto simp: m1_def changed_def)
  obtain ms' where ms': "rebuild_each zs (enumerate (Suc n) ms) = Some ms'" "length ms' = length ms" "list_all proper_message ms'"
    "slotted_from (Suc n) ms' = map (\<lambda>(i, s, t). (i, s, case map_of (picked i zs) s of None \<Rightarrow> t | Some u \<Rightarrow> u)) (slotted_from (Suc n) ms)"
    using Cons.IH[of "Suc n"] Cons.prems by fastforce
  have "rebuild_each zs (enumerate n (m # ms)) = Some (m1 # ms')"
    unfolding enumerate_simps rebuild_each.simps c m1(1) ms'(1) option.case ..
  then show ?case using m1(2,3) ms' changed_slots[of n zs "message_texts m"] by simp
qed simp

lemma guard_messages_exact:
  assumes "list_all proper_message ms" "check env sv (map (snd \<circ> snd) (slotted ms)) LlmSend True g = Some (as, g')"
  shows "\<exists>ms'. guard_messages env sv ms g = Some (ms', concat (map ap_decisions as), g') \<and> length ms' = length ms
    \<and> slotted ms' = map (\<lambda>((i, s, t), a). (i, s, ap_text a)) (zip (slotted ms) as)"
proof -
  let ?zs = "zip (slotted ms) as"
  have sl: "slotted ms = slotted_from 0 ms" for ms by (simp add: slotted_def slotted_from_def)
  obtain fss p q where "apply_all env LlmSend (map (snd \<circ> snd) (slotted ms)) fss p = Some (as, q)"
    using assms(2) by (auto simp: check_def Let_def split: option.splits)
  then have len: "length as = length (slotted ms)" using apply_all_nth by fastforce
  have "map (\<lambda>((j, s, t), a). (j, s)) ?zs = map (\<lambda>(i, s, t). (i, s)) (map fst ?zs)" by (simp add: case_prod_unfold)
  also have "map fst ?zs = slotted ms" using len by simp
  finally have d: "distinct (map (\<lambda>((j, s, t), a). (j, s)) ?zs)" using slotted_distinct[OF assms(1)] by (simp add: sl)
  have "set (map fst ?zs) \<subseteq> set (slotted_from 0 ms)" using len by (simp add: sl)
  then obtain ms' where ms': "rebuild_each ?zs (enumerate 0 ms) = Some ms'" "length ms' = length ms"
    "slotted_from 0 ms' = map (\<lambda>(i, s, t). (i, s, case map_of (picked i ?zs) s of None \<Rightarrow> t | Some u \<Rightarrow> u)) (slotted_from 0 ms)"
    using rebuild_each_exact[OF d assms(1), of 0] picked_places by fastforce
  have "map (\<lambda>(i, s, t). (i, s, case map_of (picked i ?zs) s of None \<Rightarrow> t | Some u \<Rightarrow> u)) (map fst ?zs)
      = map (\<lambda>((i, s, t), a). (i, s, ap_text a)) ?zs"
    using picked_lookup[OF d] by (auto simp del: map_fst_zip)
  then have "slotted ms' = map (\<lambda>((i, s, t), a). (i, s, ap_text a)) ?zs"
    using ms'(3) len by (simp add: sl)
  then show ?thesis using assms(2) ms' by (simp add: guard_messages_def Let_def)
qed

section \<open>What is sent\<close>

lemma check_input_guarded:
  assumes "separates env" "cache_true env g" "length (gs_cache g) + 1 \<le> cache_size" "check_input env sv ms g = Some (ds, g')"
  shows "cache_true env g' \<and> length (gs_cache g') \<le> length (gs_cache g) + 1"
proof -
  consider "g' = g" | t st i a where "check env sv [t] st True (g\<lparr>gs_inputs := i\<rparr>) = Some ([a], g')"
    using assms(4) by (auto simp: check_input_def Let_def split: if_splits option.splits list.splits)
  then show ?thesis
  proof cases
    case 2
    then show ?thesis
      using check_guarded[OF assms(1) _ _ 2] assms(2,3) cache_true_cong[of "g\<lparr>gs_inputs := i\<rparr>" g env] by simp
  qed (use assms in simp)
qed

text \<open>A slot keeps its place and holds what the rules made of its text, and nothing blocks it.\<close>

definition slot_guarded :: "('k, 'd) run_env \<Rightarrow> slot_text \<Rightarrow> slot_text \<Rightarrow> bool" where
  "slot_guarded env x y \<longleftrightarrow>
     fst y = fst x \<and> fst (snd y) = fst (snd x)
     \<and> (\<exists>a. guarded env LlmSend (snd (snd x)) a \<and> \<not> blocked a \<and> snd (snd y) = ap_text a)"

lemma sent_guarded:
  assumes "separates env" "cache_true env g" "length (gs_cache g) + length (slotted ms) + 1 \<le> cache_size"
    "list_all proper_message ms" "guard_request env sv1 sv2 ms g = Some (Sent ms', g')"
  shows "length ms' = length ms \<and> list_all2 (slot_guarded env) (slotted ms) (slotted ms')"
proof -
  obtain att g1 where g1: "check_input env sv1 ms g = Some (att, g1)"
    using assms(5) by (auto simp: guard_request_def split: option.splits)
  then obtain ds where m: "guard_messages env sv2 ms g1 = Some (ms', ds, g')" "\<not> blocks ds"
    using assms(5) by (auto simp: guard_request_def split: option.splits if_splits)
  have in1: "cache_true env g1" "length (gs_cache g1) \<le> length (gs_cache g) + 1"
    using check_input_guarded[OF assms(1,2) _ g1] assms(3) by simp_all
  obtain as g2 where c: "check env sv2 (map (snd \<circ> snd) (slotted ms)) LlmSend True g1 = Some (as, g2)"
    using m(1) by (auto simp: guard_messages_def Let_def split: option.splits)
  have room: "length (gs_cache g1) + length (map (snd \<circ> snd) (slotted ms)) \<le> cache_size"
    using in1(2) assms(3) by simp
  have ok: "list_all2 (guarded env LlmSend) (map (snd \<circ> snd) (slotted ms)) as"
    using check_guarded[OF assms(1) in1(1) room c] by blast
  then have len: "length as = length (slotted ms)" by (auto dest: list_all2_lengthD)
  have ex: "length ms' = length ms" "slotted ms' = map (\<lambda>((i, s, t), a). (i, s, ap_text a)) (zip (slotted ms) as)"
    "ds = concat (map ap_decisions as)"
    using guard_messages_exact[OF assms(4) c] m(1) by auto
  have "\<not> blocked a" if "a \<in> set as" for a
    using m(2) that unfolding ex(3) blocks_def blocked_def by (auto simp: list_ex_iff)
  then have "list_all2 (slot_guarded env) (slotted ms) (slotted ms')"
    using ok len unfolding ex(2) list_all2_conv_all_nth
    by (auto simp: slot_guarded_def case_prod_unfold)
  then show ?thesis using ex(1) by simp
qed


definition number_hidden :: "(int \<Rightarrow> bool) \<Rightarrow> slot_text \<Rightarrow> slot_text \<Rightarrow> bool" where
  "number_hidden decimal x y \<longleftrightarrow>
     (\<exists>a :: applied. snd (snd y) = ap_text a
        \<and> (\<forall>(i, j)\<in>set (rrn_spans decimal False 0 (snd (snd x))).
             \<exists>d\<in>set (ap_decisions a). dc_action d = Redact \<and> dc_start d \<le> i \<and> j \<le> dc_end d))"


section \<open>Tool calls that run\<close>

lemma put_args_exact:
  "proper v \<Longrightarrow> leaves v = pre @ ls \<Longrightarrow> length as = length ls
    \<Longrightarrow> \<exists>w. put_args ls as v = Some w \<and> proper w \<and> leaves w = pre @ map (\<lambda>((p, _), a). (p, ap_text a)) (zip ls as)"
proof (induction ls as v arbitrary: pre rule: put_args.induct)
  case (1 p t ls a as v)
  have d: "distinct (map fst (pre @ (p, t) # ls))" using distinct_leaves[OF 1(3)] 1(4) by simp
  have p: "p \<in> places (leaves v)" unfolding 1(4) by simp
  show ?case
  proof (cases "ap_text a \<noteq> t")
    case True
    obtain w where w: "replace_leaf p (ap_text a) v = Some w" "proper w" "leaves w = put p (ap_text a) (leaves v)"
      using replace_leaf_put[OF 1(3) p] by blast
    have "p \<notin> places pre" "p \<notin> places ls" using d by (auto simp: places_def)
    then have "leaves w = (pre @ [(p, ap_text a)]) @ ls" unfolding w(3) 1(4) by (simp add: put_absent)
    then show ?thesis using 1(1)[OF True w(1) w(2)] 1(5) True w(1) by fastforce
  next
    case False
    then show ?thesis using 1(2)[OF _ 1(3), of "pre @ [(p, t)]"] 1(4,5) by fastforce
  qed
qed simp_all

lemma restore_each_props: "length (fst (restore_each env tools ts g)) = length ts \<and> gs_cache (snd (restore_each env tools ts g)) = gs_cache g"
proof (induction ts arbitrary: g)
  case (Cons t ts)
  obtain u g1 where u: "guard_restore env tools t g = (u, g1)" by fastforce
  have "gs_cache (snd (guard_restore env tools t g)) = gs_cache g"
    by (simp add: guard_restore_def Let_def case_prod_unfold)
  then have "gs_cache g1 = gs_cache g" by (simp add: u)
  then show ?case using Cons.IH[of g1] by (simp add: u case_prod_unfold Let_def)
qed simp


section \<open>A request larger than the cache\<close>

lemma fold_keep_full:
  "distinct (map fst (c @ zs)) \<Longrightarrow> length c \<le> cache_size
    \<Longrightarrow> fold keep_found zs c = drop (length c + length zs - cache_size) (c @ zs)"
proof (induction zs arbitrary: c)
  case (Cons z zs)
  have "fst z \<notin> fst ` set c" using Cons.prems(1) by auto
  then have k: "keep_found z c = drop (Suc (length c) - cache_size) (c @ [z])"
    by (simp add: keep_found_def update_absent Let_def)
  show ?case
  proof (cases "length c < cache_size")
    case True
    then have "keep_found z c = c @ [z]" using k by simp
    moreover have "fold keep_found zs (c @ [z]) = drop (length (c @ [z]) + length zs - cache_size) ((c @ [z]) @ zs)"
      using Cons.prems True by (intro Cons.IH) simp_all
    ultimately show ?thesis by simp
  next
    case False
    then have full: "length c = cache_size" using Cons.prems(2) by simp
    obtain x xs where x: "c = x # xs" using full by (cases c) (simp_all add: cache_size_def)
    have size: "cache_size = Suc (length xs)" using full by (simp add: x)
    have "keep_found z c = xs @ [z]" using k full by (simp add: x)
    moreover have "fold keep_found zs (xs @ [z]) = drop (length (xs @ [z]) + length zs - cache_size) ((xs @ [z]) @ zs)"
      using Cons.prems full by (intro Cons.IH) (simp_all add: x)
    ultimately show ?thesis by (simp add: x size)
  qed
qed simp

lemma apply_nothing: "apply_rules libs ps s [] rules st p = Some (\<lparr>ap_text = s, ap_decisions = []\<rparr>, p)"
  by (simp add: apply_rules_def spans_def sort_matches_def matched_def comparable_def)

text \<open>
  A request with more new texts than the cache holds: the findings of the first texts are gone before
  they are read, so the first text passes as it is and without a decision, whatever was found in it.
\<close>
theorem full_cache_skips_detection:
  assumes "separates env" "distinct texts" "2048 < length texts" "packs_for (ge_rules env) st \<noteq> []"
    "gs_cache g = []" "check env sv texts st keep g = Some (as, g')"
  shows "hd as = \<lparr>ap_text = hd texts, ap_decisions = []\<rparr>"
proof -
  let ?g0 = "if pseudonymizes env st then load env g else g"
  obtain g1 where g1: "detect_missing env sv texts st ?g0 = Some g1"
    using assms(6) by (auto simp: check_def findings_for_def Let_def split: option.splits)
  then obtain q where q: "apply_all env st texts (map (cached env g1 st) texts) (gs_pseudonyms g1) = Some (as, q)"
    using assms(6) by (auto simp: check_def findings_for_def Let_def split: option.splits)
  have new: "missing env ?g0 st texts = texts" using assms(5) by (simp add: missing_def)
  obtain t ts where t: "texts = t # ts" using assms(3) by (cases texts) simp_all
  obtain fresh down where f: "detect_texts (ge_detectors env) sv texts (packs_for (ge_rules env) st) (gs_down ?g0) = Some (fresh, down)"
      "gs_cache g1 = fold keep_found (zip (map (ge_digest env st) texts) fresh) []"
    using g1 assms(4,5) unfolding detect_missing_def Let_def new by (auto simp: t split: option.splits if_splits)
  have len: "length fresh = length texts" using detect_texts_length[OF f(1)] .
  let ?zs = "zip (map (ge_digest env st) texts) fresh"
  have "inj_on (ge_digest env st) (set texts)" using assms(1) by (auto simp: separates_def inj_on_def)
  then have d: "distinct (map fst ?zs)" using assms(2) len by (simp add: distinct_map)
  have cache: "gs_cache g1 = drop (length ?zs - cache_size) ?zs"
    using fold_keep_full[of "[]" ?zs] d unfolding f(2) by simp
  have "1 \<le> length ?zs - cache_size" using assms(3) len by (simp add: cache_size_def)
  then obtain k where k: "length ?zs - cache_size = Suc k" by (cases "length ?zs - cache_size") simp_all
  obtain y ys where y: "fresh = y # ys" using len by (cases fresh) (simp_all add: t)
  have "ge_digest env st t \<notin> fst ` set (zip (map (ge_digest env st) ts) ys)" using d by (simp add: t y)
  then have "ge_digest env st t \<notin> fst ` set (gs_cache g1)"
    unfolding cache k by (auto simp: t y dest: in_set_dropD)
  then have "cached env g1 st t = []" by (simp add: cached_def map_of_eq_None_iff split: option.split) (metis option.distinct(1) map_of_eq_None_iff)
  then show ?thesis using q by (auto simp: t apply_nothing split: option.splits)
qed

section \<open>Witnesses\<close>

text \<open>Evaluated without the cache's size where the cache is short.\<close>

lemma keep_found_code [code]:
  "keep_found e c = (let c' = AList.update (fst e) (snd e) c in if length c' < 16 then c' else drop (length c' - cache_size) c')"
  by (simp add: keep_found_def Let_def cache_size_def)

definition demo_env :: "(stage \<times> utext, string \<times> utext) run_env" where
  "demo_env = \<lparr>ge_rules = the (builtin ''kr-default''), ge_digest = Pair, ge_input_digest = Pair InputStage,
     ge_value_digest = Pair, ge_detectors = demo_detectors, ge_libs = demo_libs, ge_rows = [], ge_interactive = True\<rparr>"

definition no_service :: model_service where
  "no_service = \<lparr>ms_enabled = False, ms_url = [], ms_ask = (\<lambda>_ _. None)\<rparr>"

definition demo_chat :: "message list" where
  "demo_chat = [\<lparr>mg_role = Human, mg_content = CText (demo_number @ [33]), mg_calls = []\<rparr>,
     \<lparr>mg_role = Ai, mg_content = CBlocks [VStr [72]], mg_calls = [\<lparr>tc_id = ''1'', tc_name = ''find'', tc_args = VDict [(''q'', VStr demo_number)]\<rparr>]\<rparr>]"

definition demo_request :: "(request_outcome \<times> (stage \<times> utext, string \<times> utext) guard_state) option" where
  "demo_request = guard_request demo_env no_service no_service demo_chat (new_guard False)"

lemma demo_request_sent:
  "case demo_request of Some (Sent ms', _) \<Rightarrow> map (snd \<circ> snd) (slotted ms') = [redacted ''RRN'' @ [33], [72], redacted ''RRN''] | _ \<Rightarrow> False"
  by code_simp

lemma demo_ready:
  "separates demo_env" "cache_true demo_env (new_guard False)" "list_all proper_message demo_chat"
  "length (gs_cache (new_guard False :: (stage \<times> utext, string \<times> utext) guard_state)) + length (slotted demo_chat) + 1 \<le> 2048"
proof -
  show "separates demo_env" by (simp add: separates_def demo_env_def)
  show "list_all proper_message demo_chat" by code_simp
  have "length (slotted demo_chat) = 3" by code_simp
  then show "length (gs_cache (new_guard False :: (stage \<times> utext, string \<times> utext) guard_state)) + length (slotted demo_chat) + 1 \<le> 2048"
    by (simp add: new_guard_def)
qed simp



definition demo_args :: val where
  "demo_args = VDict [(''to'', VStr [72]), (''body'', VList [VStr demo_number])]"

definition demo_call :: "(call_outcome \<times> (stage \<times> utext, string \<times> utext) guard_state) option" where
  "demo_call = guard_tool_call demo_env no_service demo_args (new_guard False)"

lemma demo_call_runs: "case demo_call of Some (Run v, _) \<Rightarrow> map snd (leaves v) = [[72], redacted ''RRN''] | _ \<Rightarrow> False"
  by code_simp


end
