(* ===== verification/GuardStream.thy ===== *)
theory GuardStream
  imports Guard
begin

text \<open>
  Guarding what streams to the user (\<open>guardrails/stream\<close>, \<open>_StreamGuard\<close> of \<open>guardrails/middleware\<close>):
  text is held back until a window is full, the window is checked, and all but its last 128
  characters leave. The guard is what the redactor is given: a check of one text that may change
  the guard's state; \<open>None\<close> is a raised exception.

  The lemmas show that nothing is lost or reordered while the checks change nothing, and that no character
  leaves before a window with the 128 characters from it on was checked.
\<close>

section \<open>The redactor\<close>

definition lookback :: nat where "lookback = 128"
definition burst :: nat where "burst = 128"

datatype stream_key = BlockKey string int string | ToolKey string

text \<open>\<open>key[0]\<close>.\<close>

definition key_run :: "stream_key \<Rightarrow> string" where
  "key_run k = (case k of BlockKey run _ _ \<Rightarrow> run | ToolKey _ \<Rightarrow> ''tool'')"

record 'g redactor =
  sr_guard :: 'g
  sr_held :: "(stream_key \<times> utext) list"
  sr_blocked :: "stream_key list"

type_synonym 'g checker = "utext \<Rightarrow> stage \<Rightarrow> 'g \<Rightarrow> (applied \<times> 'g) option"

definition held_text :: "'g redactor \<Rightarrow> stream_key \<Rightarrow> utext" where
  "held_text s k = (case map_of (sr_held s) k of Some t \<Rightarrow> t | None \<Rightarrow> [])"

definition show_text :: "'g checker \<Rightarrow> utext \<Rightarrow> stage \<Rightarrow> 'g redactor \<Rightarrow> (utext \<times> 'g redactor) option" where
  "show_text chk t st s =
     (if t = [] then Some (t, s)
      else (case chk t st (sr_guard s) of
              None \<Rightarrow> None
            | Some (a, g) \<Rightarrow>
                Some (if blocked a then block_notice (ap_decisions a) else ap_text a, s\<lparr>sr_guard := g\<rparr>)))"

definition feed :: "'g checker \<Rightarrow> stream_key \<Rightarrow> utext \<Rightarrow> stage \<Rightarrow> 'g redactor \<Rightarrow> (utext \<times> 'g redactor) option" where
  "feed chk k t st s =
     (if k \<in> set (sr_blocked s) then Some ([], s)
      else
        (let w = held_text s k @ t in
         if length w < lookback + burst then Some ([], s\<lparr>sr_held := AList.update k w (sr_held s)\<rparr>)
         else
           (case chk w st (sr_guard s) of
              None \<Rightarrow> None
            | Some (a, g) \<Rightarrow>
                if blocked a then
                  Some (block_notice (ap_decisions a),
                    s\<lparr>sr_guard := g, sr_blocked := k # sr_blocked s, sr_held := AList.delete k (sr_held s)\<rparr>)
                else
                  (let cut = int (length (ap_text a)) - int lookback
                   in Some (py_upto (ap_text a) cut,
                        s\<lparr>sr_guard := g, sr_held := AList.update k (py_from (ap_text a) cut) (sr_held s)\<rparr>)))))"

definition drop_held :: "stream_key \<Rightarrow> 'g redactor \<Rightarrow> 'g redactor" where
  "drop_held k s = s\<lparr>sr_held := AList.delete k (sr_held s)\<rparr>"

definition drop_prefix :: "string \<Rightarrow> 'g redactor \<Rightarrow> 'g redactor" where
  "drop_prefix run s =
     s\<lparr>sr_held := filter (\<lambda>(k, _). key_run k \<noteq> run) (sr_held s),
       sr_blocked := filter (\<lambda>k. key_run k \<noteq> run) (sr_blocked s)\<rparr>"

text \<open>A finished message. The text of a text block is a string.\<close>

fun show_blocks :: "'g checker \<Rightarrow> stage \<Rightarrow> val list \<Rightarrow> 'g redactor \<Rightarrow> (val list \<times> 'g redactor) option" where
  "show_blocks chk st [] s = Some ([], s)"
| "show_blocks chk st (b # bs) s =
     (case (case b of
              VDict kvs \<Rightarrow>
                if map_of kvs ''type'' = Some (VStr (chars ''text'')) then
                  (case map_of kvs ''text'' of
                     Some (VStr t) \<Rightarrow>
                       (case show_text chk t st s of
                          None \<Rightarrow> None
                        | Some (u, s1) \<Rightarrow> Some (if u \<noteq> t then VDict (AList.update ''text'' (VStr u) kvs) else b, s1))
                   | _ \<Rightarrow> Some (b, s))
                else Some (b, s)
            | _ \<Rightarrow> Some (b, s)) of
        None \<Rightarrow> None
      | Some (b', s1) \<Rightarrow>
          (case show_blocks chk st bs s1 of None \<Rightarrow> None | Some (bs', s2) \<Rightarrow> Some (b' # bs', s2)))"

definition show_message :: "'g checker \<Rightarrow> message \<Rightarrow> 'g redactor \<Rightarrow> (message \<times> 'g redactor) option" where
  "show_message chk m s =
     (case (case mg_role m of Ai \<Rightarrow> Some OutputStage | ToolAnswer \<Rightarrow> Some ToolResult | _ \<Rightarrow> None) of
        None \<Rightarrow> Some (m, s)
      | Some st \<Rightarrow>
          (case mg_content m of
             CText t \<Rightarrow>
               (case show_text chk t st s of None \<Rightarrow> None | Some (u, s1) \<Rightarrow> Some (m\<lparr>mg_content := CText u\<rparr>, s1))
           | CBlocks bs \<Rightarrow>
               (case show_blocks chk st bs s of None \<Rightarrow> None | Some (bs', s1) \<Rightarrow> Some (m\<lparr>mg_content := CBlocks bs'\<rparr>, s1))
           | COther \<Rightarrow> Some (m, s)))"

text \<open>Structures with messages inside: \<open>value\<close> guards the messages, \<open>strings\<close> every string as well.\<close>

datatype tree = Msg message | Str utext | Dict "(string \<times> tree) list" | Lst "tree list" | Tup "tree list" | Atom nat

fun show_value :: "'g checker \<Rightarrow> tree \<Rightarrow> 'g redactor \<Rightarrow> (tree \<times> 'g redactor) option"
  and show_values :: "'g checker \<Rightarrow> tree list \<Rightarrow> 'g redactor \<Rightarrow> (tree list \<times> 'g redactor) option"
  and show_members :: "'g checker \<Rightarrow> (string \<times> tree) list \<Rightarrow> 'g redactor \<Rightarrow> ((string \<times> tree) list \<times> 'g redactor) option" where
  "show_value chk (Msg m) s = map_option (\<lambda>(m', s'). (Msg m', s')) (show_message chk m s)"
| "show_value chk (Dict kvs) s = map_option (\<lambda>(xs, s'). (Dict xs, s')) (show_members chk kvs s)"
| "show_value chk (Lst vs) s = map_option (\<lambda>(xs, s'). (Lst xs, s')) (show_values chk vs s)"
| "show_value chk (Tup vs) s = map_option (\<lambda>(xs, s'). (Tup xs, s')) (show_values chk vs s)"
| "show_value chk v s = Some (v, s)"
| "show_values chk [] s = Some ([], s)"
| "show_values chk (v # vs) s =
     (case show_value chk v s of
        None \<Rightarrow> None
      | Some (x, s1) \<Rightarrow> map_option (\<lambda>(xs, s2). (x # xs, s2)) (show_values chk vs s1))"
| "show_members chk [] s = Some ([], s)"
| "show_members chk ((k, v) # kvs) s =
     (case show_value chk v s of
        None \<Rightarrow> None
      | Some (x, s1) \<Rightarrow> map_option (\<lambda>(xs, s2). ((k, x) # xs, s2)) (show_members chk kvs s1))"

fun show_strings :: "'g checker \<Rightarrow> stage \<Rightarrow> tree \<Rightarrow> 'g redactor \<Rightarrow> (tree \<times> 'g redactor) option"
  and show_string_list :: "'g checker \<Rightarrow> stage \<Rightarrow> tree list \<Rightarrow> 'g redactor \<Rightarrow> (tree list \<times> 'g redactor) option"
  and show_string_members ::
    "'g checker \<Rightarrow> stage \<Rightarrow> (string \<times> tree) list \<Rightarrow> 'g redactor \<Rightarrow> ((string \<times> tree) list \<times> 'g redactor) option" where
  "show_strings chk st (Str t) s = map_option (\<lambda>(u, s'). (Str u, s')) (show_text chk t st s)"
| "show_strings chk st (Msg m) s = map_option (\<lambda>(m', s'). (Msg m', s')) (show_message chk m s)"
| "show_strings chk st (Dict kvs) s = map_option (\<lambda>(xs, s'). (Dict xs, s')) (show_string_members chk st kvs s)"
| "show_strings chk st (Lst vs) s = map_option (\<lambda>(xs, s'). (Lst xs, s')) (show_string_list chk st vs s)"
| "show_strings chk st v s = Some (v, s)"
| "show_string_list chk st [] s = Some ([], s)"
| "show_string_list chk st (v # vs) s =
     (case show_strings chk st v s of
        None \<Rightarrow> None
      | Some (x, s1) \<Rightarrow> map_option (\<lambda>(xs, s2). (x # xs, s2)) (show_string_list chk st vs s1))"
| "show_string_members chk st [] s = Some ([], s)"
| "show_string_members chk st ((k, v) # kvs) s =
     (case show_strings chk st v s of
        None \<Rightarrow> None
      | Some (x, s1) \<Rightarrow> map_option (\<lambda>(xs, s2). ((k, x) # xs, s2)) (show_string_members chk st kvs s1))"

section \<open>Events\<close>

definition delta_fields :: "(string \<times> string \<times> stage) list" where
  "delta_fields =
     [(''text-delta'', ''text'', OutputStage), (''reasoning-delta'', ''reasoning'', OutputStage),
      (''tool-call-delta'', ''args'', ToolArgs)]"

definition finish_fields :: "(string \<times> string \<times> stage) list" where
  "finish_fields = [(''text'', ''text'', OutputStage), (''reasoning'', ''reasoning'', OutputStage)]"

text \<open>
  What an event of the \<open>messages\<close> channel carries: a message, a delta (its kind and the text of its
  field, when that is a string), a finished block (its kind, its text and its arguments) or the
  end of a message.
\<close>

datatype message_event =
    WholeMessage message
  | BlockDelta int string "utext option"
  | BlockFinish int string "utext option" "tree option"
  | MessageEnd
  | OtherPayload

definition finish :: "'g checker \<Rightarrow> string \<Rightarrow> int \<Rightarrow> string \<Rightarrow> utext option \<Rightarrow> tree option \<Rightarrow> 'g redactor
    \<Rightarrow> (message_event \<times> 'g redactor) option" where
  "finish chk run i kind t args s =
     (case map_of finish_fields kind of
        Some (field, st) \<Rightarrow>
          (case (case t of None \<Rightarrow> Some (None, s) | Some u \<Rightarrow> map_option (\<lambda>(x, s'). (Some x, s')) (show_text chk u st s)) of
             None \<Rightarrow> None
           | Some (u, s1) \<Rightarrow> Some (BlockFinish i kind u args, drop_held (BlockKey run i field) s1))
      | None \<Rightarrow>
          if kind \<in> {''tool_call'', ''server_tool_call'', ''invalid_tool_call''} then
            (case (case args of None \<Rightarrow> Some (None, s)
                   | Some v \<Rightarrow> map_option (\<lambda>(x, s'). (Some x, s')) (show_strings chk ToolArgs v s)) of
               None \<Rightarrow> None
             | Some (v, s1) \<Rightarrow> Some (BlockFinish i kind t v, drop_held (BlockKey run i ''args'') s1))
          else Some (BlockFinish i kind t args, s))"

definition on_message :: "'g checker \<Rightarrow> string \<Rightarrow> message_event \<Rightarrow> 'g redactor \<Rightarrow> (message_event \<times> 'g redactor) option" where
  "on_message chk run e s =
     (case e of
        WholeMessage m \<Rightarrow> map_option (\<lambda>(m', s'). (WholeMessage m', s')) (show_message chk m s)
      | BlockDelta i kind t \<Rightarrow>
          (case (map_of delta_fields kind, t) of
             (Some (field, st), Some (c # cs)) \<Rightarrow>
               map_option (\<lambda>(u, s'). (BlockDelta i kind (Some u), s')) (feed chk (BlockKey run i field) (c # cs) st s)
           | _ \<Rightarrow> Some (e, s))
      | BlockFinish i kind t args \<Rightarrow> finish chk run i kind t args s
      | MessageEnd \<Rightarrow> Some (e, drop_prefix run s)
      | OtherPayload \<Rightarrow> Some (e, s))"

datatype tool_event =
    ToolStarted "tree option"
  | ToolOutput tree
  | ToolFinished "tree option"
  | ToolError "utext option"
  | OtherTool

text \<open>A delta of a tool's output is a string, a structure or something else.\<close>

definition on_tool :: "'g checker \<Rightarrow> string \<Rightarrow> tool_event \<Rightarrow> 'g redactor \<Rightarrow> (tool_event \<times> 'g redactor) option" where
  "on_tool chk call e s =
     (case e of
        ToolStarted (Some v) \<Rightarrow> map_option (\<lambda>(x, s'). (ToolStarted (Some x), s')) (show_strings chk ToolArgs v s)
      | ToolOutput (Str (c # cs)) \<Rightarrow>
          map_option (\<lambda>(u, s'). (ToolOutput (Str u), s')) (feed chk (ToolKey call) (c # cs) ToolResult s)
      | ToolOutput (Dict kvs) \<Rightarrow> map_option (\<lambda>(x, s'). (ToolOutput x, s')) (show_strings chk ToolResult (Dict kvs) s)
      | ToolOutput (Lst vs) \<Rightarrow> map_option (\<lambda>(x, s'). (ToolOutput x, s')) (show_strings chk ToolResult (Lst vs) s)
      | ToolFinished (Some v) \<Rightarrow>
          map_option (\<lambda>(x, s'). (ToolFinished (Some x), drop_held (ToolKey call) s')) (show_strings chk ToolResult v s)
      | ToolFinished None \<Rightarrow> Some (e, drop_held (ToolKey call) s)
      | ToolError (Some t) \<Rightarrow>
          map_option (\<lambda>(u, s'). (ToolError (Some u), drop_held (ToolKey call) s')) (show_text chk t ToolResult s)
      | ToolError None \<Rightarrow> Some (e, drop_held (ToolKey call) s)
      | _ \<Rightarrow> Some (e, s))"

section \<open>The guard it is given\<close>

definition stream_check :: "('k, 'd) run_env \<Rightarrow> model_service \<Rightarrow> ('k, 'd) guard_state checker" where
  "stream_check env sv t st g =
     (let (u, g1) = guard_restore env False t g in
      case check env sv [u] st False g1 of Some ([a], g2) \<Rightarrow> Some (a, g2) | _ \<Rightarrow> None)"

section \<open>A stream of deltas\<close>

fun feeds :: "'g checker \<Rightarrow> stream_key \<Rightarrow> stage \<Rightarrow> utext list \<Rightarrow> 'g redactor \<Rightarrow> (utext list \<times> 'g redactor) option" where
  "feeds chk k st [] s = Some ([], s)"
| "feeds chk k st (t # ts) s =
     (case feed chk k t st s of
        None \<Rightarrow> None
      | Some (u, s1) \<Rightarrow> (case feeds chk k st ts s1 of None \<Rightarrow> None | Some (us, s2) \<Rightarrow> Some (u # us, s2)))"

text \<open>The windows that are checked on the way.\<close>

fun windows :: "'g checker \<Rightarrow> stream_key \<Rightarrow> stage \<Rightarrow> utext list \<Rightarrow> 'g redactor \<Rightarrow> utext list" where
  "windows chk k st [] s = []"
| "windows chk k st (t # ts) s =
     (if k \<in> set (sr_blocked s) \<or> length (held_text s k @ t) < lookback + burst then [] else [held_text s k @ t])
     @ (case feed chk k t st s of None \<Rightarrow> [] | Some (_, s1) \<Rightarrow> windows chk k st ts s1)"

text \<open>A check that finds nothing to change or block.\<close>

definition harmless :: "'g checker \<Rightarrow> stage \<Rightarrow> utext \<Rightarrow> bool" where
  "harmless chk st w \<longleftrightarrow> (\<forall>g a g'. chk w st g = Some (a, g') \<longrightarrow> ap_text a = w \<and> \<not> blocked a)"

lemma held_update [simp]: "held_text (s\<lparr>sr_held := AList.update k t h\<rparr>) k = t"
  by (simp add: held_text_def update_conv')

lemma held_guard [simp]: "held_text (s\<lparr>sr_guard := g\<rparr>) k = held_text s k"
  by (simp add: held_text_def)

lemma feed_harmless:
  assumes "k \<notin> set (sr_blocked s)" "feed chk k t st s = Some (u, s1)"
    "lookback + burst \<le> length (held_text s k @ t) \<Longrightarrow> harmless chk st (held_text s k @ t)"
  shows "sr_blocked s1 = sr_blocked s \<and> u @ held_text s1 k = held_text s k @ t
    \<and> (if length (held_text s k @ t) < lookback + burst then u = [] else length (held_text s1 k) = lookback)"
proof (cases "length (held_text s k @ t) < lookback + burst")
  case True
  then show ?thesis using assms(1,2) by (auto simp: feed_def Let_def)
next
  case False
  let ?w = "held_text s k @ t"
  obtain a g where c: "chk ?w st (sr_guard s) = Some (a, g)"
    using assms(1,2) False by (auto simp: feed_def Let_def split: option.splits)
  have a: "ap_text a = ?w" "\<not> blocked a" using assms(3) False c by (auto simp: harmless_def)
  let ?cut = "int (length ?w) - int lookback"
  have f: "u = py_upto ?w ?cut" "s1 = s\<lparr>sr_guard := g, sr_held := AList.update k (py_from ?w ?cut) (sr_held s)\<rparr>"
    using assms(1,2) False c a by (auto simp: feed_def Let_def)
  have "held_text s1 k = py_from ?w ?cut" unfolding f(2) by (simp add: held_text_def update_conv')
  moreover have "length (py_from ?w ?cut) = lookback"
    using False by (simp add: py_from_def py_bound_def lookback_def burst_def)
  ultimately show ?thesis using f False by simp
qed

text \<open>Position \<open>i\<close> of \<open>T\<close> was checked in \<open>w\<close> together with the 128 characters from it on.\<close>

definition covers_from :: "utext \<Rightarrow> utext \<Rightarrow> nat \<Rightarrow> bool" where
  "covers_from T w i \<longleftrightarrow> (\<exists>j\<le>i. w = take (length w) (drop j T) \<and> i + lookback \<le> j + length w)"

lemma covers_shift: "covers_from T w i \<Longrightarrow> covers_from (u @ T) w (length u + i)"
proof -
  assume "covers_from T w i"
  then obtain j where "j \<le> i" "w = take (length w) (drop j T)" "i + lookback \<le> j + length w"
    unfolding covers_from_def by blast
  then show ?thesis unfolding covers_from_def by (intro exI[of _ "length u + j"]) simp
qed

lemma feeds_harmless:
  assumes "k \<notin> set (sr_blocked s)" "length (held_text s k) < lookback + burst" "feeds chk k st ts s = Some (us, s')"
    "list_all (harmless chk st) (windows chk k st ts s)"
  shows "concat us @ held_text s' k = held_text s k @ concat ts \<and> length (held_text s' k) < lookback + burst
    \<and> (\<forall>i<length (concat us). \<exists>w\<in>set (windows chk k st ts s). covers_from (held_text s k @ concat ts) w i)"
  using assms
proof (induction ts arbitrary: s us)
  case (Cons t ts)
  obtain u s1 us' where f: "feed chk k t st s = Some (u, s1)" "feeds chk k st ts s1 = Some (us', s')" "us = u # us'"
    using Cons.prems(3) by (auto split: option.splits)
  let ?w = "held_text s k @ t"
  have win: "windows chk k st (t # ts) s = (if length ?w < lookback + burst then [] else [?w]) @ windows chk k st ts s1"
    using Cons.prems(1) f(1) by simp
  have hw: "harmless chk st ?w" if "lookback + burst \<le> length ?w"
  proof -
    have "?w \<in> set (windows chk k st (t # ts) s)" unfolding win using that by simp
    then show ?thesis using Cons.prems(4) unfolding list_all_iff by blast
  qed
  note step = feed_harmless[OF Cons.prems(1) f(1) hw]
  have "list_all (harmless chk st) (windows chk k st ts s1)" using Cons.prems(4) unfolding win by simp
  moreover have "length (held_text s1 k) < lookback + burst"
    using step by (cases "length ?w < lookback + burst") (auto simp: lookback_def burst_def)
  moreover have "k \<notin> set (sr_blocked s1)" using step Cons.prems(1) by simp
  ultimately have ih: "concat us' @ held_text s' k = held_text s1 k @ concat ts \<and> length (held_text s' k) < lookback + burst
      \<and> (\<forall>i<length (concat us'). \<exists>w\<in>set (windows chk k st ts s1). covers_from (held_text s1 k @ concat ts) w i)"
    using f(2) by (intro Cons.IH) simp_all
  have T: "held_text s k @ concat (t # ts) = u @ held_text s1 k @ concat ts" using step by (metis append_assoc concat.simps(2))
  have "\<exists>w\<in>set (windows chk k st (t # ts) s). covers_from (held_text s k @ concat (t # ts)) w i" if i: "i < length (concat us)" for i
  proof (cases "i < length u")
    case True
    then have long: "\<not> length ?w < lookback + burst" using step by auto
    have "length u + lookback = length ?w" using step long by (metis length_append)
    then have "covers_from (held_text s k @ concat (t # ts)) ?w i" unfolding covers_from_def using True by (intro exI[of _ 0]) simp
    then show ?thesis unfolding win using long by simp
  next
    case False
    then have "i - length u < length (concat us')" using i f(3) by simp
    then obtain w where w: "w \<in> set (windows chk k st ts s1)" "covers_from (held_text s1 k @ concat ts) w (i - length u)"
      using ih by blast
    have "covers_from (held_text s k @ concat (t # ts)) w i" using covers_shift[OF w(2), of u] False unfolding T by simp
    then show ?thesis using w(1) unfolding win by auto
  qed
  then show ?case using ih step f(3) T by simp
qed simp

lemma covers_sublist:
  assumes "covers_from (pre @ v @ post) w (length pre)" "length v \<le> lookback"
  shows "sublist v w"
proof -
  obtain j where j: "j \<le> length pre" "w = take (length w) (drop j (pre @ v @ post))" "length pre + lookback \<le> j + length w"
    using assms(1) unfolding covers_from_def by blast
  have "drop j (pre @ v @ post) = drop j pre @ v @ post" using j(1) by simp
  moreover have "length (drop j pre) + length v \<le> length w" using j(1,3) assms(2) by simp
  ultimately have "w = drop j pre @ v @ take (length w - length (drop j pre) - length v) post"
    using j(2) by (metis add_leD1 append_assoc diff_diff_left le_add_diff_inverse length_append take_all_iff take_append take_all)
  then show ?thesis by (metis sublist_appendI)
qed

text \<open>
  C23: a streamed value is seen whole before any of it leaves: while the checks of the windows change and
  block nothing, what has left and what is held back are together exactly what came in, fewer than 256
  characters are held back, and a value of at most 128 characters whose first character has left was
  entirely inside one checked window.
\<close>
theorem streamed_values_are_seen_whole:
  assumes "k \<notin> set (sr_blocked s)" "held_text s k = []" "feeds chk k st ts s = Some (us, s')"
    "list_all (harmless chk st) (windows chk k st ts s)"
  shows "concat us @ held_text s' k = concat ts \<and> length (held_text s' k) < 256
    \<and> (\<forall>pre v post. concat ts = pre @ v @ post \<and> length v \<le> 128 \<and> length pre < length (concat us)
        \<longrightarrow> list_ex (sublist v) (windows chk k st ts s))"
proof -
  have all: "concat us @ held_text s' k = concat ts \<and> length (held_text s' k) < lookback + burst
    \<and> (\<forall>i<length (concat us). \<exists>w\<in>set (windows chk k st ts s). covers_from (concat ts) w i)"
    using feeds_harmless[OF assms(1) _ assms(3,4)] unfolding assms(2) by (simp add: lookback_def)
  have "list_ex (sublist v) (windows chk k st ts s)"
    if "concat ts = pre @ v @ post" "length v \<le> 128" "length pre < length (concat us)" for pre v post
    using all covers_sublist[of pre v post] that unfolding list_ex_iff by (metis lookback_def)
  then show ?thesis using all by (simp add: lookback_def burst_def)
qed

text \<open>A tuple of a tool's output passes \<open>strings\<close> with its strings unchecked.\<close>

theorem tuples_pass_unchecked: "show_strings chk st (Lst [Tup [Str t]]) s = Some (Lst [Tup [Str t]], s)"
  by simp

section \<open>Witness\<close>

definition fresh_redactor :: "'g \<Rightarrow> 'g redactor" where
  "fresh_redactor g = \<lparr>sr_guard = g, sr_held = [], sr_blocked = []\<rparr>"

definition echo :: "unit checker" where
  "echo t st g = Some (\<lparr>ap_text = t, ap_decisions = []\<rparr>, g)"

definition demo_deltas :: "utext list" where
  "demo_deltas = [replicate 200 97, replicate 60 98, replicate 130 99]"

lemma streamed_values_are_seen_whole_witness:
  "case feeds echo (ToolKey ''t'') OutputStage demo_deltas (fresh_redactor ()) of
     None \<Rightarrow> False
   | Some (us, s') \<Rightarrow> concat us @ held_text s' (ToolKey ''t'') = concat demo_deltas \<and> map length us = [0, 132, 130]"
proof -
  let ?s = "fresh_redactor ()"
  have ev: "case feeds echo (ToolKey ''t'') OutputStage demo_deltas ?s of None \<Rightarrow> False | Some (us, _) \<Rightarrow> map length us = [0, 132, 130]"
    by code_simp
  then obtain us s' where f: "feeds echo (ToolKey ''t'') OutputStage demo_deltas ?s = Some (us, s')" "map length us = [0, 132, 130]"
    by (auto split: option.splits)
  have h: "harmless echo OutputStage w" for w by (auto simp: harmless_def echo_def blocked_def)
  have "list_all (harmless echo OutputStage) (windows echo (ToolKey ''t'') OutputStage demo_deltas ?s)"
    using h by (simp add: list_all_iff)
  from streamed_values_are_seen_whole[OF _ _ f(1) this]
  have "concat us @ held_text s' (ToolKey ''t'') = concat demo_deltas" by (simp add: fresh_redactor_def held_text_def)
  then show ?thesis using f by simp
qed

section \<open>A redaction that leaves less than the lookback\<close>

text \<open>
  A redaction can shrink a window below 128 characters; the cut is then negative, and only the last
  few characters are held back. Here a long secret shrinks the first window to 120 characters, 112 of them leave,
  and a resident registration number that goes on in the next delta reaches the user in clear, while the
  same text checked at once has it redacted.
\<close>

definition secret_run :: "utext \<Rightarrow> (nat \<times> nat) list" where
  "secret_run t = (let n = length (takeWhile (\<lambda>c. c = 65) t) in if 100 < n then [(0, n)] else [])"

definition stream_env :: "(stage \<times> utext, string \<times> utext) run_env" where
  "stream_env = demo_env\<lparr>ge_detectors := demo_detectors\<lparr>dl_secrets := [secret_run]\<rparr>\<rparr>"

definition split_number :: utext where
  "split_number = map of_char ''900101-1234567''"

definition split_deltas :: "utext list" where
  "split_deltas = [replicate 141 65 @ replicate 103 32 @ take 12 split_number, drop 12 split_number @ replicate 260 32]"

theorem short_window_splits_values:
  "(case feeds (stream_check stream_env no_service) (ToolKey ''t'') OutputStage split_deltas (fresh_redactor (new_guard False)) of
      None \<Rightarrow> False
    | Some (us, _) \<Rightarrow> occurs split_number (concat us))
   \<and> (case show_text (stream_check stream_env no_service) (concat split_deltas) OutputStage (fresh_redactor (new_guard False)) of
      None \<Rightarrow> False
    | Some (t, _) \<Rightarrow> \<not> occurs split_number t)"
  by code_simp

end
