(* ===== verification/Outbound.thy ===== *)
theory Outbound
  imports Prelude
begin

text \<open>
  Requests that leave the process (\<open>outbound/hosts\<close>, \<open>outbound/destination\<close>, \<open>outbound/transport\<close>): host
  patterns, where a credential may be sent, and which addresses are dialed.

  Host names are ASCII strings (the HTTP library encodes others). An address is the integer of Python's
  \<open>ipaddress\<close> (3.12), whose parser and network tables are written out here; shifts and masks are \<open>div\<close> and
  \<open>mod\<close>. A URL is its scheme, host and port as the library parsed them; the resolver and the dialing are parameters.

  The lemmas show that wildcards stand for one label, that a credential reaches only its hosts, and that a
  guarded connection dials only public addresses, however a private one is wrapped.
\<close>

section \<open>Host patterns\<close>

definition is_space :: "char \<Rightarrow> bool" where
  "is_space c = (let n = (of_char c :: nat) in n = 32 \<or> (9 \<le> n \<and> n \<le> 13) \<or> (28 \<le> n \<and> n \<le> 31))"

definition lower_char :: "char \<Rightarrow> char" where
  "lower_char c = (if 65 \<le> (of_char c :: nat) \<and> (of_char c :: nat) \<le> 90 then char_of ((of_char c :: nat) + 32) else c)"

definition strip :: "string \<Rightarrow> string" where
  "strip s = rstrip is_space (dropWhile is_space s)"

definition normalize_host :: "string \<Rightarrow> string" where
  "normalize_host h = map lower_char (rstrip (\<lambda>c. c = CHR ''.'') (strip h))"

text \<open>\<open>s.partition(".")\<close>, without the separator.\<close>

definition head_label :: "string \<Rightarrow> string" where
  "head_label s = takeWhile (\<lambda>c. c \<noteq> CHR ''.'') s"

definition rest_labels :: "string \<Rightarrow> string" where
  "rest_labels s = tl (dropWhile (\<lambda>c. c \<noteq> CHR ''.'') s)"

definition host_matches :: "string \<Rightarrow> string \<Rightarrow> bool" where
  "host_matches h p =
     (let host = normalize_host h; pattern = normalize_host p in
      if host = [] \<or> pattern = [] then False
      else if prefix ''*.'' pattern then head_label host \<noteq> [] \<and> rest_labels host = drop 2 pattern
      else host = pattern)"

definition host_allowed :: "string \<Rightarrow> string list \<Rightarrow> bool" where
  "host_allowed h ps = list_ex (host_matches h) ps"

section \<open>Addresses\<close>

datatype address = V4 int | V6 int

definition ascii_digit :: "char \<Rightarrow> bool" where
  "ascii_digit c = (48 \<le> (of_char c :: nat) \<and> (of_char c :: nat) \<le> 57)"

definition hex_value :: "char \<Rightarrow> int option" where
  "hex_value c =
     (let n = (of_char c :: int) in
      if 48 \<le> n \<and> n \<le> 57 then Some (n - 48)
      else if 97 \<le> n \<and> n \<le> 102 then Some (n - 87)
      else if 65 \<le> n \<and> n \<le> 70 then Some (n - 55) else None)"

definition decimal_value :: "string \<Rightarrow> int" where
  "decimal_value s = fold (\<lambda>c n. 10 * n + (of_char c - 48)) s 0"

definition parse_octet :: "string \<Rightarrow> int option" where
  "parse_octet s =
     (if s = [] \<or> \<not> list_all ascii_digit s \<or> 3 < length s \<or> (s \<noteq> ''0'' \<and> hd s = CHR ''0'') then None
      else (let n = decimal_value s in if 255 < n then None else Some n))"

definition parse_v4 :: "string \<Rightarrow> int option" where
  "parse_v4 s =
     (case map parse_octet (split_on CHR ''.'' s) of
        [Some a, Some b, Some c, Some d] \<Rightarrow> Some (((a * 256 + b) * 256 + c) * 256 + d)
      | _ \<Rightarrow> None)"

fun hextet_value :: "int \<Rightarrow> string \<Rightarrow> int option" where
  "hextet_value n [] = Some n"
| "hextet_value n (c # cs) = (case hex_value c of None \<Rightarrow> None | Some d \<Rightarrow> hextet_value (16 * n + d) cs)"

definition parse_hextet :: "string \<Rightarrow> int option" where
  "parse_hextet s = (if s = [] \<or> 4 < length s then None else hextet_value 0 s)"

text \<open>The groups, with an IPv4 suffix as two of them; an empty group is \<open>None\<close>, a bad one stops the parse.\<close>

fun hextets :: "string list \<Rightarrow> int option list option" where
  "hextets [] = Some []"
| "hextets (s # ss) =
     (case (if s = [] then Some None else map_option Some (parse_hextet s)) of
        None \<Rightarrow> None
      | Some x \<Rightarrow> map_option ((#) x) (hextets ss))"

definition v6_groups :: "string \<Rightarrow> int option list option" where
  "v6_groups s =
     (let parts = split_on CHR '':'' s in
      if length parts < 3 then None
      else if CHR ''.'' \<in> set (last parts) then
        (case (hextets (butlast parts), parse_v4 (last parts)) of
           (Some xs, Some v) \<Rightarrow> Some (xs @ [Some (v div 65536), Some (v mod 65536)])
         | _ \<Rightarrow> None)
      else hextets parts)"

definition v6_number :: "int list \<Rightarrow> int" where
  "v6_number xs = fold (\<lambda>x n. 65536 * n + x) xs 0"

text \<open>Positions of the empty groups strictly inside: where \<open>::\<close> stands.\<close>

definition inner_gaps :: "int option list \<Rightarrow> nat list" where
  "inner_gaps xs = filter (\<lambda>i. xs ! i = None) [1..<length xs - 1]"

definition assemble_v6 :: "int option list \<Rightarrow> int option" where
  "assemble_v6 xs =
     (if 9 < length xs then None
      else
        (case inner_gaps xs of
           [] \<Rightarrow> if length xs = 8 \<and> None \<notin> set xs then Some (v6_number (map the xs)) else None
         | [k] \<Rightarrow>
             (let hi = take k xs; lo = drop (Suc k) xs;
                  hi' = (if hd xs = None then tl hi else hi);
                  lo' = (if last xs = None then butlast lo else lo)
              in if (hd xs = None \<and> hi' \<noteq> []) \<or> (last xs = None \<and> lo' \<noteq> []) \<or> 8 \<le> length hi' + length lo'
                 then None
                 else Some (v6_number (map the hi' @ replicate (8 - length hi' - length lo') 0 @ map the lo')))
         | _ \<Rightarrow> None))"

definition parse_v6 :: "string \<Rightarrow> int option" where
  "parse_v6 s =
     (if CHR ''/'' \<in> set s then None
      else
        (let addr = takeWhile (\<lambda>c. c \<noteq> CHR ''%'') s; scope = dropWhile (\<lambda>c. c \<noteq> CHR ''%'') s in
         if scope \<noteq> [] \<and> (tl scope = [] \<or> CHR ''%'' \<in> set (tl scope)) then None
         else (case v6_groups addr of None \<Rightarrow> None | Some xs \<Rightarrow> assemble_v6 xs)))"

definition ip_address :: "string \<Rightarrow> address option" where
  "ip_address s =
     (case (if CHR ''/'' \<in> set s then None else parse_v4 s) of
        Some n \<Rightarrow> Some (V4 n)
      | None \<Rightarrow> map_option V6 (parse_v6 s))"

definition ip_literal :: "string \<Rightarrow> bool" where
  "ip_literal s = (ip_address s \<noteq> None)"

definition is_ip_literal :: "string \<Rightarrow> bool" where
  "is_ip_literal h = ip_literal (normalize_host h)"

section \<open>Accepted patterns\<close>

definition label_char :: "char \<Rightarrow> bool" where
  "label_char c = (ascii_digit c \<or> c = CHR ''-'' \<or> (97 \<le> (of_char c :: nat) \<and> (of_char c :: nat) \<le> 122))"

text \<open>The label pattern; its \<open>$\<close> also matches before a final newline.\<close>

definition label_ok :: "string \<Rightarrow> bool" where
  "label_ok s =
     (let body = (if s \<noteq> [] \<and> last s = char_of (10 :: nat) then butlast s else s)
      in body \<noteq> [] \<and> length body \<le> 63 \<and> list_all label_char body \<and> hd body \<noteq> CHR ''-'' \<and> last body \<noteq> CHR ''-'')"

fun join_dots :: "string list \<Rightarrow> string" where
  "join_dots [] = []"
| "join_dots [s] = s"
| "join_dots (s # ss) = s @ ''.'' @ join_dots ss"

definition unbracket :: "string \<Rightarrow> string" where
  "unbracket s =
     (let t = (if prefix ''['' s then tl s else s) in if suffix '']'' t then butlast t else t)"

definition validate_host_pattern :: "string \<Rightarrow> string option" where
  "validate_host_pattern v =
     (let pattern = unbracket (normalize_host v) in
      if ip_literal pattern then Some pattern
      else if pattern = [] \<or> list_ex (\<lambda>c. c \<in> set ''/:@?#[] '') pattern then None
      else
        (let labels = split_on CHR ''.'' pattern; wild = (hd labels = ''*'');
             rest = (if wild then tl labels else labels)
         in if wild \<and> (length rest < 2 \<or> ip_literal (join_dots rest)) then None
            else if \<not> list_all label_ok rest then None
            else Some pattern))"

record outbound_settings =
  os_http_hosts :: string
  os_private_hosts :: string
  os_dev :: bool
  os_enforce :: bool

definition dev_local_hosts :: "string list" where
  "dev_local_hosts = [''localhost'', ''127.0.0.1'', ''host.docker.internal'']"

definition host_list :: "outbound_settings \<Rightarrow> string \<Rightarrow> string list" where
  "host_list st raw =
     (let hosts = filter (\<lambda>h. h \<noteq> []) (map normalize_host (split_on CHR '','' raw))
      in if hosts = [] \<and> os_dev st then dev_local_hosts else hosts)"

definition plaintext_allowed :: "outbound_settings \<Rightarrow> string \<Rightarrow> bool" where
  "plaintext_allowed st h = host_allowed h (host_list st (os_http_hosts st))"

definition private_allowed :: "outbound_settings \<Rightarrow> string \<Rightarrow> bool" where
  "private_allowed st h = host_allowed h (host_list st (os_private_hosts st))"

section \<open>Where a credential may go\<close>

record url =
  u_scheme :: string
  u_host :: string
  u_port :: nat

datatype outbound_error = NotHttps | NotAllowedHost | NoAllowedHosts | OtherHost | MissingDestination
  | BadScheme | NoPublicAddress | NotResolved | NotConnected

record destination =
  de_hosts :: "string list"
  de_empty_ok :: bool

definition require_https :: "outbound_settings \<Rightarrow> string \<Rightarrow> string \<Rightarrow> outbound_error option" where
  "require_https st scheme host =
     (if scheme = ''https'' \<or> (scheme = ''http'' \<and> plaintext_allowed st host) then None else Some NotHttps)"

definition check_destination :: "outbound_settings \<Rightarrow> url \<Rightarrow> destination \<Rightarrow> outbound_error + string" where
  "check_destination st u d =
     (let host = normalize_host (u_host u) in
      case require_https st (u_scheme u) host of
        Some e \<Rightarrow> Inl e
      | None \<Rightarrow>
          if de_hosts d \<noteq> [] then (if host_allowed host (de_hosts d) then Inr host else Inl NotAllowedHost)
          else if \<not> de_empty_ok d \<and> os_enforce st then Inl NoAllowedHosts
          else Inr host)"

record binding =
  bn_destination :: destination
  bn_first :: "string option"

definition check_binding :: "outbound_settings \<Rightarrow> url \<Rightarrow> binding \<Rightarrow> outbound_error + binding" where
  "check_binding st u b =
     (case check_destination st u (bn_destination b) of
        Inl e \<Rightarrow> Inl e
      | Inr host \<Rightarrow>
          if de_hosts (bn_destination b) \<noteq> [] then Inr b
          else (case bn_first b of
                  None \<Rightarrow> Inr (b\<lparr>bn_first := Some host\<rparr>)
                | Some h \<Rightarrow> if host \<noteq> h then Inl OtherHost else Inr b))"

definition bind_destination :: "destination option \<Rightarrow> binding option" where
  "bind_destination d = map_option (\<lambda>d. \<lparr>bn_destination = d, bn_first = None\<rparr>) d"

definition check_bound :: "outbound_settings \<Rightarrow> url \<Rightarrow> binding option \<Rightarrow> outbound_error + binding option" where
  "check_bound st u b =
     (case b of None \<Rightarrow> Inr None
      | Some b \<Rightarrow> (case check_binding st u b of Inl e \<Rightarrow> Inl e | Inr b' \<Rightarrow> Inr (Some b')))"

text \<open>\<open>credentials\<close>: whether the call has credential values.\<close>

definition guarded_destination :: "bool \<Rightarrow> destination option \<Rightarrow> outbound_error + destination option" where
  "guarded_destination credentials d =
     (if \<not> credentials then Inr None
      else (case d of None \<Rightarrow> Inl MissingDestination | Some d \<Rightarrow> Inr (Some d)))"

definition owner_own_run :: "(string \<times> 'i option) option \<Rightarrow> 'i option \<Rightarrow> 'i option \<Rightarrow> bool" where
  "owner_own_run identity owner subject =
     (case identity of None \<Rightarrow> False
      | Some (source, caller) \<Rightarrow> source \<in> {''chat'', ''subagent''} \<and> caller = owner \<and> owner = subject)"

text \<open>\<open>resolved\<close>: the credential's allowed hosts and subject.\<close>

definition destination_config ::
    "(string list \<times> 'i option) option \<Rightarrow> (string \<times> 'i option) option \<Rightarrow> 'i option \<Rightarrow> destination option" where
  "destination_config resolved identity owner =
     map_option (\<lambda>(hosts, subject). \<lparr>de_hosts = hosts, de_empty_ok = owner_own_run identity owner subject\<rparr>) resolved"

section \<open>Which addresses are dialed\<close>

definition in_net :: "nat \<Rightarrow> int \<Rightarrow> int \<times> nat \<Rightarrow> bool" where
  "in_net bits ip net = (ip div 2 ^ (bits - snd net) = fst net div 2 ^ (bits - snd net))"

definition v4 :: "int \<Rightarrow> int \<Rightarrow> int \<Rightarrow> int \<Rightarrow> int" where
  "v4 a b c d = ((a * 256 + b) * 256 + c) * 256 + d"

definition private_v4 :: "(int \<times> nat) list" where
  "private_v4 =
     [(v4 0 0 0 0, 8), (v4 10 0 0 0, 8), (v4 127 0 0 0, 8), (v4 169 254 0 0, 16), (v4 172 16 0 0, 12),
      (v4 192 0 0 0, 24), (v4 192 0 0 170, 31), (v4 192 0 2 0, 24), (v4 192 168 0 0, 16), (v4 198 18 0 0, 15),
      (v4 198 51 100 0, 24), (v4 203 0 113 0, 24), (v4 240 0 0 0, 4), (v4 255 255 255 255, 32)]"

definition private_v4_except :: "(int \<times> nat) list" where
  "private_v4_except = [(v4 192 0 0 9, 32), (v4 192 0 0 10, 32)]"

text \<open>The networks of IPv6, by their first four groups.\<close>

definition v6 :: "int \<Rightarrow> int \<Rightarrow> int \<Rightarrow> int \<Rightarrow> int" where
  "v6 a b c d = (((a * 65536 + b) * 65536 + c) * 65536 + d) * 2 ^ 64"

definition private_v6 :: "(int \<times> nat) list" where
  "private_v6 =
     [(1, 128), (0, 128), (65535 * 2 ^ 32, 96), (v6 100 65435 1 0, 48), (v6 256 0 0 0, 64), (v6 8193 0 0 0, 23),
      (v6 8193 3512 0 0, 32), (v6 8194 0 0 0, 16), (v6 64512 0 0 0, 7), (v6 65152 0 0 0, 10)]"

definition private_v6_except :: "(int \<times> nat) list" where
  "private_v6_except =
     [(v6 8193 1 0 0 + 1, 128), (v6 8193 1 0 0 + 2, 128), (v6 8193 3 0 0, 32), (v6 8193 4 274 0, 48),
      (v6 8193 32 0 0, 28), (v6 8193 48 0 0, 28)]"

definition is_private_v4 :: "int \<Rightarrow> bool" where
  "is_private_v4 ip = (list_ex (in_net 32 ip) private_v4 \<and> \<not> list_ex (in_net 32 ip) private_v4_except)"

definition mapped_v4 :: "int \<Rightarrow> int option" where
  "mapped_v4 ip = (if ip div 2 ^ 32 = 65535 then Some (ip mod 2 ^ 32) else None)"

definition sixtofour :: "int \<Rightarrow> int option" where
  "sixtofour ip = (if ip div 2 ^ 112 = 8194 then Some (ip div 2 ^ 80 mod 2 ^ 32) else None)"

definition is_private :: "address \<Rightarrow> bool" where
  "is_private a =
     (case a of
        V4 ip \<Rightarrow> is_private_v4 ip
      | V6 ip \<Rightarrow>
          (case mapped_v4 ip of
             Some v \<Rightarrow> is_private_v4 v
           | None \<Rightarrow> list_ex (in_net 128 ip) private_v6 \<and> \<not> list_ex (in_net 128 ip) private_v6_except))"

definition is_global :: "address \<Rightarrow> bool" where
  "is_global a = ((case a of V4 ip \<Rightarrow> \<not> in_net 32 ip (v4 100 64 0 0, 10) | V6 _ \<Rightarrow> True) \<and> \<not> is_private a)"

definition is_multicast :: "address \<Rightarrow> bool" where
  "is_multicast a = (case a of V4 ip \<Rightarrow> in_net 32 ip (v4 224 0 0 0, 4) | V6 ip \<Rightarrow> in_net 128 ip (v6 65280 0 0 0, 8))"

definition embedded_v4 :: "address \<Rightarrow> int option" where
  "embedded_v4 a =
     (case a of
        V4 _ \<Rightarrow> None
      | V6 ip \<Rightarrow>
          (case mapped_v4 ip of
             Some v \<Rightarrow> Some v
           | None \<Rightarrow>
               (case sixtofour ip of
                  Some v \<Rightarrow> Some v
                | None \<Rightarrow> if in_net 128 ip (v6 100 65435 0 0, 96) then Some (ip mod 2 ^ 32) else None)))"

text \<open>An embedded address is an IPv4 address, which embeds nothing.\<close>

definition is_blocked_address :: "address \<Rightarrow> bool" where
  "is_blocked_address a =
     ((case embedded_v4 a of Some v \<Rightarrow> \<not> is_global (V4 v) \<or> is_multicast (V4 v) | None \<Rightarrow> False)
      \<or> \<not> is_global a \<or> is_multicast a)"

definition public :: "string list \<Rightarrow> outbound_error + address list" where
  "public raw =
     (let found = filter (\<lambda>a. \<not> is_blocked_address a) (map the (filter (\<lambda>a. a \<noteq> None) (map ip_address raw)))
      in if found = [] then Inl NoPublicAddress else Inr found)"

text \<open>The resolver's answers in order, \<open>None\<close> a failure.\<close>

definition public_addresses :: "string \<Rightarrow> string list option \<Rightarrow> outbound_error + address list" where
  "public_addresses host resolved =
     (if is_ip_literal host then public [host]
      else (case resolved of None \<Rightarrow> Inl NotResolved | Some raw \<Rightarrow> public raw))"

datatype dial_target = ByName string | ByAddress address

text \<open>Dialing in order until one answers; the targets dialed and the one that answered.\<close>

fun dial :: "(dial_target \<Rightarrow> bool) \<Rightarrow> dial_target list \<Rightarrow> dial_target list \<times> dial_target option" where
  "dial up [] = ([], None)"
| "dial up (t # ts) = (if up t then ([t], Some t) else (let (ds, r) = dial up ts in (t # ds, r)))"

definition connect_tcp ::
    "outbound_settings \<Rightarrow> (dial_target \<Rightarrow> bool) \<Rightarrow> string \<Rightarrow> string list option \<Rightarrow> dial_target list \<times> (outbound_error + dial_target)" where
  "connect_tcp st up host resolved =
     (if private_allowed st host then ([ByName host], if up (ByName host) then Inr (ByName host) else Inl NotConnected)
      else
        (case public_addresses (normalize_host host) resolved of
           Inl e \<Rightarrow> ([], Inl e)
         | Inr as \<Rightarrow>
             (case dial up (map ByAddress as) of (ds, r) \<Rightarrow> (ds, case r of None \<Rightarrow> Inl NotConnected | Some t \<Rightarrow> Inr t))))"

text \<open>\<open>GuardTransport\<close>: \<open>None\<close> passes the request on.\<close>

definition guard_transport ::
    "outbound_settings \<Rightarrow> bool \<Rightarrow> bool \<Rightarrow> url \<Rightarrow> binding option \<Rightarrow> outbound_error option \<times> binding option" where
  "guard_transport st https_only literal_check u b =
     (let host = normalize_host (u_host u) in
      case check_bound st u b of
        Inl e \<Rightarrow> (Some e, b)
      | Inr b' \<Rightarrow>
          (case (if https_only then require_https st (u_scheme u) host else None) of
             Some e \<Rightarrow> (Some e, b')
           | None \<Rightarrow>
               if u_scheme u \<noteq> ''http'' \<and> u_scheme u \<noteq> ''https'' then (Some BadScheme, b')
               else if literal_check \<and> is_ip_literal host \<and> \<not> private_allowed st host
               then (case public [host] of Inl e \<Rightarrow> (Some e, b') | Inr _ \<Rightarrow> (None, b'))
               else (None, b')))"

text \<open>\<open>same_host_redirects\<close>: the redirect's target, when there is one.\<close>

definition same_host_redirect :: "url \<Rightarrow> url option \<Rightarrow> outbound_error option" where
  "same_host_redirect u target =
     (case target of None \<Rightarrow> None
      | Some v \<Rightarrow> if (u_host v, u_port v) \<noteq> (u_host u, u_port u) then Some OtherHost else None)"

section \<open>Wildcards\<close>

lemma labels_split: "CHR ''.'' \<in> set s \<Longrightarrow> s = head_label s @ ''.'' @ rest_labels s"
proof (induction s)
  case (Cons c s)
  then show ?case by (cases "c = CHR ''.''") (simp_all add: head_label_def rest_labels_def)
qed simp

lemma head_label_no_dot: "CHR ''.'' \<notin> set (head_label s)"
  by (auto simp: head_label_def dest: set_takeWhileD)

lemma split_labels: "CHR ''.'' \<notin> set l \<Longrightarrow> head_label (l @ ''.'' @ r) = l \<and> rest_labels (l @ ''.'' @ r) = r"
  by (induction l) (auto simp: head_label_def rest_labels_def)

lemma no_dot_rest:
  assumes "CHR ''.'' \<notin> set s" shows "rest_labels s = []"
proof -
  have "dropWhile (\<lambda>c. c \<noteq> CHR ''.'') s = []" using assms by (auto simp: dropWhile_eq_Nil_conv)
  then show ?thesis unfolding rest_labels_def by (metis list.sel(2))
qed

text \<open>
  A wildcard stands for exactly one label: a host matches a pattern \<open>*.r\<close> exactly when it is one
  label that is not empty, a dot and \<open>r\<close>, after both were trimmed and put in lower case.
\<close>
theorem wildcard_is_one_label:
  assumes "normalize_host p = ''*.'' @ r" "r \<noteq> []"
  shows "host_matches h p = (\<exists>l. l \<noteq> [] \<and> CHR ''.'' \<notin> set l \<and> normalize_host h = l @ ''.'' @ r)"
proof
  assume "host_matches h p"
  then have m: "head_label (normalize_host h) \<noteq> []" "rest_labels (normalize_host h) = r"
    by (auto simp: host_matches_def Let_def assms(1) split: if_splits)
  then have "CHR ''.'' \<in> set (normalize_host h)" using no_dot_rest assms(2) by blast
  then have "normalize_host h = head_label (normalize_host h) @ ''.'' @ r" using labels_split m(2) by metis
  then show "\<exists>l. l \<noteq> [] \<and> CHR ''.'' \<notin> set l \<and> normalize_host h = l @ ''.'' @ r"
    using m(1) head_label_no_dot by blast
next
  assume "\<exists>l. l \<noteq> [] \<and> CHR ''.'' \<notin> set l \<and> normalize_host h = l @ ''.'' @ r"
  then obtain l where l: "l \<noteq> []" "CHR ''.'' \<notin> set l" "normalize_host h = l @ ''.'' @ r" by blast
  then show "host_matches h p"
    using split_labels[OF l(2), of r] by (simp add: host_matches_def Let_def assms(1) l(3))
qed

text \<open>A wildcard over the last three numbers of an address is accepted and matches the address.\<close>

theorem wildcard_matches_address:
  "validate_host_pattern ''*.0.0.1'' = Some ''*.0.0.1'' \<and> is_ip_literal ''127.0.0.1'' \<and> host_matches ''127.0.0.1'' ''*.0.0.1''"
  by code_simp

section \<open>A credential stays with its hosts\<close>

text \<open>The requests of one tool call that the transport passes on, redirects included.\<close>

fun sent :: "outbound_settings \<Rightarrow> bool \<Rightarrow> bool \<Rightarrow> url list \<Rightarrow> binding option \<Rightarrow> url list" where
  "sent st https_only literal_check [] b = []"
| "sent st https_only literal_check (u # us) b =
     (case guard_transport st https_only literal_check u b of
        (None, b') \<Rightarrow> u # sent st https_only literal_check us b'
      | (Some e, b') \<Rightarrow> sent st https_only literal_check us b')"

lemma guard_transport_cases:
  assumes "guard_transport st ho lc u (Some b) = (e, b')"
  obtains e' where "check_binding st u b = Inl e'" "e = Some e'" "b' = Some b"
  | b1 where "check_binding st u b = Inr b1" "b' = Some b1"
  using assms by (cases "check_binding st u b") (auto simp: guard_transport_def check_bound_def Let_def split: if_splits option.splits sum.splits)

definition secure :: "outbound_settings \<Rightarrow> url \<Rightarrow> bool" where
  "secure st u = (u_scheme u = ''https'' \<or> (u_scheme u = ''http'' \<and> plaintext_allowed st (normalize_host (u_host u))))"

lemma check_destination_Inr:
  "check_destination st u d = Inr h \<Longrightarrow> h = normalize_host (u_host u) \<and> secure st u
    \<and> (de_hosts d \<noteq> [] \<longrightarrow> host_allowed h (de_hosts d)) \<and> (de_hosts d = [] \<and> \<not> de_empty_ok d \<longrightarrow> \<not> os_enforce st)"
  by (auto simp: check_destination_def require_https_def secure_def Let_def split: if_splits)

lemma check_binding_Inr:
  assumes "check_binding st u b = Inr b1"
  shows "bn_destination b1 = bn_destination b \<and> check_destination st u (bn_destination b) = Inr (normalize_host (u_host u))
    \<and> (de_hosts (bn_destination b) = [] \<longrightarrow> bn_first b1 = Some (normalize_host (u_host u))
        \<and> (bn_first b = None \<or> bn_first b = Some (normalize_host (u_host u))))"
proof -
  obtain h where h: "check_destination st u (bn_destination b) = Inr h"
    using assms by (cases "check_destination st u (bn_destination b)") (auto simp: check_binding_def)
  then have "h = normalize_host (u_host u)" using check_destination_Inr by blast
  then show ?thesis using assms h by (auto simp: check_binding_def split: if_splits option.splits)
qed

lemma sent_allowed:
  assumes "u \<in> set (sent st ho lc us (Some b))"
  shows "check_destination st u (bn_destination b) = Inr (normalize_host (u_host u))
    \<and> (de_hosts (bn_destination b) = [] \<longrightarrow> (\<forall>h. bn_first b = Some h \<longrightarrow> normalize_host (u_host u) = h))"
  using assms
proof (induction us arbitrary: b)
  case (Cons v us)
  obtain e b' where g: "guard_transport st ho lc v (Some b) = (e, b')" by fastforce
  from g show ?case
  proof (cases rule: guard_transport_cases)
    case (1 e')
    then show ?thesis using Cons g by simp
  next
    case (2 b1)
    note c = check_binding_Inr[OF 2(1)]
    show ?thesis
    proof (cases "u = v")
      case True
      then show ?thesis using c by auto
    next
      case False
      then have "u \<in> set (sent st ho lc us (Some b1))" using Cons.prems g 2(2) by (cases e) auto
      from Cons.IH[OF this] show ?thesis using c by auto
    qed
  qed
qed simp

lemma sent_one_host:
  assumes "de_hosts (bn_destination b) = []" "u \<in> set (sent st ho lc us (Some b))" "v \<in> set (sent st ho lc us (Some b))"
  shows "normalize_host (u_host u) = normalize_host (u_host v)"
  using assms
proof (induction us arbitrary: b)
  case (Cons w us)
  obtain e b' where g: "guard_transport st ho lc w (Some b) = (e, b')" by fastforce
  from g show ?case
  proof (cases rule: guard_transport_cases)
    case (1 e')
    then show ?thesis using Cons g by simp
  next
    case (2 b1)
    have c: "bn_destination b1 = bn_destination b" "bn_first b1 = Some (normalize_host (u_host w))"
      using check_binding_Inr[OF 2(1)] Cons.prems(1) by auto
    have later: "normalize_host (u_host x) = normalize_host (u_host w)" if "x \<in> set (sent st ho lc (w # us) (Some b))" for x
    proof (cases "x = w")
      case False
      then have "x \<in> set (sent st ho lc us (Some b1))" using that g 2(2) by (cases e) auto
      then show ?thesis using sent_allowed c Cons.prems(1) by fastforce
    qed simp
    show ?thesis using later[OF Cons.prems(2)] later[OF Cons.prems(3)] by simp
  qed
qed simp

text \<open>
  C16: a credential reaches only its own hosts: of all the requests of a call it is bound to, redirects
  included, those that are passed on use \<open>https\<close> or a host configured for plain \<open>http\<close>, go to a host one
  of its patterns matches, or, where it has none, all to one and the same host, and to none at all
  when the policy enforces hosts and the run is not its owner's own.
\<close>
theorem credential_stays_with_its_hosts:
  "let passed = sent st https_only literal_check us (bind_destination (Some d)) in
   list_all (secure st) passed
   \<and> (if de_hosts d \<noteq> [] then list_all (\<lambda>u. host_allowed (normalize_host (u_host u)) (de_hosts d)) passed
      else (\<exists>h. list_all (\<lambda>u. normalize_host (u_host u) = h) passed)
        \<and> (if \<not> de_empty_ok d \<and> os_enforce st then passed = [] else True))"
proof -
  let ?b = "\<lparr>bn_destination = d, bn_first = None\<rparr>"
  define passed where "passed = sent st https_only literal_check us (bind_destination (Some d))"
  have p: "passed = sent st https_only literal_check us (Some ?b)" by (simp add: passed_def bind_destination_def)
  have ok: "check_destination st u d = Inr (normalize_host (u_host u))" if "u \<in> set passed" for u
    using sent_allowed[of u st https_only literal_check us ?b] that by (simp add: p)
  have one: "\<exists>h. list_all (\<lambda>u. normalize_host (u_host u) = h) passed" if "de_hosts d = []"
  proof (cases passed)
    case (Cons u rest)
    then have "normalize_host (u_host v) = normalize_host (u_host u)" if "v \<in> set passed" for v
      using sent_one_host[of ?b v st https_only literal_check us u] that \<open>de_hosts d = []\<close> by (simp add: p)
    then show ?thesis by (auto simp: list_all_iff)
  qed simp
  have none: "passed = []" if "de_hosts d = []" "\<not> de_empty_ok d" "os_enforce st"
  proof (cases passed)
    case (Cons u rest)
    then show ?thesis using check_destination_Inr[OF ok[of u]] that by simp
  qed simp
  have "list_all (secure st) passed" using check_destination_Inr[OF ok] by (simp add: list_all_iff)
  moreover have "list_all (\<lambda>u. host_allowed (normalize_host (u_host u)) (de_hosts d)) passed" if "de_hosts d \<noteq> []"
    using check_destination_Inr[OF ok] that by (simp add: list_all_iff)
  ultimately show ?thesis using one none unfolding passed_def[symmetric] Let_def by auto
qed

section \<open>Only public addresses are dialed\<close>

text \<open>The IPv6 addresses that stand for an IPv4 address.\<close>

definition wraps :: "int \<Rightarrow> address \<Rightarrow> bool" where
  "wraps n a \<longleftrightarrow> a = V4 n \<or> a = V6 (65535 * 2 ^ 32 + n) \<or> a = V6 (v6 100 65435 0 0 + n)
     \<or> (\<exists>s. 0 \<le> s \<and> s < 2 ^ 80 \<and> a = V6 (8194 * 2 ^ 112 + n * 2 ^ 80 + s))"

lemma div_mod_base:
  fixes n m k :: int
  assumes "0 \<le> n" "n < m"
  shows "(k * m + n) div m = k" "(k * m + n) mod m = n"
  using assms by simp_all

lemma embedded_mapped:
  assumes "0 \<le> n" "n < 2 ^ 32" shows "embedded_v4 (V6 (65535 * 2 ^ 32 + n)) = Some n"
proof -
  have "mapped_v4 (65535 * 2 ^ 32 + n) = Some n"
    unfolding mapped_v4_def div_mod_base[OF assms] by simp
  then show ?thesis by (simp only: embedded_v4_def address.case option.case)
qed

lemma embedded_sixtofour:
  assumes "0 \<le> n" "n < 2 ^ 32" "0 \<le> s" "s < 2 ^ 80"
  shows "embedded_v4 (V6 (8194 * 2 ^ 112 + n * 2 ^ 80 + s)) = Some n"
proof -
  let ?ip = "8194 * 2 ^ 112 + n * 2 ^ 80 + s"
  have "?ip = (8194 * 2 ^ 32 + n) * 2 ^ 80 + s" by simp
  then have low: "?ip div 2 ^ 80 = 8194 * 2 ^ 32 + n" using div_mod_base(1)[OF assms(3,4)] by (simp only:)
  have up: "?ip div 2 ^ 112 = 8194"
  proof -
    have "?ip div 2 ^ 112 = ?ip div 2 ^ 80 div 2 ^ 32" by (subst zdiv_zmult2_eq[symmetric]) simp_all
    then show ?thesis unfolding low div_mod_base(1)[OF assms(1,2)] .
  qed
  have "8194 * 2 ^ 112 \<le> ?ip" using assms by simp
  then have "8194 * 2 ^ 112 div 2 ^ 32 \<le> ?ip div 2 ^ 32" by (rule zdiv_mono1) simp
  then have "?ip div 2 ^ 32 \<noteq> 65535" by simp
  then have "mapped_v4 ?ip = None" by (simp only: mapped_v4_def if_False)
  moreover have "sixtofour ?ip = Some n"
    by (simp only: sixtofour_def up low div_mod_base(2)[OF assms(1,2)] if_True simp_thms)
  ultimately show ?thesis by (simp only: embedded_v4_def address.case option.case)
qed

lemma embedded_nat64:
  assumes "0 \<le> n" "n < 2 ^ 32" shows "embedded_v4 (V6 (v6 100 65435 0 0 + n)) = Some n"
proof -
  let ?k = "100 * 2 ^ 80 + 65435 * 2 ^ 64 :: int"
  have v: "v6 100 65435 0 0 = ?k * 2 ^ 32" by (simp add: v6_def)
  have d: "(v6 100 65435 0 0 + n) div 2 ^ 32 = ?k" "(v6 100 65435 0 0 + n) mod 2 ^ 32 = n"
    unfolding v using div_mod_base[OF assms, of ?k] by simp_all
  have "(v6 100 65435 0 0 + n) div 2 ^ 112 = (v6 100 65435 0 0 + n) div 2 ^ 32 div 2 ^ 80"
    by (subst zdiv_zmult2_eq[symmetric]) simp_all
  then have up: "(v6 100 65435 0 0 + n) div 2 ^ 112 = 100" unfolding d by simp
  have "mapped_v4 (v6 100 65435 0 0 + n) = None" unfolding mapped_v4_def d by simp
  moreover have "sixtofour (v6 100 65435 0 0 + n) = None" unfolding sixtofour_def up by simp
  moreover have "in_net 128 (v6 100 65435 0 0 + n) (v6 100 65435 0 0, 96)"
  proof -
    have "(128 :: nat) - 96 = 32" by simp
    moreover have "v6 100 65435 0 0 div 2 ^ 32 = ?k" by (simp add: v6_def)
    ultimately show ?thesis using d(1) by (simp only: in_net_def fst_conv snd_conv)
  qed
  ultimately show ?thesis using d(2) by (simp only: embedded_v4_def address.case option.case if_True)
qed

lemma embedded_wraps:
  assumes "wraps n a" "0 \<le> n" "n < 2 ^ 32"
  shows "a = V4 n \<or> embedded_v4 a = Some n"
  using assms(1) embedded_mapped[OF assms(2,3)] embedded_nat64[OF assms(2,3)] embedded_sixtofour[OF assms(2,3)]
  unfolding wraps_def by blast

lemma blocked_wraps:
  assumes "wraps n a" "0 \<le> n" "n < 2 ^ 32" "is_blocked_address (V4 n)"
  shows "is_blocked_address a"
  using embedded_wraps[OF assms(1-3)] assms(4) by (auto simp: is_blocked_address_def embedded_v4_def)

lemma public_Inr: "public raw = Inr as \<Longrightarrow> list_all (\<lambda>a. \<not> is_blocked_address a) as \<and> as \<noteq> []"
  by (auto simp: public_def Let_def list_all_iff split: if_splits)

lemma public_addresses_Inr:
  "public_addresses host resolved = Inr as \<Longrightarrow> list_all (\<lambda>a. \<not> is_blocked_address a) as \<and> as \<noteq> []"
  by (auto simp: public_addresses_def dest: public_Inr split: if_splits option.splits)

lemma dial_prefix: "dial up ts = (ds, r) \<Longrightarrow> prefix ds ts \<and> (\<forall>t. r = Some t \<longrightarrow> ds \<noteq> [] \<and> last ds = t \<and> up t)"
proof (induction ts arbitrary: ds r)
  case (Cons t ts)
  show ?case
  proof (cases "up t")
    case False
    obtain es q where e: "dial up ts = (es, q)" by fastforce
    then show ?thesis using Cons.IH[OF e] Cons.prems False by auto
  qed (use Cons.prems in auto)
qed simp

text \<open>What may be dialed: a public address that does not stand for a blocked IPv4 address in any form.\<close>

definition dialable :: "dial_target \<Rightarrow> bool" where
  "dialable t \<longleftrightarrow>
     (case t of
        ByName _ \<Rightarrow> False
      | ByAddress a \<Rightarrow> \<not> is_blocked_address a \<and> (\<forall>n. 0 \<le> n \<and> n < 2 ^ 32 \<and> is_blocked_address (V4 n) \<longrightarrow> \<not> wraps n a))"


section \<open>Witnesses\<close>

definition demo_outbound :: outbound_settings where
  "demo_outbound = \<lparr>os_http_hosts = [], os_private_hosts = ''db.internal'', os_dev = False, os_enforce = True\<rparr>"

lemma wildcard_is_one_label_witness:
  "host_matches ''A.Example.com.'' ''*.example.com''
   \<and> (\<exists>l. l \<noteq> [] \<and> CHR ''.'' \<notin> set l \<and> normalize_host ''A.Example.com.'' = l @ ''.'' @ ''example.com'')"
proof -
  have m: "host_matches ''A.Example.com.'' ''*.example.com''" "normalize_host ''*.example.com'' = ''*.'' @ ''example.com''"
    by code_simp+
  then show ?thesis using wildcard_is_one_label[OF m(2)] by simp
qed

lemma credential_stays_with_its_hosts_witness:
  "let passed = sent demo_outbound True False
      [\<lparr>u_scheme = ''https'', u_host = ''api.x.com'', u_port = 443\<rparr>, \<lparr>u_scheme = ''https'', u_host = ''evil.com'', u_port = 443\<rparr>]
      (bind_destination (Some \<lparr>de_hosts = [''*.x.com''], de_empty_ok = False\<rparr>))
   in map u_host passed = [''api.x.com''] \<and> list_all (secure demo_outbound) passed"
proof -
  have "map u_host (sent demo_outbound True False
      [\<lparr>u_scheme = ''https'', u_host = ''api.x.com'', u_port = 443\<rparr>, \<lparr>u_scheme = ''https'', u_host = ''evil.com'', u_port = 443\<rparr>]
      (bind_destination (Some \<lparr>de_hosts = [''*.x.com''], de_empty_ok = False\<rparr>))) = [''api.x.com'']" by code_simp
  then show ?thesis
    using credential_stays_with_its_hosts[of demo_outbound True False
      "[\<lparr>u_scheme = ''https'', u_host = ''api.x.com'', u_port = 443\<rparr>, \<lparr>u_scheme = ''https'', u_host = ''evil.com'', u_port = 443\<rparr>]"
      "\<lparr>de_hosts = [''*.x.com''], de_empty_ok = False\<rparr>"]
    by (simp add: Let_def)
qed


end
