(* ===== verification/Approvals.thy ===== *)
theory Approvals
  imports GuardTemplates
begin

text \<open>
  Approval requests (\<open>approvals/service\<close>, \<open>approvals/recording\<close>, \<open>approvals/inbox\<close>, the writes of
  \<open>approvals/emergency\<close>) over the table \<open>models/approval_request\<close>: a paused run records one request per
  interrupt, somebody decides it or it expires.

  An interrupt's payload is a JSON value whose action names are strings or absent. Hashing, masking, \<open>str\<close>
  of values that are not strings and new identifiers are in the environment; a run has the columns that are
  read. Clearing references to deleted rows, notifications and audit rows are left out.

  The lemmas show that a request is decided at most once, by whoever comes first and in time, that
  recording is idempotent, that the inbox resumes only what its decider saw, and that the sweep ends a request.
\<close>

section \<open>Action requests\<close>

fun members :: "json \<Rightarrow> (string \<times> json) list" where
  "members (JObj ms) = ms"
| "members _ = []"

fun is_obj :: "json \<Rightarrow> bool" where
  "is_obj (JObj ms) = True"
| "is_obj _ = False"

definition approval_actions :: "json \<Rightarrow> (string \<times> json) list list option" where
  "approval_actions payload =
     (if \<not> is_obj payload then None
      else
        (case jget (members payload) ''action_requests'' of
           JList rs \<Rightarrow>
             if rs = [] \<or> \<not> list_all is_obj rs
                \<or> list_all (\<lambda>r. jget (members r) ''name'' = JStr ''ask_user'') rs
             then None else Some (map members rs)
         | _ \<Rightarrow> None))"

fun text_of :: "(json \<Rightarrow> string) \<Rightarrow> json \<Rightarrow> string" where
  "text_of py_str (JStr s) = s"
| "text_of py_str j = py_str j"

text \<open>The review configuration of an action: the one at its position, else the first of its name.\<close>

definition config_for :: "json list \<Rightarrow> nat \<Rightarrow> json \<Rightarrow> json" where
  "config_for configs index name =
     (let here = (if index < length configs then configs ! index else JNull) in
      if is_obj here \<and> jget (members here) ''action_name'' \<in> {JNull, name} then here
      else (case find (\<lambda>c. is_obj c \<and> jget (members c) ''action_name'' = name) configs of
              None \<Rightarrow> JNull | Some c \<Rightarrow> c))"

definition allowed :: "(json \<Rightarrow> string) \<Rightarrow> json \<Rightarrow> nat \<Rightarrow> json \<Rightarrow> string list" where
  "allowed py_str payload index name =
     (case jget (members payload) ''review_configs'' of
        JList configs \<Rightarrow>
          (case jget (members (config_for configs index name)) ''allowed_decisions'' of
             JList ds \<Rightarrow> map (text_of py_str) ds
           | _ \<Rightarrow> [])
      | _ \<Rightarrow> [])"

record action_view =
  av_name :: string
  av_args :: json
  av_description :: "utext option"
  av_allowed :: "string list"

definition text_or_empty :: "(json \<Rightarrow> string) \<Rightarrow> json \<Rightarrow> string" where
  "text_or_empty py_str j = (if json_true j then text_of py_str j else [])"

text \<open>The masking keeps the number of actions.\<close>

definition view :: "(json \<Rightarrow> string) \<Rightarrow> (json list \<Rightarrow> json list) \<Rightarrow> json \<Rightarrow> action_view list" where
  "view py_str masking payload =
     (let actions = (case approval_actions payload of None \<Rightarrow> [] | Some as \<Rightarrow> as) in
      map (\<lambda>(i, a, shown).
        \<lparr>av_name = text_or_empty py_str (jget a ''name''), av_args = jget (members shown) ''args'',
         av_description = (let d = take 2000 (chars (text_or_empty py_str (jget a ''description'')))
                           in if d = [] then None else Some d),
         av_allowed = allowed py_str payload i (jget a ''name'')\<rparr>)
       (enumerate 0 (zip actions (masking (map JObj actions)))))"

definition args_digest :: "(string \<Rightarrow> string) \<Rightarrow> json \<Rightarrow> string" where
  "args_digest hash payload =
     hash (dumps_sorted (JList (map (\<lambda>a. JList [jget a ''name'', jget a ''args''])
       (case approval_actions payload of None \<Rightarrow> [] | Some as \<Rightarrow> as))))"

section \<open>The table\<close>

datatype approval_status = ApPending | ApApproved | ApEdited | ApRejected | ApExpired | ApCanceled

datatype approval_channel = ByChat | ByInbox | ByExpiry | ByStop

record approval =
  ap_id :: uuid
  ap_tenant :: uuid
  ap_org :: "uuid option"
  ap_conversation :: uuid
  ap_run :: uuid
  ap_interrupt :: string
  ap_namespace :: "string list"
  ap_agent :: "uuid option"
  ap_agent_name :: utext
  ap_source :: string
  ap_trigger :: "uuid option"
  ap_trigger_run :: "uuid option"
  ap_api_run :: "uuid option"
  ap_subject :: uuid
  ap_requester :: uuid
  ap_decider :: uuid
  ap_actions :: "action_view list"
  ap_digest :: string
  ap_attempt :: int
  ap_policy_version :: "int option"
  ap_policy_hash :: "string option"
  ap_status :: approval_status
  ap_decision_no :: int
  ap_expires :: micros
  ap_channel :: "approval_channel option"
  ap_decided_by :: "uuid option"
  ap_decided_at :: "micros option"
  ap_decisions :: "string list option"
  ap_resumed :: "uuid option"
  ap_edited_digest :: "string option"
  ap_reason :: "string option"
  ap_notified_at :: "micros option"

text \<open>The columns of a run that are read here.\<close>

record approval_run =
  pr_id :: uuid
  pr_tenant :: "uuid option"
  pr_org :: "uuid option"
  pr_conversation :: uuid
  pr_agent :: "uuid option"
  pr_user :: uuid
  pr_on_behalf :: "uuid option"
  pr_parent :: "uuid option"
  pr_source :: "string option"
  pr_policy_version :: "int option"
  pr_policy_hash :: "string option"
  pr_interrupted :: bool

record pending_interrupt =
  pi_id :: string
  pi_payload :: json
  pi_namespace :: "string list"

record run_origin =
  ro_agent_name :: utext
  ro_source :: "string option"
  ro_trigger :: "uuid option"
  ro_trigger_run :: "uuid option"
  ro_api_run :: "uuid option"

record approval_env =
  ae_hash :: "string \<Rightarrow> string"
  ae_py_str :: "json \<Rightarrow> string"
  ae_mask :: "json list \<Rightarrow> json list"
  ae_ttl :: int
  ae_new_id :: "uuid \<Rightarrow> string \<Rightarrow> uuid"

section \<open>Recording\<close>

definition sources :: "(string \<times> string) list" where
  "sources = [(''CHAT'', ''chat''), (''TRIGGER'', ''trigger''), (''API'', ''api''), (''SUBAGENT'', ''subagent'')]"

definition inherited :: "approval_run \<Rightarrow> approval list \<Rightarrow> approval option" where
  "inherited run table =
     (if pr_parent run = None then None else find (\<lambda>r. ap_resumed r = Some (pr_id run)) table)"

definition source_of :: "approval_run \<Rightarrow> approval option \<Rightarrow> run_origin \<Rightarrow> string" where
  "source_of run parent origin =
     (let own = map_option ap_source parent in
      if truthy own then the own
      else if truthy (ro_source origin) then the (ro_source origin)
      else (case map_of sources (case pr_source run of None \<Rightarrow> [] | Some s \<Rightarrow> s) of None \<Rightarrow> ''chat'' | Some s \<Rightarrow> s))"

definition from_parent :: "(approval \<Rightarrow> 'a option) \<Rightarrow> approval option \<Rightarrow> 'a option" where
  "from_parent get parent = (case parent of None \<Rightarrow> None | Some p \<Rightarrow> get p)"

definition new_request ::
    "approval_env \<Rightarrow> micros \<Rightarrow> approval_run \<Rightarrow> uuid \<Rightarrow> run_origin \<Rightarrow> approval option \<Rightarrow> pending_interrupt \<Rightarrow> approval list \<Rightarrow> approval" where
  "new_request env now run tenant origin parent i table =
     (let hashed = args_digest (ae_hash env) (pi_payload i) in
      \<lparr>ap_id = ae_new_id env (pr_id run) (pi_id i), ap_tenant = tenant, ap_org = pr_org run,
       ap_conversation = pr_conversation run, ap_run = pr_id run, ap_interrupt = pi_id i, ap_namespace = pi_namespace i,
       ap_agent = pr_agent run, ap_agent_name = take 200 (ro_agent_name origin), ap_source = source_of run parent origin,
       ap_trigger = or_else (ro_trigger origin) (from_parent ap_trigger parent),
       ap_trigger_run = or_else (ro_trigger_run origin) (from_parent ap_trigger_run parent),
       ap_api_run = or_else (ro_api_run origin) (from_parent ap_api_run parent),
       ap_subject = pr_user run, ap_requester = (case pr_on_behalf run of None \<Rightarrow> pr_user run | Some u \<Rightarrow> u),
       ap_decider = pr_user run, ap_actions = view (ae_py_str env) (ae_mask env) (pi_payload i), ap_digest = hashed,
       ap_attempt = int (length (filter (\<lambda>r. ap_conversation r = pr_conversation run \<and> ap_digest r = hashed) table)) + 1,
       ap_policy_version = pr_policy_version run, ap_policy_hash = pr_policy_hash run, ap_status = ApPending,
       ap_decision_no = 0, ap_expires = now + seconds (60 * ae_ttl env), ap_channel = None, ap_decided_by = None,
       ap_decided_at = None, ap_decisions = None, ap_resumed = None, ap_edited_digest = None, ap_reason = None,
       ap_notified_at = None\<rparr>)"

text \<open>The queries see the rows added before them (the session flushes before it queries).\<close>

fun record_each ::
    "approval_env \<Rightarrow> micros \<Rightarrow> approval_run \<Rightarrow> uuid \<Rightarrow> run_origin \<Rightarrow> approval option \<Rightarrow> pending_interrupt list \<Rightarrow>
     approval list \<Rightarrow> approval list" where
  "record_each env now run tenant origin parent [] table = []"
| "record_each env now run tenant origin parent (i # is) table =
     (if approval_actions (pi_payload i) = None
         \<or> list_ex (\<lambda>r. ap_run r = pr_id run \<and> ap_interrupt r = pi_id i) table
      then record_each env now run tenant origin parent is table
      else (let row = new_request env now run tenant origin parent i table
            in row # record_each env now run tenant origin parent is (table @ [row])))"

definition record_pending ::
    "approval_env \<Rightarrow> micros \<Rightarrow> approval_run \<Rightarrow> pending_interrupt list \<Rightarrow> run_origin \<Rightarrow> approval list \<Rightarrow> approval list" where
  "record_pending env now run is origin table =
     (case pr_tenant run of None \<Rightarrow> []
      | Some tenant \<Rightarrow> record_each env now run tenant origin (inherited run table) is table)"

text \<open>\<open>name\<close>: the agent's name. The new rows, and those whose decider is notified.\<close>

definition record_interrupted_run ::
    "approval_env \<Rightarrow> micros \<Rightarrow> approval_run option \<Rightarrow> pending_interrupt list \<Rightarrow> utext \<Rightarrow> run_origin option \<Rightarrow> approval list \<Rightarrow>
     approval list \<times> approval list" where
  "record_interrupted_run env now run is name origin table =
     (case run of None \<Rightarrow> ([], [])
      | Some run \<Rightarrow>
          if \<not> pr_interrupted run \<or> is = [] then ([], [])
          else
            (let base = (case origin of None \<Rightarrow>
                   \<lparr>ro_agent_name = [], ro_source = None, ro_trigger = None, ro_trigger_run = None, ro_api_run = None\<rparr>
                 | Some r \<Rightarrow> r);
                 rows = record_pending env now run is
                   (base\<lparr>ro_agent_name := (if pr_agent run = None then [] else name)\<rparr>) table
             in (rows, filter (\<lambda>r. ap_source r \<noteq> ''chat'') rows)))"

definition waiting_interrupts :: "pending_interrupt list \<Rightarrow> pending_interrupt list" where
  "waiting_interrupts is = filter (\<lambda>i. approval_actions (pi_payload i) \<noteq> None) is"

section \<open>Deciding\<close>

definition status_for :: "string list \<Rightarrow> approval_status" where
  "status_for ds =
     (if ds \<noteq> [] \<and> list_all (\<lambda>d. d = ''reject'') ds then ApRejected
      else if list_ex (\<lambda>d. d = ''edit'') ds then ApEdited else ApApproved)"

record approval_claim =
  cl_run :: uuid
  cl_decisions :: "(string \<times> string list) list"
  cl_channel :: approval_channel
  cl_actor :: "uuid option"
  cl_resumed :: "uuid option"
  cl_edited :: "(string \<times> string) list option"
  cl_reason :: "string option"

text \<open>\<open>ApprovalStale\<close> with the request's status, or a request that was deleted meanwhile.\<close>

datatype claim_error = ApprovalStale approval_status | RowGone

definition claim_status :: "approval_claim \<Rightarrow> string list \<Rightarrow> approval_status" where
  "claim_status c ds =
     (case cl_channel c of ByExpiry \<Rightarrow> ApExpired | ByStop \<Rightarrow> ApCanceled | _ \<Rightarrow> status_for ds)"

definition channel_reason :: "approval_channel \<Rightarrow> string option" where
  "channel_reason ch =
     (case ch of ByExpiry \<Rightarrow> Some ''approval_expired'' | ByStop \<Rightarrow> Some ''emergency_stop'' | _ \<Rightarrow> None)"

definition decided :: "micros \<Rightarrow> approval_claim \<Rightarrow> approval \<Rightarrow> approval" where
  "decided stamp c row =
     (let ds = (case map_of (cl_decisions c) (ap_interrupt row) of None \<Rightarrow> [] | Some ds \<Rightarrow> ds) in
      row\<lparr>ap_status := claim_status c ds, ap_channel := Some (cl_channel c), ap_decided_by := cl_actor c,
          ap_decided_at := Some stamp, ap_decisions := Some ds, ap_decision_no := ap_decision_no row + 1,
          ap_resumed := cl_resumed c,
          ap_edited_digest := (case cl_edited c of None \<Rightarrow> None | Some es \<Rightarrow> map_of es (ap_interrupt row)),
          ap_reason := (if truthy (cl_reason c) then cl_reason c else channel_reason (cl_channel c))\<rparr>)"

definition approval_claimable :: "micros \<Rightarrow> approval_claim \<Rightarrow> approval \<Rightarrow> bool" where
  "approval_claimable stamp c row \<longleftrightarrow>
     ap_status row = ApPending \<and> (cl_channel c \<in> {ByExpiry, ByStop} \<or> stamp < ap_expires row)"

text \<open>One update per request that was read, each against the table as it then is; the first that fails raises.\<close>

fun claim_each :: "micros \<Rightarrow> approval_claim \<Rightarrow> approval list \<Rightarrow> approval list \<Rightarrow> claim_error + approval list" where
  "claim_each stamp c [] table = Inr table"
| "claim_each stamp c (r # rs) table =
     (case row_get ap_id (ap_id r) table of
        None \<Rightarrow> Inl RowGone
      | Some row \<Rightarrow>
          if approval_claimable stamp c row then claim_each stamp c rs (row_put ap_id (decided stamp c row) table)
          else Inl (ApprovalStale (if ap_status row = ApPending \<and> ap_expires row \<le> stamp then ApExpired
                                   else ap_status row)))"

definition claimed_rows :: "approval_claim \<Rightarrow> approval list \<Rightarrow> approval list" where
  "claimed_rows c table =
     filter (\<lambda>r. ap_run r = cl_run c \<and> ap_interrupt r \<in> set (map fst (cl_decisions c))) table"

text \<open>\<open>seen\<close>: the table as the requests were read.\<close>

definition claim_requests :: "micros \<Rightarrow> approval_claim \<Rightarrow> approval list \<Rightarrow> approval list \<Rightarrow> claim_error + approval list" where
  "claim_requests stamp c seen table = claim_each stamp c (claimed_rows c seen) table"

definition decision_types :: "(json \<Rightarrow> string) \<Rightarrow> json \<Rightarrow> string list" where
  "decision_types py_str response =
     (case jget (members response) ''decisions'' of
        JList ds \<Rightarrow> map (\<lambda>d. text_of py_str (jget (members d) ''type'')) (filter is_obj ds)
      | _ \<Rightarrow> [])"

definition claim_resume ::
    "(json \<Rightarrow> string) \<Rightarrow> micros \<Rightarrow> uuid \<Rightarrow> (string \<times> json) list \<Rightarrow> uuid option \<Rightarrow> uuid \<Rightarrow> approval_channel \<Rightarrow>
     approval list \<Rightarrow> approval list \<Rightarrow> claim_error + approval list" where
  "claim_resume py_str stamp parent responses actor resumed channel seen table =
     claim_requests stamp
       \<lparr>cl_run = parent, cl_decisions = map (\<lambda>(k, v). (k, decision_types py_str v)) responses, cl_channel = channel,
        cl_actor = actor, cl_resumed = Some resumed, cl_edited = None, cl_reason = None\<rparr> seen table"

definition due_for_expiry :: "micros \<Rightarrow> nat \<Rightarrow> approval list \<Rightarrow> approval list" where
  "due_for_expiry now limit table =
     take limit (sort_key ap_expires (filter (\<lambda>r. ap_status r = ApPending \<and> ap_expires r \<le> now) table))"

definition due_for_notice :: "micros \<Rightarrow> int \<Rightarrow> nat \<Rightarrow> approval list \<Rightarrow> approval list" where
  "due_for_notice now minutes limit table =
     take limit (sort_key ap_expires (filter (\<lambda>r. ap_status r = ApPending \<and> ap_expires r \<le> now + seconds (60 * minutes)
       \<and> now < ap_expires r \<and> ap_notified_at r = None) table))"

definition pending_for_run :: "uuid \<Rightarrow> approval list \<Rightarrow> approval list" where
  "pending_for_run run table = filter (\<lambda>r. ap_run r = run \<and> ap_status r = ApPending) table"

definition mine :: "uuid \<Rightarrow> uuid \<Rightarrow> approval \<Rightarrow> bool" where
  "mine user org r \<longleftrightarrow> ap_decider r = user \<and> (ap_org r = Some org \<or> ap_org r = None)"

definition pending_count :: "uuid \<Rightarrow> uuid \<Rightarrow> approval list \<Rightarrow> nat" where
  "pending_count user org table = length (filter (\<lambda>r. mine user org r \<and> ap_status r = ApPending) table)"

section \<open>Retiring\<close>

definition close_request :: "micros \<Rightarrow> uuid \<Rightarrow> string \<Rightarrow> approval list \<Rightarrow> approval list" where
  "close_request now i reason table =
     map (\<lambda>r. if ap_id r = i \<and> ap_status r = ApPending
            then r\<lparr>ap_status := ApCanceled, ap_reason := Some reason, ap_decided_at := Some now\<rparr> else r) table"

definition cancel_approvals :: "micros \<Rightarrow> uuid list \<Rightarrow> approval list \<Rightarrow> uuid list \<times> approval list" where
  "cancel_approvals now agents table =
     (let hit = (\<lambda>r. ap_agent r \<in> Some ` set agents \<and> ap_status r = ApPending) in
      (map ap_id (filter hit table),
       map (\<lambda>r. if hit r
              then r\<lparr>ap_status := ApCanceled, ap_channel := Some ByStop, ap_reason := Some ''emergency_stop'',
                     ap_decided_at := Some now, ap_decision_no := ap_decision_no r + 1\<rparr> else r) table))"

definition notice_sent :: "micros \<Rightarrow> uuid \<Rightarrow> approval list \<Rightarrow> approval list" where
  "notice_sent now i table = map (\<lambda>r. if ap_id r = i then r\<lparr>ap_notified_at := Some now\<rparr> else r) table"

section \<open>The inbox\<close>

definition decision_ok :: "(string \<times> json) list \<Rightarrow> action_view \<Rightarrow> bool" where
  "decision_ok d a = (case jget d ''type'' of JStr t \<Rightarrow> t \<in> set (av_allowed a) | _ \<Rightarrow> False)"

definition check_decisions :: "approval \<Rightarrow> (string \<times> json) list list \<Rightarrow> bool" where
  "check_decisions row ds \<longleftrightarrow> length ds = length (ap_actions row) \<and> list_all2 decision_ok ds (ap_actions row)"

datatype inbox_error = ApprovalNotFound | AlreadyDecided approval_status | PastExpiry | InvalidDecision
  | NoLongerWaiting | ArgumentsChanged | ResumeRefused | OtherException

text \<open>
  The chat's own answer path up to the claim: it goes through, it refuses (an error answer or an \<open>AppError\<close>) or
  another exception leaves it. \<open>rp_parent\<close> is the interrupted run it resumes, \<open>rp_resumed\<close> the new run.
\<close>

datatype path_end = PathPasses | PathRefuses | PathRaises

record resume_path =
  rp_end :: path_end
  rp_parent :: uuid
  rp_resumed :: uuid

definition resume_with ::
    "approval_env \<Rightarrow> micros \<Rightarrow> resume_path \<Rightarrow> approval \<Rightarrow> (string \<times> json) list list \<Rightarrow> uuid \<Rightarrow> approval_channel \<Rightarrow>
     approval list \<Rightarrow> inbox_error + approval list" where
  "resume_with env stamp path row ds user channel table =
     (case rp_end path of
        PathRefuses \<Rightarrow> Inl ResumeRefused
      | PathRaises \<Rightarrow> Inl OtherException
      | PathPasses \<Rightarrow>
          (case claim_resume (ae_py_str env) stamp (rp_parent path)
                  [(ap_interrupt row, JObj [(''decisions'', JList (map JObj ds))])] (Some user) (rp_resumed path) channel
                  table table of
             Inl (ApprovalStale st) \<Rightarrow> Inl ResumeRefused
           | Inl RowGone \<Rightarrow> Inl OtherException
           | Inr t \<Rightarrow> Inr t))"

text \<open>
  \<open>readable\<close>: the conversation is still the decider's; \<open>value\<close>: the payload the checkpoint waits on, if any.
\<close>

definition decide ::
    "approval_env \<Rightarrow> micros \<Rightarrow> uuid \<Rightarrow> uuid \<Rightarrow> (string \<times> json) list list \<Rightarrow> bool \<Rightarrow> json option \<Rightarrow> resume_path \<Rightarrow>
     approval list \<Rightarrow> inbox_error option \<times> approval list" where
  "decide env now user i ds readable value path table =
     (case row_get ap_id i table of
        None \<Rightarrow> (Some ApprovalNotFound, table)
      | Some row \<Rightarrow>
          if ap_decider row \<noteq> user then (Some ApprovalNotFound, table)
          else if ap_status row \<noteq> ApPending then (Some (AlreadyDecided (ap_status row)), table)
          else if ap_expires row \<le> now then (Some PastExpiry, table)
          else if \<not> check_decisions row ds then (Some InvalidDecision, table)
          else if \<not> readable then (Some ApprovalNotFound, table)
          else
            (case value of
               None \<Rightarrow> (Some NoLongerWaiting, close_request now i ''no_longer_pending'' table)
             | Some v \<Rightarrow>
                 if args_digest (ae_hash env) v \<noteq> ap_digest row
                 then (Some ArgumentsChanged, close_request now i ''arguments_changed'' table)
                 else
                   (case resume_with env now path row ds user ByInbox table of
                      Inl e \<Rightarrow> (Some e, table)
                    | Inr t \<Rightarrow> (None, t))))"

section \<open>The sweep\<close>

definition rejections :: "approval \<Rightarrow> string \<Rightarrow> (string \<times> json) list list" where
  "rejections row message =
     map (\<lambda>_. [(''type'', JStr ''reject''), (''message'', JStr message)]) (ap_actions row)"

text \<open>
  What reading the subject and the conversation gives: a subject that reads it, none (inactive, or the conversation
  is gone), or an \<open>AppError\<close>. After that error the transaction is rolled back, which expires the row that was read; the
  next access to it raises.
\<close>

datatype subject_reading = SubjectReads | NoSubject | ReadRefused

text \<open>
  \<open>org\<close>: the conversation's organization or the request's. Whether the expiry is handled, and the table after it;
  an exception that leaves it changes nothing.
\<close>

definition expire_one ::
    "approval_env \<Rightarrow> micros \<Rightarrow> string \<Rightarrow> uuid option \<Rightarrow> subject_reading \<Rightarrow> resume_path \<Rightarrow> uuid \<Rightarrow> approval list \<Rightarrow>
     bool \<times> approval list" where
  "expire_one env now message org reading path i table =
     (case (org, row_get ap_id i table) of
        (Some _, Some row) \<Rightarrow>
          if ap_status row \<noteq> ApPending then (True, table)
          else if reading = ReadRefused then (False, table)
          else
            (let resumable = reading = SubjectReads \<and> list_all (\<lambda>a. ''reject'' \<in> set (av_allowed a)) (ap_actions row);
                 res = (if resumable
                        then resume_with env now path row (rejections row message) (ap_subject row) ByExpiry table
                        else Inl ResumeRefused);
                 t1 = (case res of Inl e \<Rightarrow> table | Inr t \<Rightarrow> t)
             in if res = Inl OtherException then (False, table)
                else if map_option ap_status (row_get ap_id i t1) \<noteq> Some ApPending then (True, t1)
                else
                  (case claim_requests now
                      \<lparr>cl_run = ap_run row,
                       cl_decisions = [(ap_interrupt row, replicate (length (ap_actions row)) ''reject'')],
                       cl_channel = ByExpiry, cl_actor = None, cl_resumed = None, cl_edited = None, cl_reason = None\<rparr> t1 t1 of
                     Inl e \<Rightarrow> (False, t1) | Inr t \<Rightarrow> (True, t)))
      | _ \<Rightarrow> (True, table))"

section \<open>All the writers together\<close>

text \<open>
  The tables committed so far, the newest first. A writer may read any earlier one and commits against the
  newest; identifiers are new, and the table's unique keys hold at every commit.
\<close>

definition request_key :: "approval \<Rightarrow> uuid \<times> string" where
  "request_key r = (ap_run r, ap_interrupt r)"

definition unique_requests :: "approval list \<Rightarrow> bool" where
  "unique_requests t \<longleftrightarrow> distinct (map ap_id t) \<and> distinct (map request_key t)"

inductive approval_step :: "approval_env \<Rightarrow> approval list list \<Rightarrow> approval list list \<Rightarrow> bool" for env where
  recorded: "\<lbrakk>seen \<in> set (t # h); new = record_pending env now run is origin seen; unique_requests (t @ new);
      \<forall>old \<in> set (t # h). set (map ap_id new) \<inter> set (map ap_id old) = {}\<rbrakk>
    \<Longrightarrow> approval_step env (t # h) ((t @ new) # t # h)"
| claimed: "\<lbrakk>seen \<in> set (t # h); claim_requests stamp c seen t = Inr t'\<rbrakk> \<Longrightarrow> approval_step env (t # h) (t' # t # h)"
| closed: "approval_step env (t # h) (close_request now i reason t # t # h)"
| stopped: "approval_step env (t # h) (snd (cancel_approvals now agents t) # t # h)"
| noticed: "approval_step env (t # h) (notice_sent now i t # t # h)"
| deleted: "approval_step env (t # h) (filter keep t # t # h)"

inductive_cases approval_stepE: "approval_step env (t # h) h'"

text \<open>What a decision leaves in a request.\<close>

definition outcome :: "approval \<Rightarrow> approval_status \<times> approval_channel option \<times> uuid option \<times> micros option
    \<times> string list option \<times> int \<times> uuid option \<times> string option \<times> string option" where
  "outcome r = (ap_status r, ap_channel r, ap_decided_by r, ap_decided_at r, ap_decisions r, ap_decision_no r,
     ap_resumed r, ap_edited_digest r, ap_reason r)"

definition untouched :: "approval \<Rightarrow> bool" where
  "untouched r \<longleftrightarrow> ap_channel r = None \<and> ap_decided_by r = None \<and> ap_decided_at r = None \<and> ap_decisions r = None
     \<and> ap_decision_no r = 0 \<and> ap_resumed r = None"

definition request_ok :: "approval \<Rightarrow> bool" where
  "request_ok r \<longleftrightarrow>
     (if ap_status r = ApPending then untouched r
      else ap_decided_at r \<noteq> None \<and> 0 \<le> ap_decision_no r \<and> ap_decision_no r \<le> 1
        \<and> (ap_status r \<in> {ApApproved, ApEdited, ApRejected} \<longrightarrow>
             the (ap_decided_at r) < ap_expires r \<and> ap_channel r \<in> {Some ByChat, Some ByInbox}))"

text \<open>A later row of the same request: an outcome stays, the request itself does not change.\<close>

definition follows :: "approval \<Rightarrow> approval \<Rightarrow> bool" where
  "follows r r' \<longleftrightarrow> ap_id r' = ap_id r \<and> ap_run r' = ap_run r \<and> ap_interrupt r' = ap_interrupt r
     \<and> ap_expires r' = ap_expires r \<and> ap_actions r' = ap_actions r \<and> ap_digest r' = ap_digest r
     \<and> ap_decider r' = ap_decider r \<and> (ap_status r \<noteq> ApPending \<longrightarrow> outcome r' = outcome r) \<and> (request_ok r \<longrightarrow> request_ok r')"

definition grows :: "approval list \<Rightarrow> approval list \<Rightarrow> bool" where
  "grows t t' \<longleftrightarrow> (\<forall>r' \<in> set t'. \<exists>r \<in> set t. follows r r') \<and> (unique_requests t \<longrightarrow> unique_requests t')"

lemma follows_refl [simp]: "follows r r"
  by (simp add: follows_def)

lemma follows_trans: "follows a b \<Longrightarrow> follows b c \<Longrightarrow> follows a c"
  by (auto simp: follows_def outcome_def)

lemma grows_refl [simp]: "grows t t"
  by (auto simp: grows_def intro: follows_refl)

lemma grows_trans: "grows a b \<Longrightarrow> grows b c \<Longrightarrow> grows a c"
  unfolding grows_def using follows_trans by meson

lemma grows_map:
  assumes "\<And>r. follows r (f r)"
  shows "grows t (map f t)"
proof -
  have "map ap_id (map f t) = map ap_id t"
    "map request_key (map f t) = map request_key t"
    using assms by (auto simp: follows_def request_key_def)
  then show ?thesis using assms by (auto simp: grows_def unique_requests_def simp del: map_map)
qed

lemma grows_filter: "grows t (filter P t)"
proof -
  have "unique_requests t \<longrightarrow> unique_requests (filter P t)" by (simp add: unique_requests_def distinct_map_filter)
  then show ?thesis using follows_refl unfolding grows_def set_filter by blast
qed

lemma status_for_range: "status_for ds \<in> {ApApproved, ApEdited, ApRejected}"
  by (simp add: status_for_def)

lemma follows_decided:
  "approval_claimable stamp c row \<Longrightarrow> follows row (decided stamp c row)"
  using status_for_range[of "case map_of (cl_decisions c) (ap_interrupt row) of None \<Rightarrow> [] | Some ds \<Rightarrow> ds"]
  by (auto simp: follows_def approval_claimable_def decided_def request_ok_def untouched_def claim_status_def Let_def
      split: approval_channel.splits)

lemma grows_put:
  assumes "row_get ap_id i t = Some row" "follows row r'" "unique_requests t"
  shows "grows t (row_put ap_id r' t)"
proof -
  have row: "row \<in> set t" "ap_id row = i" using row_get_Some[OF assms(1)] by auto
  have same: "x = row" if "x \<in> set t" "ap_id x = ap_id r'" for x
  proof -
    have "ap_id x = ap_id row" using that(2) assms(2) by (simp add: follows_def)
    moreover have "inj_on ap_id (set t)" using assms(3) by (simp add: unique_requests_def distinct_map)
    ultimately show ?thesis using that(1) row(1) by (simp add: inj_on_def)
  qed
  let ?f = "\<lambda>x. if ap_id x = ap_id r' then r' else x"
  have k: "map request_key (map ?f t) = map request_key t"
    using same assms(2) by (auto simp: follows_def request_key_def)
  have "map ap_id (map ?f t) = map ap_id t" by auto
  then have "unique_requests (map ?f t) = unique_requests t" by (simp only: unique_requests_def k)
  moreover have "\<exists>r\<in>set t. follows r x'" if "x' \<in> set (map ?f t)" for x'
  proof (cases "x' = r'")
    case False
    then have "x' \<in> set t" using that by auto
    then show ?thesis using follows_refl by blast
  qed (use row(1) assms(2) in blast)
  ultimately show ?thesis unfolding grows_def row_put_def by blast
qed

lemma grows_claim_each: "claim_each stamp c rs t = Inr t' \<Longrightarrow> unique_requests t \<Longrightarrow> grows t t'"
proof (induction rs arbitrary: t)
  case (Cons r rs)
  obtain row where g: "row_get ap_id (ap_id r) t = Some row" and c: "approval_claimable stamp c row"
    and n: "claim_each stamp c rs (row_put ap_id (decided stamp c row) t) = Inr t'"
    using Cons.prems(1) by (auto split: option.splits if_splits)
  have p: "grows t (row_put ap_id (decided stamp c row) t)"
    by (rule grows_put[OF g follows_decided[OF c] Cons.prems(2)])
  then have "unique_requests (row_put ap_id (decided stamp c row) t)" using Cons.prems(2) by (simp add: grows_def)
  from Cons.IH[OF n this] show ?case using p grows_trans by blast
qed simp

lemma grows_claim: "claim_requests stamp c seen t = Inr t' \<Longrightarrow> unique_requests t \<Longrightarrow> grows t t'"
  unfolding claim_requests_def by (rule grows_claim_each)

lemma grows_close: "grows t (close_request now i reason t)"
  unfolding close_request_def
  by (rule grows_map) (auto simp: follows_def request_ok_def untouched_def outcome_def)

lemma grows_cancel: "grows t (snd (cancel_approvals now agents t))"
  unfolding cancel_approvals_def Let_def snd_conv
  by (rule grows_map) (auto simp: follows_def request_ok_def untouched_def outcome_def)

lemma grows_notice: "grows t (notice_sent now i t)"
  unfolding notice_sent_def
  by (rule grows_map) (auto simp: follows_def request_ok_def untouched_def outcome_def)

fun log_ok :: "approval list list \<Rightarrow> bool" where
  "log_ok [] = False"
| "log_ok (t # h) =
     ((\<forall>old \<in> set (t # h). unique_requests old \<and> (\<forall>r \<in> set old. request_ok r))
      \<and> (\<forall>old \<in> set (t # h). \<forall>r \<in> set old. \<forall>r' \<in> set t. ap_id r' = ap_id r \<longrightarrow> follows r r'))"

lemma log_okD:
  assumes "log_ok (t # h)" "old \<in> set (t # h)"
  shows "unique_requests old" "r \<in> set old \<Longrightarrow> request_ok r"
    "r \<in> set old \<Longrightarrow> r' \<in> set t \<Longrightarrow> ap_id r' = ap_id r \<Longrightarrow> follows r r'"
  using assms by auto

lemma same_request: "unique_requests t \<Longrightarrow> r \<in> set t \<Longrightarrow> r' \<in> set t \<Longrightarrow> ap_id r = ap_id r' \<Longrightarrow> r = r'"
  by (auto simp: unique_requests_def distinct_map inj_on_def)

lemma log_ok_next:
  assumes "log_ok (t # h)" "unique_requests t'" "\<And>r. r \<in> set t' \<Longrightarrow> request_ok r"
    "\<And>old r r'. old \<in> set (t # h) \<Longrightarrow> r \<in> set old \<Longrightarrow> r' \<in> set t' \<Longrightarrow> ap_id r' = ap_id r \<Longrightarrow> follows r r'"
  shows "log_ok (t' # t # h)"
proof -
  have "follows r r'" if "r \<in> set t'" "r' \<in> set t'" "ap_id r' = ap_id r" for r r'
    using same_request[OF assms(2) that(2,1)] that(3) by simp
  then show ?thesis using log_okD(1,2)[OF assms(1)] assms(2-4) unfolding log_ok.simps by (metis set_ConsD)
qed

lemma log_ok_grows:
  assumes "log_ok (t # h)" "grows t t'"
  shows "log_ok (t' # t # h)"
proof (rule log_ok_next[OF assms(1)])
  have t: "t \<in> set (t # h)" by simp
  show "unique_requests t'" using assms(2) log_okD(1)[OF assms(1) t] by (simp add: grows_def)
  show "request_ok r" if "r \<in> set t'" for r
    using assms(2) log_okD(2)[OF assms(1) t] that unfolding grows_def follows_def by blast
  show "follows r r'" if "old \<in> set (t # h)" "r \<in> set old" "r' \<in> set t'" "ap_id r' = ap_id r" for old r r'
  proof -
    note rows = that
    obtain r1 where r1: "r1 \<in> set t" "follows r1 r'" using assms(2) rows(3) unfolding grows_def by blast
    then have "ap_id r1 = ap_id r" using rows(4) by (simp add: follows_def)
    then have "follows r r1" by (rule log_okD(3)[OF assms(1) rows(1,2) r1(1)])
    then show ?thesis using r1(2) by (rule follows_trans)
  qed
qed

lemma record_each_new: "r \<in> set (record_each env now run tenant origin parent is table) \<Longrightarrow> request_ok r"
  by (induction "is" arbitrary: table)
    (auto simp: Let_def new_request_def request_ok_def untouched_def split: if_splits)

lemma record_pending_new: "r \<in> set (record_pending env now run is origin table) \<Longrightarrow> request_ok r"
  by (auto simp: record_pending_def dest: record_each_new split: option.splits)

lemma log_ok_step:
  assumes "approval_step env g g'" "log_ok g" shows "log_ok g'"
  using assms
proof (cases rule: approval_step.cases)
  case (recorded seen t h new now run "is" origin)
  have ok: "log_ok (t # h)" using assms(2) recorded(1) by simp
  have t: "t \<in> set (t # h)" by simp
  have fresh: "ap_id r' \<noteq> ap_id r" if "old \<in> set (t # h)" "r \<in> set old" "r' \<in> set new" for old r r'
  proof -
    have "set (map ap_id new) \<inter> set (map ap_id old) = {}" using recorded(6) that(1) by blast
    then show ?thesis using that(2,3) by auto
  qed
  show ?thesis unfolding recorded(2)
  proof (rule log_ok_next[OF ok recorded(5)])
    show "request_ok r" if "r \<in> set (t @ new)" for r
      using that log_okD(2)[OF ok t] record_pending_new recorded(4) by auto
    show "follows r r'" if "old \<in> set (t # h)" "r \<in> set old" "r' \<in> set (t @ new)" "ap_id r' = ap_id r" for old r r'
      using that log_okD(3)[OF ok that(1,2)] fresh[OF that(1,2)] by (metis Un_iff set_append)
  qed
next
  case (claimed seen t h stamp c t')
  have ok: "log_ok (t # h)" using assms(2) claimed(1) by simp
  have u: "unique_requests t" by (rule log_okD(1)[OF ok]) simp
  show ?thesis unfolding claimed(2) by (rule log_ok_grows[OF ok grows_claim[OF claimed(4) u]])
next
  case (closed t h now i reason)
  show ?thesis unfolding closed(2) by (rule log_ok_grows[OF _ grows_close]) (use assms(2) closed(1) in \<open>simp only:\<close>)
next
  case (stopped t h now agents)
  show ?thesis unfolding stopped(2) by (rule log_ok_grows[OF _ grows_cancel]) (use assms(2) stopped(1) in \<open>simp only:\<close>)
next
  case (noticed t h now i)
  show ?thesis unfolding noticed(2) by (rule log_ok_grows[OF _ grows_notice]) (use assms(2) noticed(1) in \<open>simp only:\<close>)
next
  case (deleted t h keep)
  show ?thesis unfolding deleted(2) by (rule log_ok_grows[OF _ grows_filter]) (use assms(2) deleted(1) in \<open>simp only:\<close>)
qed

interpretation approval_log: invariant_system "approval_step env" log_ok for env
  by unfold_locales (rule log_ok_step)

lemma reached_log_ok: "(approval_step env)\<^sup>*\<^sup>* [[]] g \<Longrightarrow> log_ok g"
  by (rule approval_log.reach_inv) (auto simp: unique_requests_def)

lemma history_kept: "(approval_step env)\<^sup>*\<^sup>* g g' \<Longrightarrow> set g \<subseteq> set g'"
proof (induction rule: rtranclp_induct)
  case (step h h')
  then show ?case by (auto elim!: approval_step.cases)
qed simp

lemma decided_simps [simp]:
  "ap_id (decided stamp c row) = ap_id row" "ap_run (decided stamp c row) = ap_run row"
  "ap_interrupt (decided stamp c row) = ap_interrupt row" "ap_expires (decided stamp c row) = ap_expires row"
  by (simp_all add: decided_def Let_def)

lemma decided_not_pending: "ap_status (decided stamp c row) \<noteq> ApPending"
  using status_for_range[of "case map_of (cl_decisions c) (ap_interrupt row) of None \<Rightarrow> [] | Some ds \<Rightarrow> ds"]
  by (auto simp: decided_def claim_status_def Let_def split: approval_channel.splits)

lemma decided_not_claimable: "\<not> approval_claimable stamp' c' (decided stamp c row)"
  by (simp add: approval_claimable_def decided_not_pending)

lemma claim_each_error:
  assumes "r \<in> set rs" "unique_requests t" "\<And>row. row \<in> set t \<Longrightarrow> ap_id row = ap_id r \<Longrightarrow> ap_status row \<noteq> ApPending"
  shows "\<exists>e. claim_each stamp c rs t = Inl e"
  using assms
proof (induction rs arbitrary: t)
  case (Cons r0 rs)
  show ?case
  proof (cases "row_get ap_id (ap_id r0) t")
    case (Some row)
    note m = row_get_Some[OF Some]
    show ?thesis
    proof (cases "approval_claimable stamp c row")
      case True
      let ?t = "row_put ap_id (decided stamp c row) t"
      have ne: "r0 \<noteq> r" using Cons.prems(3)[of row] m True by (auto simp: approval_claimable_def)
      have other: "ap_id row \<noteq> ap_id r" using Cons.prems(3)[of row] m True by (auto simp: approval_claimable_def)
      have "grows t ?t" by (rule grows_put[OF Some follows_decided[OF True] Cons.prems(2)])
      then have u: "unique_requests ?t" using Cons.prems(2) by (simp add: grows_def)
      have "ap_status x \<noteq> ApPending" if "x \<in> set ?t" "ap_id x = ap_id r" for x
        using row_put_member[OF that(1)] that(2) other Cons.prems(3) by auto
      then show ?thesis using Cons.IH[OF _ u] Cons.prems(1) ne Some True by simp
    qed (use Some in simp)
  qed simp
qed simp

lemma claim_each_ids: "claim_each stamp c rs t = Inr t' \<Longrightarrow> map ap_id t' = map ap_id t"
  by (induction rs arbitrary: t) (auto split: option.splits if_splits)

lemma claim_each_keeps:
  assumes "claim_each stamp c rs t = Inr t'" "r \<in> set rs"
  shows "\<exists>row \<in> set t'. ap_id row = ap_id r"
  using assms
proof (induction rs arbitrary: t)
  case (Cons r0 rs)
  obtain r1 where g: "row_get ap_id (ap_id r0) t = Some r1"
    and n: "claim_each stamp c rs (row_put ap_id (decided stamp c r1) t) = Inr t'"
    using Cons.prems(1) by (auto split: option.splits if_splits)
  have "ap_id r0 \<in> ap_id ` set t'"
    using claim_each_ids[OF n] row_get_Some[OF g] by (metis image_eqI image_set row_keys_put)
  then show ?case using Cons.IH[OF n] Cons.prems(2) by force
qed simp

lemma claim_each_member:
  assumes "claim_each stamp c rs t = Inr t'" "row \<in> set t'"
  shows "row \<in> set t \<or> (\<exists>x \<in> set t. approval_claimable stamp c x \<and> row = decided stamp c x)"
  using assms
proof (induction rs arbitrary: t)
  case (Cons r0 rs)
  obtain r1 where g: "row_get ap_id (ap_id r0) t = Some r1" and c: "approval_claimable stamp c r1"
    and n: "claim_each stamp c rs (row_put ap_id (decided stamp c r1) t) = Inr t'"
    using Cons.prems(1) by (auto split: option.splits if_splits)
  have m: "x = decided stamp c r1 \<or> x \<in> set t" if "x \<in> set (row_put ap_id (decided stamp c r1) t)" for x
    by (rule row_put_member[OF that])
  from Cons.IH[OF n Cons.prems(2)] show ?case
    using m c row_get_Some[OF g] decided_not_claimable by blast
qed simp

lemma claim_each_result:
  assumes "claim_each stamp c rs t = Inr t'" "r \<in> set rs" "unique_requests t" "row \<in> set t'" "ap_id row = ap_id r"
  shows "\<exists>x \<in> set t. approval_claimable stamp c x \<and> row = decided stamp c x"
  using assms
proof (induction rs arbitrary: t)
  case (Cons r0 rs)
  obtain r1 where g: "row_get ap_id (ap_id r0) t = Some r1" and c: "approval_claimable stamp c r1"
    and n: "claim_each stamp c rs (row_put ap_id (decided stamp c r1) t) = Inr t'"
    using Cons.prems(1) by (auto split: option.splits if_splits)
  note r1 = row_get_Some[OF g]
  let ?t = "row_put ap_id (decided stamp c r1) t"
  have "grows t ?t" by (rule grows_put[OF g follows_decided[OF c] Cons.prems(3)])
  then have u: "unique_requests ?t" using Cons.prems(3) by (simp add: grows_def)
  have d: "decided stamp c r1 \<in> set ?t" using r1 by (auto simp: row_put_def)
  have old: "x = decided stamp c r1 \<or> x \<in> set t" if "x \<in> set ?t" for x by (rule row_put_member[OF that])
  show ?case
  proof (cases "r \<in> set rs")
    case True
    then show ?thesis using Cons.IH[OF n _ u Cons.prems(4,5)] old decided_not_claimable by blast
  next
    case False
    then have i: "ap_id row = ap_id (decided stamp c r1)" using Cons.prems(2,5) r1 by simp
    from claim_each_member[OF n Cons.prems(4)] have "row = decided stamp c r1"
    proof
      assume "row \<in> set ?t"
      then show ?thesis using same_request[OF u _ d i] by simp
    next
      assume "\<exists>x \<in> set ?t. approval_claimable stamp c x \<and> row = decided stamp c x"
      then obtain x where x: "x \<in> set ?t" "approval_claimable stamp c x" "row = decided stamp c x" by blast
      then have "x = decided stamp c r1" using same_request[OF u x(1) d] i by simp
      then show ?thesis using x(2) decided_not_claimable by simp
    qed
    then show ?thesis using r1 c by blast
  qed
qed simp

lemma decided_left:
  assumes "approval_claimable stamp c x" "request_ok x" "follows (decided stamp c x) r'"
    "ap_interrupt x \<in> set (map fst (cl_decisions c))"
  shows "(\<exists>ds. map_of (cl_decisions c) (ap_interrupt r') = Some ds \<and> ap_decisions r' = Some ds
         \<and> ap_status r' = (case cl_channel c of ByExpiry \<Rightarrow> ApExpired | ByStop \<Rightarrow> ApCanceled | _ \<Rightarrow> status_for ds))
      \<and> ap_channel r' = Some (cl_channel c) \<and> ap_decided_by r' = cl_actor c \<and> ap_decided_at r' = Some stamp
      \<and> ap_resumed r' = cl_resumed c \<and> ap_decision_no r' = 1
      \<and> ap_reason r' = (if truthy (cl_reason c) then cl_reason c else channel_reason (cl_channel c))
      \<and> (cl_channel c \<in> {ByChat, ByInbox} \<longrightarrow> stamp < ap_expires r')"
proof -
  have e: "outcome r' = outcome (decided stamp c x)" "ap_expires r' = ap_expires x" "ap_interrupt r' = ap_interrupt x"
    using assms(3) decided_not_pending by (auto simp: follows_def)
  have "ap_decision_no x = 0" using assms(1,2) by (simp add: approval_claimable_def request_ok_def untouched_def)
  moreover obtain ds where "map_of (cl_decisions c) (ap_interrupt x) = Some ds"
    using assms(4) by (metis image_set map_of_eq_None_iff not_None_eq)
  ultimately show ?thesis
    using e assms(1) by (auto simp: outcome_def decided_def approval_claimable_def claim_status_def Let_def)
qed

text \<open>
  C2: a request is decided once, by whoever comes first: after a claim that commits, however the writers
  interleave, every later row of a request it claimed carries exactly what that claim decided: the status its
  decisions stand for, its channel, actor, time, decisions, resumed run and reason, and decision number 1; it was in time
  unless it expired or was stopped; and any other claim that names the request is refused, so no second run is
  resumed for it.
\<close>
theorem request_decided_once:
  assumes "(approval_step env)\<^sup>*\<^sup>* [[]] (s # h)" "seen \<in> set (s # h)" "claim_requests stamp c seen s = Inr s'"
    "(approval_step env)\<^sup>*\<^sup>* (s' # s # h) (t # h')" "r \<in> set (claimed_rows c seen)"
  shows "(\<forall>r' \<in> set t. ap_id r' = ap_id r \<longrightarrow>
      (\<exists>ds. map_of (cl_decisions c) (ap_interrupt r') = Some ds \<and> ap_decisions r' = Some ds
         \<and> ap_status r' = (case cl_channel c of ByExpiry \<Rightarrow> ApExpired | ByStop \<Rightarrow> ApCanceled | _ \<Rightarrow> status_for ds))
      \<and> ap_channel r' = Some (cl_channel c) \<and> ap_decided_by r' = cl_actor c \<and> ap_decided_at r' = Some stamp
      \<and> ap_resumed r' = cl_resumed c \<and> ap_decision_no r' = 1
      \<and> ap_reason r' = (if truthy (cl_reason c) then cl_reason c else channel_reason (cl_channel c))
      \<and> (cl_channel c \<in> {ByChat, ByInbox} \<longrightarrow> stamp < ap_expires r'))
    \<and> (\<forall>c2 seen2 r2 stamp2. seen2 \<in> set (t # h') \<and> r2 \<in> set (claimed_rows c2 seen2) \<and> ap_id r2 = ap_id r \<longrightarrow>
        (\<exists>e. claim_requests stamp2 c2 seen2 t = Inl e))"
proof -
  have s: "log_ok (s # h)" by (rule reached_log_ok[OF assms(1)])
  have st: "approval_step env (s # h) (s' # s # h)" by (rule approval_step.claimed[OF assms(2,3)])
  have s': "log_ok (s' # s # h)" by (rule log_ok_step[OF st s])
  have t: "log_ok (t # h')" by (rule approval_log.reach_inv[OF assms(4) s'])
  have u: "unique_requests s" "unique_requests s'" "unique_requests t"
    using log_okD(1)[OF s, of s] log_okD(1)[OF s', of s'] log_okD(1)[OF t, of t] by simp_all
  have in_t: "s' \<in> set (t # h')" "s \<in> set (t # h')" using history_kept[OF assms(4)] by auto
  have later: "\<exists>x \<in> set s. approval_claimable stamp c x \<and> follows (decided stamp c x) r'"
    if "r' \<in> set t" "ap_id r' = ap_id r" for r'
  proof -
    note found = that
    obtain row where row: "row \<in> set s'" "ap_id row = ap_id r"
      using claim_each_keeps[OF assms(3)[unfolded claim_requests_def] assms(5)] by blast
    obtain x where x: "x \<in> set s" "approval_claimable stamp c x" "row = decided stamp c x"
      using claim_each_result[OF assms(3)[unfolded claim_requests_def] assms(5) u(1) row] by blast
    have "follows row r'" by (rule log_okD(3)[OF t in_t(1) row(1) found(1)]) (simp add: found(2) row(2))
    then show ?thesis using x by blast
  qed
  have fin: "(\<exists>ds. map_of (cl_decisions c) (ap_interrupt r') = Some ds \<and> ap_decisions r' = Some ds
         \<and> ap_status r' = (case cl_channel c of ByExpiry \<Rightarrow> ApExpired | ByStop \<Rightarrow> ApCanceled | _ \<Rightarrow> status_for ds))
      \<and> ap_channel r' = Some (cl_channel c) \<and> ap_decided_by r' = cl_actor c \<and> ap_decided_at r' = Some stamp
      \<and> ap_resumed r' = cl_resumed c \<and> ap_decision_no r' = 1
      \<and> ap_reason r' = (if truthy (cl_reason c) then cl_reason c else channel_reason (cl_channel c))
      \<and> (cl_channel c \<in> {ByChat, ByInbox} \<longrightarrow> stamp < ap_expires r')"
    if "r' \<in> set t" "ap_id r' = ap_id r" for r'
  proof -
    from later[OF that] obtain x where x: "x \<in> set s" "approval_claimable stamp c x" "follows (decided stamp c x) r'" by blast
    have ok: "request_ok x" by (rule log_okD(2)[OF s _ x(1)]) simp
    have "ap_id x = ap_id r" using x(3) that(2) by (simp add: follows_def)
    then have "follows r x" using log_okD(3)[OF s assms(2) _ x(1)] assms(5) by (simp add: claimed_rows_def)
    then have "ap_interrupt x \<in> set (map fst (cl_decisions c))" using assms(5) by (simp add: claimed_rows_def follows_def)
    then show ?thesis by (rule decided_left[OF x(2) ok x(3)])
  qed
  have np: "ap_status r' \<noteq> ApPending" if r': "r' \<in> set t" "ap_id r' = ap_id r" for r'
  proof -
    from fin[OF r'] obtain ds
      where "ap_status r' = (case cl_channel c of ByExpiry \<Rightarrow> ApExpired | ByStop \<Rightarrow> ApCanceled | _ \<Rightarrow> status_for ds)" by blast
    then show ?thesis using status_for_range[of ds] by (cases "cl_channel c") auto
  qed
  have "\<exists>e. claim_requests stamp2 c2 seen2 t = Inl e" if "r2 \<in> set (claimed_rows c2 seen2)" "ap_id r2 = ap_id r" for c2 seen2 r2 stamp2
    unfolding claim_requests_def by (rule claim_each_error[OF that(1) u(3)])
      (use np that(2) in simp)
  then show ?thesis using fin by blast
qed

section \<open>The inbox and the sweep\<close>

lemma filter_by_key: "distinct (map f xs) \<Longrightarrow> x \<in> set xs \<Longrightarrow> filter (\<lambda>y. f y = f x) xs = [x]"
proof (induction xs)
  case (Cons y xs)
  then show ?case by (cases "x = y") (auto simp: filter_empty_conv image_iff)
qed simp

lemma claim_each_other: "claim_each stamp c rs t = Inr t' \<Longrightarrow> i \<notin> ap_id ` set rs \<Longrightarrow> row_get ap_id i t' = row_get ap_id i t"
proof (induction rs arbitrary: t)
  case (Cons r0 rs)
  obtain r1 where g: "row_get ap_id (ap_id r0) t = Some r1"
    and n: "claim_each stamp c rs (row_put ap_id (decided stamp c r1) t) = Inr t'"
    using Cons.prems(1) by (auto split: option.splits if_splits)
  have "i \<noteq> ap_id (decided stamp c r1)" using row_get_Some[OF g] Cons.prems(2) by auto
  from row_get_put_other[where key = ap_id, OF this] show ?case using Cons.IH[OF n] Cons.prems(2) by simp
qed simp

lemma claim_single:
  assumes "unique_requests t" "row \<in> set t" "cl_run c = ap_run row" "map fst (cl_decisions c) = [ap_interrupt row]"
  shows "claim_requests stamp c t t =
    (if approval_claimable stamp c row then Inr (row_put ap_id (decided stamp c row) t)
     else Inl (ApprovalStale (if ap_status row = ApPending \<and> ap_expires row \<le> stamp then ApExpired else ap_status row)))"
proof -
  have "filter (\<lambda>r. (ap_run r, ap_interrupt r) = (ap_run row, ap_interrupt row)) t = [row]"
    using assms(1,2) filter_by_key[of request_key t row] by (simp add: unique_requests_def request_key_def)
  then have "claimed_rows c t = [row]" by (simp add: claimed_rows_def assms(3,4))
  moreover have "row_get ap_id (ap_id row) t = Some row"
    using assms(1,2) row_get_distinct by (auto simp: unique_requests_def)
  ultimately show ?thesis by (simp add: claim_requests_def)
qed

definition types_of :: "(string \<times> json) list list \<Rightarrow> string list" where
  "types_of ds = map (\<lambda>d. str_of (jget d ''type'')) ds"

lemma decision_types_ok:
  "list_all2 decision_ok ds as \<Longrightarrow> decision_types py (JObj [(''decisions'', JList (map JObj ds))]) = types_of ds"
proof (induction rule: list_all2_induct)
  case (Cons d ds a as)
  then have "text_of py (jget d ''type'') = str_of (jget d ''type'')" by (auto simp: decision_ok_def split: json.splits)
  then show ?case using Cons by (simp add: decision_types_def types_of_def jget_def)
qed (simp add: decision_types_def types_of_def jget_def)

text \<open>
  C19: the inbox resumes a run only for what its decider was shown: an answer is accepted only from the request's
  decider, while it is pending and not past its expiry, with one decision per action that the action allows, and
  while the run still waits on arguments of the recorded digest. When the run that is resumed is the request's own run
  the request then carries exactly these decisions; when the resumed path names another run, the request is unchanged
  by the accepted answer (and still pending).
\<close>
theorem inbox_resumes_what_was_shown:
  assumes "decide env now user i ds readable value path table = (None, table')" "unique_requests table"
  shows "\<exists>row v. row_get ap_id i table = Some row \<and> ap_decider row = user \<and> ap_status row = ApPending
    \<and> now < ap_expires row \<and> readable \<and> value = Some v \<and> args_digest (ae_hash env) v = ap_digest row
    \<and> list_all2 (\<lambda>t a. t \<in> set (av_allowed a)) (types_of ds) (ap_actions row)
    \<and> (if rp_parent path = ap_run row
       then (\<exists>row'. row_get ap_id i table' = Some row' \<and> ap_status row' = status_for (types_of ds)
              \<and> ap_decisions row' = Some (types_of ds) \<and> ap_resumed row' = Some (rp_resumed path) \<and> ap_channel row' = Some ByInbox)
       else row_get ap_id i table' = Some row)"
proof -
  obtain row v where g: "row_get ap_id i table = Some row"
    and c: "ap_decider row = user" "ap_status row = ApPending" "now < ap_expires row" "check_decisions row ds" "readable"
      "value = Some v" "args_digest (ae_hash env) v = ap_digest row"
    and r: "resume_with env now path row ds user ByInbox table = Inr table'"
    using assms(1) by (auto simp: decide_def split: option.splits if_splits sum.splits)
  have row: "row \<in> set table" "ap_id row = i" using row_get_Some[OF g] by auto
  have ok: "list_all2 decision_ok ds (ap_actions row)" using c(4) by (simp add: check_decisions_def)
  have l: "list_all2 (\<lambda>t a. t \<in> set (av_allowed a)) (types_of ds) (ap_actions row)"
    using ok unfolding types_of_def list_all2_map1
    by (rule list_all2_mono) (auto simp: decision_ok_def split: json.splits)
  let ?c = "\<lparr>cl_run = rp_parent path, cl_decisions = [(ap_interrupt row, types_of ds)], cl_channel = ByInbox,
    cl_actor = Some user, cl_resumed = Some (rp_resumed path), cl_edited = None, cl_reason = None\<rparr>"
  have cl: "claim_requests now ?c table table = Inr table'"
    using r decision_types_ok[OF ok] by (auto simp: resume_with_def claim_resume_def split: path_end.splits sum.splits claim_error.splits)
  have "if rp_parent path = ap_run row
       then (\<exists>row'. row_get ap_id i table' = Some row' \<and> ap_status row' = status_for (types_of ds)
              \<and> ap_decisions row' = Some (types_of ds) \<and> ap_resumed row' = Some (rp_resumed path) \<and> ap_channel row' = Some ByInbox)
       else row_get ap_id i table' = Some row"
  proof (cases "rp_parent path = ap_run row")
    case True
    have "approval_claimable now ?c row" using c(2,3) by (simp add: approval_claimable_def)
    then have "table' = row_put ap_id (decided now ?c row) table"
      using claim_single[OF assms(2) row(1), of ?c now] cl True by simp
    then have "row_get ap_id i table' = Some (decided now ?c row)"
      using row_get_put_same[of ap_id "decided now ?c row" table row] g row(2) by simp
    then show ?thesis using True by (simp add: decided_def claim_status_def Let_def)
  next
    case False
    have "i \<notin> ap_id ` set (claimed_rows ?c table)"
      using same_request[OF assms(2) _ row(1)] row(2) False by (auto simp: claimed_rows_def)
    then have "row_get ap_id i table' = Some row" using claim_each_other[OF cl[unfolded claim_requests_def]] g by simp
    then show ?thesis using False by simp
  qed
  then show ?thesis using g c l by blast
qed

lemma resume_with_Inr:
  "resume_with env stamp path row ds user channel table = Inr t \<Longrightarrow> \<exists>c. claim_requests stamp c table table = Inr t \<and> cl_channel c = channel"
  unfolding resume_with_def claim_resume_def
  by (intro exI conjI) (auto split: sum.splits claim_error.splits path_end.splits)

lemma claim_each_gone: "claim_each stamp c rs t = Inl RowGone \<Longrightarrow> \<exists>r \<in> set rs. ap_id r \<notin> ap_id ` set t"
proof (induction rs arbitrary: t)
  case (Cons r rs)
  show ?case
  proof (cases "row_get ap_id (ap_id r) t")
    case None
    then show ?thesis by (auto simp: row_get_None)
  next
    case (Some row)
    let ?t = "row_put ap_id (decided stamp c row) t"
    have ids: "ap_id ` set ?t = ap_id ` set t" by (metis image_set row_keys_put)
    have "claim_each stamp c rs ?t = Inl RowGone" using Cons.prems Some by (auto split: if_splits)
    from Cons.IH[OF this] show ?thesis unfolding ids by simp
  qed
qed simp

lemma claim_not_gone: "claim_requests stamp c t t \<noteq> Inl RowGone"
  using claim_each_gone[of stamp c "claimed_rows c t" t] by (auto simp: claim_requests_def claimed_rows_def)

lemma resume_with_raises:
  "resume_with env stamp path row ds user channel table = Inl OtherException \<longleftrightarrow> rp_end path = PathRaises"
  using claim_not_gone by (auto simp: resume_with_def claim_resume_def split: path_end.splits sum.splits claim_error.splits)

lemma resume_leaves_or_expires:
  assumes "resume_with env now path r ds user ByExpiry table = Inr t1" "unique_requests table"
    "row \<in> set table" "ap_id row = i"
  shows "unique_requests t1 \<and> (row_get ap_id i t1 = Some row \<or> map_option ap_status (row_get ap_id i t1) = Some ApExpired)"
proof -
  from resume_with_Inr[OF assms(1)] obtain c where c: "claim_requests now c table table = Inr t1" "cl_channel c = ByExpiry" by blast
  have u: "unique_requests t1" using grows_claim[OF c(1) assms(2)] assms(2) by (simp add: grows_def)
  have "map ap_id t1 = map ap_id table" using claim_each_ids c(1) unfolding claim_requests_def by blast
  then obtain r' where r': "r' \<in> set t1" "ap_id r' = i" using assms(3,4) by (metis image_iff image_set)
  then have g: "row_get ap_id i t1 = Some r'" using row_get_distinct[of ap_id t1 r'] u by (simp add: unique_requests_def)
  have "r' \<in> set table \<or> (\<exists>x \<in> set table. approval_claimable now c x \<and> r' = decided now c x)"
    using claim_each_member c(1) r'(1) unfolding claim_requests_def by blast
  then have "r' = row \<or> ap_status r' = ApExpired"
  proof
    assume "r' \<in> set table"
    from same_request[OF assms(2) this assms(3)] show ?thesis using r'(2) assms(4) by simp
  next
    assume "\<exists>x \<in> set table. approval_claimable now c x \<and> r' = decided now c x"
    then obtain x where "r' = decided now c x" by blast
    then show ?thesis using c(2) by (simp add: decided_def claim_status_def Let_def)
  qed
  then show ?thesis using u g by auto
qed

lemma expiry_claim_ends:
  assumes "row_get ap_id i t = Some row" "ap_status row = ApPending" "unique_requests t" "cl_run c = ap_run row"
    "map fst (cl_decisions c) = [ap_interrupt row]" "cl_channel c = ByExpiry"
  shows "\<exists>t'. claim_requests now c t t = Inr t' \<and> map_option ap_status (row_get ap_id i t') = Some ApExpired"
proof -
  have row: "row \<in> set t" "ap_id row = i" using row_get_Some[OF assms(1)] by auto
  have "approval_claimable now c row" using assms(2,6) by (simp add: approval_claimable_def)
  then have "claim_requests now c t t = Inr (row_put ap_id (decided now c row) t)"
    using claim_single[OF assms(3) row(1) assms(4,5), of now] by simp
  moreover have "row_get ap_id i (row_put ap_id (decided now c row) t) = Some (decided now c row)"
    using row_get_put_same[of ap_id "decided now c row" t row] assms(1) row(2) by simp
  ultimately show ?thesis using assms(6) by (simp add: decided_def claim_status_def Let_def)
qed

lemma expiry_finishes:
  assumes "unique_requests t1" "row_get ap_id i t1 = Some row \<or> map_option ap_status (row_get ap_id i t1) = Some ApExpired"
    "ap_status row = ApPending" "cl_run c = ap_run row" "map fst (cl_decisions c) = [ap_interrupt row]" "cl_channel c = ByExpiry"
    "r = (if map_option ap_status (row_get ap_id i t1) \<noteq> Some ApPending then (True, t1)
          else (case claim_requests now c t1 t1 of Inl e \<Rightarrow> (False, t1) | Inr t \<Rightarrow> (True, t)))"
  shows "fst r \<and> map_option ap_status (row_get ap_id i (snd r)) = Some ApExpired"
proof (cases "row_get ap_id i t1 = Some row")
  case True
  from expiry_claim_ends[OF True assms(3,1,4-6), of now] show ?thesis using True assms(3) unfolding assms(7) by auto
next
  case False
  then have e: "map_option ap_status (row_get ap_id i t1) = Some ApExpired" using assms(2) by blast
  moreover from this have "map_option ap_status (row_get ap_id i t1) \<noteq> Some ApPending" by (simp del: map_option_eq_Some)
  ultimately show ?thesis unfolding assms(7) by (simp only: if_P not_False_eq_True if_True fst_conv snd_conv)
qed

text \<open>
  C36: the sweep ends every request it takes up, unless an exception it does not handle leaves it: whether the resume
  with a rejection is accepted, refused or not possible, and whatever else that resume decides, a pending request of an
  organization is expired afterwards. Exactly a refused reading of the conversation and an exception of the resume's
  path other than a refusal leave the table as it was.
\<close>
theorem sweep_ends_request:
  assumes "row_get ap_id i table = Some row" "ap_status row = ApPending" "unique_requests table"
  shows "let r = expire_one env now message (Some org) reading path i table in
    if reading = ReadRefused
       \<or> (reading = SubjectReads \<and> list_all (\<lambda>a. ''reject'' \<in> set (av_allowed a)) (ap_actions row) \<and> rp_end path = PathRaises)
    then r = (False, table)
    else fst r \<and> map_option ap_status (row_get ap_id i (snd r)) = Some ApExpired"
proof -
  define res where "res = (if reading = SubjectReads \<and> list_all (\<lambda>a. ''reject'' \<in> set (av_allowed a)) (ap_actions row)
    then resume_with env now path row (rejections row message) (ap_subject row) ByExpiry table else Inl ResumeRefused)"
  define t1 where "t1 = (case res of Inl e \<Rightarrow> table | Inr t \<Rightarrow> t)"
  let ?c = "\<lparr>cl_run = ap_run row, cl_decisions = [(ap_interrupt row, replicate (length (ap_actions row)) ''reject'')],
    cl_channel = ByExpiry, cl_actor = None, cl_resumed = None, cl_edited = None, cl_reason = None\<rparr>"
  let ?r = "expire_one env now message (Some org) reading path i table"
  have e: "?r = (if reading = ReadRefused then (False, table) else if res = Inl OtherException then (False, table)
      else if map_option ap_status (row_get ap_id i t1) \<noteq> Some ApPending then (True, t1)
      else (case claim_requests now ?c t1 t1 of Inl e \<Rightarrow> (False, t1) | Inr t \<Rightarrow> (True, t)))"
    by (simp only: expire_one_def res_def t1_def assms(1,2) prod.case option.case Let_def simp_thms if_False)
  have raises: "res = Inl OtherException \<longleftrightarrow> reading = SubjectReads
      \<and> list_all (\<lambda>a. ''reject'' \<in> set (av_allowed a)) (ap_actions row) \<and> rp_end path = PathRaises"
    unfolding res_def using resume_with_raises by auto
  have row: "row \<in> set table" "ap_id row = i" using row_get_Some[OF assms(1)] by auto
  have "t1 = table \<or> resume_with env now path row (rejections row message) (ap_subject row) ByExpiry table = Inr t1"
    unfolding t1_def res_def by (auto split: sum.splits)
  then have t1: "unique_requests t1 \<and> (row_get ap_id i t1 = Some row \<or> map_option ap_status (row_get ap_id i t1) = Some ApExpired)"
    using resume_leaves_or_expires[OF _ assms(3) row] assms(1,3) by blast
  show ?thesis
  proof (cases "reading = ReadRefused \<or> res = Inl OtherException")
    case True
    then show ?thesis unfolding Let_def raises[symmetric] e by auto
  next
    case False
    then have "?r = (if map_option ap_status (row_get ap_id i t1) \<noteq> Some ApPending then (True, t1)
      else (case claim_requests now ?c t1 t1 of Inl e \<Rightarrow> (False, t1) | Inr t \<Rightarrow> (True, t)))" using e by simp
    from expiry_finishes[OF t1[THEN conjunct1] t1[THEN conjunct2] assms(2) _ _ _ this]
    have "fst ?r \<and> map_option ap_status (row_get ap_id i (snd ?r)) = Some ApExpired" by simp
    then show ?thesis using False unfolding Let_def raises[symmetric] by (simp only: if_False)
  qed
qed

text \<open>A subject that lost its access keeps the request pending: every sweep raises on the expired row.\<close>

theorem refused_read_keeps_request:
  "row_get ap_id i table = Some row \<Longrightarrow> ap_status row = ApPending \<Longrightarrow>
    expire_one env now message (Some org) ReadRefused path i table = (False, table)"
  by (simp add: expire_one_def)

section \<open>Recording twice\<close>

lemma record_each_keys:
  "set (map request_key (record_each env now run tenant origin parent is table))
     \<inter> set (map request_key table) = {}
   \<and> distinct (map request_key (record_each env now run tenant origin parent is table))
   \<and> (\<forall>r \<in> set (record_each env now run tenant origin parent is table). ap_run r = pr_id run)"
proof (induction "is" arbitrary: table)
  case (Cons i "is")
  have k: "ap_run (new_request env now run tenant origin parent i table) = pr_id run"
    "ap_interrupt (new_request env now run tenant origin parent i table) = pi_id i"
    by (simp_all add: new_request_def Let_def)
  then have key: "request_key (new_request env now run tenant origin parent i table) = (pr_id run, pi_id i)"
    by (simp add: request_key_def)
  let ?row = "new_request env now run tenant origin parent i table"
  show ?case
  proof (cases "approval_actions (pi_payload i) = None \<or> list_ex (\<lambda>r. ap_run r = pr_id run \<and> ap_interrupt r = pi_id i) table")
    case True
    then show ?thesis using Cons.IH[of table] by simp
  next
    case False
    then have e: "record_each env now run tenant origin parent (i # is) table
        = ?row # record_each env now run tenant origin parent is (table @ [?row])"
      by (simp only: record_each.simps False if_False Let_def)
    have "(pr_id run, pi_id i) \<notin> set (map request_key table)"
      using False by (auto simp: list_ex_iff request_key_def)
    then show ?thesis using Cons.IH[of "table @ [?row]"] k key unfolding e by auto
  qed
qed simp

lemma record_each_covers:
  "i \<in> set is \<Longrightarrow> approval_actions (pi_payload i) \<noteq> None \<Longrightarrow>
    \<exists>r \<in> set (table @ record_each env now run tenant origin parent is table). ap_run r = pr_id run \<and> ap_interrupt r = pi_id i"
proof (induction "is" arbitrary: table)
  case (Cons j "is")
  let ?row = "new_request env now run tenant origin parent j table"
  have k: "ap_run ?row = pr_id run" "ap_interrupt ?row = pi_id j" by (simp_all add: new_request_def Let_def)
  show ?case
  proof (cases "i = j")
    case True
    then show ?thesis using Cons.prems(2) k by (auto simp: Let_def list_ex_iff)
  next
    case False
    then have "i \<in> set is" using Cons.prems(1) by simp
    from Cons.IH[OF this Cons.prems(2), of table] Cons.IH[OF this Cons.prems(2), of "table @ [?row]"]
    show ?thesis by (auto simp: Let_def)
  qed
qed simp

lemma record_each_pending:
  "r \<in> set (record_each env now run tenant origin parent is table) \<Longrightarrow>
    ap_status r = ApPending \<and> ap_expires r = now + seconds (60 * ae_ttl env)"
  by (induction "is" arbitrary: table) (auto simp: new_request_def Let_def split: if_splits)

lemma record_each_none:
  "\<forall>i \<in> set is. approval_actions (pi_payload i) \<noteq> None \<longrightarrow>
     (\<exists>r \<in> set table. ap_run r = pr_id run \<and> ap_interrupt r = pi_id i)
   \<Longrightarrow> record_each env now run tenant origin parent is table = []"
  by (induction "is") (auto simp: list_ex_iff)

text \<open>
  Recording is idempotent per interrupt: recording the same interrupts again, at whatever time and for whatever
  origin, adds nothing; the first time adds one pending request per interrupt that asks for approval and has none
  yet, and no interrupt gets a second one.
\<close>
theorem recording_is_idempotent:
  assumes "unique_requests table" "pr_tenant run \<noteq> None"
  shows "let new = record_pending env now run is origin table in
    record_pending env now' run is origin' (table @ new) = []
    \<and> distinct (map request_key (table @ new))
    \<and> list_all (\<lambda>i. list_ex (\<lambda>r. ap_run r = pr_id run \<and> ap_interrupt r = pi_id i) (table @ new)) (waiting_interrupts is)
    \<and> list_all (\<lambda>r. ap_status r = ApPending \<and> ap_expires r = now + seconds (60 * ae_ttl env)) new"
proof -
  obtain tenant where t: "pr_tenant run = Some tenant" using assms(2) by blast
  define new where "new = record_pending env now run is origin table"
  have n: "new = record_each env now run tenant origin (inherited run table) is table"
    by (simp add: new_def record_pending_def t)
  have all: "\<exists>r \<in> set (table @ new). ap_run r = pr_id run \<and> ap_interrupt r = pi_id i"
    if "i \<in> set is" "approval_actions (pi_payload i) \<noteq> None" for i
    unfolding n by (rule record_each_covers[OF that])
  then have "record_pending env now' run is origin' (table @ new) = []"
    unfolding record_pending_def t option.case by (intro record_each_none) blast
  moreover have "distinct (map request_key (table @ new))"
    using record_each_keys[of env now run tenant origin "inherited run table" "is" table] assms(1)
    unfolding n by (simp add: unique_requests_def Int_commute)
  moreover have "list_all (\<lambda>i. list_ex (\<lambda>r. ap_run r = pr_id run \<and> ap_interrupt r = pi_id i) (table @ new)) (waiting_interrupts is)"
    using all by (auto simp: list_all_iff list_ex_iff waiting_interrupts_def)
  moreover have "list_all (\<lambda>r. ap_status r = ApPending \<and> ap_expires r = now + seconds (60 * ae_ttl env)) new"
    using record_each_pending unfolding n by (simp add: list_all_iff)
  ultimately show ?thesis by (simp only: new_def[symmetric] Let_def)
qed

section \<open>Witnesses\<close>

definition ask_env :: approval_env where
  "ask_env = \<lparr>ae_hash = id, ae_py_str = \<lambda>_. [], ae_mask = id, ae_ttl = 60, ae_new_id = \<lambda>r i. r @ i\<rparr>"

definition ask_run :: approval_run where
  "ask_run = \<lparr>pr_id = ''r'', pr_tenant = Some ''t'', pr_org = Some ''o'', pr_conversation = ''c'', pr_agent = Some ''a'',
     pr_user = ''u'', pr_on_behalf = None, pr_parent = None, pr_source = Some ''TRIGGER'', pr_policy_version = None,
     pr_policy_hash = None, pr_interrupted = True\<rparr>"

definition ask_payload :: json where
  "ask_payload = JObj [(''action_requests'', JList [JObj [(''name'', JStr ''send''), (''args'', JObj [(''to'', JStr ''x'')])]]),
     (''review_configs'', JList [JObj [(''allowed_decisions'', JList [JStr ''approve'', JStr ''reject''])]])]"

definition ask_origin :: run_origin where
  "ask_origin = \<lparr>ro_agent_name = [], ro_source = None, ro_trigger = None, ro_trigger_run = None, ro_api_run = None\<rparr>"

definition ask_interrupts :: "pending_interrupt list" where
  "ask_interrupts = [\<lparr>pi_id = ''i'', pi_payload = ask_payload, pi_namespace = []\<rparr>]"

definition ask_table :: "approval list" where
  "ask_table = record_pending ask_env 0 ask_run ask_interrupts ask_origin []"

definition ask_claim :: "string \<Rightarrow> approval_claim" where
  "ask_claim d = \<lparr>cl_run = ''r'', cl_decisions = [(''i'', [d])], cl_channel = ByChat, cl_actor = Some ''u'',
     cl_resumed = Some d, cl_edited = None, cl_reason = None\<rparr>"

lemma ask_table_unique: "unique_requests ask_table"
  by code_simp

lemma ask_recorded: "approval_step ask_env [[]] [ask_table, []]"
  using approval_step.recorded[of "[]" "[]" "[]" ask_table ask_env 0 ask_run ask_interrupts ask_origin] ask_table_unique
  by (simp add: ask_table_def)

lemma request_decided_once_witness:
  "map (\<lambda>r. (ap_status r, ap_resumed r)) (projr (claim_requests 1 (ask_claim ''approve'') ask_table ask_table))
     = [(ApApproved, Some ''approve'')]
   \<and> (\<exists>e. claim_requests 2 (ask_claim ''reject'') ask_table (projr (claim_requests 1 (ask_claim ''approve'') ask_table ask_table)) = Inl e)"
proof -
  have run: "(approval_step ask_env)\<^sup>*\<^sup>* [[]] [ask_table, []]" using ask_recorded by blast
  have ok: "claim_requests 1 (ask_claim ''approve'') ask_table ask_table
      = Inr (projr (claim_requests 1 (ask_claim ''approve'') ask_table ask_table))" by code_simp
  have rows: "claimed_rows (ask_claim ''approve'') ask_table = ask_table" "claimed_rows (ask_claim ''reject'') ask_table = ask_table"
    "ask_table = [hd ask_table]" by code_simp+
  then have r: "hd ask_table \<in> set (claimed_rows (ask_claim ''approve'') ask_table)"
    "hd ask_table \<in> set (claimed_rows (ask_claim ''reject'') ask_table)" by (metis list.set_intros(1))+
  have seen: "ask_table \<in> set [ask_table, []]" by simp
  have m: "map (\<lambda>r. (ap_status r, ap_resumed r)) (projr (claim_requests 1 (ask_claim ''approve'') ask_table ask_table))
     = [(ApApproved, Some ''approve'')]" by code_simp
  have "ask_table \<in> set [projr (claim_requests 1 (ask_claim ''approve'') ask_table ask_table), ask_table, []]" by simp
  then show ?thesis
    using request_decided_once[OF run seen ok rtranclp.rtrancl_refl r(1)] r(2) m by blast
qed

definition ask_path :: resume_path where
  "ask_path = \<lparr>rp_end = PathPasses, rp_parent = ''r'', rp_resumed = ''r2''\<rparr>"

lemma inbox_resumes_what_was_shown_witness:
  "decide ask_env 1 ''u'' ''ri'' [[(''type'', JStr ''reject'')]] True (Some ask_payload) ask_path ask_table
     = (None, projr (claim_requests 1 \<lparr>cl_run = ''r'', cl_decisions = [(''i'', [''reject''])], cl_channel = ByInbox,
         cl_actor = Some ''u'', cl_resumed = Some ''r2'', cl_edited = None, cl_reason = None\<rparr> ask_table ask_table))
   \<and> (\<exists>row. row_get ap_id ''ri'' ask_table = Some row \<and> ap_decider row = ''u'' \<and> ap_status row = ApPending)"
proof -
  have d: "decide ask_env 1 ''u'' ''ri'' [[(''type'', JStr ''reject'')]] True (Some ask_payload) ask_path ask_table
     = (None, projr (claim_requests 1 \<lparr>cl_run = ''r'', cl_decisions = [(''i'', [''reject''])], cl_channel = ByInbox,
         cl_actor = Some ''u'', cl_resumed = Some ''r2'', cl_edited = None, cl_reason = None\<rparr> ask_table ask_table))"
    by code_simp
  show ?thesis using d inbox_resumes_what_was_shown[OF d ask_table_unique] by blast
qed

lemma sweep_ends_request_witness:
  "map_option ap_status (row_get ap_id ''ri''
      (snd (expire_one ask_env 9 ''late'' (Some ''o'') SubjectReads ask_path ''ri'' ask_table))) = Some ApExpired
   \<and> \<not> fst (expire_one ask_env 9 ''late'' (Some ''o'') SubjectReads (ask_path\<lparr>rp_end := PathRaises\<rparr>) ''ri'' ask_table)"
proof -
  have r: "row_get ap_id ''ri'' ask_table = Some (hd ask_table)" "ap_status (hd ask_table) = ApPending" by code_simp+
  have l: "list_all (\<lambda>a. ''reject'' \<in> set (av_allowed a)) (ap_actions (hd ask_table))" by code_simp
  have p: "rp_end ask_path \<noteq> PathRaises" by (simp add: ask_path_def)
  show ?thesis
    using sweep_ends_request[OF r ask_table_unique, of ask_env 9 "''late''" "''o''" SubjectReads ask_path] p
      sweep_ends_request[OF r ask_table_unique, of ask_env 9 "''late''" "''o''" SubjectReads "ask_path\<lparr>rp_end := PathRaises\<rparr>"] l
    unfolding Let_def by (auto simp del: map_option_eq_Some)
qed

lemma recording_is_idempotent_witness:
  "record_pending ask_env 5 ask_run ask_interrupts ask_origin ask_table = [] \<and> length ask_table = 1"
proof -
  have "unique_requests []" "pr_tenant ask_run \<noteq> None" "length ask_table = 1" by code_simp+
  then show ?thesis
    using recording_is_idempotent[of "[]" ask_run ask_env 0 ask_interrupts ask_origin 5 ask_origin]
    by (simp add: ask_table_def Let_def)
qed

end
