(* ===== verification/Files.thy ===== *)
theory Files
  imports Prelude
begin

text \<open>
  The file tools of an agent (\<open>agent_runtime/filesystem_permissions\<close>,
  \<open>agent_runtime/filesystem_permission_middleware\<close>): which virtual paths a run may read and write, and the guard
  in front of every file tool.

  Paths are byte strings. Glob matching is the function \<open>glob\<close> of a path and a pattern (\<open>wcmatch\<close>); what the
  rules rely on is that a pattern without wildcards matches that path only and \<open>p/**\<close> nothing outside \<open>p\<close>
  (\<open>sound_glob\<close>). Backends are a tree of mounts; what a real path component is comes from the function \<open>disk\<close>.

  The lemmas show that a canonical path has one spelling, that a run reaches its own trees only, and that a tool
  gets a canonical, permitted path without symbolic links or is not run.
\<close>

section \<open>Virtual paths\<close>

definition control_char :: "char \<Rightarrow> bool" where
  "control_char c = ((of_char c :: nat) < 32 \<or> (of_char c :: nat) = 127)"

definition backslash :: char where
  "backslash = CHR 0x5C"

text \<open>\<open>None\<close>: \<open>UnsafeFilesystemPath\<close>.\<close>

definition canonicalize_virtual_path :: "string \<Rightarrow> string option" where
  "canonicalize_virtual_path raw =
     (if raw = [] \<or> hd raw \<noteq> CHR ''/'' \<or> list_ex control_char raw \<or> CHR '':'' \<in> set raw \<or> CHR ''%'' \<in> set raw then None
      else if backslash \<in> set raw then None
      else
        (let parts = tl (split_on CHR ''/'' raw) in
         if list_ex (\<lambda>p. p \<in> {'''', ''.'', ''..''}) (butlast parts) then None
         else if parts \<noteq> [] \<and> last parts \<in> {''.'', ''..''} then None
         else Some (let r = rstrip (\<lambda>c. c = CHR ''/'') raw in if r = [] then ''/'' else r)))"

definition rule_meta :: "char list" where
  "rule_meta = ''*?[]{}!%''"

definition validate_rule_segment :: "string \<Rightarrow> bool" where
  "validate_rule_segment s \<longleftrightarrow>
     s \<noteq> [] \<and> s \<notin> {''.'', ''..''} \<and> CHR ''/'' \<notin> set s \<and> backslash \<notin> set s \<and> CHR '':'' \<notin> set s
     \<and> \<not> list_ex control_char s \<and> \<not> list_ex (\<lambda>c. c \<in> set rule_meta) s"

definition validate_search_pattern :: "string option \<Rightarrow> bool" where
  "validate_search_pattern p =
     (case p of None \<Rightarrow> True
      | Some s \<Rightarrow> CHR ''%'' \<notin> set s \<and> backslash \<notin> set s \<and> \<not> list_ex control_char s
          \<and> \<not> list_ex (\<lambda>q. q = ''..'') (split_on CHR ''/'' s))"

section \<open>Rules\<close>

datatype fs_access = FsAllow | FsDeny | FsInterrupt

datatype fs_operation = FsRead | FsWrite

record fs_permission =
  fp_operations :: "fs_operation list"
  fp_paths :: "string list"
  fp_mode :: fs_access

fun first_rule ::
    "(string \<Rightarrow> string \<Rightarrow> bool) \<Rightarrow> fs_permission list \<Rightarrow> fs_operation \<Rightarrow> string \<Rightarrow> fs_access" where
  "first_rule glob [] op path = FsDeny"
| "first_rule glob (r # rs) op path =
     (if op \<in> set (fp_operations r) \<and> list_ex (glob path) (fp_paths r) then fp_mode r else first_rule glob rs op path)"

definition calculate_filesystem_access ::
    "(string \<Rightarrow> string \<Rightarrow> bool) \<Rightarrow> fs_permission list \<Rightarrow> fs_operation \<Rightarrow> string \<Rightarrow> (fs_access \<times> string) option" where
  "calculate_filesystem_access glob permissions op raw =
     (case canonicalize_virtual_path raw of None \<Rightarrow> None
      | Some path \<Rightarrow> Some (first_rule glob permissions op path, path))"

definition strip_slashes :: "string \<Rightarrow> string" where
  "strip_slashes s = rstrip (\<lambda>c. c = CHR ''/'') (dropWhile (\<lambda>c. c = CHR ''/'') s)"

definition path_and_descendants :: "string \<Rightarrow> string list" where
  "path_and_descendants path =
     (let n = ''/'' @ strip_slashes path in [n, n @ ''/'', n @ ''/**''])"

definition tree_rule :: "fs_operation list \<Rightarrow> string \<Rightarrow> fs_access \<Rightarrow> fs_permission" where
  "tree_rule ops path mode = \<lparr>fp_operations = ops, fp_paths = path_and_descendants path, fp_mode = mode\<rparr>"

definition protected_tree :: "string \<Rightarrow> fs_permission" where
  "protected_tree path = tree_rule [FsRead, FsWrite] path FsDeny"

text \<open>\<open>None\<close>: a root that is not canonical or has an unsafe segment.\<close>

definition add_scoped_offload_permissions :: "fs_permission list \<Rightarrow> string \<Rightarrow> fs_permission list option" where
  "add_scoped_offload_permissions permissions artifacts_root =
     (case canonicalize_virtual_path artifacts_root of None \<Rightarrow> None
      | Some root \<Rightarrow>
          if list_all validate_rule_segment (split_on CHR ''/'' (strip_slashes root))
          then Some ([tree_rule [FsRead] (root @ ''/conversation_history'') FsAllow,
                      tree_rule [FsRead] (root @ ''/large_tool_results'') FsAllow] @ permissions)
          else None)"

record fs_run =
  fr_thread :: string
  fr_agent :: "string option"
  fr_user :: "string option"
  fr_slugs :: "string list"
  fr_runtime :: "string option"
  fr_draft :: "string option"
  fr_memory_file :: bool

definition protected_roots :: "string list" where
  "protected_roots =
     [''/skills'', ''/agents'', ''/runtime'', ''/conversations'', ''/skill-drafts'', ''/uploads'', ''/artifacts'',
      ''/.moldy-offload'']"

definition skill_base :: "fs_run \<Rightarrow> string" where
  "skill_base f =
     (if truthy (fr_runtime f)
      then ''/runtime/'' @ fr_thread f @ ''/agents/'' @ the (fr_runtime f) @ ''/skills''
      else ''/runtime/'' @ fr_thread f @ ''/skills'')"

text \<open>\<open>None\<close>: \<open>ValueError\<close>.\<close>

definition build_filesystem_permissions :: "fs_run \<Rightarrow> fs_permission list option" where
  "build_filesystem_permissions f =
     (let draft = (if truthy (fr_draft f) then strip_slashes (the (fr_draft f)) else []) in
      if truthy (fr_agent f) \<and> \<not> truthy (fr_user f) then None
      else if \<not> validate_rule_segment (fr_thread f) then None
      else if truthy (fr_agent f) \<and> \<not> validate_rule_segment (the (fr_agent f)) then None
      else if truthy (fr_runtime f) \<and> \<not> validate_rule_segment (the (fr_runtime f)) then None
      else if \<not> list_all validate_rule_segment (fr_slugs f) then None
      else if truthy (fr_draft f)
        \<and> (draft = [] \<or> \<not> starts_with draft ''skill-drafts/'' \<or> \<not> list_all validate_rule_segment (split_on CHR ''/'' draft))
      then None
      else Some
        (map (\<lambda>slug. tree_rule [FsRead] (skill_base f @ ''/'' @ slug) FsAllow) (fr_slugs f)
         @ (if truthy (fr_draft f) then [] else [tree_rule [FsRead, FsWrite] (''/conversations/'' @ fr_thread f) FsAllow])
         @ (if truthy (fr_agent f) \<and> fr_memory_file f
            then [\<lparr>fp_operations = [FsRead, FsWrite], fp_paths = [''/agents/'' @ the (fr_agent f) @ ''/AGENTS.md''],
                   fp_mode = FsAllow\<rparr>] else [])
         @ (if truthy (fr_draft f) then [tree_rule [FsRead, FsWrite] (''/'' @ draft) FsAllow] else [])
         @ map protected_tree protected_roots
         @ [\<lparr>fp_operations = [FsRead, FsWrite], fp_paths = [''/**''], fp_mode = FsDeny\<rparr>]))"

text \<open>
  The rules in force: behind a scoped offload backend, whose artifact root is \<open>offload\<close>, two rules of that backend
  come first.
\<close>

definition build_moldy_filesystem_middleware_impl ::
    "fs_permission list \<Rightarrow> string option \<Rightarrow> fs_permission list option" where
  "build_moldy_filesystem_middleware_impl permissions offload =
     (case offload of None \<Rightarrow> Some permissions | Some root \<Rightarrow> add_scoped_offload_permissions permissions root)"

section \<open>The guard of the tools\<close>

datatype backend = Composite "(string \<times> backend) list" backend | Disk string bool bool | OtherBackend

text \<open>
  A composite backend has routes in the library's order (longest prefix first) and a default; a disk backend its
  directory, whether its paths are virtual and whether it opens files below a directory handle only.
\<close>

lemma found_route_smaller: "find P routes = Some (p, b) \<Longrightarrow> size b < size (Composite routes d)"
  by (induction routes) (auto split: if_splits)

function backend_and_key :: "backend \<Rightarrow> string \<Rightarrow> backend \<times> string" where
  "backend_and_key (Composite routes d) path =
     (case find (\<lambda>(p, _). starts_with path p) routes of
        Some (p, b) \<Rightarrow> backend_and_key b (''/'' @ drop (length p) path)
      | None \<Rightarrow> backend_and_key d path)"
| "backend_and_key (Disk cwd v safe) path = (Disk cwd v safe, path)"
| "backend_and_key OtherBackend path = (OtherBackend, path)"
  by pat_completeness auto

termination
  by (relation "measure (\<lambda>(b, _). size b)") (auto intro!: found_route_smaller[simplified])

text \<open>
  What the disk says of an entry: asking whether it is a link may fail (\<open>Unreadable\<close>, caught), and so may asking
  whether it exists (\<open>Unstatable\<close>, not caught).
\<close>

datatype component = PlainEntry | SymbolicLink | Unreadable | Unstatable | NoEntry

text \<open>\<open>None\<close>: \<open>OSError\<close>.\<close>

fun symlink_walk :: "(string \<Rightarrow> string list \<Rightarrow> component) \<Rightarrow> string \<Rightarrow> string list \<Rightarrow> string list \<Rightarrow> bool option" where
  "symlink_walk disk cwd walked [] = Some False"
| "symlink_walk disk cwd walked (p # ps) =
     (if p = [] then symlink_walk disk cwd walked ps
      else (case disk cwd (walked @ [p]) of
              SymbolicLink \<Rightarrow> Some True
            | Unreadable \<Rightarrow> Some True
            | Unstatable \<Rightarrow> None
            | NoEntry \<Rightarrow> Some False
            | PlainEntry \<Rightarrow> symlink_walk disk cwd (walked @ [p]) ps))"

definition has_symlink_component :: "(string \<Rightarrow> string list \<Rightarrow> component) \<Rightarrow> backend \<Rightarrow> string \<Rightarrow> bool option" where
  "has_symlink_component disk b path =
     (case backend_and_key b path of
        (Disk cwd v safe, key) \<Rightarrow>
          if v then symlink_walk disk cwd [] (split_on CHR ''/'' (strip_slashes key)) else Some False
      | _ \<Rightarrow> Some False)"

definition backend_is_safe :: "backend \<Rightarrow> string \<Rightarrow> bool" where
  "backend_is_safe b path = (case fst (backend_and_key b path) of Disk cwd v safe \<Rightarrow> safe | _ \<Rightarrow> True)"

fun require_safe_backend :: "backend \<Rightarrow> bool" where
  "require_safe_backend (Composite routes d) \<longleftrightarrow>
     require_safe_backend d \<and> list_all (\<lambda>r. require_safe_backend (snd r)) routes"
| "require_safe_backend (Disk cwd v safe) = safe"
| "require_safe_backend OtherBackend = True"

datatype tool_arg = ArgText string | ArgNone | ArgOther

type_synonym tool_args = "(string \<times> tool_arg) list"

definition arg :: "tool_args \<Rightarrow> string \<Rightarrow> tool_arg" where
  "arg kwargs k = (case map_of kwargs k of None \<Rightarrow> ArgNone | Some v \<Rightarrow> v)"

definition path_arguments :: "(string \<times> string) list" where
  "path_arguments = [(''ls'', ''path''), (''read_file'', ''file_path''), (''write_file'', ''file_path''),
     (''edit_file'', ''file_path''), (''glob'', ''path''), (''grep'', ''path'')]"

definition operation_of :: "string \<Rightarrow> fs_operation" where
  "operation_of tool = (if tool \<in> {''write_file'', ''edit_file''} then FsWrite else FsRead)"

text \<open>The selector of a search; \<open>None\<close>: one that is not a text (\<open>TypeError\<close>).\<close>

definition selector_ok :: "string \<Rightarrow> tool_args \<Rightarrow> bool option" where
  "selector_ok tool kwargs =
     (if tool \<noteq> ''glob'' \<and> tool \<noteq> ''grep'' then Some True
      else (case arg kwargs (if tool = ''glob'' then ''pattern'' else ''glob'') of
              ArgNone \<Rightarrow> Some True
            | ArgText s \<Rightarrow> Some (validate_search_pattern (Some s))
            | ArgOther \<Rightarrow> None))"

record file_guard =
  fg_glob :: "string \<Rightarrow> string \<Rightarrow> bool"
  fg_disk :: "string \<Rightarrow> string list \<Rightarrow> component"
  fg_backend :: backend
  fg_permissions :: "fs_permission list"

definition guarded_arguments :: "file_guard \<Rightarrow> string \<Rightarrow> tool_args \<Rightarrow> (tool_args \<times> bool) option" where
  "guarded_arguments g tool kwargs =
     (if tool = ''execute'' then Some (kwargs, False)
      else
        (case map_of path_arguments tool of
           None \<Rightarrow> None
         | Some a \<Rightarrow>
             (case (if arg kwargs a = ArgNone \<and> tool \<in> {''glob'', ''grep''} then ArgText ''/'' else arg kwargs a) of
                ArgText raw \<Rightarrow>
                  (case calculate_filesystem_access (fg_glob g) (fg_permissions g) (operation_of tool) raw of
                     None \<Rightarrow> Some (kwargs, False)
                   | Some (access, canonical) \<Rightarrow>
                       (case selector_ok tool kwargs of
                          None \<Rightarrow> None
                        | Some False \<Rightarrow> Some (kwargs, False)
                        | Some True \<Rightarrow>
                            if access = FsDeny \<or> \<not> backend_is_safe (fg_backend g) canonical then Some (kwargs, False)
                            else
                              (case has_symlink_component (fg_disk g) (fg_backend g) canonical of
                                 None \<Rightarrow> None
                               | Some True \<Rightarrow> Some (kwargs, False)
                               | Some False \<Rightarrow>
                                   Some (if map_of kwargs a = None then kwargs else AList.update a (ArgText canonical) kwargs,
                                     True))))
              | _ \<Rightarrow> Some (kwargs, False))))"

datatype 'm tool_reply = CommandReply 'm | MessageReply bool 'm

datatype 'm file_result = FileDenied | FileReply "'m tool_reply" | FileRaised

text \<open>\<open>disk\<close>: the entries after the call; the first argument of a message is whether its status is an error.\<close>

definition safe_result ::
    "file_guard \<Rightarrow> (string \<Rightarrow> string list \<Rightarrow> component) \<Rightarrow> string \<Rightarrow> tool_args \<Rightarrow> 'm tool_reply \<Rightarrow> 'm file_result" where
  "safe_result g disk tool guarded r =
     (case r of
        CommandReply m \<Rightarrow> FileReply r
      | MessageReply err m \<Rightarrow>
          (case (case map_of path_arguments tool of None \<Rightarrow> ArgNone | Some a \<Rightarrow> arg guarded a) of
             ArgText path \<Rightarrow>
               if err then FileDenied
               else (case has_symlink_component disk (fg_backend g) path of
                       None \<Rightarrow> FileRaised | Some True \<Rightarrow> FileDenied | Some False \<Rightarrow> FileReply r)
           | _ \<Rightarrow> FileDenied))"

text \<open>The arguments the tool itself was called with, and the result; the tool's \<open>None\<close> is an exception that is caught.\<close>

definition guarded_call ::
    "file_guard \<Rightarrow> (string \<Rightarrow> string list \<Rightarrow> component) \<Rightarrow> (tool_args \<Rightarrow> 'm tool_reply option) \<Rightarrow> string \<Rightarrow> tool_args \<Rightarrow>
     tool_args list \<times> 'm file_result" where
  "guarded_call g disk original tool kwargs =
     (case guarded_arguments g tool kwargs of
        None \<Rightarrow> ([], FileRaised)
      | Some (guarded, ok) \<Rightarrow>
          if \<not> ok then ([], FileDenied)
          else ([guarded], case original guarded of None \<Rightarrow> FileDenied | Some r \<Rightarrow> safe_result g disk tool guarded r))"

section \<open>Canonical paths\<close>

definition good_segment :: "string \<Rightarrow> bool" where
  "good_segment s \<longleftrightarrow> s \<noteq> [] \<and> s \<noteq> ''.'' \<and> s \<noteq> ''..'' \<and> CHR ''/'' \<notin> set s"

definition path_of :: "string list \<Rightarrow> string" where
  "path_of segs = concat (map (\<lambda>s. CHR ''/'' # s) segs)"

lemma path_of_snoc: "path_of (segs @ [s]) = path_of segs @ CHR ''/'' # s"
  by (simp add: path_of_def)

lemma path_of_split: "path_of (split_on CHR ''/'' s) = CHR ''/'' # s"
  by (induction s) (auto simp: path_of_def split: list.splits)

lemma split_on_no_sep: "x \<in> set (split_on c s) \<Longrightarrow> c \<notin> set x"
  by (induction s arbitrary: x) (auto split: if_splits list.splits)

lemma split_path_of:
  "list_all (\<lambda>s. CHR ''/'' \<notin> set s) segs \<Longrightarrow> split_on CHR ''/'' (path_of segs) = [] # segs"
proof (induction segs)
  case (Cons s segs)
  have "split_on c (s @ r) = (s @ hd (split_on c r)) # tl (split_on c r)" if "c \<notin> set s" for c r
    using that split_on_nonempty[of c] by (induction s) (auto split: list.splits)
  then show ?case using Cons by (simp add: path_of_def)
qed (simp add: path_of_def)

lemma rstrip_keep: "s \<noteq> [] \<Longrightarrow> \<not> P (last s) \<Longrightarrow> rstrip P s = s"
  by (cases s rule: rev_cases) (simp_all add: rstrip_def)

lemma rstrip_drop: "P c \<Longrightarrow> rstrip P (s @ [c]) = rstrip P s"
  by (simp add: rstrip_def)

lemma last_path_of:
  assumes "segs \<noteq> []" "list_all good_segment segs"
  shows "path_of segs \<noteq> []" "last (path_of segs) \<noteq> CHR ''/''"
proof -
  obtain ss s where s: "segs = ss @ [s]" using assms(1) by (cases segs rule: rev_cases) auto
  then have "s \<noteq> []" "CHR ''/'' \<notin> set s" using assms(2) by (auto simp: good_segment_def)
  then have "last s \<noteq> CHR ''/''" using last_in_set by metis
  then show "path_of segs \<noteq> []" "last (path_of segs) \<noteq> CHR ''/''" using \<open>s \<noteq> []\<close> by (auto simp: s path_of_snoc)
qed

lemma canonical_segments:
  assumes "canonicalize_virtual_path raw = Some p"
  shows "p = ''/'' \<or> (\<exists>segs. segs \<noteq> [] \<and> list_all good_segment segs \<and> p = path_of segs)"
    and "set p \<subseteq> set raw"
proof -
  define parts where "parts = tl (split_on CHR ''/'' raw)"
  obtain rest where raw: "raw = CHR ''/'' # rest"
    using assms by (cases raw) (auto simp: canonicalize_virtual_path_def split: if_splits)
  have ps: "parts = split_on CHR ''/'' rest" by (simp add: parts_def raw)
  then have ne: "parts \<noteq> []" and noslash: "\<And>s. s \<in> set parts \<Longrightarrow> CHR ''/'' \<notin> set s"
    using split_on_nonempty split_on_no_sep by auto
  obtain bl l where bl: "parts = bl @ [l]" using ne by (cases parts rule: rev_cases) auto
  have c: "list_all (\<lambda>p. p \<notin> {'''', ''.'', ''..''}) bl" "l \<notin> {''.'', ''..''}"
    and p: "p = (if rstrip (\<lambda>c. c = CHR ''/'') raw = [] then ''/'' else rstrip (\<lambda>c. c = CHR ''/'') raw)"
    using assms bl by (auto simp: canonicalize_virtual_path_def parts_def[symmetric] Let_def list_ex_iff list_all_iff split: if_splits)
  have good: "list_all good_segment bl" using c(1) noslash bl by (auto simp: list_all_iff good_segment_def)
  have raw': "raw = path_of parts" using path_of_split[of rest] by (simp add: ps raw)
  show "p = ''/'' \<or> (\<exists>segs. segs \<noteq> [] \<and> list_all good_segment segs \<and> p = path_of segs)"
  proof (cases "l = []")
    case False
    then have all: "list_all good_segment parts" using good c(2) noslash bl by (auto simp: good_segment_def)
    then have "p = path_of parts" using p rstrip_keep last_path_of[OF ne all] raw' by simp
    then show ?thesis using all ne by blast
  next
    case True
    then have r: "raw = path_of bl @ [CHR ''/'']" using raw' bl by (simp add: path_of_snoc)
    then have s: "rstrip (\<lambda>c. c = CHR ''/'') raw = rstrip (\<lambda>c. c = CHR ''/'') (path_of bl)" by (simp add: rstrip_drop)
    show ?thesis
    proof (cases "bl = []")
      case True
      then show ?thesis using p s by (simp add: path_of_def rstrip_def)
    next
      case False
      then have "p = path_of bl" using p s rstrip_keep last_path_of[OF False good] by simp
      then show ?thesis using False good by blast
    qed
  qed
  have "set (rstrip (\<lambda>c. c = CHR ''/'') raw) \<subseteq> set raw" by (auto simp: rstrip_def dest: set_dropWhileD)
  then show "set p \<subseteq> set raw" using p raw by (auto split: if_splits)
qed

lemma canonical_fixed:
  assumes "canonicalize_virtual_path raw = Some p"
  shows "canonicalize_virtual_path p = Some p"
proof -
  have safe: "\<not> list_ex control_char p" "CHR '':'' \<notin> set p" "CHR ''%'' \<notin> set p" "backslash \<notin> set p"
    using assms canonical_segments(2)[OF assms]
    by (auto simp: canonicalize_virtual_path_def list_ex_iff split: if_splits)
  from canonical_segments(1)[OF assms] show ?thesis
  proof
    assume "p = ''/''"
    moreover have "canonicalize_virtual_path ''/'' = Some ''/''" by code_simp
    ultimately show ?thesis by (simp only:)
  next
    assume "\<exists>segs. segs \<noteq> [] \<and> list_all good_segment segs \<and> p = path_of segs"
    then obtain segs where segs: "segs \<noteq> []" "list_all good_segment segs" "p = path_of segs" by blast
    then have "split_on CHR ''/'' p = [] # segs" using split_path_of by (simp add: list_all_iff good_segment_def)
    moreover have "\<not> list_ex (\<lambda>p. p \<in> {'''', ''.'', ''..''}) (butlast segs)" "last segs \<notin> {''.'', ''..''}"
      using segs(1,2) by (auto simp: list_ex_iff list_all_iff good_segment_def dest: in_set_butlastD)
    moreover have "hd p = CHR ''/''" using segs by (cases segs) (simp_all add: path_of_def)
    moreover have "p \<noteq> []" "rstrip (\<lambda>c. c = CHR ''/'') p = p"
      using last_path_of[OF segs(1,2)] rstrip_keep segs(3) by simp_all
    ultimately show ?thesis using safe segs(1) by (simp add: canonicalize_virtual_path_def Let_def)
  qed
qed

section \<open>What a run reaches\<close>

definition within :: "string \<Rightarrow> string \<Rightarrow> bool" where
  "within p root \<longleftrightarrow> p = root \<or> prefix (root @ ''/'') p"

definition plain :: "string \<Rightarrow> bool" where
  "plain p \<longleftrightarrow> list_all (\<lambda>c. c \<notin> set rule_meta \<and> c \<noteq> backslash) p"

text \<open>The part of \<open>wcmatch\<close>'s documented behaviour that the rules need.\<close>

definition sound_glob :: "(string \<Rightarrow> string \<Rightarrow> bool) \<Rightarrow> bool" where
  "sound_glob glob \<longleftrightarrow> (\<forall>path p. plain p \<longrightarrow>
     (glob path p \<longrightarrow> path = p \<or> path @ ''/'' = p) \<and> (glob path (p @ ''/**'') \<longrightarrow> within path p))"

text \<open>The trees of a scoped offload backend (its own history and its own spilled tool results) and the trees of a run.\<close>

definition offload_trees :: "string option \<Rightarrow> string list" where
  "offload_trees offload =
     (case offload of None \<Rightarrow> []
      | Some root \<Rightarrow> map (\<lambda>d. ''/'' @ strip_slashes root @ d) [''/conversation_history'', ''/large_tool_results''])"

definition run_reaches :: "fs_run \<Rightarrow> fs_operation \<Rightarrow> string \<Rightarrow> bool" where
  "run_reaches f op p \<longleftrightarrow>
     (op = FsRead \<and> (\<exists>slug \<in> set (fr_slugs f). within p (skill_base f @ ''/'' @ slug)))
     \<or> (\<not> truthy (fr_draft f) \<and> within p (''/conversations/'' @ fr_thread f))
     \<or> (truthy (fr_agent f) \<and> fr_memory_file f \<and> p = ''/agents/'' @ the (fr_agent f) @ ''/AGENTS.md'')
     \<or> (truthy (fr_draft f) \<and> within p (''/'' @ strip_slashes (the (fr_draft f))))"

definition reachable :: "fs_run \<Rightarrow> string option \<Rightarrow> fs_operation \<Rightarrow> string \<Rightarrow> bool" where
  "reachable f offload op p \<longleftrightarrow>
     run_reaches f op p \<or> (op = FsRead \<and> (\<exists>root \<in> set (offload_trees offload). within p root))"

lemma sound_globD: "sound_glob glob \<Longrightarrow> plain q \<Longrightarrow> glob p q \<Longrightarrow> p = q \<or> p @ ''/'' = q"
  unfolding sound_glob_def by blast

lemma first_rule_allows:
  "first_rule glob rs op p = m \<Longrightarrow> m \<noteq> FsDeny \<Longrightarrow>
    \<exists>r \<in> set rs. fp_mode r = m \<and> op \<in> set (fp_operations r) \<and> list_ex (glob p) (fp_paths r)"
  by (induction rs) (auto split: if_splits)

lemma strip_slashes_keep: "s \<noteq> [] \<Longrightarrow> hd s \<noteq> CHR ''/'' \<Longrightarrow> last s \<noteq> CHR ''/'' \<Longrightarrow> strip_slashes s = s"
  by (cases s) (simp_all add: strip_slashes_def rstrip_keep)

lemma strip_slashes_root: "s \<noteq> [] \<Longrightarrow> hd s \<noteq> CHR ''/'' \<Longrightarrow> last s \<noteq> CHR ''/'' \<Longrightarrow> strip_slashes (CHR ''/'' # s) = s"
  using strip_slashes_keep[of s] by (simp add: strip_slashes_def)

lemma tree_pattern:
  assumes "sound_glob glob" "list_ex (glob p) (path_and_descendants (CHR ''/'' # s))" "plain s"
    "s \<noteq> []" "hd s \<noteq> CHR ''/''" "last s \<noteq> CHR ''/''" "last p \<noteq> CHR ''/'' \<or> p = ''/''"
  shows "within p (CHR ''/'' # s)"
proof -
  have pl: "plain (CHR ''/'' # s)" "plain ((CHR ''/'' # s) @ ''/'')"
    using assms(3) by (simp_all add: plain_def rule_meta_def backslash_def)
  have g: "glob p (CHR ''/'' # s) \<or> glob p ((CHR ''/'' # s) @ ''/'') \<or> glob p ((CHR ''/'' # s) @ ''/**'')"
    using assms(2) strip_slashes_root[OF assms(4-6)] by (simp add: path_and_descendants_def Let_def)
  have l: "last (CHR ''/'' # s) \<noteq> CHR ''/''" using assms(4,6) by simp
  from g show ?thesis
  proof (elim disjE)
    assume "glob p (CHR ''/'' # s)"
    then have "p = CHR ''/'' # s \<or> p @ ''/'' = CHR ''/'' # s" using assms(1) pl(1) unfolding sound_glob_def by blast
    then show ?thesis using l by (metis last_snoc within_def)
  next
    assume "glob p ((CHR ''/'' # s) @ ''/'')"
    then have "p = (CHR ''/'' # s) @ ''/'' \<or> p @ ''/'' = (CHR ''/'' # s) @ ''/''"
      using assms(1) pl(2) unfolding sound_glob_def by blast
    then show ?thesis unfolding within_def by auto
  next
    assume "glob p ((CHR ''/'' # s) @ ''/**'')"
    then show ?thesis using assms(1) pl(1) unfolding sound_glob_def by blast
  qed
qed

lemma segment_plain: "validate_rule_segment s \<Longrightarrow> plain s \<and> s \<noteq> [] \<and> CHR ''/'' \<notin> set s"
  by (auto simp: validate_rule_segment_def plain_def list_ex_iff list_all_iff)

lemma plain_append [simp]: "plain (a @ b) \<longleftrightarrow> plain a \<and> plain b"
  by (simp add: plain_def)

lemma segment_ends: "validate_rule_segment s \<Longrightarrow> last (a @ s) \<noteq> CHR ''/''"
  using segment_plain[of s] by (auto dest: last_in_set)

lemma canonical_no_slash: "canonicalize_virtual_path raw = Some p \<Longrightarrow> last p \<noteq> CHR ''/'' \<or> p = ''/''"
  using canonical_segments(1) last_path_of(2) by blast

lemma stripped_ends: "strip_slashes s \<noteq> [] \<Longrightarrow> hd (strip_slashes s) \<noteq> CHR ''/'' \<and> last (strip_slashes s) \<noteq> CHR ''/''"
proof -
  let ?P = "\<lambda>c. c = CHR ''/''"
  assume ne: "strip_slashes s \<noteq> []"
  define t where "t = dropWhile ?P s"
  have e: "strip_slashes s = rev (dropWhile ?P (rev t))" by (simp add: strip_slashes_def rstrip_def t_def)
  then have "dropWhile ?P (rev t) \<noteq> []" using ne by simp
  then have l: "last (strip_slashes s) \<noteq> CHR ''/''" using hd_dropWhile[of ?P "rev t"] by (simp add: e last_rev)
  obtain d where d: "t = strip_slashes s @ d"
    unfolding e by (metis rev_append rev_rev_ident takeWhile_dropWhile_id)
  have "t \<noteq> []" using d ne by auto
  then have "hd t \<noteq> CHR ''/''" using hd_dropWhile[of ?P s] unfolding t_def by blast
  then show ?thesis using l d ne by (metis hd_append2)
qed

lemma segments_plain:
  assumes "list_all validate_rule_segment (split_on CHR ''/'' s)" shows "plain s"
proof -
  have "plain (path_of (split_on CHR ''/'' s))"
    using assms segment_plain by (auto simp: path_of_def plain_def list_all_iff rule_meta_def backslash_def)
  then show ?thesis unfolding path_of_split by (simp add: plain_def)
qed

lemma build_facts:
  assumes "build_filesystem_permissions f = Some perms"
  shows "validate_rule_segment (fr_thread f)"
    "truthy (fr_agent f) \<Longrightarrow> validate_rule_segment (the (fr_agent f))"
    "truthy (fr_runtime f) \<Longrightarrow> validate_rule_segment (the (fr_runtime f))"
    "slug \<in> set (fr_slugs f) \<Longrightarrow> validate_rule_segment slug"
    "truthy (fr_draft f) \<Longrightarrow> strip_slashes (the (fr_draft f)) \<noteq> [] \<and> plain (strip_slashes (the (fr_draft f)))
       \<and> starts_with (strip_slashes (the (fr_draft f))) ''skill-drafts/''"
    "r \<in> set perms \<Longrightarrow> fp_mode r \<noteq> FsDeny \<Longrightarrow> fp_mode r = FsAllow \<and>
      ((\<exists>slug \<in> set (fr_slugs f). r = tree_rule [FsRead] (skill_base f @ ''/'' @ slug) FsAllow)
       \<or> (\<not> truthy (fr_draft f) \<and> r = tree_rule [FsRead, FsWrite] (''/conversations/'' @ fr_thread f) FsAllow)
       \<or> (truthy (fr_agent f) \<and> fr_memory_file f \<and> fp_paths r = [''/agents/'' @ the (fr_agent f) @ ''/AGENTS.md''])
       \<or> (truthy (fr_draft f) \<and> r = tree_rule [FsRead, FsWrite] (''/'' @ strip_slashes (the (fr_draft f))) FsAllow))"
proof -
  note b = assms[unfolded build_filesystem_permissions_def Let_def]
  show "validate_rule_segment (fr_thread f)"
    "truthy (fr_agent f) \<Longrightarrow> validate_rule_segment (the (fr_agent f))"
    "truthy (fr_runtime f) \<Longrightarrow> validate_rule_segment (the (fr_runtime f))"
    "slug \<in> set (fr_slugs f) \<Longrightarrow> validate_rule_segment slug"
    using b by (auto simp: list_all_iff split: if_splits)
  show "strip_slashes (the (fr_draft f)) \<noteq> [] \<and> plain (strip_slashes (the (fr_draft f)))
       \<and> starts_with (strip_slashes (the (fr_draft f))) ''skill-drafts/''" if "truthy (fr_draft f)"
  proof -
    let ?d = "strip_slashes (the (fr_draft f))"
    have d: "?d \<noteq> []" "starts_with ?d ''skill-drafts/''" "list_all validate_rule_segment (split_on CHR ''/'' ?d)"
      using b that by (auto split: if_splits)
    then show ?thesis using segments_plain by blast
  qed
  show "fp_mode r = FsAllow \<and>
      ((\<exists>slug \<in> set (fr_slugs f). r = tree_rule [FsRead] (skill_base f @ ''/'' @ slug) FsAllow)
       \<or> (\<not> truthy (fr_draft f) \<and> r = tree_rule [FsRead, FsWrite] (''/conversations/'' @ fr_thread f) FsAllow)
       \<or> (truthy (fr_agent f) \<and> fr_memory_file f \<and> fp_paths r = [''/agents/'' @ the (fr_agent f) @ ''/AGENTS.md''])
       \<or> (truthy (fr_draft f) \<and> r = tree_rule [FsRead, FsWrite] (''/'' @ strip_slashes (the (fr_draft f))) FsAllow))"
    if "r \<in> set perms" "fp_mode r \<noteq> FsDeny"
    using b that by (auto simp: tree_rule_def protected_tree_def split: if_splits)
qed

lemma skill_base_plain:
  assumes "build_filesystem_permissions f = Some perms"
  shows "\<exists>s. skill_base f = ''/runtime/'' @ s \<and> plain s"
proof (cases "truthy (fr_runtime f)")
  case True
  then show ?thesis
    using segment_plain[OF build_facts(1)[OF assms]] segment_plain[OF build_facts(3)[OF assms True]]
    by (auto simp: skill_base_def plain_def rule_meta_def backslash_def)
next
  case False
  then show ?thesis
    using segment_plain[OF build_facts(1)[OF assms]] by (auto simp: skill_base_def plain_def rule_meta_def backslash_def)
qed

lemma allowed_run_reaches:
  assumes "sound_glob glob" "build_filesystem_permissions f = Some perms" "last p \<noteq> CHR ''/'' \<or> p = ''/''"
    "first_rule glob perms op p \<noteq> FsDeny"
  shows "run_reaches f op p"
proof -
  obtain r where r: "r \<in> set perms" "fp_mode r \<noteq> FsDeny" "op \<in> set (fp_operations r)" "list_ex (glob p) (fp_paths r)"
    using first_rule_allows[OF refl assms(4)] assms(4) by auto
  note tree = tree_pattern[OF assms(1) _ _ _ _ _ assms(3)]
  from build_facts(6)[OF assms(2) r(1,2)] consider
      slug where "slug \<in> set (fr_slugs f)" "r = tree_rule [FsRead] (skill_base f @ ''/'' @ slug) FsAllow"
    | "\<not> truthy (fr_draft f)" "r = tree_rule [FsRead, FsWrite] (''/conversations/'' @ fr_thread f) FsAllow"
    | "truthy (fr_agent f)" "fr_memory_file f" "fp_paths r = [''/agents/'' @ the (fr_agent f) @ ''/AGENTS.md'']"
    | "truthy (fr_draft f)" "r = tree_rule [FsRead, FsWrite] (''/'' @ strip_slashes (the (fr_draft f))) FsAllow"
    by blast
  then show ?thesis
  proof cases
    case 1
    obtain s where s: "skill_base f = ''/runtime/'' @ s" "plain s" using skill_base_plain[OF assms(2)] by blast
    note v = build_facts(4)[OF assms(2) 1(1)]
    have "within p (CHR ''/'' # (''runtime/'' @ s @ ''/'' @ slug))"
      by (rule tree) (use r(4) 1(2) s segment_plain[OF v] segment_ends[OF v] in
        \<open>simp_all add: tree_rule_def plain_def rule_meta_def backslash_def\<close>)
    then show ?thesis using 1 r(3) s(1) by (auto simp: run_reaches_def tree_rule_def)
  next
    case 2
    note v = build_facts(1)[OF assms(2)]
    have "within p (CHR ''/'' # (''conversations/'' @ fr_thread f))"
      by (rule tree) (use r(4) 2(2) segment_plain[OF v] segment_ends[OF v] in
        \<open>simp_all add: tree_rule_def plain_def rule_meta_def backslash_def\<close>)
    then show ?thesis using 2 by (simp add: run_reaches_def)
  next
    case 3
    let ?q = "''/agents/'' @ the (fr_agent f) @ ''/AGENTS.md''"
    have "plain ?q" using segment_plain[OF build_facts(2)[OF assms(2) 3(1)]] by (simp add: plain_def rule_meta_def backslash_def)
    moreover have "glob p ?q" using r(4) unfolding 3(3) list_ex_iff by (metis emptyE insertE list.set)
    ultimately have "p = ?q \<or> p @ ''/'' = ?q" by (rule sound_globD[OF assms(1)])
    moreover have "p @ ''/'' \<noteq> ?q"
    proof
      assume "p @ ''/'' = ?q"
      then have "last (p @ ''/'') = last ?q" by simp
      then show False by simp
    qed
    ultimately show ?thesis using 3 by (simp add: run_reaches_def)
  next
    case 4
    let ?d = "strip_slashes (the (fr_draft f))"
    have d: "?d \<noteq> []" "plain ?d" using build_facts(5)[OF assms(2) 4(1)] by simp_all
    have "within p (CHR ''/'' # ?d)"
      by (rule tree) (use r(4) 4(2) d stripped_ends[OF d(1)] in \<open>simp_all add: tree_rule_def\<close>)
    then show ?thesis using 4 by (simp add: run_reaches_def)
  qed
qed

lemma canonical_root:
  assumes "canonicalize_virtual_path raw = Some root" "root \<noteq> ''/''"
  shows "root = CHR ''/'' # strip_slashes raw" "strip_slashes root = strip_slashes raw"
    "strip_slashes raw \<noteq> []" "hd (strip_slashes raw) \<noteq> CHR ''/''" "last (strip_slashes raw) \<noteq> CHR ''/''"
proof -
  let ?P = "\<lambda>c. c = CHR ''/''"
  obtain segs where segs: "segs \<noteq> []" "list_all good_segment segs" "root = path_of segs"
    using canonical_segments(1)[OF assms(1)] assms(2) by blast
  then obtain s ss where "segs = s # ss" "s \<noteq> []" "CHR ''/'' \<notin> set s" by (cases segs) (auto simp: good_segment_def)
  then obtain x t where t: "root = CHR ''/'' # x # t" "x \<noteq> CHR ''/''" using segs(3) by (cases s) (auto simp: path_of_def)
  have l: "last (x # t) \<noteq> CHR ''/''" using last_path_of(2)[OF segs(1,2)] unfolding segs(3)[symmetric] t by simp
  have "root = rstrip ?P raw"
    using assms by (auto simp: canonicalize_virtual_path_def Let_def split: if_splits)
  then have raw: "raw = root @ rev (takeWhile ?P (rev raw))"
    unfolding rstrip_def by (metis rev_append rev_rev_ident takeWhile_dropWhile_id)
  have strip: "strip_slashes (root @ d) = x # t" if "\<forall>c \<in> set d. ?P c" for d
  proof -
    have "dropWhile ?P (root @ d) = (x # t) @ d" using t by simp
    moreover have "rstrip ?P ((x # t) @ d) = x # t"
      using that l by (cases "x # t" rule: rev_cases) (auto simp: rstrip_def dropWhile_append3 dropWhile_append)
    ultimately show ?thesis by (simp only: strip_slashes_def)
  qed
  have raw': "strip_slashes raw = x # t" by (subst raw) (rule strip, auto dest: set_takeWhileD)
  moreover have "strip_slashes root = x # t" using strip[of "[]"] by simp
  ultimately show "root = CHR ''/'' # strip_slashes raw" "strip_slashes root = strip_slashes raw"
    "strip_slashes raw \<noteq> []" "hd (strip_slashes raw) \<noteq> CHR ''/''" "last (strip_slashes raw) \<noteq> CHR ''/''"
    using t l by simp_all
qed

lemma offload_rules:
  assumes "build_moldy_filesystem_middleware_impl perms offload = Some effective"
  shows "\<exists>own. effective = own @ perms \<and> (\<forall>r \<in> set own.
    \<exists>root d. offload = Some root \<and> d \<in> {''/conversation_history'', ''/large_tool_results''}
      \<and> r = tree_rule [FsRead] (CHR ''/'' # strip_slashes root @ d) FsAllow \<and> plain (strip_slashes root)
      \<and> strip_slashes root \<noteq> [] \<and> hd (strip_slashes root) \<noteq> CHR ''/'')"
proof (cases offload)
  case None
  then show ?thesis using assms by (simp add: build_moldy_filesystem_middleware_impl_def)
next
  case (Some raw)
  then obtain root where root: "canonicalize_virtual_path raw = Some root"
      "list_all validate_rule_segment (split_on CHR ''/'' (strip_slashes root))"
      "effective = [tree_rule [FsRead] (root @ ''/conversation_history'') FsAllow,
         tree_rule [FsRead] (root @ ''/large_tool_results'') FsAllow] @ perms"
    using assms(1) by (auto simp: build_moldy_filesystem_middleware_impl_def add_scoped_offload_permissions_def
      split: option.splits if_splits)
  have "root \<noteq> ''/''" using root(2) by (auto simp: strip_slashes_def rstrip_def validate_rule_segment_def)
  note c = canonical_root[OF root(1) this]
  have p: "plain (strip_slashes raw)" using segments_plain[OF root(2)] c(2) by simp
  have f: "effective = map (\<lambda>d. tree_rule [FsRead] (CHR ''/'' # strip_slashes raw @ d) FsAllow)
      [''/conversation_history'', ''/large_tool_results''] @ perms"
    unfolding root(3) c(1) by simp
  show ?thesis
    by (rule exI, rule conjI, rule f) (use p c(3,4) Some in auto)
qed

lemma first_rule_append:
  "first_rule glob (own @ rs) op p \<noteq> FsDeny \<Longrightarrow> first_rule glob rs op p = FsDeny \<Longrightarrow>
    \<exists>r \<in> set own. op \<in> set (fp_operations r) \<and> list_ex (glob p) (fp_paths r)"
  by (induction own) (auto split: if_splits)

lemma allowed_reachable:
  assumes "sound_glob glob" "build_filesystem_permissions f = Some perms"
    "build_moldy_filesystem_middleware_impl perms offload = Some effective" "last p \<noteq> CHR ''/'' \<or> p = ''/''"
    "first_rule glob effective op p \<noteq> FsDeny"
  shows "reachable f offload op p"
proof (cases "first_rule glob perms op p = FsDeny")
  case False
  then show ?thesis using allowed_run_reaches[OF assms(1,2,4)] by (simp add: reachable_def)
next
  case True
  obtain own where own: "effective = own @ perms" "\<forall>r \<in> set own.
      \<exists>root d. offload = Some root \<and> d \<in> {''/conversation_history'', ''/large_tool_results''}
        \<and> r = tree_rule [FsRead] (CHR ''/'' # strip_slashes root @ d) FsAllow \<and> plain (strip_slashes root)
        \<and> strip_slashes root \<noteq> [] \<and> hd (strip_slashes root) \<noteq> CHR ''/''"
    using offload_rules[OF assms(3)] by (elim exE conjE) (rule that)
  obtain r where r: "r \<in> set own" "op \<in> set (fp_operations r)" "list_ex (glob p) (fp_paths r)"
    using first_rule_append[OF assms(5)[unfolded own(1)] True] by (elim bexE conjE) (rule that)
  obtain root d where d: "op \<in> set (fp_operations r)" "list_ex (glob p) (fp_paths r)" "offload = Some root"
      "d \<in> {''/conversation_history'', ''/large_tool_results''}"
      "r = tree_rule [FsRead] (CHR ''/'' # strip_slashes root @ d) FsAllow" "plain (strip_slashes root)"
      "strip_slashes root \<noteq> []" "hd (strip_slashes root) \<noteq> CHR ''/''"
    using bspec[OF own(2) r(1)] r(2,3) by (elim exE conjE) (rule that)
  have "within p (CHR ''/'' # (strip_slashes root @ d))"
    by (rule tree_pattern[OF assms(1) _ _ _ _ _ assms(4)])
      (use d in \<open>auto simp: tree_rule_def plain_def rule_meta_def backslash_def\<close>)
  then show ?thesis using d(1,3-5) by (auto simp: reachable_def offload_trees_def tree_rule_def)
qed

lemma guarded_call_runs:
  assumes "guarded \<in> set (fst (guarded_call g disk original tool kwargs))"
  obtains a raw path where "map_of path_arguments tool = Some a"
    "(if arg kwargs a = ArgNone \<and> tool \<in> {''glob'', ''grep''} then ArgText ''/'' else arg kwargs a) = ArgText raw"
    "canonicalize_virtual_path raw = Some path"
    "first_rule (fg_glob g) (fg_permissions g) (operation_of tool) path \<noteq> FsDeny"
    "backend_is_safe (fg_backend g) path" "has_symlink_component (fg_disk g) (fg_backend g) path = Some False"
    "guarded = (if map_of kwargs a = None then kwargs else AList.update a (ArgText path) kwargs)" "selector_ok tool kwargs = Some True"
proof -
  have "guarded_arguments g tool kwargs = Some (guarded, True)"
    using assms by (auto simp: guarded_call_def split: option.splits if_splits)
  then show thesis
    by (auto simp: guarded_arguments_def calculate_filesystem_access_def intro: that
        split: if_splits option.splits tool_arg.splits bool.splits)
qed

lemma root_not_reachable:
  assumes "build_filesystem_permissions f = Some perms" shows "\<not> reachable f offload op ''/''"
  using build_facts(5)[OF assms]
  by (auto simp: reachable_def run_reaches_def offload_trees_def within_def skill_base_def prefix_def split: option.splits)

text \<open>
  C20: a file tool runs only inside what the run may reach: whatever the model passes, the tool is either not called
  or called once with a canonical path (one spelling, no empty, \<open>.\<close> or \<open>..\<close> segment), which lies in a selected
  skill (to read), the run's own conversation, the agent's memory file, the run's draft or, behind a scoped offload
  backend, that backend's own history or spilled results (to read); it is on a safe backend and below no symbolic link,
  and no other argument is changed. The rules are those built for the run, with the two rules of the offload backend
  in front of them where there is one, and the matcher is sound for the patterns they use.
\<close>
theorem file_tools_stay_in_scope:
  assumes "sound_glob (fg_glob g)" "build_filesystem_permissions f = Some perms"
    "build_moldy_filesystem_middleware_impl perms offload = Some (fg_permissions g)"
    "guarded \<in> set (fst (guarded_call g disk original tool kwargs))"
  shows "\<exists>a path. map_of path_arguments tool = Some a \<and> arg guarded a = ArgText path
    \<and> canonicalize_virtual_path path = Some path
    \<and> (\<exists>segs. list_all good_segment segs \<and> path = path_of segs)
    \<and> reachable f offload (operation_of tool) path
    \<and> backend_is_safe (fg_backend g) path \<and> has_symlink_component (fg_disk g) (fg_backend g) path = Some False
    \<and> (\<forall>k. k \<noteq> a \<longrightarrow> arg guarded k = arg kwargs k) \<and> fst (guarded_call g disk original tool kwargs) = [guarded]"
proof -
  obtain a raw path where c: "map_of path_arguments tool = Some a"
    "(if arg kwargs a = ArgNone \<and> tool \<in> {''glob'', ''grep''} then ArgText ''/'' else arg kwargs a) = ArgText raw"
    "canonicalize_virtual_path raw = Some path"
    "first_rule (fg_glob g) (fg_permissions g) (operation_of tool) path \<noteq> FsDeny"
    "backend_is_safe (fg_backend g) path" "has_symlink_component (fg_disk g) (fg_backend g) path = Some False"
    "guarded = (if map_of kwargs a = None then kwargs else AList.update a (ArgText path) kwargs)"
    by (rule guarded_call_runs[OF assms(4)])
  have r: "reachable f offload (operation_of tool) path"
    by (rule allowed_reachable[OF assms(1,2,3) canonical_no_slash[OF c(3)] c(4)])
  then have root: "path \<noteq> ''/''" using root_not_reachable[OF assms(2)] by blast
  have "raw \<noteq> ''/''"
  proof
    assume "raw = ''/''"
    moreover have "canonicalize_virtual_path ''/'' = Some ''/''" by code_simp
    ultimately show False using c(3) root by simp
  qed
  then have nn: "map_of kwargs a \<noteq> None" using c(2) by (auto simp: arg_def split: if_splits option.splits)
  have g: "guarded = AList.update a (ArgText path) kwargs" unfolding c(7) using nn by (simp only: if_False)
  then have "arg guarded a = ArgText path" "\<forall>k. k \<noteq> a \<longrightarrow> arg guarded k = arg kwargs k"
    by (simp_all add: arg_def update_conv')
  moreover have "\<exists>segs. list_all good_segment segs \<and> path = path_of segs" using canonical_segments(1)[OF c(3)] root by blast
  moreover have "fst (guarded_call g disk original tool kwargs) = [guarded]"
    using assms(4) by (auto simp: guarded_call_def split: option.splits if_splits)
  ultimately show ?thesis using c(1,5,6) canonical_fixed[OF c(3)] r by blast
qed

lemma within_take: "within p root \<Longrightarrow> n \<le> length root \<Longrightarrow> take n p = take n root"
  by (auto simp: within_def prefix_def)

lemma within_segment:
  assumes "within p (d @ s)" "within p (d @ t)" "CHR ''/'' \<notin> set s" "CHR ''/'' \<notin> set t"
  shows "s = t"
proof -
  have h: "takeWhile (\<lambda>c. c \<noteq> CHR ''/'') (drop (length d) p) = x" if "within p (d @ x)" "CHR ''/'' \<notin> set x" for x
    using that by (auto simp: within_def prefix_def takeWhile_eq_all_conv takeWhile_append)
  show ?thesis using h[OF assms(1,3)] h[OF assms(2,4)] by simp
qed

text \<open>
  Trees of others: another conversation, every tree a run has no rule for, and what is offloaded elsewhere; the
  backend's own offload trees are foreign to a write only.
\<close>

definition foreign :: "fs_run \<Rightarrow> string option \<Rightarrow> fs_operation \<Rightarrow> string \<Rightarrow> bool" where
  "foreign f offload op p \<longleftrightarrow>
     (\<exists>other. other \<noteq> fr_thread f \<and> CHR ''/'' \<notin> set other \<and> within p (''/conversations/'' @ other))
     \<or> (\<exists>root \<in> set [''/skills'', ''/uploads'', ''/artifacts'']. within p root)
     \<or> (within p ''/.moldy-offload'' \<and> (op = FsRead \<longrightarrow> (\<forall>root \<in> set (offload_trees offload). \<not> within p root)))
     \<or> (\<not> truthy (fr_draft f) \<and> within p ''/skill-drafts'')
     \<or> (truthy (fr_draft f) \<and> within p ''/conversations'')"

lemma run_reaches_heads:
  assumes "build_filesystem_permissions f = Some perms" "run_reaches f op p"
  shows "take 7 p = ''/runtim'' \<or> take 7 p = ''/agents''
      \<or> (\<not> truthy (fr_draft f) \<and> take 7 p = ''/conver'' \<and> within p (''/conversations/'' @ fr_thread f))
      \<or> (truthy (fr_draft f) \<and> take 7 p = ''/skill-'')"
proof -
  have skill: "take 7 p = ''/runtim''" if "within p (skill_base f @ ''/'' @ slug)" for slug
    using within_take[OF that, of 7] by (simp add: skill_base_def split: if_splits)
  have draft: "take 7 p = ''/skill-''" if "truthy (fr_draft f)" "within p (''/'' @ strip_slashes (the (fr_draft f)))"
  proof -
    define d where "d = strip_slashes (the (fr_draft f))"
    have "take 13 d = ''skill-drafts/''" using build_facts(5)[OF assms(1) that(1)] by (simp add: starts_with_def d_def numeral_eq_Suc)
    then have "take 6 (take 13 d) = ''skill-''" "length (take 13 d) = 13" by simp_all
    then show ?thesis using within_take[OF that(2), of 7] by (simp add: d_def)
  qed
  have conv: "take 7 p = ''/conver''" if "within p (''/conversations/'' @ fr_thread f)"
    using within_take[OF that, of 7] by simp
  have mem: "take 7 p = ''/agents''" if "p = ''/agents/'' @ the (fr_agent f) @ ''/AGENTS.md''" using that by simp
  show ?thesis using assms(2) skill draft mem conv unfolding run_reaches_def by blast
qed

lemma offload_heads:
  assumes "build_moldy_filesystem_middleware_impl perms offload = Some effective"
    "\<And>root. offload = Some root \<Longrightarrow> starts_with root ''/.moldy-offload/''" "root \<in> set (offload_trees offload)" "within p root"
  shows "take 7 p = ''/.moldy''"
proof -
  obtain raw d where raw: "offload = Some raw" "root = CHR ''/'' # strip_slashes raw @ d"
    using assms(3) by (auto simp: offload_trees_def split: option.splits)
  obtain c where c: "canonicalize_virtual_path raw = Some c"
      "list_all validate_rule_segment (split_on CHR ''/'' (strip_slashes c))"
    using assms(1) raw(1) by (auto simp: build_moldy_filesystem_middleware_impl_def add_scoped_offload_permissions_def
      split: option.splits if_splits)
  have "c \<noteq> ''/''" using c(2) by (auto simp: strip_slashes_def rstrip_def validate_rule_segment_def)
  note r = canonical_root[OF c(1) this]
  have h: "take 16 raw = ''/.moldy-offload/''" using assms(2)[OF raw(1)] by (simp add: starts_with_def numeral_eq_Suc)
  obtain rest where rest: "raw = ''/.moldy-offload/'' @ rest" using h by (metis append_take_drop_id)
  have "c = rstrip (\<lambda>c. c = CHR ''/'') raw"
    using c(1) \<open>c \<noteq> ''/''\<close> by (auto simp: canonicalize_virtual_path_def Let_def split: if_splits)
  moreover have "rstrip P (u @ v) = u @ rstrip P v \<or> rstrip P (u @ v) = rstrip P u" for P and u v :: string
    by (auto simp: rstrip_def dropWhile_append)
  ultimately have "c = ''/.moldy-offload/'' @ rstrip (\<lambda>c. c = CHR ''/'') rest \<or> c = rstrip (\<lambda>c. c = CHR ''/'') ''/.moldy-offload/''"
    unfolding rest by blast
  then have "take 7 c = ''/.moldy''" "7 \<le> length c" by (auto simp: rstrip_def)
  then have "take 7 root = ''/.moldy''" "7 \<le> length root" unfolding raw(2) r(1) by simp_all
  then show ?thesis using within_take[OF assms(4)] by simp
qed

lemma foreign_not_reachable:
  assumes "build_filesystem_permissions f = Some perms"
    "build_moldy_filesystem_middleware_impl perms offload = Some effective"
    "\<And>root. offload = Some root \<Longrightarrow> starts_with root ''/.moldy-offload/''" "foreign f offload op p"
  shows "\<not> reachable f offload op p"
proof
  assume r: "reachable f offload op p"
  have t: "CHR ''/'' \<notin> set (fr_thread f)" using segment_plain[OF build_facts(1)[OF assms(1)]] by simp
  have k: "take 7 p = ''/runtim'' \<or> take 7 p = ''/agents''
      \<or> (\<not> truthy (fr_draft f) \<and> take 7 p = ''/conver'' \<and> within p (''/conversations/'' @ fr_thread f))
      \<or> (truthy (fr_draft f) \<and> take 7 p = ''/skill-'')
      \<or> (take 7 p = ''/.moldy'' \<and> op = FsRead \<and> (\<exists>root \<in> set (offload_trees offload). within p root))"
    using r run_reaches_heads[OF assms(1)] offload_heads[OF assms(2,3)] unfolding reachable_def by blast
  from assms(4)[unfolded foreign_def] consider
      other where "other \<noteq> fr_thread f" "CHR ''/'' \<notin> set other" "within p (''/conversations/'' @ other)"
    | root where "root \<in> set [''/skills'', ''/uploads'', ''/artifacts'']" "within p root"
    | "within p ''/.moldy-offload''" "op = FsRead \<longrightarrow> (\<forall>root \<in> set (offload_trees offload). \<not> within p root)"
    | "\<not> truthy (fr_draft f)" "within p ''/skill-drafts''"
    | "truthy (fr_draft f)" "within p ''/conversations''"
    by blast
  then show False
  proof cases
    case 1
    then have "take 7 p = ''/conver''" using within_take[OF 1(3), of 7] by simp
    then show ?thesis using k within_segment[OF 1(3) _ 1(2) t] 1(1) by auto
  next
    case 2
    then have "7 \<le> length root \<and> take 7 root \<in> {''/skills'', ''/upload'', ''/artifa''}" by auto
    then have "take 7 p \<in> {''/skills'', ''/upload'', ''/artifa''}" using within_take[OF 2(2)] by simp
    then show ?thesis using k by auto
  next
    case 3
    then have "take 7 p = ''/.moldy''" using within_take[OF 3(1), of 7] by simp
    then show ?thesis using k 3(2) by auto
  next
    case 4
    then have "take 7 p = ''/skill-''" using within_take[OF 4(2), of 7] by simp
    then show ?thesis using k 4(1) by auto
  next
    case 5
    then have "take 7 p = ''/conver''" using within_take[OF 5(2), of 7] by simp
    then show ?thesis using k 5(1) by auto
  qed
qed


section \<open>Witnesses\<close>

text \<open>A matcher of the patterns the rules use.\<close>

definition tree_glob :: "string \<Rightarrow> string \<Rightarrow> bool" where
  "tree_glob path p =
     (path = p \<or> (suffix ''/**'' p \<and> prefix (take (length p - 2) p) path))"

lemma tree_glob_sound: "sound_glob tree_glob"
  unfolding sound_glob_def
proof (intro allI impI conjI)
  fix path p assume p: "plain p"
  show "path = p \<or> path @ ''/'' = p" if "tree_glob path p"
  proof -
    have "\<not> suffix ''/**'' p" using p by (auto simp: suffix_def plain_def rule_meta_def)
    then show ?thesis using that by (simp add: tree_glob_def)
  qed
  show "within path p" if "tree_glob path (p @ ''/**'')"
    using that by (auto simp: tree_glob_def within_def prefix_def)
qed

definition demo_fs_run :: fs_run where
  "demo_fs_run = \<lparr>fr_thread = ''t1'', fr_agent = Some ''a1'', fr_user = Some ''u1'', fr_slugs = [''pdf''], fr_runtime = None,
     fr_draft = None, fr_memory_file = True\<rparr>"

definition demo_offload :: "string option" where
  "demo_offload = Some ''/.moldy-offload/o1/c1/a1/''"

definition demo_rules :: "fs_permission list" where
  "demo_rules = the (build_moldy_filesystem_middleware_impl (the (build_filesystem_permissions demo_fs_run)) demo_offload)"

definition demo_file_guard :: file_guard where
  "demo_file_guard = \<lparr>fg_glob = tree_glob, fg_disk = \<lambda>_ _. NoEntry, fg_backend = Disk ''/data'' True True,
     fg_permissions = demo_rules\<rparr>"

lemma demo_rules_built:
  "build_filesystem_permissions demo_fs_run = Some (the (build_filesystem_permissions demo_fs_run))"
  "build_moldy_filesystem_middleware_impl (the (build_filesystem_permissions demo_fs_run)) demo_offload
     = Some (fg_permissions demo_file_guard)"
  by code_simp+

lemma file_tools_stay_in_scope_witness:
  "fst (guarded_call demo_file_guard (\<lambda>_ _. NoEntry) (\<lambda>_. Some (MessageReply False ())) ''read_file''
      [(''file_path'', ArgText ''/conversations/t1/a.txt/'')]) = [[(''file_path'', ArgText ''/conversations/t1/a.txt'')]]
   \<and> (\<exists>path. reachable demo_fs_run demo_offload FsRead path)"
proof -
  have s: "sound_glob (fg_glob demo_file_guard)" by (simp add: demo_file_guard_def tree_glob_sound)
  have c: "fst (guarded_call demo_file_guard (\<lambda>_ _. NoEntry) (\<lambda>_. Some (MessageReply False ())) ''read_file''
      [(''file_path'', ArgText ''/conversations/t1/a.txt/'')]) = [[(''file_path'', ArgText ''/conversations/t1/a.txt'')]]"
    by code_simp
  have "[(''file_path'', ArgText ''/conversations/t1/a.txt'')] \<in> set (fst (guarded_call demo_file_guard (\<lambda>_ _. NoEntry)
      (\<lambda>_. Some (MessageReply False ())) ''read_file'' [(''file_path'', ArgText ''/conversations/t1/a.txt/'')]))"
    unfolding c by simp
  moreover have "operation_of ''read_file'' = FsRead" by code_simp
  ultimately have "\<exists>path. reachable demo_fs_run demo_offload FsRead path"
    using file_tools_stay_in_scope[OF s demo_rules_built, of "[(''file_path'', ArgText ''/conversations/t1/a.txt'')]"]
    by fastforce
  then show ?thesis using c by blast
qed


end
