(* ===== verification/Unattended.thy ===== *)
theory Unattended
  imports ToolRisk
begin

text \<open>
  Approval for runs that nobody watches (\<open>approvals/unattended\<close>): a schedule waits for the inbox, an API call
  blocks the call, and children follow the same mode with their own policy.

  An entry of \<open>interrupt_on\<close> is a flag or a configuration, a JSON object beside its \<open>when\<close> predicate on the
  request; a middleware of another kind is known by its name, a compiled child is opaque. The library's default
  entries have one member, so equality of these objects is that of their member lists. Requests are of any type \<open>'r\<close>.

  The lemmas show that a run without an attendant blocks exactly the calls its policy asks about, in the agent and in
  every declarative child, and that a waiting run keeps them as questions.
\<close>

datatype 'r ask = AskFlag bool | Ask "(string \<times> json) list" "('r \<Rightarrow> bool) option"

type_synonym 'r ask_policy = "(string \<times> 'r ask) list"

fun ask_true :: "'r ask \<Rightarrow> bool" where
  "ask_true (AskFlag b) = b"
| "ask_true (Ask ms w) = (ms \<noteq> [] \<or> w \<noteq> None)"

fun builtin_default :: "string \<Rightarrow> 'r ask \<Rightarrow> bool" where
  "builtin_default name (AskFlag b) = False"
| "builtin_default name (Ask ms (Some w)) = False"
| "builtin_default name (Ask ms None) = (map_of deepagents_policy name = Some (JObj ms))"

definition unattended_middleware :: "'r ask_policy \<Rightarrow> 'r ask_policy" where
  "unattended_middleware policy = filter (\<lambda>(_, e). ask_true e) policy"

definition unattended_blocked :: "'r ask_policy \<Rightarrow> string \<Rightarrow> 'r \<Rightarrow> bool" where
  "unattended_blocked policy name request =
     (case map_of policy name of
        None \<Rightarrow> False
      | Some e \<Rightarrow> ask_true e \<and> (case e of Ask ms (Some w) \<Rightarrow> w request | _ \<Rightarrow> True))"

definition strip_builtin_defaults :: "'r ask_policy option \<Rightarrow> 'r ask_policy" where
  "strip_builtin_defaults policy =
     filter (\<lambda>(name, e). ask_true e \<and> name \<noteq> ''ask_user'' \<and> \<not> builtin_default name e)
       (case policy of None \<Rightarrow> [] | Some es \<Rightarrow> es)"

text \<open>What \<open>interrupt_on\<close> holds: nothing, one flag for all tools or a policy by tool name.\<close>

datatype 'r interrupt_on = NoPolicy | ForAll bool | Policy "'r ask_policy"

definition policy_dict :: "'r interrupt_on \<Rightarrow> 'r ask_policy option" where
  "policy_dict i = (case i of Policy es \<Rightarrow> Some es | _ \<Rightarrow> None)"

definition policy_or_none :: "'r ask_policy \<Rightarrow> 'r interrupt_on" where
  "policy_or_none es = (if es = [] then NoPolicy else Policy es)"

datatype 'r agent_middleware = OtherMiddleware string | UnattendedApproval "'r ask_policy"

text \<open>A child's \<open>interrupt_on\<close> may be absent; \<open>sp_opaque\<close>: it is a runnable or a remote graph.\<close>

record 'r child_spec =
  sp_opaque :: bool
  sp_interrupt :: "'r interrupt_on option"
  sp_middleware :: "'r agent_middleware list"

datatype unattended_mode = ModeWait | ModeBlock

definition own_policy :: "'r ask_policy \<Rightarrow> 'r child_spec \<Rightarrow> 'r ask_policy" where
  "own_policy parent spec =
     strip_builtin_defaults (case sp_interrupt spec of None \<Rightarrow> Some parent | Some i \<Rightarrow> policy_dict i)"

definition unattended_child :: "unattended_mode \<Rightarrow> 'r ask_policy \<Rightarrow> 'r child_spec \<Rightarrow> 'r child_spec" where
  "unattended_child mode parent spec =
     (if sp_opaque spec then spec
      else
        (let own = own_policy parent spec in
         case mode of
           ModeWait \<Rightarrow> spec\<lparr>sp_interrupt := Some (policy_or_none own)\<rparr>
         | ModeBlock \<Rightarrow>
             spec\<lparr>sp_interrupt := None,
               sp_middleware := (if own = [] then sp_middleware spec
                 else sp_middleware spec @ [UnattendedApproval (unattended_middleware own)])\<rparr>))"

definition apply_unattended ::
    "unattended_mode option \<Rightarrow> 'r interrupt_on \<Rightarrow> 'r agent_middleware list \<Rightarrow> 'r child_spec list \<Rightarrow>
     'r interrupt_on \<times> 'r agent_middleware list \<times> 'r child_spec list" where
  "apply_unattended mode interrupt_on middleware subagents =
     (case mode of
        None \<Rightarrow> (interrupt_on, middleware, subagents)
      | Some m \<Rightarrow>
          (let parent = strip_builtin_defaults (policy_dict interrupt_on);
               children = map (unattended_child m parent) subagents
           in case m of
                ModeWait \<Rightarrow> (policy_or_none parent, middleware, children)
              | ModeBlock \<Rightarrow>
                  (NoPolicy, if parent = [] then middleware else middleware @ [UnattendedApproval (unattended_middleware parent)],
                   children)))"

section \<open>What is blocked\<close>

text \<open>A call is blocked by the list when one of its middlewares answers it.\<close>

definition call_blocked :: "'r agent_middleware list \<Rightarrow> string \<Rightarrow> 'r \<Rightarrow> bool" where
  "call_blocked ms name request =
     list_ex (\<lambda>m. case m of UnattendedApproval p \<Rightarrow> unattended_blocked p name request | OtherMiddleware _ \<Rightarrow> False) ms"

text \<open>
  The specification: when a person would be asked about a call, apart from questions and from the agent library's own
  approval of its file tools, which these runs have always used without asking.
\<close>

definition library_default :: "string \<Rightarrow> (string \<times> json) list \<Rightarrow> bool" where
  "library_default name ms \<longleftrightarrow>
     (name \<in> {''write_file'', ''execute''} \<and> ms = [(''allowed_decisions'', JList [JStr ''approve'', JStr ''reject''])])
     \<or> (name = ''edit_file'' \<and> ms = [(''allowed_decisions'', JList [JStr ''approve'', JStr ''edit'', JStr ''reject''])])"

definition would_ask :: "'r interrupt_on \<Rightarrow> string \<Rightarrow> 'r \<Rightarrow> bool" where
  "would_ask i name request =
     (case i of
        Policy es \<Rightarrow>
          name \<noteq> ''ask_user'' \<and>
          (case map_of es name of
             None \<Rightarrow> False
           | Some (AskFlag b) \<Rightarrow> b
           | Some (Ask ms None) \<Rightarrow> ms \<noteq> [] \<and> \<not> library_default name ms
           | Some (Ask ms (Some asks)) \<Rightarrow> asks request)
      | _ \<Rightarrow> False)"

lemma builtin_default_is_library:
  "builtin_default name (Ask ms None) = library_default name ms"
  by (auto simp: library_default_def deepagents_policy_def decisions_entry_def)

lemma map_of_filter_distinct:
  "distinct (map fst es) \<Longrightarrow> map_of (filter P es) k = (case map_of es k of None \<Rightarrow> None | Some v \<Rightarrow> if P (k, v) then Some v else None)"
proof (induction es)
  case (Cons e es)
  then show ?case by (cases e) (auto simp: map_of_eq_None_iff split: option.splits)
qed simp

lemma stripped_blocks:
  assumes "distinct (map fst es)"
  shows "unattended_blocked (strip_builtin_defaults (Some es)) name request = would_ask (Policy es) name request"
proof (cases "map_of es name")
  case None
  then show ?thesis
    by (simp add: unattended_blocked_def strip_builtin_defaults_def would_ask_def map_of_filter_distinct[OF assms])
next
  case (Some e)
  show ?thesis
  proof (cases e)
    case (Ask ms w)
    then show ?thesis using Some
      by (cases w) (auto simp: unattended_blocked_def strip_builtin_defaults_def would_ask_def
        map_of_filter_distinct[OF assms] builtin_default_is_library simp del: builtin_default.simps(3))
  qed (use Some in \<open>auto simp: unattended_blocked_def strip_builtin_defaults_def would_ask_def map_of_filter_distinct[OF assms]\<close>)
qed

lemma filtered_blocks:
  "distinct (map fst es) \<Longrightarrow> unattended_blocked (unattended_middleware es) name request = unattended_blocked es name request"
  by (auto simp: unattended_blocked_def unattended_middleware_def map_of_filter_distinct split: option.splits)

definition policy_ok :: "'r interrupt_on \<Rightarrow> bool" where
  "policy_ok i = (case i of Policy es \<Rightarrow> distinct (map fst es) | _ \<Rightarrow> True)"

definition asks_now :: "'r interrupt_on \<Rightarrow> string \<Rightarrow> 'r \<Rightarrow> bool" where
  "asks_now i name request = (case i of Policy es \<Rightarrow> unattended_blocked es name request | _ \<Rightarrow> False)"

text \<open>What a child starts from: its own policy, or its parent's.\<close>

definition child_policy :: "'r interrupt_on \<Rightarrow> 'r child_spec \<Rightarrow> 'r interrupt_on" where
  "child_policy i spec = (case sp_interrupt spec of None \<Rightarrow> i | Some own \<Rightarrow> own)"

lemma strip_policy_dict:
  assumes "policy_ok i"
  shows "unattended_blocked (strip_builtin_defaults (policy_dict i)) name request = would_ask i name request"
    "distinct (map fst (strip_builtin_defaults (policy_dict i)))"
proof -
  show "unattended_blocked (strip_builtin_defaults (policy_dict i)) name request = would_ask i name request"
  proof (cases i)
    case (Policy es)
    then show ?thesis using stripped_blocks[of es name request] assms by (simp add: policy_dict_def policy_ok_def)
  qed (simp_all add: policy_dict_def would_ask_def strip_builtin_defaults_def unattended_blocked_def)
  show "distinct (map fst (strip_builtin_defaults (policy_dict i)))"
    using assms by (cases i) (simp_all add: policy_dict_def policy_ok_def strip_builtin_defaults_def distinct_map_filter)
qed

lemma strip_twice: "strip_builtin_defaults (Some (strip_builtin_defaults p)) = strip_builtin_defaults p"
  by (simp add: strip_builtin_defaults_def)

lemma own_policy_dict:
  "own_policy (strip_builtin_defaults (policy_dict i)) spec = strip_builtin_defaults (policy_dict (child_policy i spec))"
  by (cases "sp_interrupt spec") (simp_all add: own_policy_def child_policy_def strip_twice)

lemma blocked_append:
  assumes "distinct (map fst es)"
  shows "call_blocked (if es = [] then ms else ms @ [UnattendedApproval (unattended_middleware es)]) name request
    = (call_blocked ms name request \<or> unattended_blocked es name request)"
  using filtered_blocks[OF assms] by (auto simp: call_blocked_def unattended_blocked_def)

lemma asks_policy_or_none: "asks_now (policy_or_none es) name request = unattended_blocked es name request"
  by (auto simp: asks_now_def policy_or_none_def unattended_blocked_def)

lemma child_blocks:
  assumes "policy_ok (child_policy i spec)" "\<not> sp_opaque spec"
    "child = unattended_child ModeBlock (strip_builtin_defaults (policy_dict i)) spec"
  shows "sp_interrupt child = None \<and> call_blocked (sp_middleware child) name request
    = (call_blocked (sp_middleware spec) name request \<or> would_ask (child_policy i spec) name request)"
proof -
  let ?own = "strip_builtin_defaults (policy_dict (child_policy i spec))"
  have c: "child = spec\<lparr>sp_interrupt := None, sp_middleware := (if ?own = [] then sp_middleware spec
      else sp_middleware spec @ [UnattendedApproval (unattended_middleware ?own)])\<rparr>"
    using assms(2) unfolding assms(3) unattended_child_def own_policy_dict Let_def
    by (simp only: if_False unattended_mode.case simp_thms)
  show ?thesis
    unfolding c using blocked_append[OF strip_policy_dict(2)[OF assms(1)], of "sp_middleware spec" name request]
      strip_policy_dict(1)[OF assms(1), of name request] by simp
qed

lemma child_waits:
  assumes "policy_ok (child_policy i spec)" "\<not> sp_opaque spec"
    "child = unattended_child ModeWait (strip_builtin_defaults (policy_dict i)) spec"
  shows "sp_middleware child = sp_middleware spec
    \<and> asks_now (child_policy i child) name request = would_ask (child_policy i spec) name request"
proof -
  have c: "child = spec\<lparr>sp_interrupt := Some (policy_or_none (strip_builtin_defaults (policy_dict (child_policy i spec))))\<rparr>"
    using assms(2) unfolding assms(3) unattended_child_def own_policy_dict Let_def
    by (simp only: if_False unattended_mode.case simp_thms)
  then have "child_policy i child = policy_or_none (strip_builtin_defaults (policy_dict (child_policy i spec)))"
    by (simp add: child_policy_def)
  then show ?thesis using strip_policy_dict(1)[OF assms(1), of name request] c by (simp add: asks_policy_or_none)
qed

text \<open>
  C31: nobody is asked and nothing slips through where nobody watches: in a run that blocks, a call is answered
  as blocked exactly when the policy by tool name would have asked about it (and as before otherwise), and no question is
  left; in a run that waits, the same calls are asked about; both hold for the agent and, with its own or inherited
  policy, for every declarative child. Exempt are questions to the user and the library's unchanged approval of its own
  file tools, whose calls run unasked in both modes.
\<close>
theorem unattended_calls_are_decided:
  assumes "policy_ok i" "\<forall>spec \<in> set subs. policy_ok (child_policy i spec)"
  shows "(case apply_unattended (Some ModeBlock) i ms subs of (i', ms', subs') \<Rightarrow>
      i' = NoPolicy \<and> call_blocked ms' name request = (call_blocked ms name request \<or> would_ask i name request)
      \<and> list_all2 (\<lambda>spec child. if sp_opaque spec then child = spec
          else sp_interrupt child = None \<and> call_blocked (sp_middleware child) name request
            = (call_blocked (sp_middleware spec) name request \<or> would_ask (child_policy i spec) name request)) subs subs')
    \<and> (case apply_unattended (Some ModeWait) i ms subs of (i', ms', subs') \<Rightarrow>
      ms' = ms \<and> asks_now i' name request = would_ask i name request
      \<and> list_all2 (\<lambda>spec child. if sp_opaque spec then child = spec
          else sp_middleware child = sp_middleware spec
            \<and> asks_now (child_policy i child) name request = would_ask (child_policy i spec) name request) subs subs')"
proof -
  let ?parent = "strip_builtin_defaults (policy_dict i)"
  note parent = strip_policy_dict[OF assms(1)]
  have ok: "policy_ok (child_policy i spec)" if "spec \<in> set subs" for spec using assms(2) that by blast
  have block: "list_all2 (\<lambda>spec child. if sp_opaque spec then child = spec
          else sp_interrupt child = None \<and> call_blocked (sp_middleware child) name request
            = (call_blocked (sp_middleware spec) name request \<or> would_ask (child_policy i spec) name request))
      subs (map (unattended_child ModeBlock ?parent) subs)"
    unfolding list_all2_map2 list_all2_same using child_blocks[OF ok _ refl] by (simp add: unattended_child_def)
  have wait: "list_all2 (\<lambda>spec child. if sp_opaque spec then child = spec
          else sp_middleware child = sp_middleware spec
            \<and> asks_now (child_policy i child) name request = would_ask (child_policy i spec) name request)
      subs (map (unattended_child ModeWait ?parent) subs)"
    unfolding list_all2_map2 list_all2_same using child_waits[OF ok _ refl] by (simp add: unattended_child_def)
  show ?thesis
    unfolding apply_unattended_def Let_def option.case unattended_mode.case prod.case
    using blocked_append[OF parent(2), of ms name request] parent(1)[of name request] block wait
    by (simp add: asks_policy_or_none)
qed

section \<open>Witness\<close>

definition report_policy :: "nat interrupt_on" where
  "report_policy = Policy [(''send_mail'', Ask [(''allowed_decisions'', JList [])] (Some (\<lambda>n. 3 < n)))]"

definition report_child :: "nat child_spec" where
  "report_child = \<lparr>sp_opaque = False, sp_interrupt = None, sp_middleware = [OtherMiddleware ''log'']\<rparr>"

lemma unattended_calls_are_decided_witness:
  "call_blocked (fst (snd (apply_unattended (Some ModeBlock) report_policy [] [report_child]))) ''send_mail'' 5
   \<and> \<not> call_blocked (fst (snd (apply_unattended (Some ModeBlock) report_policy [] [report_child]))) ''send_mail'' 2"
proof -
  have ok: "policy_ok report_policy" "\<forall>spec \<in> set [report_child]. policy_ok (child_policy report_policy spec)"
    by (simp_all add: policy_ok_def report_policy_def report_child_def child_policy_def)
  have "would_ask report_policy ''send_mail'' 5" "\<not> would_ask report_policy ''send_mail'' 2" by code_simp+
  moreover have "\<not> call_blocked [] ''send_mail'' (n :: nat)" for n by (simp add: call_blocked_def)
  ultimately show ?thesis
    using unattended_calls_are_decided[OF ok, where name = "''send_mail''" and request = 5 and ms = "[]"]
      unattended_calls_are_decided[OF ok, where name = "''send_mail''" and request = 2 and ms = "[]"]
    by (auto split: prod.splits)
qed

end
