(* ===== verification/Spec2Isabelle.thy ===== *)
theory Spec2Isabelle
  imports BrokerRegistry JobWorker RunQueue Reconcile GuardAdmin GuardStream Outbound Approvals Files Unattended
begin

text \<open>
  A model of the backend of Moldy (\<open>src/backend/app\<close>): a multi-tenant service on which users build
  agents, share them, talk to them and let them use tools. Modelled is the logic that decides who may
  do what, what is executed how often and what leaves the system; each definition follows the Python
  function of the same or a similar name, branch by branch.

  \<^bold>\<open>The parts and how they meet.\<close>

  \<^item> Streaming. A conversation run publishes its events to a broker (\<open>agent_runtime/event_broker\<close>):
    \<open>Broker\<close> has the ring buffer, listeners and close marks, with every interleaving of publisher and
    subscribers as a step relation; \<open>BrokerRegistry\<close> the table of brokers with its ageing.
  \<^item> Background work. \<open>Jobs\<close> is the queue table of \<open>jobs/service\<close> (claims, leases, heartbeats, retries,
    pauses) with its state machine as specification; \<open>JobWorker\<close> the registry and the worker loop on it.
  \<^item> Conversation runs. \<open>RunState\<close> has the status machine of \<open>services/conversation_run_*\<close>, cancellation
    and recovery; \<open>RunQueue\<close> the queue of inputs that start the next run.
  \<^item> Authorization. \<open>AuthzTuples\<close> projects the sharing rows onto OpenFGA tuples (\<open>authz/tuple_*\<close>,
    \<open>membership_projection\<close>) and says what the model file grants; \<open>TupleOutbox\<close> queues and applies tuple
    changes (\<open>authz/outbox\<close>); \<open>Revocations\<close> has the markers of a revocation that is not yet applied and
    the overlay that refuses meanwhile; \<open>GrantService\<close>, \<open>GrantCompletion\<close> and \<open>Lifecycle\<close> change grants
    and resources; \<open>GrantSafety\<close> and \<open>AuthzHistory\<close> are all of these together as one step relation over
    committed states; \<open>FgaClient\<close> and \<open>Decisions\<close> answer requests; \<open>Reconcile\<close> compares the store with
    the rows and queues repairs.
  \<^item> Guardrails. \<open>GuardRules\<close> (detectors and rules), \<open>GuardActions\<close> (spans and replacements),
    \<open>GuardTemplates\<close> (rules as JSON), \<open>ToolRisk\<close>, \<open>GuardPolicy\<close> (which rules a run gets), \<open>GuardAdmin\<close>
    (editing and publishing them), \<open>GuardModel\<close> (the detection service), \<open>Pseudonyms\<close> (tokens for values
    and back), \<open>Messages\<close> (texts inside chat messages), \<open>Guard\<close> (the hooks around
    model and tool calls, with the detection cache) and \<open>GuardStream\<close> (what streams to the user).
  \<^item> Outbound requests. \<open>Outbound\<close>: host patterns, where a credential may be sent and which addresses
    are dialed (\<open>outbound/*\<close>).
  \<^item> Approvals. \<open>Approvals\<close>: the requests of paused runs, their decisions and their expiry
    (\<open>approvals/*\<close>), with every interleaving of the writers as a step relation; \<open>Unattended\<close>: runs that
    nobody watches.
  \<^item> Files. \<open>Files\<close>: the paths a run's file tools reach (\<open>agent_runtime/filesystem_*\<close>).
  \<^item> Shared: \<open>Prelude\<close> (identifiers, Python's slices, list and map lemmas), \<open>Json\<close> (values and
    encoders), \<open>Clock\<close> (instants as text).

  \<^bold>\<open>How it is modelled.\<close> A table is a list of records in insertion order, a transaction one step that
  returns the new tables, a raised exception a value of a sum or \<open>None\<close>. Instants are integers of
  microseconds, UUIDs strings, user texts lists of code points, other strings byte lists. Where requests
  interleave, the history of committed states is the state of an inductive step relation, and a request
  may act on what it read from any earlier one. Services outside the repository (OpenFGA, the detection
  service, HMAC and hashing, compiled secret patterns, wildcard matching, name resolution) are arguments.

  \<^bold>\<open>What the lemmas show.\<close> Each theory first proves its operations' laws and invariants and then the
  properties, whose text begins with their number: delivery in order and bounded waiting (\<open>Broker\<close>);
  exclusive claims, idempotent enqueueing and the job machine (\<open>Jobs\<close>, \<open>JobWorker\<close>); the run machine and
  fair dispatch (\<open>RunQueue\<close>); that the expected tuples grant exactly what the rows grant, that a revoked
  access is refused in every reachable state and that repairs are exact and respect pending work (the
  authorization theories); that guarded texts are decided, redacted, restored and rebuilt exactly, and
  that the policy cannot be bypassed by configuration (the guardrail theories); that a
  credential stays with its hosts and private addresses are not dialed (\<open>Outbound\<close>); that a request
  is decided once and resumes what was shown (\<open>Approvals\<close>); that file tools stay in the run's own trees (\<open>Files\<close>). Contracts that several
  components share are locales, interpreted on the model: an invariant kept by every operation
  (\<open>invariant_system\<close>), a table of rows with unique keys
  (\<open>row_store\<close>), a writer that feeds a tuple store (\<open>tuple_writer\<close>) and a client that answers correlated
  checks (\<open>authz_client\<close>).

  \<^bold>\<open>Bounds and fuel.\<close> Loops recurse on their input or on a measure; no fuel is used. Numbers from the
  code (64 texts and 1 MiB per request, 47 attempts of the outbox, six
  digits of a token) are written as there.

  \<^bold>\<open>Not modelled.\<close> The agent loop itself and its streaming (LangGraph and deepagents decide what happens),
  memory, marketplace, skills, MCP clients, credential storage, the HTTP routers and their schemas, the
  SQL text of the queries (a query is the filter and order it states), logging, metrics and audit rows,
  the frontend and the scripts. They are lists, files, network calls or screens around the modelled core.
\<close>

end
